(* ===== verification/Tsf_Prelude.thy ===== *)
theory Tsf_Prelude
  imports Main "HOL-Library.Word"
begin

text \<open>
  Shared vocabulary of the development: machine integers, the error codes of
  \<^verbatim>\<open>src/src/error.rs\<close>, the outcome of code that may panic, Rust's \<open>loop\<close>, little-endian
  byte strings, and the generic lemmas the component theories use.
\<close>

unbundle bit_operations_syntax

named_theorems codec_simps \<open>unfolding rules of the byte codecs\<close>

named_theorems anchor_simps \<open>what the anchor operations read and write\<close>

section \<open>Machine integers and results\<close>

type_synonym u8 = "8 word"
type_synonym u32 = "32 word"
type_synonym u64 = "64 word"

text \<open>Wall-clock instants (\<^verbatim>\<open>std::time::Instant\<close>) are only compared, so they are numbers.\<close>

type_synonym time = nat

text \<open>
  Identifiers: those of journals and transactions are the addresses of their anchors, those of
  database objects are chosen by the user.
\<close>

type_synonym transaction_id = u64
type_synonym journal_id = u64
type_synonym object_id = u64

text \<open>A waker is a handle that can be invoked; it is identified by a number.\<close>

type_synonym waker = nat

text \<open>\<^verbatim>\<open>Error\<close>: an \<^verbatim>\<open>io::ErrorKind\<close> is identified by a number.\<close>

datatype error =
    Conflict
  | CorruptDatabase
  | Deadlock
  | Generic string
  | IO nat
  | NotFound
  | OutOfMemory
  | SerializationFailure
  | Timeout
  | UnexpectedState
  | UniquenessViolation
  | WrongParameter

type_synonym 'a result = "error + 'a"

abbreviation Ok :: "'a \<Rightarrow> 'a result" where
  "Ok \<equiv> Inr"

abbreviation Err :: "error \<Rightarrow> 'a result" where
  "Err \<equiv> Inl"

text \<open>
  Code that can hit \<^verbatim>\<open>unreachable!()\<close>, \<^verbatim>\<open>unimplemented!()\<close>, \<^verbatim>\<open>todo!()\<close> or a failed
  \<^verbatim>\<open>unwrap()\<close> returns an outcome; code that may not return at all, an optional one, where
  \<open>None\<close> means that it never does.
\<close>

datatype 'a outcome = Panic | Done 'a

type_synonym 'a run = "'a outcome option"

abbreviation returns :: "'a \<Rightarrow> 'a run" where
  "returns x \<equiv> Some (Done x)"

abbreviation panics :: "'a run" where
  "panics \<equiv> Some Panic"

definition bind_run :: "'a run \<Rightarrow> ('a \<Rightarrow> 'b run) \<Rightarrow> 'b run" where
  "bind_run m f = (case m of None \<Rightarrow> None | Some Panic \<Rightarrow> panics | Some (Done x) \<Rightarrow> f x)"

text \<open>\<^verbatim>\<open>NonZeroU32::new\<close> and \<^verbatim>\<open>NonZeroU64::new\<close>.\<close>

definition nonzero :: "'a::len word \<Rightarrow> 'a word option" where
  "nonzero w = (if w = 0 then None else Some w)"

text \<open>Rust's derived order on \<^verbatim>\<open>Option\<close>: \<^verbatim>\<open>None\<close> is below every \<^verbatim>\<open>Some\<close>.\<close>

fun option_le :: "'a::len word option \<Rightarrow> 'a word option \<Rightarrow> bool" where
  "option_le None _ = True"
| "option_le (Some _) None = False"
| "option_le (Some a) (Some b) = (a \<le> b)"

text \<open>\<^verbatim>\<open>saturating_add(1)\<close>.\<close>

definition saturating_succ :: "'a::len word \<Rightarrow> 'a word" where
  "saturating_succ w = (if w = - 1 then w else w + 1)"

section \<open>Rust's \<open>loop\<close>\<close>

text \<open>
  The body of a \<open>loop\<close> either leaves it with a value or goes round again; \<open>None\<close> is the
  value of a loop that never leaves. A panic of the body ends the loop.
\<close>

datatype 'r flow = Return 'r | Again

partial_function (option) rust_loop :: "('s \<Rightarrow> ('s \<times> 'r flow) run) \<Rightarrow> 's \<Rightarrow> ('s \<times> 'r) run" where
  "rust_loop body s =
     (case body s of
        None \<Rightarrow> None
      | Some Panic \<Rightarrow> Some Panic
      | Some (Done (s', f)) \<Rightarrow>
          (case f of Return r \<Rightarrow> Some (Done (s', r)) | Again \<Rightarrow> rust_loop body s'))"

section \<open>Byte strings\<close>

text \<open>
  \<^verbatim>\<open>to_le_bytes\<close> and \<^verbatim>\<open>from_le_bytes\<close> of a \<open>n\<close>-byte integer. The raw copies of
  \<^verbatim>\<open>read_part\<close> and \<^verbatim>\<open>write_part\<close> produce the same bytes on the little-endian machines the
  library supports.
\<close>

definition to_le_bytes :: "nat \<Rightarrow> 'a::len word \<Rightarrow> u8 list" where
  "to_le_bytes n w = map (\<lambda>i. ucast (drop_bit (8 * i) w)) [0..<n]"

primrec from_le_bytes :: "u8 list \<Rightarrow> 'a::len word" where
  "from_le_bytes [] = 0"
| "from_le_bytes (b # bs) = ucast b OR push_bit 8 (from_le_bytes bs)"

section \<open>Lemmas\<close>

subsection \<open>Non-zero integers and options\<close>

lemma nonzero_Some [simp]: "nonzero w = Some v \<longleftrightarrow> w = v \<and> v \<noteq> 0"
  by (auto simp: nonzero_def)

lemma nonzero_None [simp]: "nonzero w = None \<longleftrightarrow> w = 0"
  by (simp add: nonzero_def)

lemma nonzero_0 [simp]: "nonzero 0 = None"
  by (simp add: nonzero_def)

lemma option_le_refl [simp]: "option_le a a"
  by (cases a) auto

lemma option_le_trans: "option_le a b \<Longrightarrow> option_le b c \<Longrightarrow> option_le a c"
  by (cases a; cases b; cases c) auto

lemma option_le_total: "option_le a b \<or> option_le b a"
  by (cases a; cases b) auto

lemma saturating_succ_nonzero [simp]:
  "saturating_succ (w :: 'a::len word) \<noteq> 0"
proof (cases "w = - 1")
  case True
  then show ?thesis by (simp add: saturating_succ_def)
next
  case False
  then have "w + 1 \<noteq> 0"
    by (metis add.inverse_inverse eq_neg_iff_add_eq_0)
  with False show ?thesis by (simp add: saturating_succ_def)
qed

lemma saturating_succ_unat:
  "unat (saturating_succ (w :: 'a::len word)) = min (Suc (unat w)) (unat (- 1 :: 'a word))"
proof (cases "w = - 1")
  case True
  then show ?thesis by (simp add: saturating_succ_def)
next
  case False
  then have "w < - 1" by (simp add: order_less_le)
  then have lt: "unat w < unat (- 1 :: 'a word)" by (simp add: word_less_nat_alt)
  have "unat (w + 1) = Suc (unat w)"
    using False by (metis add.commute add.inverse_inverse eq_neg_iff_add_eq_0 unatSuc)
  with False lt show ?thesis by (simp add: saturating_succ_def)
qed

subsection \<open>Runs\<close>

lemma bind_run_simps [simp]:
  "bind_run None f = None" "bind_run panics f = panics" "bind_run (returns x) f = f x"
  by (simp_all add: bind_run_def)

lemma bind_run_returns [simp]:
  "bind_run m f = returns y \<longleftrightarrow> (\<exists>x. m = returns x \<and> f x = returns y)"
  by (auto simp: bind_run_def split: option.splits outcome.splits)

lemma bind_run_assoc: "bind_run m (\<lambda>x. bind_run (f x) g) = bind_run (bind_run m f) g"
  by (simp add: bind_run_def split: option.splits outcome.splits)

text \<open>
  An invariant of the body holds where the loop leaves it, and a body that makes the state
  smaller whenever it goes round again leaves the loop.
\<close>

lemma rust_loop_rule:
  assumes ret: "rust_loop body s = returns (s', r)"
    and init: "I s"
    and step: "\<And>s s'. I s \<Longrightarrow> body s = returns (s', Again) \<Longrightarrow> I s'"
    and post: "\<And>s s' r. I s \<Longrightarrow> body s = returns (s', Return r) \<Longrightarrow> Q s' r"
  shows "Q s' r"
proof -
  have "b = body \<longrightarrow> I s \<longrightarrow> (\<forall>s' r. y = Done (s', r) \<longrightarrow> Q s' r)"
    if "rust_loop b s = Some y" for b s y
  proof (rule rust_loop.raw_induct [where P = "\<lambda>b s y. b = body \<longrightarrow> I s \<longrightarrow>
        (\<forall>s' r. y = Done (s', r) \<longrightarrow> Q s' r)", OF _ that])
    fix f :: "('a \<Rightarrow> ('a \<times> 'b flow) run) \<Rightarrow> 'a \<Rightarrow> ('a \<times> 'b) run" and b s y
    assume IH: "\<And>b s y. f b s = Some y \<Longrightarrow>
        b = body \<longrightarrow> I s \<longrightarrow> (\<forall>s' r. y = Done (s', r) \<longrightarrow> Q s' r)"
      and eq: "(case b s of
        None \<Rightarrow> None
      | Some Panic \<Rightarrow> Some Panic
      | Some (Done (s', fl)) \<Rightarrow>
          (case fl of Return r \<Rightarrow> Some (Done (s', r)) | Again \<Rightarrow> f b s')) = Some y"
    show "b = body \<longrightarrow> I s \<longrightarrow> (\<forall>s' r. y = Done (s', r) \<longrightarrow> Q s' r)"
      using eq
      by (auto split: option.splits outcome.splits flow.splits intro: post step
          dest!: IH [THEN mp, THEN mp] elim!: allE)
  qed
  from this [OF ret] init show ?thesis by simp
qed

lemma rust_loop_returns:
  fixes m :: "'s \<Rightarrow> nat"
  assumes init: "I s"
    and step: "\<And>s. I s \<Longrightarrow> \<exists>s' f. body s = returns (s', f) \<and> (f = Again \<longrightarrow> I s' \<and> m s' < m s)"
  shows "\<exists>s' r. rust_loop body s = returns (s', r)"
  using init
proof (induction "m s" arbitrary: s rule: less_induct)
  case less
  from step [OF less.prems] obtain t fl
    where t: "body s = returns (t, fl)" and smaller: "fl = Again \<longrightarrow> I t \<and> m t < m s"
    by blast
  show ?case
  proof (cases fl)
    case (Return r)
    with t show ?thesis by (simp add: rust_loop.simps)
  next
    case Again
    with smaller have "I t" and "m t < m s" by auto
    from less.hyps [OF this(2,1)] t Again show ?thesis by (simp add: rust_loop.simps)
  qed
qed

lemma rust_loop_diverges:
  assumes init: "I s"
    and again: "\<And>s. I s \<Longrightarrow> \<exists>s'. body s = returns (s', Again) \<and> I s'"
  shows "rust_loop body s = None"
proof (rule ccontr)
  assume "rust_loop body s \<noteq> None"
  then obtain y where y: "rust_loop body s = Some y" by blast
  have "b = body \<longrightarrow> \<not> I s" if "rust_loop b s = Some y" for b s y
  proof (rule rust_loop.raw_induct [where P = "\<lambda>b s y. b = body \<longrightarrow> \<not> I s", OF _ that])
    fix f :: "('a \<Rightarrow> ('a \<times> 'b flow) run) \<Rightarrow> 'a \<Rightarrow> ('a \<times> 'b) run" and b s y
    assume IH: "\<And>b s y. f b s = Some y \<Longrightarrow> b = body \<longrightarrow> \<not> I s"
      and eq: "(case b s of
        None \<Rightarrow> None
      | Some Panic \<Rightarrow> Some Panic
      | Some (Done (s', fl)) \<Rightarrow>
          (case fl of Return r \<Rightarrow> Some (Done (s', r)) | Again \<Rightarrow> f b s')) = Some y"
    show "b = body \<longrightarrow> \<not> I s"
      using eq again [of s] IH by fastforce
  qed
  from this [OF y] init show False by simp
qed

subsection \<open>Byte strings\<close>

lemma length_to_le_bytes [simp]: "length (to_le_bytes n w) = n"
  by (simp add: to_le_bytes_def)

lemma to_le_bytes_0: "to_le_bytes n (0 :: 'a::len word) = replicate n 0"
  by (simp add: to_le_bytes_def map_replicate_const)

lemma bit_from_le_bytes:
  "bit (from_le_bytes bs :: 'a::len word) k \<longleftrightarrow>
     k < LENGTH('a) \<and> k div 8 < length bs \<and> bit (bs ! (k div 8)) (k mod 8)"
proof (induction bs arbitrary: k)
  case Nil
  then show ?case by simp
next
  case (Cons b bs)
  show ?case
  proof (cases "k < 8")
    case True
    then show ?thesis by (auto simp: bit_simps Cons.IH)
  next
    case False
    then obtain j where j: "k = j + 8" by (metis add.commute le_Suc_ex not_less)
    have "\<not> bit b k" using False by (simp add: bit_word.rep_eq impossible_bit j)
    moreover have "k div 8 = Suc (j div 8)" and "k mod 8 = j mod 8" by (simp_all add: j)
    ultimately show ?thesis
      by (auto simp: bit_simps Cons.IH j)
  qed
qed

lemma from_to_le_bytes [simp]:
  assumes "LENGTH('a) = 8 * n"
  shows "from_le_bytes (to_le_bytes n w) = (w :: 'a::len word)"
proof (rule bit_word_eqI)
  fix k assume k: "k < LENGTH('a)"
  with assms have d: "k div 8 < n" by auto
  have m: "k mod 8 < 8" by simp
  show "bit (from_le_bytes (to_le_bytes n w) :: 'a word) k = bit w k"
    using k d m by (simp add: bit_from_le_bytes to_le_bytes_def bit_simps mult.commute)
qed

lemma to_from_le_bytes [simp]:
  assumes "LENGTH('a) = 8 * n" and "length bs = n"
  shows "to_le_bytes n (from_le_bytes bs :: 'a::len word) = bs"
proof (rule nth_equalityI)
  show "length (to_le_bytes n (from_le_bytes bs :: 'a word)) = length bs"
    using assms by simp
next
  fix i assume "i < length (to_le_bytes n (from_le_bytes bs :: 'a word))"
  then have i: "i < n" by simp
  show "to_le_bytes n (from_le_bytes bs :: 'a word) ! i = bs ! i"
  proof (rule bit_word_eqI)
    fix k assume "k < LENGTH(8)"
    then have k: "k < 8" by simp
    have "8 * i + k < 8 * n" using i k by simp
    then show "bit (to_le_bytes n (from_le_bytes bs :: 'a word) ! i) k = bit (bs ! i) k"
      using i k assms by (simp add: to_le_bytes_def bit_simps bit_from_le_bytes)
  qed
qed

end
