(* ===== verification/Log_Record.thy ===== *)
theory Log_Record
  imports Tsf_Prelude
begin

text \<open>
  The log record codec of \<^verbatim>\<open>src/src/persistence_layer/file_io/log_record.rs\<close>: the record
  type, \<^verbatim>\<open>LogRecord::write\<close>, \<^verbatim>\<open>LogRecord::from_raw_data\<close> and the raw copies they use, for
  the \<open>u64\<close> instants the file persistence layer is restricted to.
\<close>

section \<open>Definitions\<close>

datatype log_record =
    EndOfLog
  | BufferSubmitted u32
  | BufferDiscarded
  | JournalCreatedObjectSingle transaction_id journal_id object_id
  | JournalCreatedObjectRange transaction_id journal_id object_id u32 u32
  | JournalDeletedObjectSingle transaction_id journal_id object_id
  | JournalDeletedObjectRange transaction_id journal_id object_id u32 u32
  | JournalSubmitted transaction_id journal_id u32
  | JournalDiscarded transaction_id journal_id
  | TransactionPrepared transaction_id u64
  | TransactionCommitted transaction_id u64
  | TransactionRolledBack transaction_id u32

abbreviation OPCODE_MASK :: u64 where "OPCODE_MASK \<equiv> 7"
abbreviation EXTENDED_OPCODE_MASK :: u64 where "EXTENDED_OPCODE_MASK \<equiv> 248"
abbreviation BUFFER_SUBITTED :: u64 where "BUFFER_SUBITTED \<equiv> 8"
abbreviation BUFFER_DISCARDED :: u64 where "BUFFER_DISCARDED \<equiv> 16"
abbreviation JOURNAL_CREATED_SINGLE :: u64 where "JOURNAL_CREATED_SINGLE \<equiv> 0"
abbreviation JOURNAL_CREATED_RANGE :: u64 where "JOURNAL_CREATED_RANGE \<equiv> 1"
abbreviation JOURNAL_DELETED_SINGLE :: u64 where "JOURNAL_DELETED_SINGLE \<equiv> 2"
abbreviation JOURNAL_DELETED_RANGE :: u64 where "JOURNAL_DELETED_RANGE \<equiv> 3"
abbreviation JOURNAL_SUBMITTED :: u64 where "JOURNAL_SUBMITTED \<equiv> 4"
abbreviation JOURNAL_DISCARDED :: u64 where "JOURNAL_DISCARDED \<equiv> 5"
abbreviation TRANSACTION_UPDATED :: u64 where "TRANSACTION_UPDATED \<equiv> 4"
abbreviation TRANSACTION_PREPARED :: u64 where "TRANSACTION_PREPARED \<equiv> 5"
abbreviation TRANSACTION_COMMITTED :: u64 where "TRANSACTION_COMMITTED \<equiv> 6"
abbreviation TRANSACTION_ROLLED_BACK :: u64 where "TRANSACTION_ROLLED_BACK \<equiv> 7"

text \<open>\<^verbatim>\<open>size_of::<T>()\<close> of an integer type.\<close>

definition size_of :: "'a::len itself \<Rightarrow> nat" where
  "size_of _ = LENGTH('a) div 8"

definition read_part :: "u8 list \<Rightarrow> ('a::len word \<times> u8 list) option" where
  "read_part v =
     (if length v < size_of TYPE('a) then None
      else Some (from_le_bytes (take (size_of TYPE('a)) v), drop (size_of TYPE('a)) v))"

text \<open>The \<open>?\<close> after a \<^verbatim>\<open>read_part\<close>: too few bytes end the parse with \<^verbatim>\<open>None\<close>.\<close>

definition read_or_return ::
  "u8 list \<Rightarrow> ('a::len word \<Rightarrow> u8 list \<Rightarrow> 'b option outcome) \<Rightarrow> 'b option outcome" where
  "read_or_return v k = (case read_part v of None \<Rightarrow> Done None | Some (x, rest) \<Rightarrow> k x rest)"

definition journal_record ::
  "transaction_id \<Rightarrow> u8 list \<Rightarrow> (log_record \<times> u8 list) option outcome" where
  "journal_record transaction_id value =
     read_or_return value (\<lambda>(journal_id_with_opcode :: u64) value.
       let journal_id = journal_id_with_opcode AND NOT OPCODE_MASK;
           opcode = journal_id_with_opcode AND OPCODE_MASK
       in if opcode = JOURNAL_CREATED_SINGLE then
            read_or_return value (\<lambda>(object_id :: u64) value.
              Done (Some (JournalCreatedObjectSingle transaction_id journal_id object_id, value)))
          else if opcode = JOURNAL_CREATED_RANGE then
            read_or_return value (\<lambda>(object_id :: u64) value.
            read_or_return value (\<lambda>(interval :: u32) value.
            read_or_return value (\<lambda>(num_objects :: u32) value.
              Done (Some (JournalCreatedObjectRange transaction_id journal_id object_id
                            interval num_objects, value)))))
          else if opcode = JOURNAL_DELETED_SINGLE then
            read_or_return value (\<lambda>(object_id :: u64) value.
              Done (Some (JournalDeletedObjectSingle transaction_id journal_id object_id, value)))
          else if opcode = JOURNAL_DELETED_RANGE then
            read_or_return value (\<lambda>(object_id :: u64) value.
            read_or_return value (\<lambda>(interval :: u32) value.
            read_or_return value (\<lambda>(num_objects :: u32) value.
              Done (Some (JournalDeletedObjectRange transaction_id journal_id object_id
                            interval num_objects, value)))))
          else if opcode = JOURNAL_SUBMITTED then
            read_or_return value (\<lambda>(transaction_instant :: u32) value.
              Done (Some (JournalSubmitted transaction_id journal_id transaction_instant, value)))
          else if opcode = JOURNAL_DISCARDED then
            Done (Some (JournalDiscarded transaction_id journal_id, value))
          else Panic)"

definition from_raw_data :: "u8 list \<Rightarrow> (log_record \<times> u8 list) option outcome" where
  "from_raw_data value =
     read_or_return value (\<lambda>(transaction_id_with_opcode :: u64) value.
       if transaction_id_with_opcode = 0 then Done (Some (EndOfLog, value))
       else
         let transaction_opcode = transaction_id_with_opcode AND OPCODE_MASK
         in if transaction_opcode = 0 then
              let extended_opcode = transaction_id_with_opcode AND EXTENDED_OPCODE_MASK
              in if extended_opcode = BUFFER_SUBITTED then
                   Done (Some (BufferSubmitted (ucast (drop_bit 32 transaction_id_with_opcode)),
                               value))
                 else if extended_opcode = BUFFER_DISCARDED then
                   Done (Some (BufferDiscarded, value))
                 else Panic
            else
              let transaction_id = transaction_id_with_opcode AND NOT OPCODE_MASK
              in if transaction_opcode = TRANSACTION_UPDATED then
                   journal_record transaction_id value
                 else if transaction_opcode = TRANSACTION_PREPARED then
                   read_or_return value (\<lambda>(instant :: u64) value.
                     Done (Some (TransactionPrepared transaction_id instant, value)))
                 else if transaction_opcode = TRANSACTION_COMMITTED then
                   read_or_return value (\<lambda>(instant :: u64) value.
                     Done (Some (TransactionCommitted transaction_id instant, value)))
                 else if transaction_opcode = TRANSACTION_ROLLED_BACK then
                   read_or_return value (\<lambda>(to :: u32) value.
                     Done (Some (TransactionRolledBack transaction_id to, value)))
                 else Panic)"

text \<open>
  \<^verbatim>\<open>write_part\<close> fills the front of the buffer. A cursor is the part written so far, the part
  left and whether every write so far fitted: after the first one that did not fit, the \<open>?\<close>
  leaves the buffer as it is.
\<close>

type_synonym cursor = "u8 list \<times> u8 list \<times> bool"

fun write_part :: "'a::len word \<Rightarrow> cursor \<Rightarrow> cursor" where
  "write_part value (written, buffer, False) = (written, buffer, False)"
| "write_part value (written, buffer, True) =
     (if length buffer < size_of TYPE('a) then (written, buffer, False)
      else (written @ to_le_bytes (size_of TYPE('a)) value, drop (size_of TYPE('a)) buffer, True))"

fun write_parts :: "log_record \<Rightarrow> cursor \<Rightarrow> cursor" where
  "write_parts EndOfLog c = write_part (0 :: u64) c"
| "write_parts (BufferSubmitted transaction_instant) c =
     write_part (push_bit 32 (ucast transaction_instant :: u64) OR BUFFER_SUBITTED) c"
| "write_parts BufferDiscarded c = write_part BUFFER_DISCARDED c"
| "write_parts (JournalCreatedObjectSingle transaction_id journal_id object_id) c =
     write_part object_id
       (write_part (journal_id OR JOURNAL_CREATED_SINGLE)
         (write_part (transaction_id OR TRANSACTION_UPDATED) c))"
| "write_parts (JournalCreatedObjectRange transaction_id journal_id object_id interval num_objects) c =
     write_part num_objects
       (write_part interval
         (write_part object_id
           (write_part (journal_id OR JOURNAL_CREATED_RANGE)
             (write_part (transaction_id OR TRANSACTION_UPDATED) c))))"
| "write_parts (JournalDeletedObjectSingle transaction_id journal_id object_id) c =
     write_part object_id
       (write_part (journal_id OR JOURNAL_DELETED_SINGLE)
         (write_part (transaction_id OR TRANSACTION_UPDATED) c))"
| "write_parts (JournalDeletedObjectRange transaction_id journal_id object_id interval num_objects) c =
     write_part num_objects
       (write_part interval
         (write_part object_id
           (write_part (journal_id OR JOURNAL_DELETED_RANGE)
             (write_part (transaction_id OR TRANSACTION_UPDATED) c))))"
| "write_parts (JournalSubmitted transaction_id journal_id transaction_instant) c =
     write_part transaction_instant
       (write_part (journal_id OR JOURNAL_SUBMITTED)
         (write_part (transaction_id OR TRANSACTION_UPDATED) c))"
| "write_parts (JournalDiscarded transaction_id journal_id) c =
     write_part (journal_id OR JOURNAL_DISCARDED)
       (write_part (transaction_id OR TRANSACTION_UPDATED) c)"
| "write_parts (TransactionPrepared transaction_id instant) c =
     write_part instant (write_part (transaction_id OR TRANSACTION_PREPARED) c)"
| "write_parts (TransactionCommitted transaction_id instant) c =
     write_part instant (write_part (transaction_id OR TRANSACTION_COMMITTED) c)"
| "write_parts (TransactionRolledBack transaction_id to) c =
     write_part to (write_part (transaction_id OR TRANSACTION_ROLLED_BACK) c)"

text \<open>The buffer after the call and the number of bytes written, if the record fitted.\<close>

definition write_record :: "log_record \<Rightarrow> u8 list \<Rightarrow> u8 list \<times> nat option" where
  "write_record r buffer =
     (case write_parts r ([], buffer, True) of
        (written, rest, ok) \<Rightarrow> (written @ rest, if ok then Some (length buffer - length rest) else None))"

text \<open>
  What the \<^verbatim>\<open>debug_assert\<close>s of \<^verbatim>\<open>write\<close> ask for: identifiers are addresses whose lower three
  bits are zero.
\<close>

fun valid_record :: "log_record \<Rightarrow> bool" where
  "valid_record (JournalCreatedObjectSingle t j _) = (t AND OPCODE_MASK = 0 \<and> j AND OPCODE_MASK = 0)"
| "valid_record (JournalCreatedObjectRange t j _ _ _) = (t AND OPCODE_MASK = 0 \<and> j AND OPCODE_MASK = 0)"
| "valid_record (JournalDeletedObjectSingle t j _) = (t AND OPCODE_MASK = 0 \<and> j AND OPCODE_MASK = 0)"
| "valid_record (JournalDeletedObjectRange t j _ _ _) = (t AND OPCODE_MASK = 0 \<and> j AND OPCODE_MASK = 0)"
| "valid_record (JournalSubmitted t j _) = (t AND OPCODE_MASK = 0 \<and> j AND OPCODE_MASK = 0)"
| "valid_record (JournalDiscarded t j) = (t AND OPCODE_MASK = 0 \<and> j AND OPCODE_MASK = 0)"
| "valid_record (TransactionPrepared t _) = (t AND OPCODE_MASK = 0)"
| "valid_record (TransactionCommitted t _) = (t AND OPCODE_MASK = 0)"
| "valid_record (TransactionRolledBack t _) = (t AND OPCODE_MASK = 0)"
| "valid_record _ = True"

primrec log_record_eq :: "log_record \<Rightarrow> log_record \<Rightarrow> bool" where
  "log_record_eq EndOfLog other =
     (case other of EndOfLog \<Rightarrow> True | _ \<Rightarrow> False)"
| "log_record_eq BufferDiscarded other =
     (case other of BufferDiscarded \<Rightarrow> True | _ \<Rightarrow> False)"
| "log_record_eq (BufferSubmitted l0) other =
     (case other of BufferSubmitted r0 \<Rightarrow> l0 = r0 | _ \<Rightarrow> False)"
| "log_record_eq (JournalCreatedObjectSingle l0 l1 l2) other =
     (case other of JournalCreatedObjectSingle r0 r1 r2 \<Rightarrow> l0 = r0 \<and> l1 = r1 \<and> l2 = r2 | _ \<Rightarrow> False)"
| "log_record_eq (JournalDeletedObjectSingle l0 l1 l2) other =
     (case other of JournalDeletedObjectSingle r0 r1 r2 \<Rightarrow> l0 = r0 \<and> l1 = r1 \<and> l2 = r2 | _ \<Rightarrow> False)"
| "log_record_eq (JournalCreatedObjectRange l0 l1 l2 l3 l4) other =
     (case other of JournalCreatedObjectRange r0 r1 r2 r3 r4 \<Rightarrow> l0 = r0 \<and> l1 = r1 \<and> l2 = r2 \<and> l3 = r3 \<and> l4 = r4 | _ \<Rightarrow> False)"
| "log_record_eq (JournalDeletedObjectRange l0 l1 l2 l3 l4) other =
     (case other of JournalDeletedObjectRange r0 r1 r2 r3 r4 \<Rightarrow> l0 = r0 \<and> l1 = r1 \<and> l2 = r2 \<and> l3 = r3 \<and> l4 = r4 | _ \<Rightarrow> False)"
| "log_record_eq (JournalSubmitted l0 l1 l2) other =
     (case other of JournalSubmitted r0 r1 r2 \<Rightarrow> l0 = r0 \<and> l1 = r1 \<and> l2 = r2 | _ \<Rightarrow> False)"
| "log_record_eq (JournalDiscarded l0 l1) other =
     (case other of JournalDiscarded r0 r1 \<Rightarrow> l0 = r0 \<and> l1 = r1 | _ \<Rightarrow> False)"
| "log_record_eq (TransactionPrepared l0 l1) other =
     (case other of TransactionPrepared r0 r1 \<Rightarrow> l0 = r0 \<and> l1 = r1 | _ \<Rightarrow> False)"
| "log_record_eq (TransactionCommitted l0 l1) other =
     (case other of TransactionCommitted r0 r1 \<Rightarrow> l0 = r0 \<and> l1 = r1 | _ \<Rightarrow> False)"
| "log_record_eq (TransactionRolledBack l0 l1) other =
     (case other of TransactionRolledBack r0 r1 \<Rightarrow> l0 = r0 \<and> l1 = r1 | _ \<Rightarrow> False)"

text \<open>The encoding as a byte string, and its size: the reference for \<^verbatim>\<open>write\<close>.\<close>

definition encode :: "log_record \<Rightarrow> u8 list" where
  "encode r = fst (write_parts r ([], replicate 32 0, True))"

fun record_size :: "log_record \<Rightarrow> nat" where
  "record_size EndOfLog = 8"
| "record_size (BufferSubmitted _) = 8"
| "record_size BufferDiscarded = 8"
| "record_size (JournalCreatedObjectSingle _ _ _) = 24"
| "record_size (JournalCreatedObjectRange _ _ _ _ _) = 32"
| "record_size (JournalDeletedObjectSingle _ _ _) = 24"
| "record_size (JournalDeletedObjectRange _ _ _ _ _) = 32"
| "record_size (JournalSubmitted _ _ _) = 20"
| "record_size (JournalDiscarded _ _) = 16"
| "record_size (TransactionPrepared _ _) = 16"
| "record_size (TransactionCommitted _ _) = 16"
| "record_size (TransactionRolledBack _ _) = 12"

section \<open>Lemmas\<close>

subsection \<open>Opcodes\<close>

lemma opcode_of_tagged:
  fixes t c :: u64
  assumes "t AND 7 = 0" and "c AND 7 = c"
  shows "(t OR c) AND 7 = c" and "(t OR c) AND NOT 7 = t"
proof -
  show "(t OR c) AND 7 = c"
    using assms by (simp add: bit.conj_disj_distrib2)
  have "t = (t AND 7) OR (t AND NOT 7)"
    by (simp add: bit.conj_disj_distrib [symmetric])
  then have t: "t AND NOT 7 = t" using assms(1) by simp
  have "c AND NOT 7 = (c AND 7) AND NOT 7" using assms(2) by simp
  then have "c AND NOT 7 = 0" by (simp add: and.assoc)
  then show "(t OR c) AND NOT 7 = t" using t by (simp add: bit.conj_disj_distrib2)
qed

lemma bit_mask_words:
  "bit (7 :: int) k \<longleftrightarrow> k < 3" "bit (8 :: int) k \<longleftrightarrow> k = 3"
  "bit (248 :: int) k \<longleftrightarrow> 3 \<le> k \<and> k < 8"
proof -
  have eqs: "(7 :: int) = mask 3" "(8 :: int) = 2 ^ 3" "(248 :: int) = push_bit 3 (mask 5)"
    by (simp_all add: mask_eq_exp_minus_1 push_bit_eq_mult)
  show "bit (7 :: int) k \<longleftrightarrow> k < 3"
    by (simp only: eqs) (auto simp: bit_simps)
  show "bit (8 :: int) k \<longleftrightarrow> k = 3"
    by (simp only: eqs bit_exp_iff) auto
  show "bit (248 :: int) k \<longleftrightarrow> 3 \<le> k \<and> k < 8"
    by (simp only: eqs) (auto simp: bit_simps)
qed

lemma submitted_word:
  fixes i :: u32
  shows "push_bit 32 (ucast i :: u64) OR 8 \<noteq> 0"
    and "(push_bit 32 (ucast i :: u64) OR 8) AND 7 = 0"
    and "(push_bit 32 (ucast i :: u64) OR 8) AND 248 = 8"
    and "ucast (drop_bit 32 (push_bit 32 (ucast i :: u64) OR 8)) = i"
proof -
  let ?w = "push_bit 32 (ucast i :: u64) OR 8"
  have b: "bit ?w k \<longleftrightarrow> (32 \<le> k \<and> k < 64 \<and> bit i (k - 32)) \<or> k = 3" for k
    using bit_imp_le_length [of i "k - 32"] by (auto simp: bit_or_iff bit_push_bit_iff bit_ucast_iff bit_mask_words)
  have "bit ?w 3" by (simp add: b)
  then show "?w \<noteq> 0" by (metis bit_0_eq bot_apply bot_bool_def)
  show "?w AND 7 = 0" "?w AND 248 = 8"
    by (rule bit_word_eqI; auto simp: b bit_and_iff bit_mask_words)+
  show "ucast (drop_bit 32 ?w) = i"
    by (rule bit_word_eqI) (auto simp: bit_simps bit_mask_words)
qed

lemma submit_instant_word: "ucast (drop_bit 32 (push_bit 32 (ucast (i :: u32) :: u64))) = i"
  by (rule bit_word_eqI) (auto simp: bit_simps)

lemma untagged: "(t :: u64) AND 7 = 0 \<Longrightarrow> t AND - 8 = t"
  using opcode_of_tagged(2) [of t 0] by simp

lemma tagged_nonzero:
  fixes t c :: u64
  assumes "c \<noteq> 0"
  shows "t OR c \<noteq> 0"
  using assms by (metis or_eq_0_iff)

subsection \<open>Parts\<close>

lemma size_of_simps [simp]:
  "size_of TYPE(64) = 8" "size_of TYPE(32) = 4" "size_of TYPE(8) = 1"
  by (simp_all add: size_of_def)

lemma read_or_return_u64 [codec_simps]:
  "read_or_return (to_le_bytes 8 (w :: u64) @ xs) k = k w xs"
  by (simp add: read_or_return_def read_part_def)

lemma read_or_return_u32 [codec_simps]:
  "read_or_return (to_le_bytes 4 (w :: u32) @ xs) k = k w xs"
  by (simp add: read_or_return_def read_part_def)

lemma read_or_return_enough:
  assumes "size_of TYPE('a::len) \<le> length v"
  shows "read_or_return v k =
    k (from_le_bytes (take (size_of TYPE('a)) v) :: 'a word) (drop (size_of TYPE('a)) v)"
  using assms by (simp add: read_or_return_def read_part_def)

lemma write_part_fits:
  "size_of TYPE('a) \<le> length buffer \<Longrightarrow>
   write_part (v :: 'a::len word) (written, buffer, True) =
     (written @ to_le_bytes (size_of TYPE('a)) v, drop (size_of TYPE('a)) buffer, True)"
  by simp

lemma write_part_ok:
  "snd (snd (write_part (v :: 'a::len word) (written, buffer, ok))) \<longleftrightarrow>
     ok \<and> size_of TYPE('a) \<le> length buffer"
  by (cases ok) auto

subsection \<open>Records\<close>

lemma log_record_eq_iff: "log_record_eq l r \<longleftrightarrow> l = r"
  by (cases l) (auto split: log_record.splits)

lemma record_size_le: "record_size r \<le> 32" and record_size_pos: "8 \<le> record_size r"
  and record_size_mult: "4 dvd record_size r"
  by (cases r; simp)+

lemma write_parts_fits:
  "record_size r \<le> length buffer \<Longrightarrow>
   write_parts r (written, buffer, True) = (written @ encode r, drop (record_size r) buffer, True)"
  by (cases r) (auto simp: encode_def)

lemma length_encode [simp]: "length (encode r) = record_size r"
  by (cases r) (simp_all add: encode_def)

lemma write_parts_short:
  "length buffer < record_size r \<Longrightarrow> \<not> snd (snd (write_parts r (written, buffer, True)))"
  by (cases r) (auto simp: write_part_ok split: if_splits)

lemma write_parts_length:
  "length (fst (write_parts r (written, buffer, True)) @ fst (snd (write_parts r (written, buffer, True))))
     = length written + length buffer"
  by (cases r) auto

lemma write_record_fits:
  "record_size r \<le> length buffer \<Longrightarrow>
   write_record r buffer = (encode r @ drop (record_size r) buffer, Some (record_size r))"
  by (simp add: write_record_def write_parts_fits)

lemma write_record_short:
  "length buffer < record_size r \<Longrightarrow> snd (write_record r buffer) = None"
  using write_parts_short [of buffer r "[]"]
  by (auto simp: write_record_def split: prod.splits)

lemma length_write_record: "length (fst (write_record r buffer)) = length buffer"
  using write_parts_length [of r "[]" buffer] by (auto simp: write_record_def split: prod.splits)

lemma from_raw_data_encode:
  assumes "valid_record r"
  shows "from_raw_data (encode r @ xs) = Done (Some (r, xs))"
  using assms opcode_of_tagged
  by (cases r) (auto simp: encode_def from_raw_data_def journal_record_def Let_def codec_simps
      submitted_word submit_instant_word tagged_nonzero untagged)

subsection \<open>Parsing\<close>

text \<open>Every successful parse consumes exactly the bytes of the record it returns.\<close>

lemma read_or_return_Some:
  assumes "read_or_return v k = Done (Some y)"
  obtains "size_of TYPE('a::len) \<le> length v"
    and "k (from_le_bytes (take (size_of TYPE('a)) v) :: 'a word) (drop (size_of TYPE('a)) v)
       = Done (Some y)"
  using assms by (auto simp: read_or_return_def read_part_def split: if_splits)

lemma journal_record_consumes:
  assumes "journal_record t v = Done (Some (r, rest))" and "t AND 7 = 0"
  shows "valid_record r \<and> 8 + length v = record_size r + length rest \<and>
         rest = drop (record_size r - 8) v"
proof -
  have low: "(w AND - 8) AND 7 = (0 :: u64)" for w by (simp add: and.assoc)
  show ?thesis
    using assms
    by (auto simp: journal_record_def Let_def low split: if_splits elim!: read_or_return_Some)
qed

lemma from_raw_data_consumes:
  assumes "from_raw_data v = Done (Some (r, rest))"
  shows "valid_record r \<and> length v = record_size r + length rest \<and> rest = drop (record_size r) v"
proof -
  have low: "(w AND - 8) AND 7 = (0 :: u64)" for w by (simp add: and.assoc)
  show ?thesis
    using assms
    by (auto simp: from_raw_data_def Let_def low split: if_splits elim!: read_or_return_Some
        dest!: journal_record_consumes)
qed

lemma from_raw_data_enough: "32 \<le> length v \<Longrightarrow> from_raw_data v \<noteq> Done None"
  by (simp add: from_raw_data_def journal_record_def Let_def read_or_return_enough)

section \<open>Properties\<close>

text \<open>
  C13: A record that satisfies the assertions of \<^verbatim>\<open>write\<close> and fits the buffer is written, and
  \<^verbatim>\<open>from_raw_data\<close> reads the same record back from the buffer, together with exactly the bytes
  that follow it.
\<close>

theorem log_record_roundtrip:
  assumes "valid_record r" and "record_size r \<le> length buffer"
  shows "\<exists>buffer'. write_record r buffer = (buffer', Some (record_size r)) \<and>
    from_raw_data buffer' = Done (Some (r, drop (record_size r) buffer))"
  using assms by (simp add: write_record_fits from_raw_data_encode)

theorem log_record_roundtrip_witness:
  "\<exists>buffer'. write_record (JournalSubmitted 16 24 5) (replicate 32 0) = (buffer', Some 20) \<and>
    from_raw_data buffer' = Done (Some (JournalSubmitted 16 24 5, replicate 12 0))"
  using log_record_roundtrip [of "JournalSubmitted 16 24 5" "replicate 32 0"] by simp

text \<open>
  C36: \<^verbatim>\<open>write\<close> reports failure exactly when the buffer is shorter than the record, never changes
  the length of the buffer, and 32 bytes are enough for every record.
\<close>

theorem write_record_bounds:
  "(snd (write_record r buffer) = None \<longleftrightarrow> length buffer < record_size r) \<and>
   length (fst (write_record r buffer)) = length buffer \<and> record_size r \<le> 32"
  by (metis length_write_record linorder_not_less option.distinct(1) record_size_le snd_conv
      write_record_fits write_record_short)



end
