(* ===== verification/Sequencer.thy ===== *)
theory Sequencer
  imports Tsf_Prelude "HOL-Library.Multiset"
begin

text \<open>
  The logical clock: the \<^verbatim>\<open>Sequencer\<close> trait (\<^verbatim>\<open>src/src/sequencer.rs\<close>) as the interface
  \<open>logical_clock\<close>, and its default implementation \<^verbatim>\<open>MonotonicU64\<close>
  (\<^verbatim>\<open>src/src/sequencer/monotonic_u64.rs\<close>) with its sharded, reference-counted queues of
  tracked instants. The lock-free queue of the \<^verbatim>\<open>scc\<close> crate is a parameter.
\<close>

section \<open>Definitions\<close>

subsection \<open>The queue of the \<open>scc\<close> crate\<close>

text \<open>
  The operations of \<^verbatim>\<open>scc::Queue\<close> the sequencer calls: \<^verbatim>\<open>push_if\<close> asks a closure about the
  newest entry and hands back what the closure recorded, \<^verbatim>\<open>pop_if\<close> removes the oldest entry if
  it satisfies a condition, \<^verbatim>\<open>peek_with\<close> looks at the oldest entry. \<open>q_list\<close> names the content,
  oldest first, for the laws; no definition computes with it.
\<close>

record ('q, 'e, 'r) scc_queue =
  q_empty :: "'q"
  q_push_if :: "'e \<Rightarrow> ('e option \<Rightarrow> bool \<times> 'r) \<Rightarrow> 'q \<Rightarrow> 'q \<times> bool \<times> 'r"
  q_pop_if :: "('e \<Rightarrow> bool) \<Rightarrow> 'q \<Rightarrow> 'q \<times> 'e option"
  q_peek :: "'q \<Rightarrow> 'e option"
  q_list :: "'q \<Rightarrow> 'e list"

definition newest :: "'e list \<Rightarrow> 'e option" where
  "newest es = (if es = [] then None else Some (last es))"

definition oldest :: "'e list \<Rightarrow> 'e option" where
  "oldest es = (case es of [] \<Rightarrow> None | e # _ \<Rightarrow> Some e)"

text \<open>The documented behaviour of the queue.\<close>

definition scc_queue_laws :: "('q, 'e, 'r) scc_queue \<Rightarrow> bool" where
  "scc_queue_laws Q \<longleftrightarrow>
     q_list Q (q_empty Q) = [] \<and>
     (\<forall>e c q. (case q_push_if Q e c q of (q', pushed, r) \<Rightarrow>
        (pushed, r) = c (newest (q_list Q q)) \<and>
        q_list Q q' = (if pushed then q_list Q q @ [e] else q_list Q q))) \<and>
     (\<forall>c q. (case q_pop_if Q c q of (q', popped) \<Rightarrow>
        popped = (case oldest (q_list Q q) of
                    None \<Rightarrow> None | Some e \<Rightarrow> if c e then Some e else None) \<and>
        q_list Q q' = (if popped = None then q_list Q q else tl (q_list Q q)))) \<and>
     (\<forall>q. q_peek Q q = oldest (q_list Q q))"

subsection \<open>State\<close>

text \<open>
  An entry is a heap object: its address, its instant (immutable) and its reference counter,
  which lives in the store \<open>ref_cnt\<close> indexed by address. A tracker is a reference to an entry.
\<close>

record entry =
  e_addr :: nat
  e_instant :: u64

type_synonym tracker = entry

record 'q monotonic_u64 =
  clock :: u64
  sharded_entry_list :: "'q list"
  ref_cnt :: "nat \<Rightarrow> u64"
  next_addr :: nat

type_synonym 'q entry_queue = "('q, entry, entry option) scc_queue"

text \<open>\<^verbatim>\<open>MonotonicU64::default\<close>, with the number of shards \<^verbatim>\<open>advise_num_shards()\<close> returned.\<close>

definition default_sequencer :: "'q entry_queue \<Rightarrow> nat \<Rightarrow> 'q monotonic_u64" where
  "default_sequencer Q num_shards =
     \<lparr>clock = 1, sharded_entry_list = replicate num_shards (q_empty Q),
      ref_cnt = (\<lambda>_. 0), next_addr = 0\<rparr>"

subsection \<open>Operations\<close>

definition seq_now :: "'q monotonic_u64 \<Rightarrow> u64" where
  "seq_now s = clock s"

definition seq_advance :: "'q monotonic_u64 \<Rightarrow> 'q monotonic_u64 \<times> u64" where
  "seq_advance s = (s\<lparr>clock := clock s + 1\<rparr>, clock s + 1)"

text \<open>
  \<^verbatim>\<open>update\<close> reads the clock once and then tries to exchange it. \<open>seen n\<close> is the value the
  clock has at the \<open>n\<close>-th attempt: other threads may change it between the attempts.
\<close>

definition update_body ::
  "(nat \<Rightarrow> u64) \<Rightarrow> u64 \<Rightarrow> u64 \<Rightarrow> nat \<Rightarrow> (nat \<times> (u64 + u64) flow) run" where
  "update_body seen current new_value n =
     (if new_value \<le> current then returns (n, Return (Inl current))
      else if seen n = current then returns (n, Return (Inr new_value))
      else returns (Suc n, Again))"

definition update_loop :: "(nat \<Rightarrow> u64) \<Rightarrow> u64 \<Rightarrow> u64 \<Rightarrow> (nat \<times> (u64 + u64)) run" where
  "update_loop seen current new_value = rust_loop (update_body seen current new_value) 0"

text \<open>An \<^verbatim>\<open>update\<close> no other thread interferes with.\<close>

definition seq_update ::
  "'q monotonic_u64 \<Rightarrow> u64 \<Rightarrow> ('q monotonic_u64 \<times> (u64 + u64)) option" where
  "seq_update s new_value =
     (case update_loop (\<lambda>_. clock s) (clock s) new_value of
        Some (Done (_, Inl current)) \<Rightarrow> Some (s, Inl current)
      | Some (Done (_, Inr v)) \<Rightarrow> Some (s\<lparr>clock := v\<rparr>, Inr v)
      | _ \<Rightarrow> None)"

text \<open>\<^verbatim>\<open>min\<close>: drop the unused entries at the front of each shard, then compare with its front.\<close>

partial_function (option) pop_unused ::
  "('q, entry, 'r) scc_queue \<Rightarrow> (nat \<Rightarrow> u64) \<Rightarrow> 'q \<Rightarrow> 'q option" where
  "pop_unused Q refs q =
     (case q_pop_if Q (\<lambda>e. refs (e_addr e) = 0) q of
        (q', Some _) \<Rightarrow> pop_unused Q refs q'
      | (q', None) \<Rightarrow> Some q')"

fun min_shards ::
  "('q, entry, 'r) scc_queue \<Rightarrow> (nat \<Rightarrow> u64) \<Rightarrow> u64 \<Rightarrow> 'q list \<Rightarrow> (u64 \<times> 'q list) option" where
  "min_shards Q refs m [] = Some (m, [])"
| "min_shards Q refs m (q # qs) =
     (case pop_unused Q refs q of
        None \<Rightarrow> None
      | Some q' \<Rightarrow>
          (let m' = (case q_peek Q q' of None \<Rightarrow> m | Some e \<Rightarrow> min (e_instant e) m)
           in case min_shards Q refs m' qs of
                None \<Rightarrow> None
              | Some (m'', qs') \<Rightarrow> Some (m'', q' # qs')))"

definition seq_min ::
  "'q entry_queue \<Rightarrow> 'q monotonic_u64 \<Rightarrow> ('q monotonic_u64 \<times> u64) option" where
  "seq_min Q s =
     (case min_shards Q (ref_cnt s) (seq_now s) (sharded_entry_list s) of
        None \<Rightarrow> None
      | Some (m, qs) \<Rightarrow> Some (s\<lparr>sharded_entry_list := qs\<rparr>, m))"

text \<open>
  One round of \<^verbatim>\<open>track\<close> after the clock was read: push a new entry for the candidate, or
  share the newest entry if it is still in use and not older.
\<close>

definition track_condition ::
  "(nat \<Rightarrow> u64) \<Rightarrow> u64 \<Rightarrow> entry option \<Rightarrow> bool \<times> entry option" where
  "track_condition refs candidate e =
     (case e of
        None \<Rightarrow> (True, None)
      | Some e \<Rightarrow>
          if candidate \<le> e_instant e
          then if refs (e_addr e) \<noteq> 0 then (False, Some e)
               else (e_instant e = candidate, None)
          else (True, None))"

definition track_push ::
  "'q entry_queue \<Rightarrow> nat \<Rightarrow> u64 \<Rightarrow> 'q monotonic_u64 \<Rightarrow> 'q monotonic_u64 \<times> tracker option" where
  "track_push Q shard_id candidate s =
     (let new_entry = \<lparr>e_addr = next_addr s, e_instant = candidate\<rparr>;
          (q', pushed, reuse) =
            q_push_if Q new_entry (track_condition (ref_cnt s) candidate)
              (sharded_entry_list s ! shard_id);
          s' = s\<lparr>sharded_entry_list := (sharded_entry_list s)[shard_id := q']\<rparr>
      in if pushed then
           (s'\<lparr>ref_cnt := (ref_cnt s)(next_addr s := 1), next_addr := Suc (next_addr s)\<rparr>,
            Some new_entry)
         else
           case reuse of
             Some e \<Rightarrow> (s'\<lparr>ref_cnt := (ref_cnt s)(e_addr e := ref_cnt s (e_addr e) + 1)\<rparr>, Some e)
           | None \<Rightarrow> (s', None))"

text \<open>
  \<^verbatim>\<open>track\<close>, for a thread whose identifier hashes to \<open>thread_hash\<close>; the remainder by an empty
  shard list panics.
\<close>

definition seq_track ::
  "'q entry_queue \<Rightarrow> nat \<Rightarrow> 'q monotonic_u64 \<Rightarrow> ('q monotonic_u64 \<times> tracker) run" where
  "seq_track Q thread_hash s =
     (if sharded_entry_list s = [] then Some Panic
      else rust_loop (\<lambda>s.
        case track_push Q (thread_hash mod length (sharded_entry_list s)) (seq_now s) s of
          (s', Some t) \<Rightarrow> returns (s', Return t)
        | (s', None) \<Rightarrow> returns (s', Again)) s)"

definition clone_tracker :: "tracker \<Rightarrow> 'q monotonic_u64 \<Rightarrow> 'q monotonic_u64" where
  "clone_tracker t s = s\<lparr>ref_cnt := (ref_cnt s)(e_addr t := ref_cnt s (e_addr t) + 1)\<rparr>"

definition drop_tracker :: "tracker \<Rightarrow> 'q monotonic_u64 \<Rightarrow> 'q monotonic_u64" where
  "drop_tracker t s = s\<lparr>ref_cnt := (ref_cnt s)(e_addr t := ref_cnt s (e_addr t) - 1)\<rparr>"

definition to_instant :: "tracker \<Rightarrow> u64" where
  "to_instant t = e_instant t"

subsection \<open>Invariant\<close>

text \<open>
  \<open>live\<close> lists the trackers the program holds, one element per clone. Each shard is sorted by
  instant, no instant is in the future, entries have their own addresses, every live tracker
  refers to a queued entry, and a reference counter counts the trackers of its entry.
\<close>

definition entries_of :: "'q entry_queue \<Rightarrow> 'q monotonic_u64 \<Rightarrow> entry list" where
  "entries_of Q s = concat (map (q_list Q) (sharded_entry_list s))"

definition seq_inv :: "'q entry_queue \<Rightarrow> 'q monotonic_u64 \<Rightarrow> tracker list \<Rightarrow> bool" where
  "seq_inv Q s live \<longleftrightarrow>
     sharded_entry_list s \<noteq> [] \<and>
     (\<forall>q \<in> set (sharded_entry_list s). sorted (map e_instant (q_list Q q))) \<and>
     (\<forall>e \<in> set (entries_of Q s). e_instant e \<le> clock s \<and> e_addr e < next_addr s) \<and>
     distinct (map e_addr (entries_of Q s)) \<and>
     set live \<subseteq> set (entries_of Q s) \<and>
     (\<forall>e \<in> set (entries_of Q s). unat (ref_cnt s (e_addr e)) = count_list live e) \<and>
     length live < 2 ^ 64"

text \<open>A queue of the crate kept as a plain list, for evaluating the model.\<close>

definition list_queue :: "('e list, 'e, 'r) scc_queue" where
  "list_queue =
     \<lparr>q_empty = [],
      q_push_if = (\<lambda>e c q. case c (newest q) of (pushed, r) \<Rightarrow> (if pushed then q @ [e] else q, pushed, r)),
      q_pop_if = (\<lambda>c q. case q of [] \<Rightarrow> ([], None)
                                | e # es \<Rightarrow> if c e then (es, Some e) else (q, None)),
      q_peek = oldest,
      q_list = (\<lambda>q. q)\<rparr>"

subsection \<open>Runs\<close>

text \<open>
  Threads call the sequencer concurrently and no lock is held. A run therefore keeps, for every
  thread, how far its call of \<^verbatim>\<open>track\<close> or \<^verbatim>\<open>min\<close> has come: about to load the clock, about to publish
  the candidate it loaded, removing unused entries of a shard, about to look at the front of a
  shard. The last two carry the index of the shard and the minimum so far. \<open>run_live\<close> is the list of
  trackers held by anyone.
\<close>

datatype seq_call =
    Reading nat
  | Publishing nat u64
  | Popping nat u64
  | Peeking nat u64

record 'q seq_run =
  run_seq :: "'q monotonic_u64"
  run_live :: "tracker list"
  run_calls :: "nat \<Rightarrow> seq_call option"

definition initial_run :: "'q entry_queue \<Rightarrow> nat \<Rightarrow> 'q seq_run" where
  "initial_run Q num_shards =
     \<lparr>run_seq = default_sequencer Q num_shards, run_live = [], run_calls = (\<lambda>_. None)\<rparr>"

definition set_shard :: "nat \<Rightarrow> 'q \<Rightarrow> 'q monotonic_u64 \<Rightarrow> 'q monotonic_u64" where
  "set_shard k q s = s\<lparr>sharded_entry_list := (sharded_entry_list s)[k := q]\<rparr>"

definition peek_min :: "'q entry_queue \<Rightarrow> nat \<Rightarrow> 'q monotonic_u64 \<Rightarrow> u64 \<Rightarrow> u64" where
  "peek_min Q k s m =
     (case q_peek Q (sharded_entry_list s ! k) of None \<Rightarrow> m | Some e \<Rightarrow> min (e_instant e) m)"

text \<open>
  Every step is one atomic instruction or one operation of the queue. \<^verbatim>\<open>update\<close> changes the state
  with its successful exchange only. The clock is a \<open>u64\<close>, and a step that would wrap it is not
  taken; nor is one that would wrap a reference counter.
\<close>

inductive seq_step :: "'q entry_queue \<Rightarrow> 'q seq_run \<Rightarrow> 'q seq_run \<Rightarrow> bool" for Q where
  step_advance: "clock (run_seq c) \<noteq> - 1 \<Longrightarrow>
     seq_step Q c (c\<lparr>run_seq := fst (seq_advance (run_seq c))\<rparr>)"
| step_update: "seq_update (run_seq c) v = Some (s', r) \<Longrightarrow> seq_step Q c (c\<lparr>run_seq := s'\<rparr>)"
| step_clone: "t \<in> set (run_live c) \<Longrightarrow> Suc (length (run_live c)) < 2 ^ 64 \<Longrightarrow>
     seq_step Q c (c\<lparr>run_seq := clone_tracker t (run_seq c), run_live := t # run_live c\<rparr>)"
| step_drop: "t \<in> set (run_live c) \<Longrightarrow>
     seq_step Q c (c\<lparr>run_seq := drop_tracker t (run_seq c), run_live := remove1 t (run_live c)\<rparr>)"
| step_track: "run_calls c i = None \<Longrightarrow> sharded_entry_list (run_seq c) \<noteq> [] \<Longrightarrow>
     seq_step Q c (c\<lparr>run_calls := (run_calls c)
       (i \<mapsto> Reading (thread_hash mod length (sharded_entry_list (run_seq c))))\<rparr>)"
| step_candidate: "run_calls c i = Some (Reading k) \<Longrightarrow>
     seq_step Q c (c\<lparr>run_calls := (run_calls c)(i \<mapsto> Publishing k (seq_now (run_seq c)))\<rparr>)"
| step_publish: "run_calls c i = Some (Publishing k candidate) \<Longrightarrow>
     track_push Q k candidate (run_seq c) = (s', Some t) \<Longrightarrow> Suc (length (run_live c)) < 2 ^ 64 \<Longrightarrow>
     seq_step Q c (c\<lparr>run_seq := s', run_live := t # run_live c, run_calls := (run_calls c)(i := None)\<rparr>)"
| step_retry: "run_calls c i = Some (Publishing k candidate) \<Longrightarrow>
     track_push Q k candidate (run_seq c) = (s', None) \<Longrightarrow>
     seq_step Q c (c\<lparr>run_seq := s', run_calls := (run_calls c)(i \<mapsto> Reading k)\<rparr>)"
| step_min: "run_calls c i = None \<Longrightarrow>
     seq_step Q c (c\<lparr>run_calls := (run_calls c)(i \<mapsto> Popping 0 (seq_now (run_seq c)))\<rparr>)"
| step_pop: "run_calls c i = Some (Popping k m) \<Longrightarrow> k < length (sharded_entry_list (run_seq c)) \<Longrightarrow>
     q_pop_if Q (\<lambda>e. ref_cnt (run_seq c) (e_addr e) = 0) (sharded_entry_list (run_seq c) ! k) = (q', Some e) \<Longrightarrow>
     seq_step Q c (c\<lparr>run_seq := set_shard k q' (run_seq c)\<rparr>)"
| step_popped: "run_calls c i = Some (Popping k m) \<Longrightarrow> k < length (sharded_entry_list (run_seq c)) \<Longrightarrow>
     q_pop_if Q (\<lambda>e. ref_cnt (run_seq c) (e_addr e) = 0) (sharded_entry_list (run_seq c) ! k) = (q', None) \<Longrightarrow>
     seq_step Q c (c\<lparr>run_seq := set_shard k q' (run_seq c), run_calls := (run_calls c)(i \<mapsto> Peeking k m)\<rparr>)"
| step_peek: "run_calls c i = Some (Peeking k m) \<Longrightarrow>
     seq_step Q c (c\<lparr>run_calls := (run_calls c)(i \<mapsto> Popping (Suc k) (peek_min Q k (run_seq c) m))\<rparr>)"
| step_min_returns: "run_calls c i = Some (Popping k m) \<Longrightarrow> k = length (sharded_entry_list (run_seq c)) \<Longrightarrow>
     seq_step Q c (c\<lparr>run_calls := (run_calls c)(i := None)\<rparr>)"

text \<open>
  The candidates that calls of \<^verbatim>\<open>track\<close> have loaded and not yet published; the call of \<^verbatim>\<open>min\<close> by a
  thread that has seen all shards; a run during which a thread stays in its call.
\<close>

definition in_flight :: "'q seq_run \<Rightarrow> u64 set" where
  "in_flight c = {candidate. \<exists>i k. run_calls c i = Some (Publishing k candidate)}"

definition start_min :: "nat \<Rightarrow> 'q seq_run \<Rightarrow> 'q seq_run" where
  "start_min i c = c\<lparr>run_calls := (run_calls c)(i \<mapsto> Popping 0 (seq_now (run_seq c)))\<rparr>"

definition min_result :: "nat \<Rightarrow> 'q seq_run \<Rightarrow> u64 option" where
  "min_result i c =
     (case run_calls c i of
        Some (Popping k m) \<Rightarrow> if k = length (sharded_entry_list (run_seq c)) then Some m else None
      | _ \<Rightarrow> None)"

definition call_step :: "'q entry_queue \<Rightarrow> nat \<Rightarrow> 'q seq_run \<Rightarrow> 'q seq_run \<Rightarrow> bool" where
  "call_step Q i c c' \<longleftrightarrow> seq_step Q c c' \<and> run_calls c' i \<noteq> None"

section \<open>The interface\<close>

text \<open>
  What the trait promises to its clients: tracked instants are current when they are taken, and
  \<^verbatim>\<open>min\<close> is visible to all the current and future readers.
\<close>

locale logical_clock =
  fixes inv :: "'s \<Rightarrow> 't list \<Rightarrow> bool"
    and now :: "'s \<Rightarrow> u64"
    and advance :: "'s \<Rightarrow> 's \<times> u64"
    and minimum :: "'s \<Rightarrow> ('s \<times> u64) option"
    and track :: "'h \<Rightarrow> 's \<Rightarrow> ('s \<times> 't) run"
    and clone :: "'t \<Rightarrow> 's \<Rightarrow> 's"
    and release :: "'t \<Rightarrow> 's \<Rightarrow> 's"
    and instant :: "'t \<Rightarrow> u64"
  assumes advance_law: "inv s live \<Longrightarrow> now s \<noteq> - 1 \<Longrightarrow>
      inv (fst (advance s)) live \<and> snd (advance s) = now (fst (advance s)) \<and>
      now s < now (fst (advance s))"
    and minimum_law: "inv s live \<Longrightarrow> \<exists>s' m. minimum s = Some (s', m) \<and> inv s' live \<and>
      now s' = now s \<and> m \<le> now s \<and> (\<forall>t \<in> set live. m \<le> instant t)"
    and track_law: "inv s live \<Longrightarrow> Suc (length live) < 2 ^ 64 \<Longrightarrow>
      \<exists>s' t. track h s = Some (Done (s', t)) \<and> inv s' (t # live) \<and>
        now s' = now s \<and> instant t = now s"
    and clone_law: "inv s live \<Longrightarrow> t \<in> set live \<Longrightarrow> Suc (length live) < 2 ^ 64 \<Longrightarrow>
      inv (clone t s) (t # live) \<and> now (clone t s) = now s"
    and release_law: "inv s live \<Longrightarrow> t \<in> set live \<Longrightarrow>
      inv (release t s) (remove1 t live) \<and> now (release t s) = now s"
begin

lemma minimum_le_tracked:
  "inv s live \<Longrightarrow> minimum s = Some (s', m) \<Longrightarrow> t \<in> set live \<Longrightarrow> m \<le> instant t"
  using minimum_law [of s live] by auto

lemma minimum_keeps:
  "inv s live \<Longrightarrow> minimum s = Some (s', m) \<Longrightarrow> inv s' live \<and> now s' = now s \<and> m \<le> now s"
  using minimum_law [of s live] by auto

text \<open>A reader that starts after \<^verbatim>\<open>min\<close> was computed is not below it either.\<close>

lemma minimum_le_future:
  assumes "inv s live" and "minimum s = Some (s1, m)" and "inv s2 live2" and "m \<le> now s2"
    and "track h s2 = Some (Done (s3, t))" and "Suc (length live2) < 2 ^ 64"
  shows "m \<le> instant t"
  using track_law [of s2 live2 h] assms by auto

end

section \<open>Lemmas\<close>

subsection \<open>The queue\<close>

lemma oldest_simps [simp]: "oldest [] = None" "oldest (e # es) = Some e"
  by (simp_all add: oldest_def)

lemma newest_simps [simp]: "newest [] = None" "es \<noteq> [] \<Longrightarrow> newest es = Some (last es)"
  by (simp_all add: newest_def)

lemma list_queue_laws: "scc_queue_laws (list_queue :: ('e list, 'e, 'r) scc_queue)"
  by (auto simp: scc_queue_laws_def list_queue_def split: list.splits prod.splits)

lemma scc_queue_facts:
  assumes "scc_queue_laws Q"
  shows q_empty_law: "q_list Q (q_empty Q) = []"
    and q_push_law: "q_push_if Q e c q = (q', pushed, r) \<Longrightarrow>
      c (newest (q_list Q q)) = (pushed, r) \<and>
      q_list Q q' = (if pushed then q_list Q q @ [e] else q_list Q q)"
    and q_pop_law: "q_pop_if Q f q = (q', popped) \<Longrightarrow>
      popped = (case oldest (q_list Q q) of None \<Rightarrow> None | Some e \<Rightarrow> if f e then Some e else None) \<and>
      q_list Q q' = (if popped = None then q_list Q q else tl (q_list Q q))"
    and q_peek_law: "q_peek Q q = oldest (q_list Q q)"
proof -
  show "q_list Q (q_empty Q) = []" "q_peek Q q = oldest (q_list Q q)"
    using assms by (auto simp: scc_queue_laws_def)
  show "c (newest (q_list Q q)) = (pushed, r) \<and>
      q_list Q q' = (if pushed then q_list Q q @ [e] else q_list Q q)"
    if "q_push_if Q e c q = (q', pushed, r)"
  proof -
    from assms have "case q_push_if Q e c q of (q', pushed, r) \<Rightarrow>
        (pushed, r) = c (newest (q_list Q q)) \<and>
        q_list Q q' = (if pushed then q_list Q q @ [e] else q_list Q q)"
      by (simp only: scc_queue_laws_def)
    with that show ?thesis by simp
  qed
  show "popped = (case oldest (q_list Q q) of None \<Rightarrow> None | Some e \<Rightarrow> if f e then Some e else None) \<and>
      q_list Q q' = (if popped = None then q_list Q q else tl (q_list Q q))"
    if "q_pop_if Q f q = (q', popped)"
  proof -
    from assms have "case q_pop_if Q f q of (q', popped) \<Rightarrow>
        popped = (case oldest (q_list Q q) of None \<Rightarrow> None | Some e \<Rightarrow> if f e then Some e else None) \<and>
        q_list Q q' = (if popped = None then q_list Q q else tl (q_list Q q))"
      by (simp only: scc_queue_laws_def)
    with that show ?thesis by simp
  qed
qed

lemma pop_unused_returns:
  assumes Q: "scc_queue_laws Q"
  shows "\<exists>q'. pop_unused Q refs q = Some q' \<and>
           q_list Q q' = dropWhile (\<lambda>e. refs (e_addr e) = 0) (q_list Q q)"
proof (induction "q_list Q q" arbitrary: q)
  case Nil
  obtain q' popped where pop: "q_pop_if Q (\<lambda>e. refs (e_addr e) = 0) q = (q', popped)"
    by (cases "q_pop_if Q (\<lambda>e. refs (e_addr e) = 0) q")
  from q_pop_law [OF Q pop] Nil show ?case by (auto simp: pop_unused.simps [of Q refs q] pop)
next
  case (Cons e es)
  obtain q' popped where pop: "q_pop_if Q (\<lambda>e. refs (e_addr e) = 0) q = (q', popped)"
    by (cases "q_pop_if Q (\<lambda>e. refs (e_addr e) = 0) q")
  note law = q_pop_law [OF Q pop, folded Cons.hyps(2)]
  show ?case
  proof (cases "refs (e_addr e) = 0")
    case True
    with law have "es = q_list Q q'" and "popped = Some e" by auto
    with Cons.hyps(1) [OF this(1)] True Cons.hyps(2) [symmetric] show ?thesis
      by (auto simp: pop_unused.simps [of Q refs q] pop)
  next
    case False
    with law Cons.hyps(2) [symmetric] show ?thesis
      by (auto simp: pop_unused.simps [of Q refs q] pop)
  qed
qed

lemma dropWhile_keeps: "x \<in> set xs \<Longrightarrow> \<not> P x \<Longrightarrow> x \<in> set (dropWhile P xs)"
  by (induction xs) auto

lemma sorted_hd_le:
  "sorted (map f xs) \<Longrightarrow> oldest xs = Some y \<Longrightarrow> x \<in> set xs \<Longrightarrow> f y \<le> f x"
  by (cases xs) auto

lemma sorted_dropWhile: "sorted (map f xs) \<Longrightarrow> sorted (map f (dropWhile P xs))"
  by (induction xs) auto

text \<open>What the loop over the shards computes.\<close>

lemma min_shards_returns:
  assumes Q: "scc_queue_laws Q"
  shows "\<exists>m' qs'. min_shards Q refs m qs = Some (m', qs') \<and>
    map (q_list Q) qs' = map (\<lambda>q. dropWhile (\<lambda>e. refs (e_addr e) = 0) (q_list Q q)) qs \<and>
    m' \<le> m \<and>
    ((\<forall>q \<in> set qs. sorted (map e_instant (q_list Q q))) \<longrightarrow>
       (\<forall>q \<in> set qs. \<forall>e \<in> set (q_list Q q). refs (e_addr e) \<noteq> 0 \<longrightarrow> m' \<le> e_instant e)) \<and>
    (m' = m \<or> (\<exists>q \<in> set qs. \<exists>e \<in> set (q_list Q q). refs (e_addr e) \<noteq> 0 \<and> m' = e_instant e))"
proof (induction qs arbitrary: m)
  case Nil
  then show ?case by simp
next
  case (Cons q qs)
  let ?unused = "\<lambda>e. refs (e_addr e) = 0"
  obtain q' where q': "pop_unused Q refs q = Some q'" "q_list Q q' = dropWhile ?unused (q_list Q q)"
    using pop_unused_returns [OF Q] by blast
  define m1 where "m1 = (case q_peek Q q' of None \<Rightarrow> m | Some e \<Rightarrow> min (e_instant e) m)"
  have peek: "q_peek Q q' = oldest (dropWhile ?unused (q_list Q q))"
    using q' by (simp add: q_peek_law [OF Q])
  have m1m: "m1 \<le> m" by (simp add: m1_def split: option.splits)
  have m1e: "m1 \<le> e_instant e"
    if "sorted (map e_instant (q_list Q q))" "e \<in> set (q_list Q q)" "refs (e_addr e) \<noteq> 0" for e
  proof -
    have e: "e \<in> set (dropWhile ?unused (q_list Q q))" using that by (simp add: dropWhile_keeps)
    then obtain y where y: "oldest (dropWhile ?unused (q_list Q q)) = Some y"
      by (cases "dropWhile ?unused (q_list Q q)") auto
    have "e_instant y \<le> e_instant e"
      by (rule sorted_hd_le [OF sorted_dropWhile [OF that(1)] y e])
    then show ?thesis by (simp add: m1_def peek y min.coboundedI1)
  qed
  have m1from: "m1 = m \<or> (\<exists>e \<in> set (q_list Q q). refs (e_addr e) \<noteq> 0 \<and> m1 = e_instant e)"
  proof (cases "dropWhile ?unused (q_list Q q)")
    case Nil
    then show ?thesis by (simp only: m1_def peek oldest_simps option.case simp_thms)
  next
    case (Cons y ys)
    have "\<not> ?unused (hd (dropWhile ?unused (q_list Q q)))"
      by (rule hd_dropWhile) (simp add: Cons del: dropWhile_eq_Nil_conv)
    moreover have "y \<in> set (q_list Q q)"
      by (rule set_dropWhileD [where P = ?unused]) (simp add: Cons)
    ultimately have "\<not> ?unused y" "y \<in> set (q_list Q q)" by (simp_all add: Cons)
    then show ?thesis by (auto simp: m1_def peek Cons min_def)
  qed
  from Cons.IH [of m1] obtain m' qs' where IH:
    "min_shards Q refs m1 qs = Some (m', qs')"
    "map (q_list Q) qs' = map (\<lambda>q. dropWhile ?unused (q_list Q q)) qs"
    "m' \<le> m1"
    "(\<forall>q \<in> set qs. sorted (map e_instant (q_list Q q))) \<longrightarrow>
       (\<forall>q \<in> set qs. \<forall>e \<in> set (q_list Q q). refs (e_addr e) \<noteq> 0 \<longrightarrow> m' \<le> e_instant e)"
    "m' = m1 \<or> (\<exists>q \<in> set qs. \<exists>e \<in> set (q_list Q q). refs (e_addr e) \<noteq> 0 \<and> m' = e_instant e)"
    by blast
  show ?case
  proof (intro exI conjI impI ballI)
    show "min_shards Q refs m (q # qs) = Some (m', q' # qs')"
      using q' IH(1) by (simp add: m1_def Let_def)
    show "map (q_list Q) (q' # qs') = map (\<lambda>q. dropWhile ?unused (q_list Q q)) (q # qs)"
      using q'(2) IH(2) by simp
    show "m' \<le> m" using IH(3) m1m by simp
    show "m' = m \<or> (\<exists>q \<in> set (q # qs). \<exists>e \<in> set (q_list Q q). refs (e_addr e) \<noteq> 0 \<and> m' = e_instant e)"
      using IH(5) m1from by auto
    fix p e assume sorted: "\<forall>q \<in> set (q # qs). sorted (map e_instant (q_list Q q))"
      and p: "p \<in> set (q # qs)" and e: "e \<in> set (q_list Q p)" "refs (e_addr e) \<noteq> 0"
    show "m' \<le> e_instant e"
    proof (cases "p = q")
      case True
      with sorted e m1e [of e] IH(3) show ?thesis by simp
    next
      case False
      with sorted p e IH(4) show ?thesis by auto
    qed
  qed
qed

subsection \<open>The invariant is kept\<close>

lemma distinct_mset_subset:
  assumes "mset xs \<subseteq># mset ys" and "distinct (map f ys)"
  shows "distinct (map f xs)"
proof -
  have "mset (map f xs) \<subseteq># mset (map f ys)" using assms(1) by (simp add: image_mset_subseteq_mono)
  moreover have "count (mset (map f ys)) x \<le> 1" for x
    using assms(2) by (subst (asm) distinct_count_atmost_1) simp
  ultimately have "count (mset (map f xs)) x \<le> 1" for x by (meson mset_subset_eq_count order_trans)
  moreover have "x \<in> set (map f xs) \<longleftrightarrow> count (mset (map f xs)) x \<noteq> 0" for x
    by (metis count_eq_zero_iff set_mset_mset)
  ultimately show ?thesis unfolding distinct_count_atmost_1 by (metis One_nat_def le_Suc_eq le_zero_eq)
qed

lemma mset_concat_push:
  assumes "i < length qs" and "f q' = f (qs ! i) @ [e]"
  shows "mset (concat (map f (qs[i := q']))) = add_mset e (mset (concat (map f qs)))"
proof -
  have "qs = take i qs @ qs ! i # drop (Suc i) qs" by (simp add: assms(1) id_take_nth_drop)
  then have "mset (concat (map f qs)) =
      mset (concat (map f (take i qs))) + mset (f (qs ! i)) + mset (concat (map f (drop (Suc i) qs)))"
    by (metis (no_types, lifting) add.assoc concat.simps(2) concat_append list.simps(9) map_append
        mset_append)
  then show ?thesis by (simp add: upd_conv_take_nth_drop assms)
qed

lemma concat_map_same:
  assumes "i < length qs" and "f q' = f (qs ! i)"
  shows "map f (qs[i := q']) = map f qs"
  by (metis assms(2) list_update_id map_update)

lemma count_list_le: "count_list xs x \<le> length xs"
  by (induction xs) auto

lemma unat_ref_succ:
  fixes r :: u64
  assumes "unat r < 2 ^ 64 - 1"
  shows "unat (r + 1) = Suc (unat r)"
proof -
  have "r \<noteq> - 1"
  proof
    assume "r = - 1"
    then have "unat r = 2 ^ 64 - 1" by (simp add: unsigned_minus_1_eq_mask mask_eq_exp_minus_1)
    with assms show False by simp
  qed
  then have "1 + r \<noteq> 0" by (metis add.commute eq_neg_iff_add_eq_0)
  then show ?thesis by (metis add.commute unatSuc)
qed

lemma seq_inv_entry_eq:
  assumes "seq_inv Q s live" and "e \<in> set (entries_of Q s)" and "e' \<in> set (entries_of Q s)"
    and "e_addr e = e_addr e'"
  shows "e = e'"
  using assms by (auto simp: seq_inv_def distinct_map inj_on_def)

text \<open>One more reference to a queued entry.\<close>

lemma seq_inv_ref_up:
  assumes inv: "seq_inv Q s live" and e: "e \<in> set (entries_of Q s)"
    and len: "Suc (length live) < 2 ^ 64"
  shows "seq_inv Q (s\<lparr>ref_cnt := (ref_cnt s)(e_addr e := ref_cnt s (e_addr e) + 1)\<rparr>) (e # live)"
proof -
  let ?s = "s\<lparr>ref_cnt := (ref_cnt s)(e_addr e := ref_cnt s (e_addr e) + 1)\<rparr>"
  have same: "entries_of Q ?s = entries_of Q s" by (simp add: entries_of_def)
  have cnt: "unat (ref_cnt s (e_addr e)) = count_list live e"
    using inv e by (simp add: seq_inv_def)
  then have up: "unat (ref_cnt s (e_addr e) + 1) = Suc (count_list live e)"
    using count_list_le [of live e] len by (subst unat_ref_succ) auto
  have "unat (ref_cnt ?s (e_addr e')) = count_list (e # live) e'" if "e' \<in> set (entries_of Q s)" for e'
  proof (cases "e_addr e' = e_addr e")
    case True
    with seq_inv_entry_eq [OF inv that e] up show ?thesis by simp
  next
    case False
    then have "e \<noteq> e'" by auto
    with False inv that show ?thesis by (simp add: seq_inv_def)
  qed
  with inv e len same show ?thesis by (simp add: seq_inv_def)
qed

lemma count_list_remove1:
  "t \<in> set xs \<Longrightarrow> count_list (remove1 t xs) x = (if x = t then count_list xs x - 1 else count_list xs x)"
  by (induction xs) (auto simp: count_list_0_iff)

lemma seq_inv_drop:
  assumes inv: "seq_inv Q s live" and t: "t \<in> set live"
  shows "seq_inv Q (drop_tracker t s) (remove1 t live)"
proof -
  have same: "entries_of Q (drop_tracker t s) = entries_of Q s"
    by (simp add: entries_of_def drop_tracker_def)
  have e: "t \<in> set (entries_of Q s)" using inv t by (auto simp: seq_inv_def)
  have cnt: "unat (ref_cnt s (e_addr t)) = count_list live t"
    using inv e by (simp add: seq_inv_def)
  have pos: "0 < count_list live t" using t by (metis count_list_0_iff gr0I)
  then have nz: "ref_cnt s (e_addr t) \<noteq> 0" using cnt by auto
  have down: "unat (ref_cnt s (e_addr t) - 1) = count_list live t - 1"
    using nz cnt by (simp add: unat_minus_one)
  have "unat (ref_cnt (drop_tracker t s) (e_addr e')) = count_list (remove1 t live) e'"
    if "e' \<in> set (entries_of Q s)" for e'
  proof (cases "e_addr e' = e_addr t")
    case True
    with seq_inv_entry_eq [OF inv that e] down show ?thesis
      by (simp add: drop_tracker_def count_list_remove1 [OF t])
  next
    case False
    then have "e' \<noteq> t" by auto
    with False inv that show ?thesis
      by (simp add: drop_tracker_def count_list_remove1 [OF t] seq_inv_def)
  qed
  moreover have "set (remove1 t live) \<subseteq> set live" by (rule set_remove1_subset)
  moreover have "length (remove1 t live) \<le> length live" by (simp add: length_remove1)
  ultimately show ?thesis
    using inv same by (auto simp: seq_inv_def drop_tracker_def)
qed

text \<open>A new entry for an instant that is not in the future and not older than its shard.\<close>

lemma seq_inv_push:
  assumes inv: "seq_inv Q s live" and i: "i < length (sharded_entry_list s)"
    and q': "q_list Q q' = q_list Q (sharded_entry_list s ! i) @ [e]"
    and e: "e = \<lparr>e_addr = next_addr s, e_instant = candidate\<rparr>"
    and now: "candidate \<le> clock s"
    and new: "\<forall>x \<in> set (q_list Q (sharded_entry_list s ! i)). e_instant x \<le> candidate"
    and len: "Suc (length live) < 2 ^ 64"
    and s': "s' = s\<lparr>sharded_entry_list := (sharded_entry_list s)[i := q'],
              ref_cnt := (ref_cnt s)(next_addr s := 1), next_addr := Suc (next_addr s)\<rparr>"
  shows "seq_inv Q s' (e # live)"
proof -
  have ms: "mset (entries_of Q s') = add_mset e (mset (entries_of Q s))"
    using mset_concat_push [where f = "q_list Q", OF i q'] by (simp add: entries_of_def s')
  then have set': "set (entries_of Q s') = insert e (set (entries_of Q s))"
    by (metis set_mset_add_mset_insert set_mset_mset)
  have fresh: "e_addr x \<noteq> next_addr s" if "x \<in> set (entries_of Q s)" for x
    using inv that by (auto simp: seq_inv_def)
  have "mset (map e_addr (entries_of Q s')) = mset (map e_addr (e # entries_of Q s))"
    using ms by simp
  moreover have "distinct (map e_addr (e # entries_of Q s))"
    using inv fresh by (auto simp: seq_inv_def e)
  ultimately have dist: "distinct (map e_addr (entries_of Q s'))"
    by (metis mset_eq_imp_distinct_iff)
  have live: "e \<notin> set live"
  proof
    assume "e \<in> set live"
    with inv have "e \<in> set (entries_of Q s)" by (auto simp: seq_inv_def)
    from fresh [OF this] show False by (simp add: e)
  qed
  have qi: "sharded_entry_list s ! i \<in> set (sharded_entry_list s)" using i by simp
  then have "sorted (map e_instant (q_list Q q'))"
    using inv new by (auto simp: seq_inv_def q' sorted_append e)
  then have sorted: "\<forall>q \<in> set (sharded_entry_list s'). sorted (map e_instant (q_list Q q))"
    using inv by (auto simp: seq_inv_def s' dest!: set_update_subset_insert [THEN subsetD])
  have "unat (ref_cnt s' (e_addr x)) = count_list (e # live) x" if "x \<in> set (entries_of Q s')" for x
    using that inv fresh live set' by (auto simp: seq_inv_def s' e count_list_0_iff)
  with sorted dist set' inv len now show ?thesis
    by (auto simp: seq_inv_def s' e less_Suc_eq)
qed

lemma sorted_le_newest:
  "sorted (map f xs) \<Longrightarrow> newest xs = Some y \<Longrightarrow> x \<in> set xs \<Longrightarrow> f x \<le> f y"
  by (induction xs rule: rev_induct) (auto simp: sorted_append newest_def)

text \<open>Shards that lost unused entries at their front.\<close>

definition popped_shard :: "'q entry_queue \<Rightarrow> (nat \<Rightarrow> u64) \<Rightarrow> 'q \<Rightarrow> 'q \<Rightarrow> bool" where
  "popped_shard Q refs q' q \<longleftrightarrow>
     (\<exists>d. q_list Q q = d @ q_list Q q' \<and> (\<forall>e \<in> set d. refs (e_addr e) = 0))"

lemma popped_shard_refl [simp]: "popped_shard Q refs q q"
  by (auto simp: popped_shard_def)

lemma popped_shard_keeps:
  "popped_shard Q refs q' q \<Longrightarrow> e \<in> set (q_list Q q) \<Longrightarrow> refs (e_addr e) \<noteq> 0 \<Longrightarrow> e \<in> set (q_list Q q')"
  by (auto simp: popped_shard_def)

lemma popped_shard_pop:
  assumes "scc_queue_laws Q" and "q_pop_if Q (\<lambda>e. refs (e_addr e) = 0) q = (q', p)"
  shows "popped_shard Q refs q' q"
  using q_pop_law [OF assms] by (cases "q_list Q q") (auto simp: popped_shard_def split: if_splits)

lemma popped_shards_mset:
  "list_all2 (popped_shard Q refs) qs' qs \<Longrightarrow>
     mset (concat (map (q_list Q) qs')) \<subseteq># mset (concat (map (q_list Q) qs))"
  by (induction rule: list_all2_induct) (auto simp: popped_shard_def intro: subset_mset.add_mono)

lemma entries_of_nth:
  "t \<in> set (entries_of Q s) \<longleftrightarrow>
     (\<exists>k < length (sharded_entry_list s). t \<in> set (q_list Q (sharded_entry_list s ! k)))"
  unfolding entries_of_def by (simp add: set_conv_nth [of "sharded_entry_list s"]) blast

lemma used_iff_live:
  assumes "seq_inv Q s live" and "t \<in> set (entries_of Q s)"
  shows "ref_cnt s (e_addr t) \<noteq> 0 \<longleftrightarrow> t \<in> set live"
proof -
  have "unat (ref_cnt s (e_addr t)) = count_list live t" using assms by (simp add: seq_inv_def)
  moreover have "ref_cnt s (e_addr t) = 0 \<longleftrightarrow> unat (ref_cnt s (e_addr t)) = 0"
    by (simp add: unat_eq_0)
  ultimately show ?thesis by (simp add: count_list_0_iff)
qed

lemma seq_inv_shards:
  assumes inv: "seq_inv Q s live"
    and qs: "list_all2 (popped_shard Q (ref_cnt s)) qs (sharded_entry_list s)"
  shows "seq_inv Q (s\<lparr>sharded_entry_list := qs\<rparr>) live"
proof -
  let ?s = "s\<lparr>sharded_entry_list := qs\<rparr>"
  have ms: "mset (entries_of Q ?s) \<subseteq># mset (entries_of Q s)"
    using popped_shards_mset [OF qs] by (simp add: entries_of_def)
  then have sub: "set (entries_of Q ?s) \<subseteq> set (entries_of Q s)" by (metis set_mset_mono set_mset_mset)
  have "set live \<subseteq> set (entries_of Q ?s)"
  proof
    fix t assume t: "t \<in> set live"
    then have e: "t \<in> set (entries_of Q s)" using inv by (auto simp: seq_inv_def)
    then obtain k where "k < length (sharded_entry_list s)" "t \<in> set (q_list Q (sharded_entry_list s ! k))"
      by (auto simp: entries_of_nth)
    with qs popped_shard_keeps [of Q "ref_cnt s" "qs ! k"] used_iff_live [OF inv e] t
    have "t \<in> set (q_list Q (qs ! k))" "k < length qs" by (auto simp: list_all2_conv_all_nth)
    then show "t \<in> set (entries_of Q ?s)" by (auto simp: entries_of_nth)
  qed
  moreover have "distinct (map e_addr (entries_of Q ?s))"
    by (rule distinct_mset_subset [OF ms]) (use inv in \<open>simp add: seq_inv_def\<close>)
  moreover have "sorted (map e_instant (q_list Q q))" if "q \<in> set qs" for q
  proof -
    from that qs obtain p where "p \<in> set (sharded_entry_list s)" "popped_shard Q (ref_cnt s) q p"
      by (metis (no_types) in_set_conv_nth list_all2_conv_all_nth)
    with inv show ?thesis by (auto simp: seq_inv_def popped_shard_def sorted_append)
  qed
  moreover have "qs \<noteq> []" using inv qs by (auto simp: seq_inv_def)
  ultimately show ?thesis using inv sub by (auto simp: seq_inv_def)
qed

lemma seq_inv_set_shard:
  assumes inv: "seq_inv Q s live" and q': "popped_shard Q (ref_cnt s) q' (sharded_entry_list s ! k)"
  shows "seq_inv Q (set_shard k q' s) live"
proof -
  have "list_all2 (popped_shard Q (ref_cnt s)) ((sharded_entry_list s)[k := q']) (sharded_entry_list s)"
    unfolding list_all2_conv_all_nth using q' by (metis length_list_update nth_list_update_eq nth_list_update_neq popped_shard_refl)
  from seq_inv_shards [OF inv this] show ?thesis by (simp add: set_shard_def)
qed

text \<open>
  One round of \<^verbatim>\<open>track\<close> with a candidate that may be out of date: it publishes the candidate, or
  shares an entry someone holds, or is to be repeated because the newest entry is newer.
\<close>

lemma track_push_cases:
  assumes Q: "scc_queue_laws Q" and inv: "seq_inv Q s live" and k: "k < length (sharded_entry_list s)"
    and now: "candidate \<le> clock s" and push: "track_push Q k candidate s = (s', r)"
    and len: "r = None \<or> Suc (length live) < 2 ^ 64"
  shows "clock s' = clock s \<and> length (sharded_entry_list s') = length (sharded_entry_list s) \<and>
    (\<forall>j. set (q_list Q (sharded_entry_list s ! j)) \<subseteq> set (q_list Q (sharded_entry_list s' ! j))) \<and>
    (case r of
       None \<Rightarrow> seq_inv Q s' live \<and> (\<exists>x \<in> set (entries_of Q s). candidate < e_instant x)
     | Some t \<Rightarrow> seq_inv Q s' (t # live) \<and> candidate \<le> e_instant t \<and> (e_instant t = candidate \<or> t \<in> set live))"
proof -
  let ?q = "sharded_entry_list s ! k"
  let ?e = "\<lparr>e_addr = next_addr s, e_instant = candidate\<rparr>"
  obtain q' pushed reuse where p:
    "q_push_if Q ?e (track_condition (ref_cnt s) candidate) ?q = (q', pushed, reuse)"
    by (cases "q_push_if Q ?e (track_condition (ref_cnt s) candidate) ?q") auto
  note law = q_push_law [OF Q p]
  let ?s = "s\<lparr>sharded_entry_list := (sharded_entry_list s)[k := q']\<rparr>"
  have keep: "set (q_list Q (sharded_entry_list s ! j)) \<subseteq> set (q_list Q ((sharded_entry_list s)[k := q'] ! j))" for j
    using law k by (cases "j = k") auto
  have sorted: "sorted (map e_instant (q_list Q ?q))" using inv k by (auto simp: seq_inv_def)
  have old: "x \<in> set (entries_of Q s)" if "newest (q_list Q ?q) = Some x" for x
    using that k by (auto simp: entries_of_def newest_def split: if_splits intro!: bexI [of _ ?q])
  show ?thesis
  proof (cases pushed)
    case True
    have le: "e_instant x \<le> candidate" if "x \<in> set (q_list Q ?q)" for x
    proof -
      from that obtain y where y: "newest (q_list Q ?q) = Some y" by (cases "q_list Q ?q") (auto simp: newest_def)
      with law True have "e_instant y \<le> candidate" by (auto simp: track_condition_def split: if_splits)
      with sorted_le_newest [OF sorted y that] show ?thesis by simp
    qed
    from True push p have "r \<noteq> None" by (auto simp: track_push_def Let_def)
    with len have len': "Suc (length live) < 2 ^ 64" by simp
    have "seq_inv Q (?s\<lparr>ref_cnt := (ref_cnt s)(next_addr s := 1), next_addr := Suc (next_addr s)\<rparr>) (?e # live)"
      by (rule seq_inv_push [OF inv k _ refl now _ len']) (use law True le in auto)
    with True push p keep show ?thesis by (auto simp: track_push_def Let_def dest: keep [THEN subsetD])
  next
    case False
    with law obtain x where x: "newest (q_list Q ?q) = Some x" "candidate \<le> e_instant x"
      by (auto simp: track_condition_def split: option.splits if_splits)
    have "seq_inv Q (set_shard k q' s) live"
      by (rule seq_inv_set_shard [OF inv]) (use law False in \<open>simp add: popped_shard_def\<close>)
    then have inv': "seq_inv Q ?s live" by (simp add: set_shard_def)
    have same: "entries_of Q ?s = entries_of Q s"
      using concat_map_same [OF k, of "q_list Q" q'] law False by (simp add: entries_of_def)
    show ?thesis
    proof (cases "ref_cnt s (e_addr x) = 0")
      case True
      with law False x have "reuse = None" "candidate < e_instant x"
        by (auto simp: track_condition_def split: if_splits)
      with push p False inv' old [OF x(1)] show ?thesis
        by (auto simp: track_push_def Let_def dest: keep [THEN subsetD])
    next
      case used: False
      with law False x have reuse: "reuse = Some x" by (auto simp: track_condition_def split: if_splits)
      with push p False have "r \<noteq> None" by (auto simp: track_push_def Let_def)
      with len have len': "Suc (length live) < 2 ^ 64" by simp
      from reuse push p False inv' x(2) seq_inv_ref_up [OF inv' _ len', of x] old [OF x(1)]
        used_iff_live [OF inv old [OF x(1)]] used
      show ?thesis by (auto simp: track_push_def Let_def same dest: keep [THEN subsetD])
    qed
  qed
qed

lemma seq_track_returns:
  assumes Q: "scc_queue_laws Q" and inv: "seq_inv Q s live" and len: "Suc (length live) < 2 ^ 64"
  shows "\<exists>s' t. track_push Q (h mod length (sharded_entry_list s)) (clock s) s = (s', Some t) \<and>
    seq_track Q h s = Some (Done (s', t)) \<and> seq_inv Q s' (t # live) \<and> clock s' = clock s \<and> e_instant t = clock s"
proof -
  define i where "i = h mod length (sharded_entry_list s)"
  have i: "i < length (sharded_entry_list s)" using inv by (auto simp: i_def seq_inv_def)
  obtain s' r where push: "track_push Q i (clock s) s = (s', r)" by (cases "track_push Q i (clock s) s")
  note cases = track_push_cases [OF Q inv i order_refl push disjI2 [OF len]]
  have le: "e_instant x \<le> clock s" if "x \<in> set (entries_of Q s) \<union> set live" for x
    using inv that by (auto simp: seq_inv_def)
  obtain t where t: "r = Some t" "e_instant t = clock s"
    using cases le by (cases r) (auto simp: not_le [symmetric] intro: order_antisym)
  with cases push inv show ?thesis
    by (auto simp: seq_track_def rust_loop.simps seq_now_def i_def [symmetric] seq_inv_def)
qed

lemma popped_shards_dropWhile:
  "map (q_list Q) qs' = map (\<lambda>q. dropWhile (\<lambda>e. refs (e_addr e) = 0) (q_list Q q)) qs \<Longrightarrow>
     list_all2 (popped_shard Q refs) qs' qs"
proof (induction qs arbitrary: qs')
  case Nil
  then show ?case by simp
next
  case (Cons q qs)
  then obtain p ps where qs': "qs' = p # ps" by (cases qs') auto
  have "popped_shard Q refs p q" unfolding popped_shard_def
    by (rule exI [of _ "takeWhile (\<lambda>e. refs (e_addr e) = 0) (q_list Q q)"])
      (use Cons.prems qs' in \<open>auto dest: set_takeWhileD\<close>)
  with Cons qs' show ?case by simp
qed

lemma seq_min_returns:
  assumes Q: "scc_queue_laws Q" and inv: "seq_inv Q s live"
  shows "\<exists>s' m. seq_min Q s = Some (s', m) \<and> seq_inv Q s' live \<and> clock s' = clock s \<and>
    m \<le> clock s \<and> (\<forall>t \<in> set live. m \<le> e_instant t) \<and>
    (m = clock s \<or> (\<exists>t \<in> set live. m = e_instant t))"
proof -
  obtain m qs where min: "min_shards Q (ref_cnt s) (clock s) (sharded_entry_list s) = Some (m, qs)"
    and qs: "map (q_list Q) qs =
      map (\<lambda>q. dropWhile (\<lambda>e. ref_cnt s (e_addr e) = 0) (q_list Q q)) (sharded_entry_list s)"
    and m: "m \<le> clock s"
    and le: "(\<forall>q \<in> set (sharded_entry_list s). sorted (map e_instant (q_list Q q))) \<longrightarrow>
       (\<forall>q \<in> set (sharded_entry_list s). \<forall>e \<in> set (q_list Q q).
          ref_cnt s (e_addr e) \<noteq> 0 \<longrightarrow> m \<le> e_instant e)"
    and attained: "m = clock s \<or> (\<exists>q \<in> set (sharded_entry_list s). \<exists>e \<in> set (q_list Q q).
          ref_cnt s (e_addr e) \<noteq> 0 \<and> m = e_instant e)"
    using min_shards_returns [OF Q, of "ref_cnt s" "clock s" "sharded_entry_list s"]
    by (elim exE conjE) (rule that)
  note used = used_iff_live [OF inv]
  have "list_all2 (popped_shard Q (ref_cnt s)) qs (sharded_entry_list s)"
    using qs by (rule popped_shards_dropWhile)
  note inv' = seq_inv_shards [OF inv this]
  have "m \<le> e_instant t" if "t \<in> set live" for t
  proof -
    have t: "t \<in> set (entries_of Q s)" using inv that by (auto simp: seq_inv_def)
    then obtain q where "q \<in> set (sharded_entry_list s)" "t \<in> set (q_list Q q)"
      by (auto simp: entries_of_def)
    with le used [OF t] that inv show ?thesis by (auto simp: seq_inv_def)
  qed
  moreover have "m = clock s \<or> (\<exists>t \<in> set live. m = e_instant t)"
    using attained used by (force simp: entries_of_def)
  ultimately show ?thesis
    using min m inv' by (auto simp: seq_min_def seq_now_def)
qed

lemma seq_inv_clock:
  "seq_inv Q s live \<Longrightarrow> clock s \<le> c \<Longrightarrow> seq_inv Q (s\<lparr>clock := c\<rparr>) live"
  by (auto simp: seq_inv_def entries_of_def intro: order_trans)

lemma clock_succ: "c \<noteq> - 1 \<Longrightarrow> c < c + (1 :: u64)"
proof -
  assume c: "c \<noteq> - 1"
  then have "c < - 1" by (simp add: order_less_le)
  with c saturating_succ_unat [of c] show ?thesis
    by (simp add: saturating_succ_def word_less_nat_alt)
qed

lemma seq_inv_default:
  assumes "scc_queue_laws Q" and "0 < n"
  shows "seq_inv Q (default_sequencer Q n) []"
proof -
  have "concat (map (q_list Q) (replicate n (q_empty Q))) = []"
    using assms by (simp add: q_empty_law concat_replicate_trivial map_replicate_const)
  then show ?thesis
    using assms by (auto simp: seq_inv_def default_sequencer_def entries_of_def q_empty_law)
qed

lemma seq_update_result:
  "seq_update s v = Some (if v \<le> clock s then (s, Inl (clock s)) else (s\<lparr>clock := v\<rparr>, Inr v))"
  unfolding seq_update_def update_loop_def by (subst rust_loop.simps) (simp add: update_body_def)

section \<open>The interface holds\<close>

definition tracked_inv :: "'q entry_queue \<Rightarrow> 'q monotonic_u64 \<Rightarrow> tracker list \<Rightarrow> bool" where
  "tracked_inv Q s live \<longleftrightarrow> scc_queue_laws Q \<and> seq_inv Q s live"

interpretation monotonic: logical_clock "tracked_inv Q" seq_now seq_advance "seq_min Q"
  "seq_track Q" clone_tracker drop_tracker to_instant for Q
proof unfold_locales
  fix s :: "'a monotonic_u64" and live
  assume inv: "tracked_inv Q s live"
  then have Q: "scc_queue_laws Q" and si: "seq_inv Q s live" by (simp_all add: tracked_inv_def)
  show "tracked_inv Q (fst (seq_advance s)) live \<and> snd (seq_advance s) = seq_now (fst (seq_advance s)) \<and>
      seq_now s < seq_now (fst (seq_advance s))" if "seq_now s \<noteq> - 1"
    using that Q seq_inv_clock [OF si] clock_succ [of "clock s"]
    by (simp add: tracked_inv_def seq_advance_def seq_now_def order_less_imp_le)
  show "\<exists>s' m. seq_min Q s = Some (s', m) \<and> tracked_inv Q s' live \<and> seq_now s' = seq_now s \<and>
      m \<le> seq_now s \<and> (\<forall>t \<in> set live. m \<le> to_instant t)"
    using seq_min_returns [OF Q si] Q by (auto simp: tracked_inv_def seq_now_def to_instant_def)
  show "\<exists>s' t. seq_track Q h s = Some (Done (s', t)) \<and> tracked_inv Q s' (t # live) \<and>
      seq_now s' = seq_now s \<and> to_instant t = seq_now s" if "Suc (length live) < 2 ^ 64" for h
    using seq_track_returns [OF Q si that, of h] Q by (auto simp: tracked_inv_def seq_now_def to_instant_def)
  show "tracked_inv Q (clone_tracker t s) (t # live) \<and> seq_now (clone_tracker t s) = seq_now s"
    if "t \<in> set live" "Suc (length live) < 2 ^ 64" for t
  proof -
    have "t \<in> set (entries_of Q s)" using that(1) si by (auto simp: seq_inv_def)
    from seq_inv_ref_up [OF si this that(2)] Q show ?thesis
      by (simp add: tracked_inv_def seq_now_def clone_tracker_def)
  qed
  show "tracked_inv Q (drop_tracker t s) (remove1 t live) \<and> seq_now (drop_tracker t s) = seq_now s"
    if "t \<in> set live" for t
    using seq_inv_drop [OF si that] Q by (simp add: tracked_inv_def seq_now_def drop_tracker_def)
qed

subsection \<open>Runs\<close>

text \<open>What every step of a run keeps, whatever the other threads are in the middle of.\<close>

definition run_inv :: "'q entry_queue \<Rightarrow> 'q seq_run \<Rightarrow> bool" where
  "run_inv Q c \<longleftrightarrow> tracked_inv Q (run_seq c) (run_live c) \<and>
     (\<forall>i k. run_calls c i = Some (Reading k) \<longrightarrow> k < length (sharded_entry_list (run_seq c))) \<and>
     (\<forall>i k candidate. run_calls c i = Some (Publishing k candidate) \<longrightarrow>
        k < length (sharded_entry_list (run_seq c)) \<and> candidate \<le> clock (run_seq c))"

definition step_keeps :: "'q entry_queue \<Rightarrow> 'q seq_run \<Rightarrow> 'q seq_run \<Rightarrow> bool" where
  "step_keeps Q c c' \<longleftrightarrow> run_inv Q c' \<and> clock (run_seq c) \<le> clock (run_seq c') \<and>
     length (sharded_entry_list (run_seq c')) = length (sharded_entry_list (run_seq c)) \<and>
     in_flight c' \<subseteq> insert (clock (run_seq c)) (in_flight c) \<and>
     (\<forall>t \<in> set (run_live c'). t \<in> set (run_live c) \<or> e_instant t \<in> in_flight c) \<and>
     (\<forall>t \<in> set (run_live c). \<forall>j. t \<in> set (q_list Q (sharded_entry_list (run_seq c) ! j)) \<longrightarrow>
        t \<in> set (q_list Q (sharded_entry_list (run_seq c') ! j)))"

lemma run_invD:
  assumes "run_inv Q c"
  shows "scc_queue_laws Q" "seq_inv Q (run_seq c) (run_live c)" "tracked_inv Q (run_seq c) (run_live c)"
    "run_calls c i = Some (Reading k) \<Longrightarrow> k < length (sharded_entry_list (run_seq c))"
    "run_calls c i = Some (Publishing k candidate) \<Longrightarrow> k < length (sharded_entry_list (run_seq c))"
    "run_calls c i = Some (Publishing k candidate) \<Longrightarrow> candidate \<le> clock (run_seq c)"
  using assms by (simp_all add: run_inv_def tracked_inv_def)

lemma keeps_calls:
  assumes "run_inv Q c" and "\<forall>j. x j = run_calls c j \<or> x j = None \<or>
      (\<exists>k m. x j = Some (Popping k m) \<or> x j = Some (Peeking k m)) \<or>
      (\<exists>k < length (sharded_entry_list (run_seq c)). x j = Some (Reading k) \<or> x j = Some (Publishing k (clock (run_seq c))))"
  shows "step_keeps Q c (c\<lparr>run_calls := x\<rparr>)"
proof -
  from assms(1) have inv: "tracked_inv Q (run_seq c) (run_live c)" by (simp add: run_inv_def)
  have "k < length (sharded_entry_list (run_seq c))" if "x j = Some (Reading k)" for j k
    using assms(2) [rule_format, of j] that run_invD(4) [OF assms(1), of j k] by auto
  moreover have "k < length (sharded_entry_list (run_seq c)) \<and> candidate \<le> clock (run_seq c) \<and>
      candidate \<in> insert (clock (run_seq c)) (in_flight c)" if "x j = Some (Publishing k candidate)" for j k candidate
    using assms(2) [rule_format, of j] that run_invD(5,6) [OF assms(1), of j k candidate]
    unfolding in_flight_def by (elim disjE exE conjE) force+
  ultimately have "run_inv Q (c\<lparr>run_calls := x\<rparr>)" "in_flight (c\<lparr>run_calls := x\<rparr>) \<subseteq> insert (clock (run_seq c)) (in_flight c)"
    using inv unfolding run_inv_def in_flight_def [of "c\<lparr>run_calls := x\<rparr>"] by simp_all blast
  then show ?thesis by (simp add: step_keeps_def)
qed

text \<open>Steps that change the sequencer and the trackers but start no call.\<close>

lemma keeps_state:
  assumes "run_inv Q c" and "tracked_inv Q s' live'" and "clock (run_seq c) \<le> clock s'"
    and "length (sharded_entry_list s') = length (sharded_entry_list (run_seq c))"
    and "\<forall>t \<in> set live'. t \<in> set (run_live c) \<or> e_instant t \<in> in_flight c"
    and "\<forall>t \<in> set (run_live c). \<forall>j. t \<in> set (q_list Q (sharded_entry_list (run_seq c) ! j)) \<longrightarrow>
        t \<in> set (q_list Q (sharded_entry_list s' ! j))"
  shows "step_keeps Q c (c\<lparr>run_seq := s', run_live := live'\<rparr>)"
  using assms order_trans [OF run_invD(6) [OF assms(1)] assms(3)]
  unfolding step_keeps_def run_inv_def in_flight_def by auto

lemma step_keeps_trans_calls:
  assumes "step_keeps Q c c'" and "\<forall>j. x j = run_calls c' j \<or> x j = None \<or>
      (\<exists>k m. x j = Some (Popping k m) \<or> x j = Some (Peeking k m)) \<or>
      (\<exists>k < length (sharded_entry_list (run_seq c')). x j = Some (Reading k))"
  shows "step_keeps Q c (c'\<lparr>run_calls := x\<rparr>)"
proof -
  have "step_keeps Q c' (c'\<lparr>run_calls := x\<rparr>)"
    by (rule keeps_calls) (use assms in \<open>auto simp: step_keeps_def\<close>)
  moreover have "run_calls c' j = Some (Publishing k candidate)" if "x j = Some (Publishing k candidate)" for j k candidate
    using assms(2) [rule_format, of j] that by auto
  then have "in_flight (c'\<lparr>run_calls := x\<rparr>) \<subseteq> in_flight c'" unfolding in_flight_def by simp blast
  ultimately show ?thesis using assms(1) by (auto simp: step_keeps_def)
qed

lemma keeps_set_shard:
  assumes inv: "run_inv Q c"
    and pop: "q_pop_if Q (\<lambda>e. ref_cnt (run_seq c) (e_addr e) = 0) (sharded_entry_list (run_seq c) ! k) = (q', p)"
  shows "step_keeps Q c (c\<lparr>run_seq := set_shard k q' (run_seq c)\<rparr>)"
proof -
  note popped = popped_shard_pop [OF run_invD(1) [OF inv] pop]
  note si = run_invD(2) [OF inv]
  have "tracked_inv Q (set_shard k q' (run_seq c)) (run_live c)"
    using seq_inv_set_shard [OF si popped] run_invD(1) [OF inv] by (simp add: tracked_inv_def)
  moreover have "t \<in> set (q_list Q (sharded_entry_list (set_shard k q' (run_seq c)) ! j))"
    if t: "t \<in> set (run_live c)" "t \<in> set (q_list Q (sharded_entry_list (run_seq c) ! j))" for t j
  proof -
    have "t \<in> set (entries_of Q (run_seq c))" using si t(1) by (auto simp: seq_inv_def)
    with used_iff_live [OF si] t(1) have "ref_cnt (run_seq c) (e_addr t) \<noteq> 0" by simp
    with popped_shard_keeps [OF popped, of t] t(2) show ?thesis
      by (cases "k < length (sharded_entry_list (run_seq c))"; cases "j = k") (simp_all add: set_shard_def t(2) list_update_beyond)
  qed
  ultimately have "step_keeps Q c (c\<lparr>run_seq := set_shard k q' (run_seq c), run_live := run_live c\<rparr>)"
    by (intro keeps_state [OF inv]) (auto simp: set_shard_def)
  then show ?thesis by simp
qed

lemma keeps_track_push:
  assumes inv: "run_inv Q c" and call: "run_calls c i = Some (Publishing k candidate)"
    and push: "track_push Q k candidate (run_seq c) = (s', r)" and len: "r = None \<or> Suc (length (run_live c)) < 2 ^ 64"
  shows "step_keeps Q c (c\<lparr>run_seq := s',
    run_live := (case r of None \<Rightarrow> run_live c | Some t \<Rightarrow> t # run_live c)\<rparr>)"
proof -
  note Q = run_invD(1) [OF inv]
  note cases = track_push_cases [OF Q run_invD(2) [OF inv] run_invD(5) [OF inv call] run_invD(6) [OF inv call] push len]
  have "candidate \<in> in_flight c" using call by (auto simp: in_flight_def)
  with cases Q show ?thesis
    by (intro keeps_state [OF inv]) (auto simp: tracked_inv_def split: option.splits)
qed

lemma seq_step_keeps:
  assumes "seq_step Q c c'" and inv: "run_inv Q c"
  shows "step_keeps Q c c'"
  using assms(1)
proof cases
  case step_advance
  then have "step_keeps Q c (c\<lparr>run_seq := fst (seq_advance (run_seq c)), run_live := run_live c\<rparr>)"
    using monotonic.advance_law [OF run_invD(3) [OF inv]]
    by (intro keeps_state [OF inv]) (auto simp: seq_now_def seq_advance_def)
  with step_advance show ?thesis by simp
next
  case (step_update v s' r)
  then have "step_keeps Q c (c\<lparr>run_seq := s', run_live := run_live c\<rparr>)"
    using seq_inv_clock [OF run_invD(2) [OF inv], of v] run_invD(1,3) [OF inv]
    by (intro keeps_state [OF inv]) (auto simp: seq_update_result tracked_inv_def split: if_splits)
  with step_update show ?thesis by simp
next
  case (step_clone t)
  with monotonic.clone_law [OF run_invD(3) [OF inv], of t] show ?thesis
    unfolding step_clone(1) by (intro keeps_state [OF inv]) (auto simp: clone_tracker_def)
next
  case (step_drop t)
  with monotonic.release_law [OF run_invD(3) [OF inv], of t] show ?thesis
    unfolding step_drop(1) by (intro keeps_state [OF inv])
      (auto simp: drop_tracker_def dest: set_remove1_subset [THEN subsetD])
next
  case (step_track i thread_hash)
  then have "thread_hash mod length (sharded_entry_list (run_seq c)) < length (sharded_entry_list (run_seq c))" by simp
  then show ?thesis unfolding step_track(1) by (intro keeps_calls [OF inv]) auto
next
  case (step_candidate i k)
  with run_invD(4) [OF inv, of i k] show ?thesis
    unfolding step_candidate(1) by (intro keeps_calls [OF inv]) (auto simp: seq_now_def)
next
  case (step_publish i k candidate s' t)
  from step_keeps_trans_calls [OF keeps_track_push [OF inv step_publish(2,3) disjI2 [OF step_publish(4)]], of "(run_calls c)(i := None)"]
  show ?thesis unfolding step_publish(1) by simp
next
  case (step_retry i k candidate s')
  have "step_keeps Q c (c\<lparr>run_seq := s', run_live := run_live c\<rparr>)"
    using keeps_track_push [OF inv step_retry(2,3)] by simp
  from step_keeps_trans_calls [OF this, of "(run_calls c)(i \<mapsto> Reading k)"] run_invD(5) [OF inv step_retry(2)] this
  show ?thesis unfolding step_retry(1) by (simp add: step_keeps_def)
next
  case (step_min i)
  then show ?thesis unfolding step_min(1) by (intro keeps_calls [OF inv]) auto
next
  case (step_pop i k m q' e)
  with keeps_set_shard [OF inv] show ?thesis by simp
next
  case (step_popped i k m q')
  from step_keeps_trans_calls [OF keeps_set_shard [OF inv step_popped(4)], of "(run_calls c)(i \<mapsto> Peeking k m)"]
  show ?thesis unfolding step_popped(1) by simp
next
  case (step_peek i k m)
  then show ?thesis unfolding step_peek(1) by (intro keeps_calls [OF inv]) auto
next
  case (step_min_returns i k m)
  then show ?thesis unfolding step_min_returns(1) by (intro keeps_calls [OF inv]) auto
qed

lemma seq_run_inv:
  assumes "(seq_step Q)\<^sup>*\<^sup>* c c'" and "run_inv Q c"
  shows "run_inv Q c'"
  using assms by (induction rule: rtranclp_induct) (auto dest: seq_step_keeps simp: step_keeps_def)

lemma initial_run_inv:
  assumes "scc_queue_laws Q" and "0 < n"
  shows "run_inv Q (initial_run Q n)"
  using assms seq_inv_default [OF assms] by (simp add: run_inv_def tracked_inv_def initial_run_def)

text \<open>
  A call of \<^verbatim>\<open>min\<close> in progress. \<open>now\<close> is what it loaded from the clock, \<open>X\<close> the candidates that were in
  flight then. A tracker is covered if the minimum so far is not newer, if it came from such a
  candidate, or if it is in a shard the call has still to look at.
\<close>

definition min_covers :: "'q entry_queue \<Rightarrow> u64 set \<Rightarrow> nat \<Rightarrow> u64 \<Rightarrow> 'q seq_run \<Rightarrow> bool" where
  "min_covers Q X k m c \<longleftrightarrow>
     (\<forall>t \<in> set (run_live c). m \<le> e_instant t \<or> e_instant t \<in> X \<or>
        (\<exists>j \<ge> k. j < length (sharded_entry_list (run_seq c)) \<and>
           t \<in> set (q_list Q (sharded_entry_list (run_seq c) ! j))))"

definition min_progress :: "'q entry_queue \<Rightarrow> nat \<Rightarrow> u64 \<Rightarrow> u64 set \<Rightarrow> 'q seq_run \<Rightarrow> bool" where
  "min_progress Q i now X c \<longleftrightarrow> run_inv Q c \<and> now \<le> clock (run_seq c) \<and>
     (\<forall>candidate \<in> in_flight c. now \<le> candidate \<or> candidate \<in> X) \<and>
     (\<exists>k m. (run_calls c i = Some (Popping k m) \<or> run_calls c i = Some (Peeking k m)) \<and> m \<le> now \<and>
        min_covers Q X k m c)"

lemma min_covers_step:
  assumes keeps: "step_keeps Q c c'" and cov: "min_covers Q X k m c" and m: "m \<le> now"
    and X: "\<forall>candidate \<in> in_flight c. now \<le> candidate \<or> candidate \<in> X"
  shows "min_covers Q X k m c'"
  unfolding min_covers_def
proof (intro ballI)
  fix t assume t: "t \<in> set (run_live c')"
  show "m \<le> e_instant t \<or> e_instant t \<in> X \<or>
    (\<exists>j \<ge> k. j < length (sharded_entry_list (run_seq c')) \<and> t \<in> set (q_list Q (sharded_entry_list (run_seq c') ! j)))"
  proof (cases "t \<in> set (run_live c)")
    case True
    then have kept: "t \<in> set (q_list Q (sharded_entry_list (run_seq c') ! j))"
      if "t \<in> set (q_list Q (sharded_entry_list (run_seq c) ! j))" for j
      using keeps that by (simp add: step_keeps_def)
    have "length (sharded_entry_list (run_seq c')) = length (sharded_entry_list (run_seq c))"
      using keeps by (simp add: step_keeps_def)
    with cov True kept show ?thesis unfolding min_covers_def by (metis (no_types, lifting))
  next
    case False
    with keeps t have "e_instant t \<in> in_flight c" by (auto simp: step_keeps_def)
    with X m show ?thesis by (auto dest: order_trans)
  qed
qed

text \<open>Looking at the front of a shard covers the trackers of that shard.\<close>

lemma min_covers_peek:
  assumes inv: "run_inv Q c" and cov: "min_covers Q X k m c"
  shows "min_covers Q X (Suc k) (peek_min Q k (run_seq c) m) c"
  unfolding min_covers_def
proof (intro ballI)
  let ?qs = "sharded_entry_list (run_seq c)"
  fix t assume t: "t \<in> set (run_live c)"
  have le: "peek_min Q k (run_seq c) m \<le> m" by (simp add: peek_min_def split: option.splits)
  have "peek_min Q k (run_seq c) m \<le> e_instant t" if k: "k < length ?qs" "t \<in> set (q_list Q (?qs ! k))"
  proof -
    have sorted: "sorted (map e_instant (q_list Q (?qs ! k)))"
      using run_invD(2) [OF inv] k(1) by (simp add: seq_inv_def)
    from k(2) obtain e where e: "oldest (q_list Q (?qs ! k)) = Some e" by (cases "q_list Q (?qs ! k)") auto
    with sorted_hd_le [OF sorted e k(2)] show ?thesis
      by (simp add: peek_min_def q_peek_law [OF run_invD(1) [OF inv]] min.coboundedI1)
  qed
  note here = this
  have "m \<le> e_instant t \<or> e_instant t \<in> X \<or> (\<exists>j \<ge> k. j < length ?qs \<and> t \<in> set (q_list Q (?qs ! j)))"
    using cov t by (simp add: min_covers_def)
  then show "peek_min Q k (run_seq c) m \<le> e_instant t \<or> e_instant t \<in> X \<or>
      (\<exists>j \<ge> Suc k. j < length ?qs \<and> t \<in> set (q_list Q (?qs ! j)))"
  proof (elim disjE exE conjE)
    fix j assume "k \<le> j" "j < length ?qs" "t \<in> set (q_list Q (?qs ! j))"
    with here show ?thesis by (cases "j = k") (auto intro: exI [of _ j])
  qed (use le in \<open>auto dest: order_trans\<close>)
qed

lemma popping_step:
  "seq_step Q c c' \<Longrightarrow> run_calls c i = Some (Popping k m) \<Longrightarrow> run_calls c' i \<noteq> None \<Longrightarrow>
     run_calls c' i = Some (Popping k m) \<or> run_calls c' i = Some (Peeking k m)"
  by (cases rule: seq_step.cases) (auto split: if_splits)

lemma peeking_step:
  "seq_step Q c c' \<Longrightarrow> run_calls c i = Some (Peeking k m) \<Longrightarrow>
     run_calls c' i = Some (Peeking k m) \<or>
     run_calls c' i = Some (Popping (Suc k) (peek_min Q k (run_seq c) m)) \<and>
       run_seq c' = run_seq c \<and> run_live c' = run_live c"
  by (cases rule: seq_step.cases) (auto split: if_splits)

lemma min_progress_step:
  assumes step: "call_step Q i c c'" and prog: "min_progress Q i now X c"
  shows "min_progress Q i now X c'"
proof -
  have inv: "run_inv Q c" and X: "\<forall>candidate \<in> in_flight c. now \<le> candidate \<or> candidate \<in> X"
    and now: "now \<le> clock (run_seq c)" using prog by (simp_all add: min_progress_def)
  have s: "seq_step Q c c'" and some: "run_calls c' i \<noteq> None" using step by (simp_all add: call_step_def)
  note keeps = seq_step_keeps [OF s inv]
  obtain k m where call: "run_calls c i = Some (Popping k m) \<or> run_calls c i = Some (Peeking k m)"
    and m: "m \<le> now" and cov: "min_covers Q X k m c" using prog by (auto simp: min_progress_def)
  note cov' = min_covers_step [OF keeps cov m X]
  have "\<exists>k m. (run_calls c' i = Some (Popping k m) \<or> run_calls c' i = Some (Peeking k m)) \<and> m \<le> now \<and>
      min_covers Q X k m c'"
    using call
  proof
    assume "run_calls c i = Some (Popping k m)"
    with popping_step [OF s _ some] m cov' show ?thesis by blast
  next
    assume pk: "run_calls c i = Some (Peeking k m)"
    have le: "peek_min Q k (run_seq c) m \<le> now"
      using m by (auto simp: peek_min_def min_def split: option.splits)
    from peeking_step [OF s pk] show ?thesis
    proof
      assume "run_calls c' i = Some (Peeking k m)"
      with m cov' show ?thesis by blast
    next
      assume r: "run_calls c' i = Some (Popping (Suc k) (peek_min Q k (run_seq c) m)) \<and>
        run_seq c' = run_seq c \<and> run_live c' = run_live c"
      have "min_covers Q X (Suc k) (peek_min Q k (run_seq c) m) c'"
        using min_covers_peek [OF inv cov] r by (simp add: min_covers_def)
      with r le show ?thesis by blast
    qed
  qed
  moreover have "in_flight c' \<subseteq> insert (clock (run_seq c)) (in_flight c)" "run_inv Q c'"
    "clock (run_seq c) \<le> clock (run_seq c')"
    using keeps by (simp_all add: step_keeps_def)
  ultimately show ?thesis using X now unfolding min_progress_def by (auto dest: order_trans)
qed

lemma min_progress_start:
  assumes "run_inv Q c"
  shows "min_progress Q i (seq_now (run_seq c)) (in_flight c) (start_min i c)"
proof -
  have "in_flight (start_min i c) \<subseteq> in_flight c" unfolding in_flight_def start_min_def by (auto split: if_splits)
  moreover have "run_inv Q (start_min i c)" using assms by (auto simp: run_inv_def start_min_def split: if_splits)
  moreover have "min_covers Q (in_flight c) 0 (seq_now (run_seq c)) (start_min i c)"
    unfolding min_covers_def
  proof
    fix t assume "t \<in> set (run_live (start_min i c))"
    with run_invD(2) [OF assms] have "t \<in> set (entries_of Q (run_seq c))"
      by (auto simp: seq_inv_def start_min_def)
    then show "seq_now (run_seq c) \<le> e_instant t \<or> e_instant t \<in> in_flight c \<or>
      (\<exists>j\<ge>0. j < length (sharded_entry_list (run_seq (start_min i c))) \<and>
         t \<in> set (q_list Q (sharded_entry_list (run_seq (start_min i c)) ! j)))"
      by (auto simp: entries_of_nth start_min_def)
  qed
  ultimately show ?thesis by (auto simp: min_progress_def start_min_def seq_now_def)
qed

text \<open>After the call: the minimum stays below every tracker but those of the candidates in flight.\<close>

lemma watermark_run:
  assumes "(seq_step Q)\<^sup>*\<^sup>* c c'" and "run_inv Q c" and "m \<le> clock (run_seq c)"
    and "\<forall>candidate \<in> in_flight c. m \<le> candidate \<or> candidate \<in> X"
    and "\<forall>t \<in> set (run_live c). m \<le> e_instant t \<or> e_instant t \<in> X"
  shows "run_inv Q c' \<and> m \<le> clock (run_seq c') \<and> (\<forall>candidate \<in> in_flight c'. m \<le> candidate \<or> candidate \<in> X) \<and>
    (\<forall>t \<in> set (run_live c'). m \<le> e_instant t \<or> e_instant t \<in> X)"
  using assms(1)
proof (induction rule: rtranclp_induct)
  case base
  with assms show ?case by blast
next
  case (step c1 c2)
  then have keeps: "step_keeps Q c1 c2" using seq_step_keeps by blast
  have "m \<le> e_instant t \<or> e_instant t \<in> X" if "t \<in> set (run_live c2)" for t
    using keeps that step.IH unfolding step_keeps_def by blast
  moreover have "m \<le> candidate \<or> candidate \<in> X" if "candidate \<in> in_flight c2" for candidate
    using keeps that step.IH unfolding step_keeps_def by blast
  moreover have "run_inv Q c2" "m \<le> clock (run_seq c2)"
    using keeps step.IH unfolding step_keeps_def by (auto dest: order_trans)
  ultimately show ?case by blast
qed

lemma min_call_bounds:
  assumes inv: "run_inv Q c" and call: "(call_step Q i)\<^sup>*\<^sup>* (start_min i c) c1" and m: "min_result i c1 = Some m"
  shows "m \<le> seq_now (run_seq c)"
    and "(seq_step Q)\<^sup>*\<^sup>* c1 c2 \<Longrightarrow> t \<in> set (run_live c2) \<Longrightarrow> m \<le> to_instant t \<or> to_instant t \<in> in_flight c"
proof -
  let ?now = "seq_now (run_seq c)" and ?X = "in_flight c"
  have prog: "min_progress Q i ?now ?X c1"
    using call by (induction rule: rtranclp_induct) (auto intro: min_progress_start [OF inv] min_progress_step)
  from m have k: "run_calls c1 i = Some (Popping (length (sharded_entry_list (run_seq c1))) m)"
    by (auto simp: min_result_def split: option.splits seq_call.splits if_splits)
  with prog have le: "m \<le> ?now" and cov: "min_covers Q ?X (length (sharded_entry_list (run_seq c1))) m c1"
    and p: "run_inv Q c1" "?now \<le> clock (run_seq c1)" "\<forall>candidate \<in> in_flight c1. ?now \<le> candidate \<or> candidate \<in> ?X"
    by (auto simp: min_progress_def)
  show "m \<le> ?now" by (rule le)
  assume run: "(seq_step Q)\<^sup>*\<^sup>* c1 c2" and t: "t \<in> set (run_live c2)"
  have "\<forall>t \<in> set (run_live c1). m \<le> e_instant t \<or> e_instant t \<in> ?X" using cov by (auto simp: min_covers_def)
  moreover have "\<forall>candidate \<in> in_flight c1. m \<le> candidate \<or> candidate \<in> ?X" using p(3) le by (meson order_trans)
  ultimately show "m \<le> to_instant t \<or> to_instant t \<in> ?X"
    using watermark_run [OF run p(1), of m ?X] p(2) le t by (auto simp: to_instant_def)
qed

subsection \<open>Calls that are not interrupted\<close>

text \<open>The steps of a call that no other thread interrupts add up to the operation.\<close>

lemma pop_alone:
  assumes "pop_unused Q refs q = Some q'" and "ref_cnt (run_seq c) = refs"
    and "run_calls c i = Some (Popping k m)" and "k < length (sharded_entry_list (run_seq c))"
    and "sharded_entry_list (run_seq c) ! k = q"
  shows "(call_step Q i)\<^sup>*\<^sup>* c (c\<lparr>run_seq := set_shard k q' (run_seq c), run_calls := (run_calls c)(i \<mapsto> Peeking k m)\<rparr>)"
  using assms(1) assms(2-)
proof (induction Q refs q q' arbitrary: c rule: pop_unused.raw_induct)
  case (1 pop Q refs q q')
  let ?u = "\<lambda>e. ref_cnt (run_seq c) (e_addr e) = 0"
  obtain q1 p where pop: "q_pop_if Q ?u (sharded_entry_list (run_seq c) ! k) = (q1, p)"
    by (cases "q_pop_if Q ?u (sharded_entry_list (run_seq c) ! k)")
  show ?case
  proof (cases p)
    case None
    with 1 pop have "q1 = q'" by simp
    with None pop 1 have "seq_step Q c (c\<lparr>run_seq := set_shard k q' (run_seq c), run_calls := (run_calls c)(i \<mapsto> Peeking k m)\<rparr>)"
      by (intro step_popped) auto
    then show ?thesis by (intro r_into_rtranclp, unfold call_step_def, intro conjI) simp_all
  next
    case (Some e)
    let ?c = "c\<lparr>run_seq := set_shard k q1 (run_seq c)\<rparr>"
    have "seq_step Q c ?c" using Some pop 1 by (intro step_pop) auto
    then have "call_step Q i c ?c" using 1(3-) by (simp add: call_step_def)
    moreover have "(call_step Q i)\<^sup>*\<^sup>* ?c (?c\<lparr>run_seq := set_shard k q' (run_seq ?c), run_calls := (run_calls ?c)(i \<mapsto> Peeking k m)\<rparr>)"
      by (rule 1(1)) (use Some pop 1(2-) pop_unused.simps [of Q refs q] in \<open>auto simp: set_shard_def\<close>)
    ultimately show ?thesis by (simp add: set_shard_def fun_upd_def converse_rtranclp_into_rtranclp)
  qed
qed (rule assms(1))

lemma min_alone:
  assumes "min_shards Q (ref_cnt (run_seq c)) m qs = Some (m', qs')"
    and "run_calls c i = Some (Popping (length ps) m)" and "sharded_entry_list (run_seq c) = ps @ qs"
  shows "(call_step Q i)\<^sup>*\<^sup>* c (c\<lparr>run_seq := (run_seq c)\<lparr>sharded_entry_list := ps @ qs'\<rparr>,
    run_calls := (run_calls c)(i \<mapsto> Popping (length (ps @ qs')) m')\<rparr>)"
  using assms
proof (induction qs arbitrary: c m ps qs')
  case Nil
  then have "(run_seq c)\<lparr>sharded_entry_list := ps @ qs'\<rparr> = run_seq c" "m' = m" "qs' = []" by auto
  with Nil(2) show ?case by (simp add: fun_upd_idem)
next
  case (Cons q qs)
  let ?k = "length ps"
  from Cons.prems(1) obtain q' where q': "pop_unused Q (ref_cnt (run_seq c)) q = Some q'"
    by (auto split: option.splits)
  let ?m = "case q_peek Q q' of None \<Rightarrow> m | Some e \<Rightarrow> min (e_instant e) m"
  from Cons.prems(1) q' obtain qs1 where qs1: "min_shards Q (ref_cnt (run_seq c)) ?m qs = Some (m', qs1)"
    and qs': "qs' = q' # qs1" by (auto simp: Let_def split: option.splits)
  define c1 where "c1 = c\<lparr>run_seq := set_shard ?k q' (run_seq c), run_calls := (run_calls c)(i \<mapsto> Peeking ?k m)\<rparr>"
  have shards: "sharded_entry_list (run_seq c1) = (ps @ [q']) @ qs"
    using Cons.prems(3) by (simp add: c1_def set_shard_def)
  have "(call_step Q i)\<^sup>*\<^sup>* c c1"
    unfolding c1_def by (rule pop_alone [OF q' refl Cons.prems(2)]) (use Cons.prems(3) in simp_all)
  moreover define c2 where "c2 = c1\<lparr>run_calls := (run_calls c1)(i \<mapsto> Popping (Suc ?k) (peek_min Q ?k (run_seq c1) m))\<rparr>"
  have "seq_step Q c1 c2" unfolding c2_def by (rule step_peek) (simp add: c1_def)
  then have "call_step Q i c1 c2" by (simp add: call_step_def c2_def)
  moreover have pm: "peek_min Q ?k (run_seq c1) m = ?m" using shards by (simp add: peek_min_def nth_append)
  have "(call_step Q i)\<^sup>*\<^sup>* c2 (c2\<lparr>run_seq := (run_seq c2)\<lparr>sharded_entry_list := (ps @ [q']) @ qs1\<rparr>,
    run_calls := (run_calls c2)(i \<mapsto> Popping (length ((ps @ [q']) @ qs1)) m')\<rparr>)"
    by (rule Cons.IH [of _ ?m]) (use qs1 shards pm in \<open>simp_all add: c2_def c1_def set_shard_def\<close>)
  moreover have "c2\<lparr>run_seq := (run_seq c2)\<lparr>sharded_entry_list := (ps @ [q']) @ qs1\<rparr>,
      run_calls := (run_calls c2)(i \<mapsto> Popping (length ((ps @ [q']) @ qs1)) m')\<rparr> =
    c\<lparr>run_seq := (run_seq c)\<lparr>sharded_entry_list := ps @ qs'\<rparr>, run_calls := (run_calls c)(i \<mapsto> Popping (length (ps @ qs')) m')\<rparr>"
    by (simp add: c2_def c1_def qs' set_shard_def)
  ultimately show ?case by (metis (no_types, lifting) rtranclp.rtrancl_into_rtrancl rtranclp_trans)
qed

lemma seq_min_alone:
  assumes "seq_min Q (run_seq c) = Some (s', m)" and "run_calls c i = None"
  shows "\<exists>c'. (call_step Q i)\<^sup>*\<^sup>* (start_min i c) c' \<and> min_result i c' = Some m \<and>
    run_seq c' = s' \<and> run_live c' = run_live c \<and> run_calls c' = (run_calls c)(i := run_calls c' i)"
proof -
  obtain qs where qs: "min_shards Q (ref_cnt (run_seq c)) (seq_now (run_seq c)) (sharded_entry_list (run_seq c)) = Some (m, qs)"
    and s': "s' = (run_seq c)\<lparr>sharded_entry_list := qs\<rparr>"
    using assms(1) by (auto simp: seq_min_def split: option.splits)
  let ?c' = "(start_min i c)\<lparr>run_seq := s', run_calls := (run_calls c)(i \<mapsto> Popping (length qs) m)\<rparr>"
  have "(call_step Q i)\<^sup>*\<^sup>* (start_min i c) ?c'"
    using min_alone [of Q "start_min i c" "seq_now (run_seq c)" "sharded_entry_list (run_seq c)" m qs i "[]"] qs s'
    by (simp add: start_min_def)
  moreover have "min_result i ?c' = Some m" by (simp add: min_result_def s')
  ultimately show ?thesis by (intro exI [of _ ?c']) (simp add: start_min_def)
qed

lemma seq_track_alone:
  assumes "track_push Q (h mod length (sharded_entry_list (run_seq c))) (clock (run_seq c)) (run_seq c) = (s', Some t)"
    and "run_calls c i = None" and "sharded_entry_list (run_seq c) \<noteq> []" and "Suc (length (run_live c)) < 2 ^ 64"
  shows "(seq_step Q)\<^sup>*\<^sup>* c (c\<lparr>run_seq := s', run_live := t # run_live c\<rparr>)"
proof -
  let ?k = "h mod length (sharded_entry_list (run_seq c))"
  define c1 where "c1 = c\<lparr>run_calls := (run_calls c)(i \<mapsto> Reading ?k)\<rparr>"
  define c2 where "c2 = c1\<lparr>run_calls := (run_calls c1)(i \<mapsto> Publishing ?k (seq_now (run_seq c1)))\<rparr>"
  have "seq_step Q c c1" unfolding c1_def by (rule step_track) (use assms in simp_all)
  moreover have "seq_step Q c1 c2" unfolding c2_def by (rule step_candidate) (simp add: c1_def)
  moreover have "seq_step Q c2 (c2\<lparr>run_seq := s', run_live := t # run_live c2, run_calls := (run_calls c2)(i := None)\<rparr>)"
    by (rule step_publish) (use assms in \<open>simp_all add: c1_def c2_def seq_now_def\<close>)
  moreover have "c2\<lparr>run_seq := s', run_live := t # run_live c2, run_calls := (run_calls c2)(i := None)\<rparr> =
      c\<lparr>run_seq := s', run_live := t # run_live c\<rparr>"
    using assms(2) by (simp add: c1_def c2_def fun_upd_idem)
  ultimately show ?thesis by (metis (no_types, lifting) converse_rtranclp_into_rtranclp rtranclp.rtrancl_refl)
qed

lemma no_tracker_min:
  assumes inv: "tracked_inv Q s []"
  shows "\<exists>s'. seq_min Q s = Some (s', seq_now s) \<and>
    length (sharded_entry_list s') = length (sharded_entry_list s) \<and>
    (\<forall>q \<in> set (sharded_entry_list s'). q_list Q q = [])"
proof -
  have Q: "scc_queue_laws Q" and si: "seq_inv Q s []" using inv by (simp_all add: tracked_inv_def)
  have unused: "ref_cnt s (e_addr e) = 0" if "q \<in> set (sharded_entry_list s)" "e \<in> set (q_list Q q)" for q e
    using si that by (auto simp: seq_inv_def entries_of_def unat_eq_0)
  obtain m qs where min: "min_shards Q (ref_cnt s) (clock s) (sharded_entry_list s) = Some (m, qs)"
    and qs: "map (q_list Q) qs =
      map (\<lambda>q. dropWhile (\<lambda>e. ref_cnt s (e_addr e) = 0) (q_list Q q)) (sharded_entry_list s)"
    and m: "m = clock s \<or> (\<exists>q \<in> set (sharded_entry_list s). \<exists>e \<in> set (q_list Q q).
          ref_cnt s (e_addr e) \<noteq> 0 \<and> m = e_instant e)"
    using min_shards_returns [OF Q, of "ref_cnt s" "clock s" "sharded_entry_list s"]
    by (elim exE conjE) (rule that)
  have "q_list Q q = []" if "q \<in> set qs" for q
  proof -
    from that have "q_list Q q \<in> set (map (q_list Q) qs)" by simp
    then show ?thesis unfolding qs using unused by auto
  qed
  moreover have "length qs = length (sharded_entry_list s)"
    using qs by (metis length_map)
  moreover have "m = clock s" using m unused by auto
  ultimately show ?thesis using min by (auto simp: seq_min_def seq_now_def)
qed

section \<open>Properties\<close>


text \<open>A reader tracks the initial instant while another thread, at the same instant, takes the minimum.\<close>

lemma reader_run:
  "\<exists>s' t. (seq_step (list_queue :: (entry list) entry_queue))\<^sup>*\<^sup>* (initial_run list_queue 2)
     \<lparr>run_seq = s', run_live = [t], run_calls = (\<lambda>_. None)\<rparr> \<and> to_instant t = 1 \<and> seq_now s' = 1"
proof -
  let ?Q = "list_queue :: (entry list) entry_queue" and ?c = "initial_run (list_queue :: (entry list) entry_queue) 2"
  note inv = initial_run_inv [OF list_queue_laws, of 2]
  obtain s' t where "track_push ?Q (0 mod length (sharded_entry_list (run_seq ?c))) (clock (run_seq ?c)) (run_seq ?c) = (s', Some t)"
    and "clock s' = clock (run_seq ?c)" "e_instant t = clock (run_seq ?c)"
    using seq_track_returns [OF list_queue_laws run_invD(2) [OF inv], of 0] by (auto simp: initial_run_def)
  moreover from seq_track_alone [OF this(1), of 0]
  have "(seq_step ?Q)\<^sup>*\<^sup>* ?c (?c\<lparr>run_seq := s', run_live := t # run_live ?c\<rparr>)"
    by (simp add: initial_run_def default_sequencer_def)
  ultimately show ?thesis
    by (intro exI [of _ s'] exI [of _ t]) (simp add: initial_run_def default_sequencer_def to_instant_def seq_now_def)
qed


text \<open>
  \<^verbatim>\<open>min\<close> is exactly the oldest tracked instant, or the current instant if nothing is tracked,
  and leaves the clock and the trackers as they are.
\<close>

theorem min_exact:
  assumes "scc_queue_laws Q" and "seq_inv Q s live"
  shows "\<exists>s'. seq_min Q s = Some (s', Min (insert (seq_now s) (to_instant ` set live))) \<and>
    seq_inv Q s' live \<and> seq_now s' = seq_now s"
proof -
  obtain s' m where min: "seq_min Q s = Some (s', m)" "seq_inv Q s' live" "clock s' = clock s"
    and m: "m \<le> clock s" "\<forall>t \<in> set live. m \<le> e_instant t"
      "m = clock s \<or> (\<exists>t \<in> set live. m = e_instant t)"
    using seq_min_returns [OF assms] by blast
  have "m = Min (insert (seq_now s) (to_instant ` set live))"
    by (rule sym, rule Min_eqI) (use m in \<open>auto simp: seq_now_def to_instant_def\<close>)
  with min show ?thesis by (simp add: seq_now_def)
qed

theorem min_exact_witness:
  "\<exists>s'. seq_min list_queue (default_sequencer (list_queue :: (entry list) entry_queue) 2) = Some (s', 1) \<and>
    seq_inv list_queue s' [] \<and> seq_now s' = 1"
  using min_exact [OF list_queue_laws seq_inv_default [OF list_queue_laws, of 2]]
  by (simp add: seq_now_def default_sequencer_def)

text \<open>
  \<^verbatim>\<open>track\<close> returns for every thread, the tracker carries the current instant, the clock does
  not move, and the entry is accounted for in the reference counters; dropping that tracker
  restores a consistent sequencer.
\<close>

theorem track_current_instant:
  assumes "scc_queue_laws Q" and "seq_inv Q s live" and "Suc (length live) < 2 ^ 64"
  shows "\<exists>s' t. seq_track Q h s = Some (Done (s', t)) \<and> to_instant t = seq_now s \<and>
    seq_now s' = seq_now s \<and> seq_inv Q s' (t # live) \<and> seq_inv Q (drop_tracker t s') live"
proof -
  obtain s' t where t: "seq_track Q h s = Some (Done (s', t))" "seq_inv Q s' (t # live)"
    "clock s' = clock s" "e_instant t = clock s"
    using seq_track_returns [OF assms] by blast
  from seq_inv_drop [OF t(2), of t] t show ?thesis by (auto simp: seq_now_def to_instant_def)
qed

theorem track_current_instant_witness:
  "\<exists>s' t. seq_track list_queue 7 (default_sequencer (list_queue :: (entry list) entry_queue) 2)
       = Some (Done (s', t)) \<and>
    to_instant t = 1 \<and> seq_now s' = 1 \<and> seq_inv list_queue s' [t] \<and>
    seq_inv list_queue (drop_tracker t s') []"
  using track_current_instant [OF list_queue_laws seq_inv_default [OF list_queue_laws, of 2], of 7]
  by (simp add: seq_now_def default_sequencer_def)

text \<open>
  \<^verbatim>\<open>update\<close> reads the clock once, before its loop. If another thread moves the clock between
  that read and the first exchange, and the clock never goes back, \<^verbatim>\<open>update\<close> with a newer value
  never returns.
\<close>

theorem update_diverges_under_contention:
  assumes "current < new_value" and "current < seen 0" and "\<forall>i j. i \<le> j \<longrightarrow> seen i \<le> seen j"
  shows "update_loop seen current new_value = None"
  unfolding update_loop_def
proof (rule rust_loop_diverges [where I = "\<lambda>_. True"])
  fix n :: nat
  have "seen 0 \<le> seen n" using assms(3) by simp
  with assms(1,2) show "\<exists>n'. update_body seen current new_value n = returns (n', Again) \<and> True"
    by (auto simp: update_body_def)
qed simp

theorem update_diverges_under_contention_witness:
  "update_loop (\<lambda>_. 6) 5 9 = None"
  by (rule update_diverges_under_contention) simp_all

text \<open>
  \<^verbatim>\<open>track\<close> reads the clock before it publishes its entry. When the clock advances and
  \<^verbatim>\<open>min\<close> runs in between, the tracker that is then returned is older than that minimum.
\<close>

theorem track_min_race:
  assumes "scc_queue_laws Q" and "seq_inv Q s []" and "seq_now s \<noteq> - 1"
    and "shard_id < length (sharded_entry_list s)"
  shows "\<exists>s2 m s3 t. seq_min Q (fst (seq_advance s)) = Some (s2, m) \<and>
    track_push Q shard_id (seq_now s) s2 = (s3, Some t) \<and> to_instant t < m"
proof -
  let ?s1 = "fst (seq_advance s)"
  have inv: "tracked_inv Q s []" using assms by (simp add: tracked_inv_def)
  from monotonic.advance_law [OF inv assms(3)]
  have inv1: "tracked_inv Q ?s1 []" and lt: "seq_now s < seq_now ?s1" by auto
  obtain s2 where min: "seq_min Q ?s1 = Some (s2, seq_now ?s1)"
    and len: "length (sharded_entry_list s2) = length (sharded_entry_list s)"
    and "\<forall>q \<in> set (sharded_entry_list s2). q_list Q q = []"
    using no_tracker_min [OF inv1] by (auto simp: seq_advance_def)
  then have empty: "q_list Q (sharded_entry_list s2 ! shard_id) = []" using assms(4) by simp
  let ?e = "\<lparr>e_addr = next_addr s2, e_instant = seq_now s\<rparr>"
  obtain q' pushed r where push: "q_push_if Q ?e (track_condition (ref_cnt s2) (seq_now s))
      (sharded_entry_list s2 ! shard_id) = (q', pushed, r)"
    by (metis prod_cases3)
  have pushed using q_push_law [OF assms(1) push] empty by (simp add: track_condition_def)
  then have "track_push Q shard_id (seq_now s) s2 =
      (fst (track_push Q shard_id (seq_now s) s2), Some ?e)"
    using push by (simp add: track_push_def Let_def)
  with min lt show ?thesis by (metis entry.select_convs(2) to_instant_def)
qed

theorem track_min_race_witness:
  "\<exists>s2 m s3 t. seq_min list_queue
       (fst (seq_advance (default_sequencer (list_queue :: (entry list) entry_queue) 1))) = Some (s2, m) \<and>
    track_push list_queue 0 1 s2 = (s3, Some t) \<and> to_instant t < m"
  using track_min_race [OF list_queue_laws seq_inv_default [OF list_queue_laws, of 1], of 0]
  by (simp add: seq_now_def default_sequencer_def)

end
