(* ===== verification/Anchors.thy ===== *)
theory Anchors
  imports Sequencer
begin

text \<open>
  The data that outlives transactions and journals: the anchors of
  \<^verbatim>\<open>src/src/transaction.rs\<close> and \<^verbatim>\<open>src/src/journal.rs\<close>, the snapshots of
  \<^verbatim>\<open>src/src/snapshot.rs\<close>, the rules that decide whether a snapshot sees the changes of a
  journal and whether a journal may take over what another one owns, and the future that waits
  for the end of a transaction. Anchors are shared, so they live in an explicit heap; the address
  of an anchor is the identifier of its journal or transaction.
\<close>

section \<open>Definitions\<close>

subsection \<open>The bag of the \<open>scc\<close> crate\<close>

text \<open>
  The operations of \<^verbatim>\<open>scc::Bag\<close>. \<open>bag_content\<close> names the content for the laws; no definition
  computes with it.
\<close>

record ('b, 'e) bag_of =
  bag_empty :: "'b"
  bag_push :: "'e \<Rightarrow> 'b \<Rightarrow> 'b"
  bag_pop :: "'b \<Rightarrow> 'b \<times> 'e option"
  bag_content :: "'b \<Rightarrow> 'e multiset"

type_synonym 'b scc_bag = "('b, waker) bag_of"

definition scc_bag_laws :: "('b, 'e) bag_of \<Rightarrow> bool" where
  "scc_bag_laws B \<longleftrightarrow>
     bag_content B (bag_empty B) = {#} \<and>
     (\<forall>w b. bag_content B (bag_push B w b) = add_mset w (bag_content B b)) \<and>
     (\<forall>b. case bag_pop B b of
            (b', None) \<Rightarrow> bag_content B b = {#} \<and> bag_content B b' = {#}
          | (b', Some w) \<Rightarrow> bag_content B b = add_mset w (bag_content B b'))"

text \<open>A bag kept as a list, for evaluating the model.\<close>

definition list_bag :: "('e list, 'e) bag_of" where
  "list_bag =
     \<lparr>bag_empty = [], bag_push = (#),
      bag_pop = (\<lambda>b. case b of [] \<Rightarrow> ([], None) | w # ws \<Rightarrow> (ws, Some w)),
      bag_content = mset\<rparr>"

subsection \<open>Anchors\<close>

datatype tx_state = Active | Committing | Committed | RollingBack | RolledBack

text \<open>The integer that represents a state in the anchor.\<close>

fun state_to_usize :: "tx_state \<Rightarrow> nat" where
  "state_to_usize Active = 0"
| "state_to_usize Committing = 1"
| "state_to_usize Committed = 2"
| "state_to_usize RollingBack = 3"
| "state_to_usize RolledBack = 4"

record 'b tx_anchor =
  ta_state :: tx_state
  ta_prepare_instant :: u64
  ta_commit_instant :: u64
  waiting_readers :: "'b"

definition tx_anchor_new :: "'b scc_bag \<Rightarrow> 'b tx_anchor" where
  "tx_anchor_new B =
     \<lparr>ta_state = Active, ta_prepare_instant = 0, ta_commit_instant = 0,
      waiting_readers = bag_empty B\<rparr>"

definition prepare_instant :: "'b tx_anchor \<Rightarrow> u64 option" where
  "prepare_instant a =
     (let state = ta_state a
      in if state = Committing \<or> state = Committed \<or> state = RollingBack \<or> state = RolledBack
         then Some (ta_prepare_instant a) else None)"

definition eot_instant :: "'b tx_anchor \<Rightarrow> u64 option" where
  "eot_instant a =
     (let state = ta_state a
      in if state = Committed \<or> state = RolledBack then Some (ta_commit_instant a) else None)"

record journal_anchor =
  ja_transaction :: transaction_id
  ja_creation_instant :: "u32 option"
  ja_submit_instant :: u32
  ja_submitted :: bool
  ja_rolled_back :: bool
  ja_wake_up_others :: bool
  ja_next :: "journal_id option"

definition anchor_new :: "transaction_id \<Rightarrow> u32 option \<Rightarrow> journal_anchor" where
  "anchor_new transaction_anchor creation_instant =
     \<lparr>ja_transaction = transaction_anchor, ja_creation_instant = creation_instant,
      ja_submit_instant = 0, ja_submitted = False, ja_rolled_back = False,
      ja_wake_up_others = False, ja_next = None\<rparr>"

subsection \<open>The heap and the task channel\<close>

datatype task =
    Shutdown
  | WakeUp time waker
  | MonitorContainer string
  | MonitorObject object_id
  | ScanAccessController

text \<open>
  \<^verbatim>\<open>AccessRequestResult\<close>: the answer to an access request and the waker to invoke when it is out,
  behind a mutex that may be poisoned. Requests refer to it by its address.
\<close>

record result_cell =
  rc_result :: "bool result option"
  rc_waker :: "waker option"
  rc_poisoned :: bool

text \<open>
  The anchors, the result cells, the bounded channel to the task processor, and the wakers
  invoked so far.
\<close>

record 'b heap =
  tas :: "transaction_id \<Rightarrow> 'b tx_anchor"
  jas :: "journal_id \<Rightarrow> journal_anchor"
  cells :: "nat \<Rightarrow> result_cell"
  next_cell :: nat
  channel :: "task list"
  channel_capacity :: nat
  woken :: "waker list"

definition upd_ta :: "transaction_id \<Rightarrow> ('b tx_anchor \<Rightarrow> 'b tx_anchor) \<Rightarrow> 'b heap \<Rightarrow> 'b heap" where
  "upd_ta t f h = h\<lparr>tas := (tas h)(t := f (tas h t))\<rparr>"

definition upd_ja :: "journal_id \<Rightarrow> (journal_anchor \<Rightarrow> journal_anchor) \<Rightarrow> 'b heap \<Rightarrow> 'b heap" where
  "upd_ja j f h = h\<lparr>jas := (jas h)(j := f (jas h j))\<rparr>"

definition wake :: "waker \<Rightarrow> 'b heap \<Rightarrow> 'b heap" where
  "wake w h = h\<lparr>woken := woken h @ [w]\<rparr>"

text \<open>\<^verbatim>\<open>TaskProcessor::send_task\<close>: the task is dropped when the channel is full.\<close>

definition send_task :: "task \<Rightarrow> 'b heap \<Rightarrow> 'b heap \<times> bool" where
  "send_task task h =
     (if length (channel h) < channel_capacity h
      then (h\<lparr>channel := channel h @ [task]\<rparr>, True) else (h, False))"

subsection \<open>Transaction anchors: waiting for the end\<close>

definition wake_up_body :: "'b scc_bag \<Rightarrow> transaction_id \<Rightarrow> 'b heap \<Rightarrow> ('b heap \<times> unit flow) run" where
  "wake_up_body B t h =
     (case bag_pop B (waiting_readers (tas h t)) of
        (b, Some w) \<Rightarrow> returns (wake w (upd_ta t (\<lambda>a. a\<lparr>waiting_readers := b\<rparr>) h), Again)
      | (b, None) \<Rightarrow> returns (upd_ta t (\<lambda>a. a\<lparr>waiting_readers := b\<rparr>) h, Return ()))"

definition wake_up :: "'b scc_bag \<Rightarrow> transaction_id \<Rightarrow> 'b heap \<Rightarrow> 'b heap run" where
  "wake_up B t h = bind_run (rust_loop (wake_up_body B t) h) (\<lambda>(h', _). returns h')"

definition wait_eot ::
  "'b scc_bag \<Rightarrow> transaction_id \<Rightarrow> waker \<Rightarrow> 'b heap \<Rightarrow> ('b heap \<times> u64 option) run" where
  "wait_eot B t w h =
     (let h1 = upd_ta t (\<lambda>a. a\<lparr>waiting_readers := bag_push B w (waiting_readers a)\<rparr>) h
      in case eot_instant (tas h1 t) of
           Some commit_instant \<Rightarrow>
             bind_run (wake_up B t h1) (\<lambda>h2. returns (h2, Some commit_instant))
         | None \<Rightarrow> returns (h1, None))"

datatype 'a poll = Pending | Ready 'a

record await_eot =
  ae_transaction :: transaction_id
  ae_task_processor :: nat
  ae_deadline :: time

text \<open>\<^verbatim>\<open>AwaitEOT::poll\<close> at the wall-clock instant \<open>now\<close>, by a task with the waker \<open>w\<close>.\<close>

definition await_eot_poll ::
  "'b scc_bag \<Rightarrow> time \<Rightarrow> waker \<Rightarrow> await_eot \<Rightarrow> 'b heap \<Rightarrow> ('b heap \<times> unit result poll) run" where
  "await_eot_poll B now w a h =
     (if eot_instant (tas h (ae_transaction a)) \<noteq> None then returns (h, Ready (Ok ()))
      else if ae_deadline a < now then returns (h, Ready (Err Timeout))
      else bind_run (wait_eot B (ae_transaction a) w h) (\<lambda>(h1, r).
        if r \<noteq> None then returns (h1, Ready (Ok ()))
        else (case send_task (WakeUp (ae_deadline a) w) h1 of
                (h2, sent) \<Rightarrow> returns (if sent then h2 else wake w h2, Pending))))"

subsection \<open>Snapshots\<close>

record transaction_snapshot =
  ts_id :: transaction_id
  ts_instant :: "u32 option"

record journal_snapshot =
  js_id :: journal_id

record snapshot =
  snap_tracker :: "tracker option"
  snap_transaction :: "transaction_snapshot option"
  snap_journal :: "journal_snapshot option"
  snap_task_processor :: nat

definition database_snapshot :: "snapshot \<Rightarrow> u64" where
  "database_snapshot s = (case snap_tracker s of None \<Rightarrow> 0 | Some t \<Rightarrow> to_instant t)"

text \<open>\<^verbatim>\<open>a <= b\<close> through \<^verbatim>\<open>TransactionSnapshot::partial_cmp\<close>.\<close>

definition transaction_snapshot_le :: "transaction_snapshot \<Rightarrow> transaction_snapshot \<Rightarrow> bool" where
  "transaction_snapshot_le a b =
     (if ts_id a \<noteq> ts_id b then False else option_le (ts_instant a) (ts_instant b))"

definition or_else :: "'a option \<Rightarrow> 'a option \<Rightarrow> 'a option" where
  "or_else a b = (case a of None \<Rightarrow> b | Some x \<Rightarrow> Some x)"

definition combine :: "snapshot \<Rightarrow> snapshot \<Rightarrow> snapshot" where
  "combine self other =
     (if snap_task_processor self \<noteq> snap_task_processor other then self
      else \<lparr>snap_tracker = or_else (snap_tracker self) (snap_tracker other),
            snap_transaction = or_else (snap_transaction self) (snap_transaction other),
            snap_journal = or_else (snap_journal self) (snap_journal other),
            snap_task_processor = snap_task_processor self\<rparr>)"

definition from_database ::
  "'q entry_queue \<Rightarrow> nat \<Rightarrow> nat \<Rightarrow> 'q monotonic_u64 \<Rightarrow> ('q monotonic_u64 \<times> snapshot) run" where
  "from_database Q thread_hash tp s =
     bind_run (seq_track Q thread_hash s) (\<lambda>(s', tracker).
       returns (s', \<lparr>snap_tracker = Some tracker, snap_transaction = None, snap_journal = None,
                     snap_task_processor = tp\<rparr>))"

definition from_transaction :: "nat \<Rightarrow> transaction_snapshot \<Rightarrow> snapshot" where
  "from_transaction tp ts =
     \<lparr>snap_tracker = None, snap_transaction = Some ts, snap_journal = None, snap_task_processor = tp\<rparr>"

definition from_journal :: "nat \<Rightarrow> journal_snapshot \<Rightarrow> snapshot" where
  "from_journal tp js =
     \<lparr>snap_tracker = None, snap_transaction = None, snap_journal = Some js, snap_task_processor = tp\<rparr>"

subsection \<open>Journal anchors\<close>

definition ja_eot_instant :: "'b heap \<Rightarrow> journal_id \<Rightarrow> u64 option" where
  "ja_eot_instant h j = eot_instant (tas h (ja_transaction (jas h j)))"

definition is_rolled_back :: "'b heap \<Rightarrow> journal_id \<Rightarrow> bool" where
  "is_rolled_back h j = ja_rolled_back (jas h j)"

definition is_terminated :: "'b heap \<Rightarrow> journal_id \<Rightarrow> bool" where
  "is_terminated h j \<longleftrightarrow> ja_eot_instant h j \<noteq> None \<or> is_rolled_back h j"

definition submit_instant :: "journal_anchor \<Rightarrow> u32 option" where
  "submit_instant a = nonzero (ja_submit_instant a)"

definition grant_read_access ::
  "'b heap \<Rightarrow> journal_id \<Rightarrow> snapshot \<Rightarrow> time option \<Rightarrow> await_eot + bool" where
  "grant_read_access h j snapshot deadline =
     (let a = jas h j; ta = tas h (ja_transaction a) in
      if (case snap_journal snapshot of Some js \<Rightarrow> js_id js = j | None \<Rightarrow> False) then Inr True
      else if (case snap_transaction snapshot of
                 Some ts \<Rightarrow> submit_instant a \<noteq> None \<and>
                   transaction_snapshot_le
                     \<lparr>ts_id = ja_transaction a, ts_instant = submit_instant a\<rparr> ts
               | None \<Rightarrow> False) then Inr True
      else case eot_instant ta of
             Some eot \<Rightarrow>
               if is_rolled_back h j then Inr False
               else Inr (eot \<noteq> 0 \<and> eot \<le> database_snapshot snapshot)
           | None \<Rightarrow>
               (case prepare_instant ta of
                  Some prep \<Rightarrow>
                    if prep \<noteq> 0 \<and> database_snapshot snapshot \<le> prep then Inr False
                    else (case deadline of
                            Some d \<Rightarrow> Inl \<lparr>ae_transaction = ja_transaction a,
                                          ae_task_processor = snap_task_processor snapshot,
                                          ae_deadline = d\<rparr>
                          | None \<Rightarrow> Inr False)
                | None \<Rightarrow> Inr False))"

datatype relationship =
    RelCommitted u64
  | RelRolledBack
  | Linearizable
  | Concurrent
  | Unknown

definition grant_write_access :: "'b heap \<Rightarrow> journal_id \<Rightarrow> journal_id \<Rightarrow> relationship" where
  "grant_write_access h self anchor =
     (if self = anchor then Linearizable
      else case ja_eot_instant h self of
             Some eot \<Rightarrow> if eot = 0 \<or> is_rolled_back h self then RelRolledBack else RelCommitted eot
           | None \<Rightarrow>
               if ja_transaction (jas h self) = ja_transaction (jas h anchor) then
                 if (case submit_instant (jas h self) of
                       None \<Rightarrow> False
                     | Some i \<Rightarrow> (case ja_creation_instant (jas h anchor) of
                                   None \<Rightarrow> False | Some c \<Rightarrow> i \<le> c))
                 then (if ja_submitted (jas h self) then Linearizable else Unknown)
                 else if is_rolled_back h self then RelRolledBack
                 else Concurrent
               else if is_rolled_back h self then RelRolledBack
               else Unknown)"

definition set_wake_up_others :: "journal_id \<Rightarrow> 'b heap \<Rightarrow> 'b heap" where
  "set_wake_up_others j = upd_ja j (\<lambda>a. a\<lparr>ja_wake_up_others := True\<rparr>)"

text \<open>\<^verbatim>\<open>set_next\<close> returns the previous successor and the new submit instant.\<close>

definition set_next ::
  "journal_id \<Rightarrow> journal_id option \<Rightarrow> 'b heap \<Rightarrow> 'b heap \<times> journal_id option \<times> u32" where
  "set_next j nxt h =
     (let new_submit_instant =
            (case (case nxt of None \<Rightarrow> None | Some n \<Rightarrow> submit_instant (jas h n)) of
               None \<Rightarrow> 1 | Some i \<Rightarrow> saturating_succ i)
      in (upd_ja j (\<lambda>a. a\<lparr>ja_submit_instant := new_submit_instant, ja_next := nxt\<rparr>) h,
          ja_next (jas h j), new_submit_instant))"

definition set_submit_instant :: "journal_id \<Rightarrow> u32 \<Rightarrow> 'b heap \<Rightarrow> 'b heap" where
  "set_submit_instant j i = upd_ja j (\<lambda>a. a\<lparr>ja_submit_instant := i\<rparr>)"

definition anchor_wake_up_others :: "journal_id \<Rightarrow> 'b heap \<Rightarrow> 'b heap" where
  "anchor_wake_up_others j h =
     (if ja_wake_up_others (jas h j) then fst (send_task ScanAccessController h) else h)"

definition anchor_submit :: "journal_id \<Rightarrow> 'b heap \<Rightarrow> 'b heap" where
  "anchor_submit j h = anchor_wake_up_others j (upd_ja j (\<lambda>a. a\<lparr>ja_submitted := True\<rparr>) h)"

definition anchor_commit :: "journal_id \<Rightarrow> 'b heap \<Rightarrow> 'b heap" where
  "anchor_commit j h = anchor_wake_up_others j h"

definition anchor_rollback :: "journal_id \<Rightarrow> 'b heap \<Rightarrow> 'b heap" where
  "anchor_rollback j h = anchor_wake_up_others j (upd_ja j (\<lambda>a. a\<lparr>ja_rolled_back := True\<rparr>) h)"

subsection \<open>Reference definitions\<close>

text \<open>
  What a snapshot of the database is meant to see of a journal: the journal was kept by a
  transaction that committed no later than the snapshot.
\<close>

definition committed_by :: "'b heap \<Rightarrow> journal_id \<Rightarrow> u64 \<Rightarrow> bool" where
  "committed_by h j instant \<longleftrightarrow>
     (\<exists>eot. ja_eot_instant h j = Some eot \<and> eot \<noteq> 0 \<and> eot \<le> instant) \<and> \<not> is_rolled_back h j"

text \<open>A snapshot that only has a database instant.\<close>

definition is_database_snapshot :: "snapshot \<Rightarrow> bool" where
  "is_database_snapshot s \<longleftrightarrow> snap_transaction s = None \<and> snap_journal s = None"

text \<open>
  A heap for evaluating the model: every journal belongs to its own active transaction, with the
  journal's address as its identifier.
\<close>

definition idle_heap :: "waker list heap" where
  "idle_heap =
     \<lparr>tas = (\<lambda>_. tx_anchor_new list_bag), jas = (\<lambda>j. anchor_new j None),
      cells = (\<lambda>_. \<lparr>rc_result = None, rc_waker = None, rc_poisoned = False\<rparr>), next_cell = 0,
      channel = [], channel_capacity = 4, woken = []\<rparr>"

section \<open>Lemmas\<close>

lemma state_to_usize_inj [simp]: "state_to_usize a = state_to_usize b \<longleftrightarrow> a = b"
  by (cases a; cases b) simp_all

instantiation tx_state :: linorder
begin

definition less_eq_tx_state :: "tx_state \<Rightarrow> tx_state \<Rightarrow> bool" where
  "less_eq_tx_state a b \<longleftrightarrow> state_to_usize a \<le> state_to_usize b"

definition less_tx_state :: "tx_state \<Rightarrow> tx_state \<Rightarrow> bool" where
  "less_tx_state a b \<longleftrightarrow> state_to_usize a < state_to_usize b"

instance
  by standard (auto simp: less_eq_tx_state_def less_tx_state_def)

end

subsection \<open>Heap updates\<close>

lemma upd_ta_simps [simp]:
  "tas (upd_ta t f h) = (tas h)(t := f (tas h t))" "jas (upd_ta t f h) = jas h"
  "cells (upd_ta t f h) = cells h" "next_cell (upd_ta t f h) = next_cell h"
  "channel (upd_ta t f h) = channel h" "channel_capacity (upd_ta t f h) = channel_capacity h"
  "woken (upd_ta t f h) = woken h"
  by (simp_all add: upd_ta_def)

lemma upd_ja_simps [simp]:
  "jas (upd_ja j f h) = (jas h)(j := f (jas h j))" "tas (upd_ja j f h) = tas h"
  "cells (upd_ja j f h) = cells h" "next_cell (upd_ja j f h) = next_cell h"
  "channel (upd_ja j f h) = channel h" "channel_capacity (upd_ja j f h) = channel_capacity h"
  "woken (upd_ja j f h) = woken h"
  by (simp_all add: upd_ja_def)

lemma wake_simps [simp]:
  "jas (wake w h) = jas h" "tas (wake w h) = tas h" "cells (wake w h) = cells h"
  "next_cell (wake w h) = next_cell h" "channel (wake w h) = channel h"
  "channel_capacity (wake w h) = channel_capacity h" "woken (wake w h) = woken h @ [w]"
  by (simp_all add: wake_def)

lemma send_task_simps [simp]:
  "jas (fst (send_task k h)) = jas h" "tas (fst (send_task k h)) = tas h"
  "woken (fst (send_task k h)) = woken h" "cells (fst (send_task k h)) = cells h"
  "next_cell (fst (send_task k h)) = next_cell h"
  "channel_capacity (fst (send_task k h)) = channel_capacity h"
  by (simp_all add: send_task_def)

lemma anchor_wake_up_others_simps [simp]:
  "jas (anchor_wake_up_others j h) = jas h" "tas (anchor_wake_up_others j h) = tas h"
  "woken (anchor_wake_up_others j h) = woken h" "cells (anchor_wake_up_others j h) = cells h"
  by (simp_all add: anchor_wake_up_others_def)

lemma anchor_ops_simps [simp]:
  "tas (set_wake_up_others j h) = tas h" "tas (anchor_submit j h) = tas h"
  "tas (anchor_commit j h) = tas h" "tas (anchor_rollback j h) = tas h"
  "cells (set_wake_up_others j h) = cells h" "woken (set_wake_up_others j h) = woken h"
  "tas (set_submit_instant j i h) = tas h" "tas (fst (set_next j n h)) = tas h"
  "jas (set_wake_up_others j h) = (jas h)(j := (jas h j)\<lparr>ja_wake_up_others := True\<rparr>)"
  "jas (anchor_submit j h) = (jas h)(j := (jas h j)\<lparr>ja_submitted := True\<rparr>)"
  "jas (anchor_commit j h) = jas h"
  "jas (anchor_rollback j h) = (jas h)(j := (jas h j)\<lparr>ja_rolled_back := True\<rparr>)"
  "jas (set_submit_instant j i h) = (jas h)(j := (jas h j)\<lparr>ja_submit_instant := i\<rparr>)"
  by (simp_all add: set_wake_up_others_def anchor_submit_def anchor_commit_def anchor_rollback_def
      set_submit_instant_def set_next_def Let_def)

lemma eot_instant_cases [anchor_simps]:
  "eot_instant a = Some i \<longleftrightarrow> (ta_state a = Committed \<or> ta_state a = RolledBack) \<and> ta_commit_instant a = i"
  "eot_instant a = None \<longleftrightarrow> ta_state a \<noteq> Committed \<and> ta_state a \<noteq> RolledBack"
  by (auto simp: eot_instant_def Let_def)

lemma prepare_instant_cases [anchor_simps]:
  "prepare_instant a = Some i \<longleftrightarrow> ta_state a \<noteq> Active \<and> ta_prepare_instant a = i"
  "prepare_instant a = None \<longleftrightarrow> ta_state a = Active"
  by (cases "ta_state a"; auto simp: prepare_instant_def Let_def)+

subsection \<open>Terminated owners\<close>

text \<open>Two heaps that agree on everything the access rules look at.\<close>

definition same_owners :: "'b heap \<Rightarrow> 'b heap \<Rightarrow> bool" where
  "same_owners h h' \<longleftrightarrow>
     (\<forall>j. (jas h' j)\<lparr>ja_wake_up_others := True\<rparr> = (jas h j)\<lparr>ja_wake_up_others := True\<rparr>) \<and>
     (\<forall>t. eot_instant (tas h' t) = eot_instant (tas h t))"

lemma same_owners_refl [simp]: "same_owners h h"
  by (simp add: same_owners_def)

lemma same_owners_trans: "same_owners h h1 \<Longrightarrow> same_owners h1 h2 \<Longrightarrow> same_owners h h2"
  by (simp add: same_owners_def)

lemma same_owners_wake_up_others [simp]: "same_owners h (set_wake_up_others j h)"
  by (simp add: same_owners_def)

lemma same_owners_wake [simp]: "same_owners h (wake w h)"
  by (simp add: same_owners_def)

lemma same_owners_fields:
  assumes "same_owners h h'"
  shows "ja_transaction (jas h' j) = ja_transaction (jas h j)"
    and "ja_creation_instant (jas h' j) = ja_creation_instant (jas h j)"
    and "ja_submit_instant (jas h' j) = ja_submit_instant (jas h j)"
    and "ja_submitted (jas h' j) = ja_submitted (jas h j)"
    and "ja_rolled_back (jas h' j) = ja_rolled_back (jas h j)"
proof -
  from assms have eq: "(jas h' j)\<lparr>ja_wake_up_others := True\<rparr> = (jas h j)\<lparr>ja_wake_up_others := True\<rparr>"
    by (simp add: same_owners_def)
  show "ja_transaction (jas h' j) = ja_transaction (jas h j)"
    using arg_cong [OF eq, of ja_transaction] by simp
  show "ja_creation_instant (jas h' j) = ja_creation_instant (jas h j)"
    using arg_cong [OF eq, of ja_creation_instant] by simp
  show "ja_submit_instant (jas h' j) = ja_submit_instant (jas h j)"
    using arg_cong [OF eq, of ja_submit_instant] by simp
  show "ja_submitted (jas h' j) = ja_submitted (jas h j)"
    using arg_cong [OF eq, of ja_submitted] by simp
  show "ja_rolled_back (jas h' j) = ja_rolled_back (jas h j)"
    using arg_cong [OF eq, of ja_rolled_back] by simp
qed

lemma same_owners_rules:
  assumes "same_owners h h'"
  shows "ja_eot_instant h' j = ja_eot_instant h j" and "is_rolled_back h' j = is_rolled_back h j"
    and "is_terminated h' j = is_terminated h j"
    and "grant_write_access h' j k = grant_write_access h j k"
proof -
  note f = same_owners_fields [OF assms]
  have eot: "ja_eot_instant h' j = ja_eot_instant h j" for j
    using assms by (simp add: ja_eot_instant_def f same_owners_def)
  have rb: "is_rolled_back h' j = is_rolled_back h j" for j by (simp add: is_rolled_back_def f)
  show "ja_eot_instant h' j = ja_eot_instant h j" and "is_rolled_back h' j = is_rolled_back h j"
    by (rule eot, rule rb)
  show "is_terminated h' j = is_terminated h j" by (simp add: is_terminated_def eot rb)
  show "grant_write_access h' j k = grant_write_access h j k"
    unfolding grant_write_access_def submit_instant_def eot rb f ..
qed

lemma is_terminated_RolledBack:
  "grant_write_access h j k = RelRolledBack \<Longrightarrow> is_terminated h j"
  by (auto simp: grant_write_access_def is_terminated_def split: if_splits option.splits)

lemma grant_write_access_Committed:
  "grant_write_access h j k = RelCommitted i \<longleftrightarrow>
     j \<noteq> k \<and> ja_eot_instant h j = Some i \<and> i \<noteq> 0 \<and> \<not> is_rolled_back h j"
  by (auto simp: grant_write_access_def split: option.splits)

lemma is_terminated_Committed:
  "grant_write_access h j k = RelCommitted i \<Longrightarrow> is_terminated h j"
  by (simp add: grant_write_access_Committed is_terminated_def)

lemma same_transaction_Linearizable:
  "grant_write_access h j k = Linearizable \<Longrightarrow> ja_transaction (jas h j) = ja_transaction (jas h k)"
  by (auto simp: grant_write_access_def split: if_splits option.splits)

lemma Concurrent_active:
  "grant_write_access h j k = Concurrent \<Longrightarrow>
     \<not> is_terminated h j \<and> ja_transaction (jas h j) = ja_transaction (jas h k)"
  by (auto simp: grant_write_access_def is_terminated_def split: if_splits option.splits)

text \<open>An owner of another transaction that has not ended makes the requester wait.\<close>

lemma Unknown_other_transaction:
  "\<not> is_terminated h j \<Longrightarrow> ja_transaction (jas h j) \<noteq> ja_transaction (jas h k) \<Longrightarrow>
     grant_write_access h j k = Unknown"
  by (auto simp: grant_write_access_def is_terminated_def split: option.splits)

subsection \<open>Readers\<close>

lemma grant_read_access_database:
  assumes "is_database_snapshot s"
  shows "grant_read_access h j s deadline =
    (let ta = tas h (ja_transaction (jas h j)) in
     if eot_instant ta \<noteq> None then Inr (committed_by h j (database_snapshot s))
     else case deadline of
       None \<Rightarrow> Inr False
     | Some d \<Rightarrow>
         if ta_state ta = Active \<or> (ta_prepare_instant ta \<noteq> 0 \<and> database_snapshot s \<le> ta_prepare_instant ta)
         then Inr False
         else Inl \<lparr>ae_transaction = ja_transaction (jas h j),
                   ae_task_processor = snap_task_processor s, ae_deadline = d\<rparr>)"
proof (cases "eot_instant (tas h (ja_transaction (jas h j)))")
  case None
  then show ?thesis
    using assms
    by (cases "prepare_instant (tas h (ja_transaction (jas h j)))")
      (auto simp: grant_read_access_def is_database_snapshot_def Let_def prepare_instant_cases
        split: option.splits)
next
  case (Some eot)
  then show ?thesis
    using assms
    by (simp add: grant_read_access_def is_database_snapshot_def Let_def committed_by_def
        ja_eot_instant_def)
qed

subsection \<open>Waking up readers\<close>

lemma list_bag_laws: "scc_bag_laws list_bag"
  by (auto simp: scc_bag_laws_def list_bag_def split: list.splits)

lemma bag_pop_law:
  assumes "scc_bag_laws B" and "bag_pop B b = (b', w)"
  shows "bag_content B b = (case w of None \<Rightarrow> {#} | Some x \<Rightarrow> add_mset x (bag_content B b'))"
    and "w = None \<Longrightarrow> bag_content B b' = {#}"
proof -
  from assms(1) have "case bag_pop B b of
            (b', None) \<Rightarrow> bag_content B b = {#} \<and> bag_content B b' = {#}
          | (b', Some w) \<Rightarrow> bag_content B b = add_mset w (bag_content B b')"
    by (simp only: scc_bag_laws_def)
  with assms(2) show "bag_content B b = (case w of None \<Rightarrow> {#} | Some x \<Rightarrow> add_mset x (bag_content B b'))"
    and "w = None \<Longrightarrow> bag_content B b' = {#}"
    by (auto split: option.splits)
qed

text \<open>
  \<^verbatim>\<open>wake_up\<close> returns, has invoked every waker of the bag exactly once and left it empty, and
  changes nothing else.
\<close>

lemma wake_up_returns:
  fixes B :: "'b scc_bag" and h :: "'b heap"
  assumes B: "scc_bag_laws B"
  shows "\<exists>ws b. wake_up B t h = returns (upd_ta t (\<lambda>a. a\<lparr>waiting_readers := b\<rparr>) h\<lparr>woken := woken h @ ws\<rparr>) \<and>
    mset ws = bag_content B (waiting_readers (tas h t)) \<and> bag_content B b = {#}"
proof -
  define P where "P = (\<lambda>h :: 'b heap. \<exists>ws b. rust_loop (wake_up_body B t) h =
      returns (upd_ta t (\<lambda>a. a\<lparr>waiting_readers := b\<rparr>) h\<lparr>woken := woken h @ ws\<rparr>, ()) \<and>
    mset ws = bag_content B (waiting_readers (tas h t)) \<and> bag_content B b = {#})"
  have "P h"
  proof (induction "size (bag_content B (waiting_readers (tas h t)))" arbitrary: h rule: less_induct)
    case less
    obtain b w where pop: "bag_pop B (waiting_readers (tas h t)) = (b, w)" by fastforce
    show ?case
    proof (cases w)
      case None
      with bag_pop_law [OF B pop] pop show ?thesis
        by (auto simp: P_def rust_loop.simps wake_up_body_def intro!: exI [of _ "[]"] exI [of _ b])
    next
      case (Some x)
      let ?h = "wake x (upd_ta t (\<lambda>a. a\<lparr>waiting_readers := b\<rparr>) h)"
      have "P ?h" by (rule less) (use bag_pop_law(1) [OF B pop] Some in simp)
      then obtain ws b' where IH: "rust_loop (wake_up_body B t) ?h =
          returns (upd_ta t (\<lambda>a. a\<lparr>waiting_readers := b'\<rparr>) ?h\<lparr>woken := woken ?h @ ws\<rparr>, ())"
        "mset ws = bag_content B b" "bag_content B b' = {#}"
        by (auto simp: P_def)
      have "rust_loop (wake_up_body B t) h = rust_loop (wake_up_body B t) ?h"
        by (subst rust_loop.simps) (simp add: wake_up_body_def pop Some)
      moreover have "upd_ta t (\<lambda>a. a\<lparr>waiting_readers := b'\<rparr>) ?h\<lparr>woken := woken ?h @ ws\<rparr> =
          upd_ta t (\<lambda>a. a\<lparr>waiting_readers := b'\<rparr>) h\<lparr>woken := woken h @ x # ws\<rparr>"
        by (simp add: upd_ta_def wake_def)
      ultimately show ?thesis
        using IH bag_pop_law(1) [OF B pop] Some
        by (auto simp: P_def intro!: exI [of _ "x # ws"] exI [of _ b'])
    qed
  qed
  then show ?thesis by (auto simp: P_def wake_up_def)
qed

lemma idle_heap_facts [simp]:
  "ja_eot_instant idle_heap j = None" "is_rolled_back idle_heap j = False"
  "is_terminated idle_heap j = False" "ja_transaction (jas idle_heap j) = j"
  by (simp_all add: idle_heap_def ja_eot_instant_def eot_instant_def tx_anchor_new_def Let_def
      is_rolled_back_def anchor_new_def is_terminated_def)

end
