(* ===== verification/Access.thy ===== *)
theory Access
  imports Anchors
begin

text \<open>
  The access controller of \<^verbatim>\<open>src/src/access_controller.rs\<close>: the states of a database object,
  ownership with wait queues and prior ownership, and every operation on them. The concurrent
  hash table of the \<^verbatim>\<open>scc\<close> crate that maps object identifiers to states is a parameter.
\<close>

section \<open>States of a database object\<close>

text \<open>
  An \<^verbatim>\<open>Owner\<close> is a pointer to a journal anchor, hence a journal identifier. A request carries
  the wall-clock instant it was made at, the requesting journal and the address of its result cell.
\<close>

datatype request =
    ReqCreate time journal_id nat
  | ReqProtect time journal_id nat
  | ReqLock time journal_id nat
  | ReqDelete time journal_id nat

type_synonym wait_queue = "request list"

text \<open>The owner set is a \<^verbatim>\<open>BTreeSet\<close> ordered by address: a strictly sorted list.\<close>

record shared_awaitable =
  sa_creation_instant :: u64
  sa_owner_set :: "journal_id list"
  sa_wait_queue :: wait_queue

text \<open>
  \<^verbatim>\<open>ExclusiveAwaitable\<close>, over the type of ownership that it can keep as the prior one.
\<close>

datatype 'o exclusive_awaitable =
  ExclusiveAwaitable
    (ea_creation_instant: u64)
    (ea_owner: journal_id)
    (ea_prior_ownership: "'o option")
    (ea_wait_queue: wait_queue)

datatype ownership =
    Created journal_id
  | CreatedAwaitable "ownership exclusive_awaitable"
  | Protected journal_id
  | ProtectedAwaitable shared_awaitable
  | Locked journal_id
  | LockedAwaitable "ownership exclusive_awaitable"
  | Deleted journal_id
  | DeletedAwaitable "ownership exclusive_awaitable"

datatype object_state =
    Owned ownership
  | CreatedAt u64
  | DeletedAt u64

section \<open>Requests and wait queues\<close>

primrec request_cell :: "request \<Rightarrow> nat" where
  "request_cell (ReqCreate _ _ c) = c"
| "request_cell (ReqProtect _ _ c) = c"
| "request_cell (ReqLock _ _ c) = c"
| "request_cell (ReqDelete _ _ c) = c"

primrec request_owner :: "request \<Rightarrow> journal_id" where
  "request_owner (ReqCreate _ j _) = j"
| "request_owner (ReqProtect _ j _) = j"
| "request_owner (ReqLock _ j _) = j"
| "request_owner (ReqDelete _ j _) = j"

definition clone_oldest :: "wait_queue \<Rightarrow> request option" where
  "clone_oldest q = (case q of [] \<Rightarrow> None | r # _ \<Rightarrow> Some r)"

definition remove_oldest :: "wait_queue \<Rightarrow> wait_queue" where
  "remove_oldest q = tl q"

definition inherit :: "wait_queue \<Rightarrow> wait_queue option \<Rightarrow> wait_queue \<times> bool" where
  "inherit self other = (let q = (case other of None \<Rightarrow> self | Some o' \<Rightarrow> self @ o') in (q, q = []))"

definition upd_cell :: "nat \<Rightarrow> (result_cell \<Rightarrow> result_cell) \<Rightarrow> 'b heap \<Rightarrow> 'b heap" where
  "upd_cell c f h = h\<lparr>cells := (cells h)(c := f (cells h c))\<rparr>"

definition set_result :: "nat \<Rightarrow> bool result \<Rightarrow> 'b heap \<Rightarrow> 'b heap" where
  "set_result c r = upd_cell c (\<lambda>rc. rc\<lparr>rc_result := Some r\<rparr>)"

text \<open>\<^verbatim>\<open>if let Some(waker) = result_waker.1.take() { waker.wake() }\<close>\<close>

definition take_waker_and_wake :: "nat \<Rightarrow> 'b heap \<Rightarrow> 'b heap" where
  "take_waker_and_wake c h =
     (case rc_waker (cells h c) of
        None \<Rightarrow> h
      | Some w \<Rightarrow> wake w (upd_cell c (\<lambda>rc. rc\<lparr>rc_waker := None\<rparr>) h))"

text \<open>\<^verbatim>\<open>Drop for WaitQueue\<close>: the requests are answered with \<^verbatim>\<open>OutOfMemory\<close>.\<close>

primrec drop_wait_queue :: "wait_queue \<Rightarrow> 'b heap \<Rightarrow> 'b heap" where
  "drop_wait_queue [] h = h"
| "drop_wait_queue (r # q) h =
     (let c = request_cell r in
      drop_wait_queue q
        (if rc_poisoned (cells h c) then h
         else take_waker_and_wake c
                (if rc_result (cells h c) = None then set_result c (Err OutOfMemory) h else h)))"

text \<open>Dropping an ownership drops the prior ownership first, then the wait queue.\<close>

function (sequential) queues_of :: "ownership \<Rightarrow> wait_queue"
  and ea_queues_of :: "ownership exclusive_awaitable \<Rightarrow> wait_queue" where
  "queues_of (CreatedAwaitable e) = ea_queues_of e"
| "queues_of (LockedAwaitable e) = ea_queues_of e"
| "queues_of (DeletedAwaitable e) = ea_queues_of e"
| "queues_of (ProtectedAwaitable s) = sa_wait_queue s"
| "queues_of (Created _) = []"
| "queues_of (Protected _) = []"
| "queues_of (Locked _) = []"
| "queues_of (Deleted _) = []"
| "ea_queues_of (ExclusiveAwaitable _ _ None q) = q"
| "ea_queues_of (ExclusiveAwaitable _ _ (Some p) q) = queues_of p @ q"
  by pat_completeness auto

termination
  by (relation "measure (case_sum size (size_exclusive_awaitable size))") simp_all

definition drop_ownership :: "ownership \<Rightarrow> 'b heap \<Rightarrow> 'b heap" where
  "drop_ownership own = drop_wait_queue (queues_of own)"

primrec drop_object_state :: "object_state \<Rightarrow> 'b heap \<Rightarrow> 'b heap" where
  "drop_object_state (Owned own) h = drop_ownership own h"
| "drop_object_state (CreatedAt _) h = h"
| "drop_object_state (DeletedAt _) h = h"

section \<open>Awaitable ownership\<close>

definition sa_with_owner :: "journal_id \<Rightarrow> shared_awaitable" where
  "sa_with_owner o' = \<lparr>sa_creation_instant = 0, sa_owner_set = [o'], sa_wait_queue = []\<rparr>"

definition sa_with_owner_and_wait_queue :: "journal_id \<Rightarrow> wait_queue \<Rightarrow> shared_awaitable" where
  "sa_with_owner_and_wait_queue o' q = \<lparr>sa_creation_instant = 0, sa_owner_set = [o'], sa_wait_queue = q\<rparr>"

definition sa_with_instant_and_owner :: "u64 \<Rightarrow> journal_id \<Rightarrow> shared_awaitable" where
  "sa_with_instant_and_owner i o' = \<lparr>sa_creation_instant = i, sa_owner_set = [o'], sa_wait_queue = []\<rparr>"

text \<open>\<^verbatim>\<open>owner_set.insert\<close>\<close>

definition sa_insert :: "journal_id \<Rightarrow> shared_awaitable \<Rightarrow> shared_awaitable" where
  "sa_insert o' s = s\<lparr>sa_owner_set := insort_insert o' (sa_owner_set s)\<rparr>"

definition ea_with_owner :: "journal_id \<Rightarrow> ownership exclusive_awaitable" where
  "ea_with_owner o' = ExclusiveAwaitable 0 o' None []"

definition ea_with_owner_and_wait_queue :: "journal_id \<Rightarrow> wait_queue \<Rightarrow> ownership exclusive_awaitable" where
  "ea_with_owner_and_wait_queue o' q = ExclusiveAwaitable 0 o' None q"

definition ea_with_instant_and_owner :: "u64 \<Rightarrow> journal_id \<Rightarrow> ownership exclusive_awaitable" where
  "ea_with_instant_and_owner i o' = ExclusiveAwaitable i o' None []"

definition ea_is_empty :: "ownership exclusive_awaitable \<Rightarrow> bool" where
  "ea_is_empty e \<longleftrightarrow> ea_prior_ownership e = None \<and> ea_wait_queue e = []"

primrec ea_set_prior_state :: "ownership exclusive_awaitable \<Rightarrow> ownership \<Rightarrow> ownership exclusive_awaitable" where
  "ea_set_prior_state (ExclusiveAwaitable i o' p q) old = ExclusiveAwaitable i o' (Some old) q"

primrec ea_set_queue :: "ownership exclusive_awaitable \<Rightarrow> wait_queue \<Rightarrow> ownership exclusive_awaitable" where
  "ea_set_queue (ExclusiveAwaitable i o' p q) q' = ExclusiveAwaitable i o' p q'"

text \<open>\<^verbatim>\<open>take_other\<close>: the new awaitable takes the prior ownership and the queue of the other.\<close>

primrec ea_take_other :: "ownership exclusive_awaitable \<Rightarrow> ownership exclusive_awaitable \<times> ownership exclusive_awaitable" where
  "ea_take_other (ExclusiveAwaitable i o' p q) =
     (ExclusiveAwaitable i o' p q, ExclusiveAwaitable i o' None [])"

definition ea_push_request :: "ownership exclusive_awaitable \<Rightarrow> request \<Rightarrow> 'b heap \<Rightarrow> 'b heap \<times> ownership exclusive_awaitable" where
  "ea_push_request e r h =
     (set_wake_up_others (ea_owner e) h, ea_set_queue e (ea_wait_queue e @ [r]))"

definition sa_push_request :: "shared_awaitable \<Rightarrow> request \<Rightarrow> 'b heap \<Rightarrow> 'b heap \<times> shared_awaitable" where
  "sa_push_request s r h =
     (foldl (\<lambda>h o'. set_wake_up_others o' h) h (sa_owner_set s),
      s\<lparr>sa_wait_queue := sa_wait_queue s @ [r]\<rparr>)"

definition try_promote_to_exclusive ::
  "'b heap \<Rightarrow> shared_awaitable \<Rightarrow> journal_id \<Rightarrow> shared_awaitable \<times> ownership exclusive_awaitable option" where
  "try_promote_to_exclusive h s new_owner =
     (if list_ex (\<lambda>o'. grant_write_access h o' new_owner \<noteq> Linearizable) (sa_owner_set s)
         \<or> sa_owner_set s = []
      then (s, None)
      else let s' = s\<lparr>sa_wait_queue := []\<rparr>
           in (s', Some (ea_set_prior_state
                     (ea_with_owner_and_wait_queue new_owner (sa_wait_queue s))
                     (ProtectedAwaitable s'))))"

definition cleanup_inactive_owners :: "'b heap \<Rightarrow> shared_awaitable \<Rightarrow> shared_awaitable \<times> bool" where
  "cleanup_inactive_owners h s =
     (let s' = s\<lparr>sa_owner_set := filter (\<lambda>o'. \<not> is_terminated h o') (sa_owner_set s)\<rparr>
      in (s', sa_owner_set s' = [] \<and> sa_wait_queue s' = []))"

text \<open>How many prior ownerships are stacked up.\<close>

function (sequential) prior_depth :: "ownership \<Rightarrow> nat"
  and ea_prior_depth :: "ownership exclusive_awaitable \<Rightarrow> nat" where
  "prior_depth (CreatedAwaitable e) = ea_prior_depth e"
| "prior_depth (LockedAwaitable e) = ea_prior_depth e"
| "prior_depth (DeletedAwaitable e) = ea_prior_depth e"
| "prior_depth (Created _) = 0"
| "prior_depth (Protected _) = 0"
| "prior_depth (ProtectedAwaitable _) = 0"
| "prior_depth (Locked _) = 0"
| "prior_depth (Deleted _) = 0"
| "ea_prior_depth (ExclusiveAwaitable _ _ None _) = 0"
| "ea_prior_depth (ExclusiveAwaitable _ _ (Some p) _) = Suc (prior_depth p)"
  by pat_completeness auto

termination
  by (relation "measure (case_sum size (size_exclusive_awaitable size))") simp_all

lemma ea_prior_depth_set_queue [simp]: "ea_prior_depth (ea_set_queue e q) = ea_prior_depth e"
  by (cases e rule: ea_prior_depth.cases) auto

lemma ea_prior_depth_fields:
  "ea_prior_ownership e = Some p \<Longrightarrow> ea_prior_depth e = Suc (prior_depth p)"
  "ea_prior_ownership e = None \<Longrightarrow> ea_prior_depth e = 0"
  by (cases e rule: ea_prior_depth.cases; simp)+

section \<open>Preparing an ownership transfer\<close>

text \<open>
  The first loop of \<^verbatim>\<open>prepare_ownership_transfer\<close> gives promoted ownership back to the prior owner
  if the promoting journal was rolled back. Replacing the wait queue of the prior ownership drops
  the queue it had.
\<close>

function revoke_promotion :: "'b heap \<Rightarrow> ownership \<Rightarrow> ('b heap \<times> ownership) outcome" where
  "revoke_promotion h own =
     (case (case own of LockedAwaitable e \<Rightarrow> Some e | DeletedAwaitable e \<Rightarrow> Some e | _ \<Rightarrow> None) of
        None \<Rightarrow> Done (h, own)
      | Some e \<Rightarrow>
          if is_rolled_back h (ea_owner e) then
            (case ea_prior_ownership e of
               None \<Rightarrow> Done (h, own)
             | Some prior_state \<Rightarrow>
                 let wait_queue = ea_wait_queue e in
                 if wait_queue \<noteq> [] then
                   (case prior_state of
                      Locked owner \<Rightarrow>
                        revoke_promotion h (LockedAwaitable (ea_with_owner_and_wait_queue owner wait_queue))
                    | LockedAwaitable e' \<Rightarrow>
                        revoke_promotion (drop_wait_queue (ea_wait_queue e') h)
                          (LockedAwaitable (ea_set_queue e' wait_queue))
                    | Protected owner \<Rightarrow>
                        revoke_promotion h
                          (ProtectedAwaitable (sa_with_owner_and_wait_queue owner wait_queue))
                    | ProtectedAwaitable s \<Rightarrow>
                        Done (drop_wait_queue (sa_wait_queue s) h,
                              ProtectedAwaitable (s\<lparr>sa_wait_queue := wait_queue\<rparr>))
                    | _ \<Rightarrow> Panic)
                 else Done (h, prior_state))
          else Done (h, own))"
  by pat_completeness auto

termination
proof (relation "measure (\<lambda>(h, own). prior_depth own)", goal_cases)
  case 1
  then show ?case by simp
qed (auto simp: ea_prior_depth_fields ea_with_owner_and_wait_queue_def split: ownership.splits)

declare revoke_promotion.simps [simp del]

text \<open>The second part turns ownership into an instant if the owner has ended.\<close>

definition settle_ownership :: "'b heap \<Rightarrow> ownership \<Rightarrow> object_state" where
  "settle_ownership h own =
     (case own of
        Created owner \<Rightarrow>
          (case ja_eot_instant h owner of
             None \<Rightarrow> Owned own
           | Some commit_instant \<Rightarrow> if commit_instant \<noteq> 0 then CreatedAt commit_instant else Owned own)
      | CreatedAwaitable e \<Rightarrow>
          if ea_is_empty e then
            (case ja_eot_instant h (ea_owner e) of
               None \<Rightarrow> Owned own
             | Some commit_instant \<Rightarrow>
                 if commit_instant = 0 then Owned (Created (ea_owner e)) else CreatedAt commit_instant)
          else Owned own
      | Protected _ \<Rightarrow> Owned own
      | ProtectedAwaitable _ \<Rightarrow> Owned own
      | Locked _ \<Rightarrow> Owned own
      | LockedAwaitable e \<Rightarrow>
          if ea_is_empty e \<and> is_terminated h (ea_owner e) then
            if ea_creation_instant e = 0 then Owned (Locked (ea_owner e))
            else CreatedAt (ea_creation_instant e)
          else Owned own
      | Deleted owner \<Rightarrow>
          (case ja_eot_instant h owner of
             None \<Rightarrow> Owned own
           | Some commit_instant \<Rightarrow> if commit_instant \<noteq> 0 then DeletedAt commit_instant else Owned own)
      | DeletedAwaitable e \<Rightarrow>
          if ea_is_empty e then
            (case ja_eot_instant h (ea_owner e) of
               None \<Rightarrow> Owned own
             | Some commit_instant \<Rightarrow>
                 if commit_instant = 0 then Owned (Deleted (ea_owner e)) else DeletedAt commit_instant)
          else Owned own)"

definition prepare_ownership_transfer ::
  "'b heap \<Rightarrow> object_state \<Rightarrow> ('b heap \<times> object_state) outcome" where
  "prepare_ownership_transfer h st =
     (case st of
        Owned own \<Rightarrow>
          (case revoke_promotion h own of
             Panic \<Rightarrow> Panic
           | Done (h', own') \<Rightarrow> Done (h', settle_ownership h' own'))
      | _ \<Rightarrow> Done (h, st))"

section \<open>Trying to obtain ownership\<close>

text \<open>
  \<^verbatim>\<open>Result<Option<bool>, Error>\<close>: \<open>Ok None\<close> means that the result will be out after waiting.
\<close>

type_synonym access_result = "bool option result"

definition try_create ::
  "'b heap \<Rightarrow> object_state \<Rightarrow> journal_id \<Rightarrow> time option \<Rightarrow>
     (('b heap \<times> object_state) \<times> access_result) outcome" where
  "try_create h st new_owner deadline =
     (case prepare_ownership_transfer h st of
        Panic \<Rightarrow> Panic
      | Done (h, st) \<Rightarrow> Done
          (case st of
             Owned own \<Rightarrow>
               (case (case own of
                        Created owner \<Rightarrow> Some (owner, False)
                      | CreatedAwaitable e \<Rightarrow> Some (ea_owner e, True)
                      | _ \<Rightarrow> None) of
                  None \<Rightarrow> ((h, st), Err SerializationFailure)
                | Some (owner, awaitable) \<Rightarrow>
                    (case grant_write_access h owner new_owner of
                       RelCommitted _ \<Rightarrow> ((h, st), Err SerializationFailure)
                     | RelRolledBack \<Rightarrow>
                         ((drop_ownership own h, Owned (Created new_owner)), Ok (Some True))
                     | Linearizable \<Rightarrow> ((h, st), Ok (Some False))
                     | Concurrent \<Rightarrow> ((h, st), Err Deadlock)
                     | Unknown \<Rightarrow>
                         if deadline \<noteq> None then
                           ((h, if awaitable then st
                                else Owned (CreatedAwaitable (ea_with_owner owner))), Ok None)
                         else ((h, st), Err SerializationFailure)))
           | _ \<Rightarrow> ((h, st), Err SerializationFailure)))"

definition augment_wait_queue :: "bool \<Rightarrow> bool \<Rightarrow> journal_id \<Rightarrow> ownership" where
  "augment_wait_queue is_created is_deleted owner =
     (if is_created then CreatedAwaitable (ea_with_owner owner)
      else if is_deleted then DeletedAwaitable (ea_with_owner owner)
      else LockedAwaitable (ea_with_owner owner))"

definition exclusive_awaitable_access_defails ::
  "ownership \<Rightarrow> (ownership exclusive_awaitable \<times> bool \<times> bool) result" where
  "exclusive_awaitable_access_defails own =
     (case own of
        CreatedAwaitable e \<Rightarrow> Ok (e, True, False)
      | LockedAwaitable e \<Rightarrow> Ok (e, False, False)
      | DeletedAwaitable e \<Rightarrow> Ok (e, False, True)
      | _ \<Rightarrow> Err WrongParameter)"

text \<open>The same distinction for ownership without a wait queue, made by three functions.\<close>

definition exclusive_owner_details :: "ownership \<Rightarrow> (journal_id \<times> bool \<times> bool) result" where
  "exclusive_owner_details own =
     (case own of
        Created owner \<Rightarrow> Ok (owner, True, False)
      | Locked owner \<Rightarrow> Ok (owner, False, False)
      | Deleted owner \<Rightarrow> Ok (owner, False, True)
      | _ \<Rightarrow> Err WrongParameter)"

subsection \<open>Exclusively owned objects\<close>

definition try_share_exclusively_owned ::
  "'b heap \<Rightarrow> ownership \<Rightarrow> journal_id \<Rightarrow> time option \<Rightarrow> ownership \<times> access_result" where
  "try_share_exclusively_owned h own new_owner deadline =
     (case exclusive_owner_details own of
        Inl e \<Rightarrow> (own, Err e)
      | Inr (owner, is_created, is_deleted) \<Rightarrow>
          (case grant_write_access h owner new_owner of
             RelCommitted commit_instant \<Rightarrow>
               if is_deleted then (own, Err SerializationFailure)
               else (if is_created
                     then ProtectedAwaitable (sa_with_instant_and_owner commit_instant new_owner)
                     else Protected new_owner, Ok (Some True))
           | RelRolledBack \<Rightarrow> (Protected new_owner, Ok (Some True))
           | Linearizable \<Rightarrow> (own, Ok (Some False))
           | Concurrent \<Rightarrow> (own, Err Deadlock)
           | Unknown \<Rightarrow>
               if deadline \<noteq> None then (augment_wait_queue is_created is_deleted owner, Ok None)
               else (own, Err SerializationFailure)))"

definition try_lock_exclusively_owned ::
  "'b heap \<Rightarrow> ownership \<Rightarrow> journal_id \<Rightarrow> time option \<Rightarrow> ownership \<times> access_result" where
  "try_lock_exclusively_owned h own new_owner deadline =
     (case exclusive_owner_details own of
        Inl e \<Rightarrow> (own, Err e)
      | Inr (owner, is_created, is_deleted) \<Rightarrow>
          (case grant_write_access h owner new_owner of
             RelCommitted commit_instant \<Rightarrow>
               if is_deleted then (own, Err SerializationFailure)
               else (if is_created
                     then LockedAwaitable (ea_with_instant_and_owner commit_instant new_owner)
                     else Locked new_owner, Ok (Some True))
           | RelRolledBack \<Rightarrow> (Locked new_owner, Ok (Some True))
           | Linearizable \<Rightarrow> (own, Ok (Some False))
           | Concurrent \<Rightarrow> (own, Err Deadlock)
           | Unknown \<Rightarrow>
               if deadline \<noteq> None then (augment_wait_queue is_created is_deleted owner, Ok None)
               else (own, Err SerializationFailure)))"

definition try_delete_exclusively_owned ::
  "'b heap \<Rightarrow> ownership \<Rightarrow> journal_id \<Rightarrow> time option \<Rightarrow> ownership \<times> access_result" where
  "try_delete_exclusively_owned h own new_owner deadline =
     (case exclusive_owner_details own of
        Inl e \<Rightarrow> (own, Err e)
      | Inr (owner, is_created, is_deleted) \<Rightarrow>
          (case grant_write_access h owner new_owner of
             RelCommitted commit_instant \<Rightarrow>
               if is_deleted then (own, Err SerializationFailure)
               else (if is_created
                     then DeletedAwaitable (ea_with_instant_and_owner commit_instant new_owner)
                     else Deleted new_owner, Ok (Some True))
           | RelRolledBack \<Rightarrow> (Deleted new_owner, Ok (Some True))
           | Linearizable \<Rightarrow>
               if is_deleted then (own, Ok (Some False))
               else (DeletedAwaitable
                       (ea_set_prior_state (ea_with_owner new_owner)
                         (if is_created then Created owner else Locked owner)), Ok (Some True))
           | Concurrent \<Rightarrow> (own, Err Deadlock)
           | Unknown \<Rightarrow>
               if deadline \<noteq> None then (augment_wait_queue is_created is_deleted owner, Ok None)
               else (own, Err SerializationFailure)))"

subsection \<open>Exclusively owned objects with a wait queue\<close>

text \<open>
  \<open>(true, result)\<close>: the result is available; \<open>(false, true)\<close>: wait; \<open>(false, false)\<close>: retry.
  Replacing the ownership drops what is left in it.
\<close>

type_synonym retry_result = "(bool \<times> bool) result"

definition wait_or_fail :: "time option \<Rightarrow> retry_result" where
  "wait_or_fail deadline = (if deadline \<noteq> None then Ok (False, True) else Err SerializationFailure)"

definition try_share_exclusive_awaitable ::
  "'b heap \<Rightarrow> ownership \<Rightarrow> journal_id \<Rightarrow> time option \<Rightarrow> ('b heap \<times> ownership) \<times> retry_result" where
  "try_share_exclusive_awaitable h own new_owner deadline =
     (case exclusive_awaitable_access_defails own of
        Inl e \<Rightarrow> ((h, own), Err e)
      | Inr (e, is_created, is_deleted) \<Rightarrow>
          (case grant_write_access h (ea_owner e) new_owner of
             RelCommitted commit_instant \<Rightarrow>
               if is_deleted then ((h, own), Err SerializationFailure)
               else if ea_wait_queue e = [] then
                 ((drop_ownership own h,
                   ProtectedAwaitable
                     (sa_with_instant_and_owner
                       (if is_created then commit_instant else ea_creation_instant e) new_owner)),
                  Ok (True, True))
               else ((h, own), wait_or_fail deadline)
           | RelRolledBack \<Rightarrow>
               if ea_prior_ownership e \<noteq> None then ((h, own), Ok (False, False))
               else if ea_wait_queue e = [] then ((drop_ownership own h, Protected new_owner), Ok (True, True))
               else ((h, own), wait_or_fail deadline)
           | Linearizable \<Rightarrow> ((h, own), Ok (True, False))
           | Concurrent \<Rightarrow> ((h, own), Err Deadlock)
           | Unknown \<Rightarrow> ((h, own), wait_or_fail deadline)))"

definition try_lock_exclusive_awaitable ::
  "'b heap \<Rightarrow> ownership \<Rightarrow> journal_id \<Rightarrow> time option \<Rightarrow> ('b heap \<times> ownership) \<times> retry_result" where
  "try_lock_exclusive_awaitable h own new_owner deadline =
     (case exclusive_awaitable_access_defails own of
        Inl e \<Rightarrow> ((h, own), Err e)
      | Inr (e, is_created, is_deleted) \<Rightarrow>
          (case grant_write_access h (ea_owner e) new_owner of
             RelCommitted commit_instant \<Rightarrow>
               if is_deleted then ((h, own), Err SerializationFailure)
               else if ea_wait_queue e = [] then
                 ((drop_ownership own h,
                   LockedAwaitable
                     (ea_with_instant_and_owner
                       (if is_created then commit_instant else ea_creation_instant e) new_owner)),
                  Ok (True, True))
               else ((h, own), wait_or_fail deadline)
           | RelRolledBack \<Rightarrow>
               if ea_prior_ownership e \<noteq> None then ((h, own), Ok (False, False))
               else if ea_wait_queue e = [] then ((drop_ownership own h, Locked new_owner), Ok (True, True))
               else ((h, own), wait_or_fail deadline)
           | Linearizable \<Rightarrow> ((h, own), Ok (True, False))
           | Concurrent \<Rightarrow> ((h, own), Err Deadlock)
           | Unknown \<Rightarrow> ((h, own), wait_or_fail deadline)))"

definition try_delete_exclusive_awaitable ::
  "'b heap \<Rightarrow> ownership \<Rightarrow> journal_id \<Rightarrow> time option \<Rightarrow> ('b heap \<times> ownership) \<times> retry_result" where
  "try_delete_exclusive_awaitable h own new_owner deadline =
     (case exclusive_awaitable_access_defails own of
        Inl e \<Rightarrow> ((h, own), Err e)
      | Inr (e, is_created, is_deleted) \<Rightarrow>
          (case grant_write_access h (ea_owner e) new_owner of
             RelCommitted commit_instant \<Rightarrow>
               if is_deleted then ((h, own), Err SerializationFailure)
               else if ea_wait_queue e = [] then
                 ((drop_ownership own h,
                   DeletedAwaitable
                     (ea_with_instant_and_owner
                       (if is_created then commit_instant else ea_creation_instant e) new_owner)),
                  Ok (True, True))
               else ((h, own), wait_or_fail deadline)
           | RelRolledBack \<Rightarrow>
               if ea_prior_ownership e \<noteq> None then ((h, own), Ok (False, False))
               else if ea_wait_queue e = [] then ((drop_ownership own h, Deleted new_owner), Ok (True, True))
               else ((h, own), wait_or_fail deadline)
           | Linearizable \<Rightarrow>
               if is_deleted then ((h, own), Ok (True, False))
               else if ea_wait_queue e = [] then
                 (case ea_take_other e of
                    (old, rest) \<Rightarrow>
                      ((drop_ownership
                          (if is_created then CreatedAwaitable rest else LockedAwaitable rest) h,
                        DeletedAwaitable
                          (ea_set_prior_state
                            (ea_with_instant_and_owner (ea_creation_instant e) new_owner)
                            (if is_created then CreatedAwaitable old else LockedAwaitable old))),
                       Ok (True, True)))
               else ((h, own), wait_or_fail deadline)
           | Concurrent \<Rightarrow> ((h, own), Err Deadlock)
           | Unknown \<Rightarrow> ((h, own), wait_or_fail deadline)))"

subsection \<open>The retry loops\<close>

text \<open>
  What the loops do with exclusively owned objects: return the result, or go round again when the
  awaitable variant says so.
\<close>

definition retry_flow :: "retry_result \<Rightarrow> access_result flow" where
  "retry_flow r =
     (case r of
        Inl e \<Rightarrow> Return (Err e)
      | Inr (result_available, result_or_wait) \<Rightarrow>
          if result_available then Return (Ok (Some result_or_wait))
          else if result_or_wait then Return (Ok None)
          else Again)"

definition exclusive_flow ::
  "ownership \<times> access_result \<Rightarrow> ('b heap \<times> ownership) \<times> retry_result \<Rightarrow> 'b heap \<Rightarrow> ownership \<Rightarrow>
     ('b heap \<times> object_state) \<times> access_result flow" where
  "exclusive_flow owned awaitable h own =
     (case own of
        Created _ \<Rightarrow> ((h, Owned (fst owned)), Return (snd owned))
      | Locked _ \<Rightarrow> ((h, Owned (fst owned)), Return (snd owned))
      | Deleted _ \<Rightarrow> ((h, Owned (fst owned)), Return (snd owned))
      | _ \<Rightarrow> ((fst (fst awaitable), Owned (snd (fst awaitable))), retry_flow (snd awaitable)))"

definition try_share_body ::
  "journal_id \<Rightarrow> time option \<Rightarrow> 'b heap \<times> object_state \<Rightarrow>
     (('b heap \<times> object_state) \<times> access_result flow) run" where
  "try_share_body new_owner deadline = (\<lambda>(h, st).
     case prepare_ownership_transfer h st of
       Panic \<Rightarrow> panics
     | Done (h, st) \<Rightarrow> returns
         (case st of
            Owned own \<Rightarrow>
              (case own of
                 Protected owner \<Rightarrow>
                   if grant_write_access h owner new_owner = Linearizable
                   then ((h, st), Return (Ok (Some False)))
                   else ((h, Owned (ProtectedAwaitable (sa_insert new_owner (sa_with_owner owner)))),
                         Return (Ok (Some True)))
               | ProtectedAwaitable s \<Rightarrow>
                   if list_ex (\<lambda>o'. grant_write_access h o' new_owner = Linearizable) (sa_owner_set s)
                   then ((h, st), Return (Ok (Some False)))
                   else if sa_wait_queue s = []
                   then ((h, Owned (ProtectedAwaitable (sa_insert new_owner s))), Return (Ok (Some True)))
                   else if deadline \<noteq> None then ((h, st), Return (Ok None))
                   else ((h, st), Return (Err SerializationFailure))
               | _ \<Rightarrow> exclusive_flow (try_share_exclusively_owned h own new_owner deadline)
                        (try_share_exclusive_awaitable h own new_owner deadline) h own)
          | CreatedAt instant \<Rightarrow>
              ((h, Owned (ProtectedAwaitable (sa_with_instant_and_owner instant new_owner))),
               Return (Ok (Some True)))
          | DeletedAt _ \<Rightarrow> ((h, st), Return (Err SerializationFailure))))"

definition try_share ::
  "'b heap \<Rightarrow> object_state \<Rightarrow> journal_id \<Rightarrow> time option \<Rightarrow>
     (('b heap \<times> object_state) \<times> access_result) run" where
  "try_share h st new_owner deadline = rust_loop (try_share_body new_owner deadline) (h, st)"

definition try_lock_body ::
  "journal_id \<Rightarrow> time option \<Rightarrow> 'b heap \<times> object_state \<Rightarrow>
     (('b heap \<times> object_state) \<times> access_result flow) run" where
  "try_lock_body new_owner deadline = (\<lambda>(h, st).
     case prepare_ownership_transfer h st of
       Panic \<Rightarrow> panics
     | Done (h, st) \<Rightarrow> returns
         (case st of
            Owned own \<Rightarrow>
              (case own of
                 Protected owner \<Rightarrow>
                   if grant_write_access h owner new_owner = Linearizable then
                     ((h, Owned (LockedAwaitable (ea_set_prior_state (ea_with_owner new_owner) (Protected owner)))),
                      Return (Ok (Some True)))
                   else if is_terminated h owner then ((h, Owned (Locked new_owner)), Return (Ok (Some True)))
                   else if deadline \<noteq> None then
                     ((h, Owned (ProtectedAwaitable (sa_with_owner owner))), Return (Ok None))
                   else ((h, st), Return (Err SerializationFailure))
               | ProtectedAwaitable s \<Rightarrow>
                   (case cleanup_inactive_owners h s of
                      (s1, True) \<Rightarrow>
                        ((h, Owned (if sa_creation_instant s1 = 0 then Locked new_owner
                                    else LockedAwaitable
                                      (ea_with_instant_and_owner (sa_creation_instant s1) new_owner))),
                         Return (Ok (Some True)))
                    | (s1, False) \<Rightarrow>
                        (case try_promote_to_exclusive h s1 new_owner of
                           (_, Some e) \<Rightarrow> ((h, Owned (LockedAwaitable e)), Return (Ok (Some True)))
                         | (s2, None) \<Rightarrow>
                             if deadline \<noteq> None then ((h, Owned (ProtectedAwaitable s2)), Return (Ok None))
                             else ((h, Owned (ProtectedAwaitable s2)), Return (Err SerializationFailure))))
               | _ \<Rightarrow> exclusive_flow (try_lock_exclusively_owned h own new_owner deadline)
                        (try_lock_exclusive_awaitable h own new_owner deadline) h own)
          | CreatedAt instant \<Rightarrow>
              ((h, Owned (LockedAwaitable (ea_with_instant_and_owner instant new_owner))),
               Return (Ok (Some True)))
          | DeletedAt _ \<Rightarrow> ((h, st), Return (Err SerializationFailure))))"

definition try_lock ::
  "'b heap \<Rightarrow> object_state \<Rightarrow> journal_id \<Rightarrow> time option \<Rightarrow>
     (('b heap \<times> object_state) \<times> access_result) run" where
  "try_lock h st new_owner deadline = rust_loop (try_lock_body new_owner deadline) (h, st)"

definition try_delete_body ::
  "journal_id \<Rightarrow> time option \<Rightarrow> 'b heap \<times> object_state \<Rightarrow>
     (('b heap \<times> object_state) \<times> access_result flow) run" where
  "try_delete_body new_owner deadline = (\<lambda>(h, st).
     case prepare_ownership_transfer h st of
       Panic \<Rightarrow> panics
     | Done (h, st) \<Rightarrow> returns
         (case st of
            Owned own \<Rightarrow>
              (case own of
                 Protected owner \<Rightarrow>
                   if grant_write_access h owner new_owner = Linearizable then
                     ((h, Owned (DeletedAwaitable (ea_set_prior_state (ea_with_owner new_owner) (Protected owner)))),
                      Return (Ok (Some True)))
                   else if is_terminated h owner then ((h, Owned (Deleted new_owner)), Return (Ok (Some True)))
                   else if deadline \<noteq> None then
                     ((h, Owned (ProtectedAwaitable (sa_with_owner owner))), Return (Ok None))
                   else ((h, st), Return (Err SerializationFailure))
               | ProtectedAwaitable s \<Rightarrow>
                   (case cleanup_inactive_owners h s of
                      (s1, True) \<Rightarrow>
                        ((h, Owned (if sa_creation_instant s1 = 0 then Deleted new_owner
                                    else DeletedAwaitable
                                      (ea_with_instant_and_owner (sa_creation_instant s1) new_owner))),
                         Return (Ok (Some True)))
                    | (s1, False) \<Rightarrow>
                        (case try_promote_to_exclusive h s1 new_owner of
                           (_, Some e) \<Rightarrow> ((h, Owned (DeletedAwaitable e)), Return (Ok (Some True)))
                         | (s2, None) \<Rightarrow>
                             if deadline \<noteq> None then ((h, Owned (ProtectedAwaitable s2)), Return (Ok None))
                             else ((h, Owned (ProtectedAwaitable s2)), Return (Err SerializationFailure))))
               | _ \<Rightarrow> exclusive_flow (try_delete_exclusively_owned h own new_owner deadline)
                        (try_delete_exclusive_awaitable h own new_owner deadline) h own)
          | CreatedAt instant \<Rightarrow>
              ((h, Owned (DeletedAwaitable (ea_with_instant_and_owner instant new_owner))),
               Return (Ok (Some True)))
          | DeletedAt _ \<Rightarrow> ((h, st), Return (Err SerializationFailure))))"

definition try_delete ::
  "'b heap \<Rightarrow> object_state \<Rightarrow> journal_id \<Rightarrow> time option \<Rightarrow>
     (('b heap \<times> object_state) \<times> access_result) run" where
  "try_delete h st new_owner deadline = rust_loop (try_delete_body new_owner deadline) (h, st)"

section \<open>The wait queue\<close>

definition try_request ::
  "request \<Rightarrow> time option \<Rightarrow> 'b heap \<times> object_state \<Rightarrow>
     (('b heap \<times> object_state) \<times> access_result) run" where
  "try_request r deadline = (\<lambda>(h, st).
     case r of
       ReqCreate _ j _ \<Rightarrow> Some (try_create h st j deadline)
     | ReqProtect _ j _ \<Rightarrow> try_share h st j deadline
     | ReqLock _ j _ \<Rightarrow> try_lock h st j deadline
     | ReqDelete _ j _ \<Rightarrow> try_delete h st j deadline)"

text \<open>
  One round of \<^verbatim>\<open>process_wait_queue\<close> at the wall-clock instant \<open>now\<close>. A request that has its
  result is removed in the next round.
\<close>

definition process_wait_queue_body ::
  "time \<Rightarrow> 'b heap \<times> object_state \<times> wait_queue \<Rightarrow>
     (('b heap \<times> object_state \<times> wait_queue) \<times> unit flow) run" where
  "process_wait_queue_body now = (\<lambda>(h, st, q).
     case clone_oldest q of
       None \<Rightarrow> returns ((h, st, q), Return ())
     | Some request \<Rightarrow>
         let c = request_cell request in
         if rc_poisoned (cells h c) then returns ((h, st, remove_oldest q), Again)
         else if rc_result (cells h c) \<noteq> None then returns ((h, st, remove_oldest q), Again)
         else bind_run (try_request request (Some now) (h, st)) (\<lambda>((h, st), result).
           case result of
             Inr (Some answer) \<Rightarrow>
               returns ((take_waker_and_wake c
                           (set_wake_up_others (request_owner request) (set_result c (Ok answer) h)),
                         st, q), Again)
           | Inr None \<Rightarrow> returns ((h, st, q), Return ())
           | Inl error \<Rightarrow>
               returns ((take_waker_and_wake c (set_result c (Err error) h), st, q), Again)))"

definition process_wait_queue ::
  "time \<Rightarrow> 'b heap \<Rightarrow> object_state \<Rightarrow> wait_queue \<Rightarrow> ('b heap \<times> object_state \<times> wait_queue option) run" where
  "process_wait_queue now h st q =
     bind_run (rust_loop (process_wait_queue_body now) (h, st, q)) (\<lambda>((h, st, q), _).
       returns (h, st, if q = [] then None else Some q))"

text \<open>
  \<^verbatim>\<open>post_process_object_state\<close>. A queue that is dropped here would answer its requests with
  \<^verbatim>\<open>OutOfMemory\<close>; the answers are left out, as no request waits in a state whose queue is dropped.
\<close>

definition post_process_object_state :: "object_state \<Rightarrow> wait_queue option \<Rightarrow> object_state \<times> bool" where
  "post_process_object_state st wait_queue =
     (case st of
        Owned own \<Rightarrow>
          (case own of
             Created owner \<Rightarrow>
               (case wait_queue of
                  Some q \<Rightarrow>
                    if q = [] then (st, False)
                    else (Owned (CreatedAwaitable (ea_with_owner_and_wait_queue owner q)), True)
                | None \<Rightarrow> (st, False))
           | CreatedAwaitable e \<Rightarrow>
               (case inherit (ea_wait_queue e) wait_queue of
                  (q, True) \<Rightarrow>
                    (if ea_creation_instant e = 0 then Owned (Created (ea_owner e))
                     else Owned (CreatedAwaitable (ea_set_queue e q)), False)
                | (q, False) \<Rightarrow> (Owned (CreatedAwaitable (ea_set_queue e q)), True))
           | Protected owner \<Rightarrow>
               (case wait_queue of
                  Some q \<Rightarrow>
                    if q = [] then (st, False)
                    else (Owned (ProtectedAwaitable (sa_with_owner_and_wait_queue owner q)), True)
                | None \<Rightarrow> (st, False))
           | ProtectedAwaitable s \<Rightarrow>
               (case inherit (sa_wait_queue s) wait_queue of
                  (q, True) \<Rightarrow>
                    (case sa_owner_set s of
                       [owner] \<Rightarrow>
                         (if sa_creation_instant s = 0 then Owned (Protected owner)
                          else Owned (ProtectedAwaitable (s\<lparr>sa_wait_queue := q\<rparr>)), False)
                     | _ \<Rightarrow> (Owned (ProtectedAwaitable (s\<lparr>sa_wait_queue := q\<rparr>)), False))
                | (q, False) \<Rightarrow> (Owned (ProtectedAwaitable (s\<lparr>sa_wait_queue := q\<rparr>)), True))
           | Locked owner \<Rightarrow>
               (case wait_queue of
                  Some q \<Rightarrow>
                    if q = [] then (st, False)
                    else (Owned (LockedAwaitable (ea_with_owner_and_wait_queue owner q)), True)
                | None \<Rightarrow> (st, False))
           | LockedAwaitable e \<Rightarrow>
               (case inherit (ea_wait_queue e) wait_queue of
                  (q, True) \<Rightarrow>
                    (if ea_creation_instant e = 0 then Owned (Locked (ea_owner e))
                     else Owned (LockedAwaitable (ea_set_queue e q)), False)
                | (q, False) \<Rightarrow> (Owned (LockedAwaitable (ea_set_queue e q)), True))
           | Deleted owner \<Rightarrow>
               (case wait_queue of
                  Some q \<Rightarrow>
                    if q = [] then (st, False)
                    else (Owned (DeletedAwaitable (ea_with_owner_and_wait_queue owner q)), True)
                | None \<Rightarrow> (st, False))
           | DeletedAwaitable e \<Rightarrow>
               (case inherit (ea_wait_queue e) wait_queue of
                  (q, True) \<Rightarrow>
                    (if ea_creation_instant e = 0 then Owned (Deleted (ea_owner e))
                     else Owned (DeletedAwaitable (ea_set_queue e q)), False)
                | (q, False) \<Rightarrow> (Owned (DeletedAwaitable (ea_set_queue e q)), True)))
      | _ \<Rightarrow> (st, False))"

text \<open>\<^verbatim>\<open>take(&mut awaitable.wait_queue)\<close>\<close>

definition take_wait_queue :: "object_state \<Rightarrow> (object_state \<times> wait_queue) option" where
  "take_wait_queue st =
     (case st of
        Owned (CreatedAwaitable e) \<Rightarrow> Some (Owned (CreatedAwaitable (ea_set_queue e [])), ea_wait_queue e)
      | Owned (LockedAwaitable e) \<Rightarrow> Some (Owned (LockedAwaitable (ea_set_queue e [])), ea_wait_queue e)
      | Owned (DeletedAwaitable e) \<Rightarrow> Some (Owned (DeletedAwaitable (ea_set_queue e [])), ea_wait_queue e)
      | Owned (ProtectedAwaitable s) \<Rightarrow>
          Some (Owned (ProtectedAwaitable (s\<lparr>sa_wait_queue := []\<rparr>)), sa_wait_queue s)
      | _ \<Rightarrow> None)"

text \<open>The closure of \<^verbatim>\<open>transfer_ownership_sync\<close>; it returns whether requests are still waiting.\<close>

definition transfer_ownership ::
  "time \<Rightarrow> 'b heap \<Rightarrow> object_state \<Rightarrow> ('b heap \<times> object_state \<times> bool) run" where
  "transfer_ownership now h st =
     (case prepare_ownership_transfer h st of
        Panic \<Rightarrow> panics
      | Done (h, st) \<Rightarrow>
          (case take_wait_queue st of
             None \<Rightarrow> (case post_process_object_state st None of (st', waiting) \<Rightarrow> returns (h, st', waiting))
           | Some (st, q) \<Rightarrow>
               bind_run (process_wait_queue now h st q) (\<lambda>(h, st, wait_queue).
                 case post_process_object_state st wait_queue of
                   (st', waiting) \<Rightarrow> returns (h, st', waiting))))"

section \<open>The access controller\<close>

text \<open>
  The operations of \<^verbatim>\<open>scc::HashMap\<close> as the access controller uses them: it looks at the entry
  of an identifier, replaces it while it is locked, or removes it.
\<close>

record ('t, 'v) scc_map =
  m_get :: "u64 \<Rightarrow> 't \<Rightarrow> 'v option"
  m_put :: "u64 \<Rightarrow> 'v \<Rightarrow> 't \<Rightarrow> 't"
  m_remove :: "u64 \<Rightarrow> 't \<Rightarrow> 't"

type_synonym 't object_map = "('t, object_state) scc_map"

definition scc_map_laws :: "('t, 'v) scc_map \<Rightarrow> bool" where
  "scc_map_laws T \<longleftrightarrow>
     (\<forall>i st t. m_get T i (m_put T i st t) = Some st) \<and>
     (\<forall>i k st t. k \<noteq> i \<longrightarrow> m_get T k (m_put T i st t) = m_get T k t) \<and>
     (\<forall>i t. m_get T i (m_remove T i t) = None) \<and>
     (\<forall>i k t. k \<noteq> i \<longrightarrow> m_get T k (m_remove T i t) = m_get T k t)"

definition fun_map :: "(u64 \<Rightarrow> 'v option, 'v) scc_map" where
  "fun_map = \<lparr>m_get = (\<lambda>i t. t i), m_put = (\<lambda>i st t. t(i \<mapsto> st)), m_remove = (\<lambda>i t. t(i := None))\<rparr>"

lemma fun_map_laws: "scc_map_laws fun_map"
  by (simp add: scc_map_laws_def fun_map_def)

subsection \<open>Reading\<close>

definition map_negate :: "await_eot + bool \<Rightarrow> await_eot + bool" where
  "map_negate r = map_sum id Not r"

definition read_object ::
  "'b heap \<Rightarrow> object_state \<Rightarrow> snapshot \<Rightarrow> time option \<Rightarrow> await_eot + bool" where
  "read_object h st snapshot deadline =
     (case st of
        Owned own \<Rightarrow>
          (case own of
             Created owner \<Rightarrow> grant_read_access h owner snapshot deadline
           | CreatedAwaitable e \<Rightarrow> grant_read_access h (ea_owner e) snapshot deadline
           | Protected _ \<Rightarrow> Inr True
           | Locked _ \<Rightarrow> Inr True
           | ProtectedAwaitable s \<Rightarrow> Inr (sa_creation_instant s \<le> database_snapshot snapshot)
           | LockedAwaitable e \<Rightarrow> Inr (ea_creation_instant e \<le> database_snapshot snapshot)
           | Deleted owner \<Rightarrow> map_negate (grant_read_access h owner snapshot deadline)
           | DeletedAwaitable e \<Rightarrow>
               if ea_creation_instant e \<le> database_snapshot snapshot
               then map_negate (grant_read_access h (ea_owner e) snapshot deadline)
               else Inr False)
      | CreatedAt instant \<Rightarrow> Inr (instant \<le> database_snapshot snapshot)
      | DeletedAt instant \<Rightarrow> Inr (database_snapshot snapshot < instant))"

text \<open>
  The future of \<^verbatim>\<open>read\<close> either looks at the object (\<open>None\<close>) or waits for the end of a
  transaction (\<open>Some\<close>). One poll goes round the loop until it has to wait.
\<close>

definition read_body ::
  "'t object_map \<Rightarrow> 'b scc_bag \<Rightarrow> 't \<Rightarrow> object_id \<Rightarrow> snapshot \<Rightarrow> time option \<Rightarrow> time \<Rightarrow> waker \<Rightarrow>
     'b heap \<times> await_eot option \<Rightarrow> (('b heap \<times> await_eot option) \<times> bool result poll flow) run" where
  "read_body T B tbl object_id snapshot deadline now w = (\<lambda>(h, awaiting).
     case awaiting of
       None \<Rightarrow>
         (case m_get T object_id tbl of
            None \<Rightarrow> returns ((h, None), Return (Ready (Ok True)))
          | Some st \<Rightarrow>
              (case read_object h st snapshot deadline of
                 Inr visibility \<Rightarrow> returns ((h, None), Return (Ready (Ok visibility)))
               | Inl a \<Rightarrow> returns ((h, Some a), Again)))
     | Some a \<Rightarrow>
         bind_run (await_eot_poll B now w a h) (\<lambda>(h, p).
           case p of
             Pending \<Rightarrow> returns ((h, Some a), Return Pending)
           | Ready (Inl e) \<Rightarrow> returns ((h, None), Return (Ready (Err e)))
           | Ready (Inr _) \<Rightarrow> returns ((h, None), Again)))"

definition read_poll ::
  "'t object_map \<Rightarrow> 'b scc_bag \<Rightarrow> 't \<Rightarrow> object_id \<Rightarrow> snapshot \<Rightarrow> time option \<Rightarrow> time \<Rightarrow> waker \<Rightarrow>
     'b heap \<times> await_eot option \<Rightarrow> (('b heap \<times> await_eot option) \<times> bool result poll) run" where
  "read_poll T B tbl object_id snapshot deadline now w =
     rust_loop (read_body T B tbl object_id snapshot deadline now w)"

subsection \<open>Acquiring ownership\<close>

record await_response =
  ar_object_id :: object_id
  ar_registered :: bool
  ar_deadline :: time
  ar_result :: nat

text \<open>An operation either has its answer or waits for a response.\<close>

datatype acquisition = Answer "bool result" | Await await_response

definition new_cell :: "'b heap \<Rightarrow> 'b heap \<times> nat" where
  "new_cell h =
     (h\<lparr>cells := (cells h)(next_cell h := \<lparr>rc_result = None, rc_waker = None, rc_poisoned = False\<rparr>),
        next_cell := Suc (next_cell h)\<rparr>, next_cell h)"

text \<open>
  Pushing a request into the wait queue of the object: \<^verbatim>\<open>create\<close> only waits for an object that is
  being created (\<open>created_only\<close>), the other operations for every awaitable ownership.
\<close>

definition enqueue ::
  "bool \<Rightarrow> (nat \<Rightarrow> request) \<Rightarrow> object_state \<Rightarrow> 'b heap \<Rightarrow> ('b heap \<times> object_state \<times> nat) option" where
  "enqueue created_only mk st h =
     (case new_cell h of
        (h, c) \<Rightarrow>
          (case st of
             Owned (CreatedAwaitable e) \<Rightarrow>
               (case ea_push_request e (mk c) h of (h, e) \<Rightarrow> Some (h, Owned (CreatedAwaitable e), c))
           | Owned (LockedAwaitable e) \<Rightarrow>
               if created_only then None
               else (case ea_push_request e (mk c) h of (h, e) \<Rightarrow> Some (h, Owned (LockedAwaitable e), c))
           | Owned (DeletedAwaitable e) \<Rightarrow>
               if created_only then None
               else (case ea_push_request e (mk c) h of (h, e) \<Rightarrow> Some (h, Owned (DeletedAwaitable e), c))
           | Owned (ProtectedAwaitable s) \<Rightarrow>
               if created_only then None
               else (case sa_push_request s (mk c) h of (h, s) \<Rightarrow> Some (h, Owned (ProtectedAwaitable s), c))
           | _ \<Rightarrow> None))"

definition ac_create ::
  "'t object_map \<Rightarrow> object_id \<Rightarrow> journal_id \<Rightarrow> time option \<Rightarrow> time \<Rightarrow> 'b heap \<times> 't \<Rightarrow>
     (('b heap \<times> 't) \<times> acquisition) run" where
  "ac_create T object_id journal deadline now = (\<lambda>(h, tbl).
     case m_get T object_id tbl of
       None \<Rightarrow> returns ((h, m_put T object_id (Owned (Created journal)) tbl), Answer (Ok True))
     | Some st \<Rightarrow>
         bind_run (Some (try_create h st journal deadline)) (\<lambda>((h, st), result).
           case result of
             Inl e \<Rightarrow> returns ((h, m_put T object_id st tbl), Answer (Err e))
           | Inr (Some r) \<Rightarrow> returns ((h, m_put T object_id st tbl), Answer (Ok r))
           | Inr None \<Rightarrow>
               (case deadline of
                  None \<Rightarrow> returns ((h, m_put T object_id st tbl), Answer (Err SerializationFailure))
                | Some d \<Rightarrow>
                    (case enqueue True (ReqCreate now journal) st h of
                       Some (h, st, c) \<Rightarrow>
                         returns ((h, m_put T object_id st tbl),
                                  Await \<lparr>ar_object_id = object_id, ar_registered = False,
                                         ar_deadline = d, ar_result = c\<rparr>)
                     | None \<Rightarrow>
                         returns ((h, m_put T object_id st tbl), Answer (Err SerializationFailure))))))"

definition ac_share ::
  "'t object_map \<Rightarrow> object_id \<Rightarrow> journal_id \<Rightarrow> time option \<Rightarrow> time \<Rightarrow> 'b heap \<times> 't \<Rightarrow>
     (('b heap \<times> 't) \<times> acquisition) run" where
  "ac_share T object_id journal deadline now = (\<lambda>(h, tbl).
     case m_get T object_id tbl of
       None \<Rightarrow> returns ((h, m_put T object_id (Owned (Protected journal)) tbl), Answer (Ok True))
     | Some st \<Rightarrow>
         bind_run (try_share h st journal deadline) (\<lambda>((h, st), result).
           case result of
             Inl e \<Rightarrow> returns ((h, m_put T object_id st tbl), Answer (Err e))
           | Inr (Some r) \<Rightarrow> returns ((h, m_put T object_id st tbl), Answer (Ok r))
           | Inr None \<Rightarrow>
               (case deadline of
                  None \<Rightarrow> returns ((h, m_put T object_id st tbl), Answer (Err SerializationFailure))
                | Some d \<Rightarrow>
                    (case enqueue False (ReqProtect now journal) st h of
                       Some (h, st, c) \<Rightarrow>
                         returns ((h, m_put T object_id st tbl),
                                  Await \<lparr>ar_object_id = object_id, ar_registered = False,
                                         ar_deadline = d, ar_result = c\<rparr>)
                     | None \<Rightarrow>
                         returns ((h, m_put T object_id st tbl), Answer (Err SerializationFailure))))))"

definition ac_lock ::
  "'t object_map \<Rightarrow> object_id \<Rightarrow> journal_id \<Rightarrow> time option \<Rightarrow> time \<Rightarrow> 'b heap \<times> 't \<Rightarrow>
     (('b heap \<times> 't) \<times> acquisition) run" where
  "ac_lock T object_id journal deadline now = (\<lambda>(h, tbl).
     case m_get T object_id tbl of
       None \<Rightarrow> returns ((h, m_put T object_id (Owned (Locked journal)) tbl), Answer (Ok True))
     | Some st \<Rightarrow>
         bind_run (try_lock h st journal deadline) (\<lambda>((h, st), result).
           case result of
             Inl e \<Rightarrow> returns ((h, m_put T object_id st tbl), Answer (Err e))
           | Inr (Some r) \<Rightarrow> returns ((h, m_put T object_id st tbl), Answer (Ok r))
           | Inr None \<Rightarrow>
               (case deadline of
                  None \<Rightarrow> returns ((h, m_put T object_id st tbl), Answer (Err SerializationFailure))
                | Some d \<Rightarrow>
                    (case enqueue False (ReqLock now journal) st h of
                       Some (h, st, c) \<Rightarrow>
                         returns ((h, m_put T object_id st tbl),
                                  Await \<lparr>ar_object_id = object_id, ar_registered = False,
                                         ar_deadline = d, ar_result = c\<rparr>)
                     | None \<Rightarrow>
                         returns ((h, m_put T object_id st tbl), Answer (Err SerializationFailure))))))"

definition ac_delete ::
  "'t object_map \<Rightarrow> object_id \<Rightarrow> journal_id \<Rightarrow> time option \<Rightarrow> time \<Rightarrow> 'b heap \<times> 't \<Rightarrow>
     (('b heap \<times> 't) \<times> acquisition) run" where
  "ac_delete T object_id journal deadline now = (\<lambda>(h, tbl).
     case m_get T object_id tbl of
       None \<Rightarrow> returns ((h, m_put T object_id (Owned (Deleted journal)) tbl), Answer (Ok True))
     | Some st \<Rightarrow>
         bind_run (try_delete h st journal deadline) (\<lambda>((h, st), result).
           case result of
             Inl e \<Rightarrow> returns ((h, m_put T object_id st tbl), Answer (Err e))
           | Inr (Some r) \<Rightarrow> returns ((h, m_put T object_id st tbl), Answer (Ok r))
           | Inr None \<Rightarrow>
               (case deadline of
                  None \<Rightarrow> returns ((h, m_put T object_id st tbl), Answer (Err SerializationFailure))
                | Some d \<Rightarrow>
                    (case enqueue False (ReqDelete now journal) st h of
                       Some (h, st, c) \<Rightarrow>
                         returns ((h, m_put T object_id st tbl),
                                  Await \<lparr>ar_object_id = object_id, ar_registered = False,
                                         ar_deadline = d, ar_result = c\<rparr>)
                     | None \<Rightarrow>
                         returns ((h, m_put T object_id st tbl), Answer (Err SerializationFailure))))))"

text \<open>
  \<^verbatim>\<open>AwaitResponse::poll\<close>; \<open>contended\<close> says whether another thread holds the mutex of the result.
\<close>

definition await_response_poll ::
  "bool \<Rightarrow> time \<Rightarrow> waker \<Rightarrow> await_response \<Rightarrow> 'b heap \<Rightarrow> 'b heap \<times> await_response \<times> bool result poll" where
  "await_response_poll contended now w a h =
     (let c = ar_result a in
      if contended \<or> rc_poisoned (cells h c) then (wake w h, a, Pending)
      else case rc_result (cells h c) of
             Some result \<Rightarrow> (h, a, Ready result)
           | None \<Rightarrow>
               if ar_deadline a < now then (set_result c (Err Timeout) h, a, Ready (Err Timeout))
               else let h = upd_cell c (\<lambda>rc. rc\<lparr>rc_waker := Some w\<rparr>) h in
                 if \<not> ar_registered a then
                   (case send_task (MonitorObject (ar_object_id a)) h of
                      (h, sent) \<Rightarrow> (wake w h, if sent then a\<lparr>ar_registered := True\<rparr> else a, Pending))
                 else
                   (case send_task (WakeUp (ar_deadline a) w) h of
                      (h, sent) \<Rightarrow> (if sent then h else wake w h, a, Pending)))"

subsection \<open>Recovery, transfer and removal\<close>

definition playback_create_sync ::
  "'t object_map \<Rightarrow> object_id \<Rightarrow> journal_id \<Rightarrow> 'b heap \<times> 't \<Rightarrow> 'b heap \<times> 't" where
  "playback_create_sync T object_id journal = (\<lambda>(h, tbl).
     (case m_get T object_id tbl of None \<Rightarrow> h | Some st \<Rightarrow> drop_object_state st h,
      m_put T object_id (Owned (Created journal)) tbl))"

definition playback_delete_sync ::
  "'t object_map \<Rightarrow> object_id \<Rightarrow> journal_id \<Rightarrow> 'b heap \<times> 't \<Rightarrow> 'b heap \<times> 't" where
  "playback_delete_sync T object_id journal = (\<lambda>(h, tbl).
     (case m_get T object_id tbl of None \<Rightarrow> h | Some st \<Rightarrow> drop_object_state st h,
      m_put T object_id (Owned (Deleted journal)) tbl))"

definition transfer_ownership_sync ::
  "'t object_map \<Rightarrow> time \<Rightarrow> object_id \<Rightarrow> 'b heap \<times> 't \<Rightarrow> (('b heap \<times> 't) \<times> bool) run" where
  "transfer_ownership_sync T now object_id = (\<lambda>(h, tbl).
     case m_get T object_id tbl of
       None \<Rightarrow> returns ((h, tbl), False)
     | Some st \<Rightarrow>
         bind_run (transfer_ownership now h st) (\<lambda>(h, st, waiting).
           returns ((h, m_put T object_id st tbl), waiting)))"

text \<open>
  The closure of \<^verbatim>\<open>try_remove_access_data_sync\<close>: the state it leaves, whether the entry is to be
  removed, and the instant the deletion notifier was called with, if it was.
\<close>

definition remove_condition ::
  "(u64 \<Rightarrow> bool) \<Rightarrow> 'b heap \<Rightarrow> object_state \<Rightarrow> ('b heap \<times> object_state \<times> bool \<times> u64 option) outcome" where
  "remove_condition condition h st =
     (case prepare_ownership_transfer h st of
        Panic \<Rightarrow> Panic
      | Done (h, st) \<Rightarrow> Done
          (case st of
             Owned (Created owner) \<Rightarrow>
               (case ja_eot_instant h owner of
                  None \<Rightarrow> (h, st, False, None)
                | Some eot \<Rightarrow>
                    if eot = 0 then (h, st, True, Some eot)
                    else if condition eot then (h, st, True, None)
                    else (h, CreatedAt eot, False, None))
           | Owned (Protected owner) \<Rightarrow> (h, st, is_terminated h owner, None)
           | Owned (Locked owner) \<Rightarrow> (h, st, is_terminated h owner, None)
           | Owned (Deleted owner) \<Rightarrow>
               (case ja_eot_instant h owner of
                  None \<Rightarrow> (h, st, False, None)
                | Some eot \<Rightarrow>
                    if eot = 0 then (h, st, True, None)
                    else if condition eot then (h, st, True, Some eot)
                    else (h, DeletedAt eot, False, None))
           | Owned _ \<Rightarrow> (h, st, False, None)
           | CreatedAt instant \<Rightarrow> (h, st, condition instant, None)
           | DeletedAt instant \<Rightarrow>
               if condition instant then (h, st, True, Some instant) else (h, st, False, None)))"

definition try_remove_access_data_sync ::
  "'t object_map \<Rightarrow> (u64 \<Rightarrow> bool) \<Rightarrow> object_id \<Rightarrow> 'b heap \<times> 't \<Rightarrow>
     (('b heap \<times> 't) \<times> bool \<times> u64 option) outcome" where
  "try_remove_access_data_sync T condition object_id = (\<lambda>(h, tbl).
     case m_get T object_id tbl of
       None \<Rightarrow> Done ((h, tbl), True, None)
     | Some st \<Rightarrow>
         (case remove_condition condition h st of
            Panic \<Rightarrow> Panic
          | Done (h, st, removed, notified) \<Rightarrow>
              if removed then Done ((drop_object_state st h, m_remove T object_id tbl), True, notified)
              else Done ((h, m_put T object_id st tbl), False, notified)))"

end
