(* ===== verification/Ownership.thy ===== *)
theory Ownership
  imports Access
begin

text \<open>
  Well-formed ownership and what every operation of the access controller does to it: the owners
  of a state, its wait queue, the effect of \<^verbatim>\<open>prepare_ownership_transfer\<close>, and the contract
  shared by \<^verbatim>\<open>try_share\<close>, \<^verbatim>\<open>try_lock\<close> and \<^verbatim>\<open>try_delete\<close> as the interface \<open>retry_operation\<close>.
\<close>

section \<open>Definitions\<close>

text \<open>The journals an ownership mentions, prior ownership included.\<close>

fun owners :: "ownership \<Rightarrow> journal_id set" where
  "owners (Created j) = {j}"
| "owners (Protected j) = {j}"
| "owners (Locked j) = {j}"
| "owners (Deleted j) = {j}"
| "owners (ProtectedAwaitable s) = set (sa_owner_set s)"
| "owners (CreatedAwaitable (ExclusiveAwaitable _ j None _)) = {j}"
| "owners (CreatedAwaitable (ExclusiveAwaitable _ j (Some p) _)) = insert j (owners p)"
| "owners (LockedAwaitable (ExclusiveAwaitable _ j None _)) = {j}"
| "owners (LockedAwaitable (ExclusiveAwaitable _ j (Some p) _)) = insert j (owners p)"
| "owners (DeletedAwaitable (ExclusiveAwaitable _ j None _)) = {j}"
| "owners (DeletedAwaitable (ExclusiveAwaitable _ j (Some p) _)) = insert j (owners p)"

fun is_shared :: "ownership \<Rightarrow> bool" where
  "is_shared (Protected _) = True"
| "is_shared (ProtectedAwaitable _) = True"
| "is_shared _ = False"

fun is_deletion :: "ownership \<Rightarrow> bool" where
  "is_deletion (Deleted _) = True"
| "is_deletion (DeletedAwaitable _) = True"
| "is_deletion _ = False"

fun is_creation :: "ownership \<Rightarrow> bool" where
  "is_creation (Created _) = True"
| "is_creation (CreatedAwaitable _) = True"
| "is_creation _ = False"

fun is_awaitable :: "ownership \<Rightarrow> bool" where
  "is_awaitable (CreatedAwaitable _) = True"
| "is_awaitable (ProtectedAwaitable _) = True"
| "is_awaitable (LockedAwaitable _) = True"
| "is_awaitable (DeletedAwaitable _) = True"
| "is_awaitable _ = False"

text \<open>The journal that currently owns the object exclusively, if any.\<close>

fun holder :: "ownership \<Rightarrow> journal_id option" where
  "holder (Created j) = Some j"
| "holder (Locked j) = Some j"
| "holder (Deleted j) = Some j"
| "holder (CreatedAwaitable e) = Some (ea_owner e)"
| "holder (LockedAwaitable e) = Some (ea_owner e)"
| "holder (DeletedAwaitable e) = Some (ea_owner e)"
| "holder (Protected _) = None"
| "holder (ProtectedAwaitable _) = None"

text \<open>The object is exclusively owned by a journal that has not ended.\<close>

definition exclusively_held :: "'b heap \<Rightarrow> object_state \<Rightarrow> bool" where
  "exclusively_held h st \<longleftrightarrow>
     (\<exists>own j. st = Owned own \<and> holder own = Some j \<and> \<not> is_terminated h j)"

text \<open>The wait queue of the current owner.\<close>

fun queue_of :: "ownership \<Rightarrow> wait_queue" where
  "queue_of (CreatedAwaitable e) = ea_wait_queue e"
| "queue_of (LockedAwaitable e) = ea_wait_queue e"
| "queue_of (DeletedAwaitable e) = ea_wait_queue e"
| "queue_of (ProtectedAwaitable s) = sa_wait_queue s"
| "queue_of _ = []"

primrec state_queue :: "object_state \<Rightarrow> wait_queue" where
  "state_queue (Owned own) = queue_of own"
| "state_queue (CreatedAt _) = []"
| "state_queue (DeletedAt _) = []"

primrec state_owners :: "object_state \<Rightarrow> journal_id set" where
  "state_owners (Owned own) = owners own"
| "state_owners (CreatedAt _) = {}"
| "state_owners (DeletedAt _) = {}"

text \<open>
  Well-formed ownership: only a lock or a deletion is ever promoted, a lock from shared ownership
  and a deletion from anything but a deletion; the prior owners belong to the transaction of the
  current one, and requests only wait for the current owner.
\<close>

definition same_transaction :: "'b heap \<Rightarrow> journal_id \<Rightarrow> journal_id \<Rightarrow> bool" where
  "same_transaction h i j \<longleftrightarrow> ja_transaction (jas h i) = ja_transaction (jas h j)"

fun wf_own :: "'b heap \<Rightarrow> ownership \<Rightarrow> bool" where
  "wf_own h (CreatedAwaitable e) = (ea_prior_ownership e = None)"
| "wf_own h (LockedAwaitable (ExclusiveAwaitable _ j (Some p) _)) =
     (is_shared p \<and> (\<forall>i \<in> owners p. same_transaction h i j) \<and> queue_of p = [] \<and> wf_own h p)"
| "wf_own h (DeletedAwaitable (ExclusiveAwaitable _ j (Some p) _)) =
     (\<not> is_deletion p \<and> (\<forall>i \<in> owners p. same_transaction h i j) \<and> queue_of p = [] \<and> wf_own h p)"
| "wf_own h (ProtectedAwaitable s) = (sorted (sa_owner_set s) \<and> distinct (sa_owner_set s))"
| "wf_own h _ = True"

primrec wf_state :: "'b heap \<Rightarrow> object_state \<Rightarrow> bool" where
  "wf_state h (Owned own) = wf_own h own"
| "wf_state h (CreatedAt i) = (i \<noteq> 0)"
| "wf_state h (DeletedAt i) = (i \<noteq> 0)"

text \<open>
  A deletion promoted from a creation whose journal is rolled back cannot hand its waiting
  requests back.
\<close>

fun stuck_deletion :: "'b heap \<Rightarrow> ownership \<Rightarrow> bool" where
  "stuck_deletion h (DeletedAwaitable (ExclusiveAwaitable _ j (Some p) q)) =
     (is_creation p \<and> q \<noteq> [] \<and> is_rolled_back h j)"
| "stuck_deletion h _ = False"

primrec stuck_state :: "'b heap \<Rightarrow> object_state \<Rightarrow> bool" where
  "stuck_state h (Owned own) = stuck_deletion h own"
| "stuck_state h (CreatedAt _) = False"
| "stuck_state h (DeletedAt _) = False"

text \<open>A transaction that was rolled back has rolled back its journals.\<close>

definition rollback_complete :: "'b heap \<Rightarrow> bool" where
  "rollback_complete h \<longleftrightarrow> (\<forall>j. ja_eot_instant h j = Some 0 \<longrightarrow> is_rolled_back h j)"

section \<open>Lemmas\<close>

lemma drop_wait_queue_anchors [simp]:
  "jas (drop_wait_queue q h) = jas h" "tas (drop_wait_queue q h) = tas h"
  by (induction q arbitrary: h)
    (simp_all add: Let_def take_waker_and_wake_def set_result_def upd_cell_def split: option.split)

lemma drop_object_state_anchors [simp]:
  "jas (drop_object_state st h) = jas h" "tas (drop_object_state st h) = tas h"
  by (cases st; simp add: drop_ownership_def)+

lemma wf_own_queues: "wf_own h own \<Longrightarrow> queues_of own = queue_of own"
proof (induction h own rule: wf_own.induct)
  case (1 h e)
  then show ?case by (cases e) auto
qed auto

lemma drop_ownership_empty: "wf_own h own \<Longrightarrow> queue_of own = [] \<Longrightarrow> drop_ownership own h = h"
  by (simp add: drop_ownership_def wf_own_queues)

subsection \<open>Revoking a promotion\<close>

lemma revoke_promotion_other:
  "(\<nexists>e. own = LockedAwaitable e \<or> own = DeletedAwaitable e) \<Longrightarrow> revoke_promotion h own = Done (h, own)"
  by (subst revoke_promotion.simps) (cases own; simp)

lemma revoke_promotion_none:
  "ea_prior_ownership e = None \<Longrightarrow> revoke_promotion h (LockedAwaitable e) = Done (h, LockedAwaitable e)"
  by (subst revoke_promotion.simps) simp

lemma revoke_locked:
  assumes "wf_own h (LockedAwaitable e)"
  shows "revoke_promotion h (LockedAwaitable e) = Done (h,
    (case ea_prior_ownership e of
       None \<Rightarrow> LockedAwaitable e
     | Some p \<Rightarrow>
         if is_rolled_back h (ea_owner e) then
           (if ea_wait_queue e = [] then p
            else case p of
                   Protected j \<Rightarrow> ProtectedAwaitable (sa_with_owner_and_wait_queue j (ea_wait_queue e))
                 | ProtectedAwaitable s \<Rightarrow> ProtectedAwaitable (s\<lparr>sa_wait_queue := ea_wait_queue e\<rparr>)
                 | _ \<Rightarrow> p)
         else LockedAwaitable e))"
proof (cases "ea_prior_ownership e")
  case None
  then show ?thesis by (simp add: revoke_promotion_none)
next
  case (Some p)
  then obtain i j q where e: "e = ExclusiveAwaitable i j (Some p) q" by (cases e) auto
  with assms have "is_shared p" "queue_of p = []" by simp_all
  then show ?thesis
    by (cases p) (simp_all add: e revoke_promotion.simps [of h "LockedAwaitable _"] revoke_promotion_other)
qed

lemma wf_own_set_queue:
  "wf_own h (LockedAwaitable e) \<Longrightarrow> wf_own h (LockedAwaitable (ea_set_queue e q))"
  by (cases e; cases "ea_prior_ownership e") auto

lemma revoke_deleted:
  assumes "wf_own h (DeletedAwaitable e)" and "\<not> stuck_deletion h (DeletedAwaitable e)"
  shows "revoke_promotion h (DeletedAwaitable e) =
    (case ea_prior_ownership e of
       None \<Rightarrow> Done (h, DeletedAwaitable e)
     | Some p \<Rightarrow>
         if is_rolled_back h (ea_owner e) then
           (if ea_wait_queue e = [] then Done (h, p)
            else case p of
                   Protected j \<Rightarrow>
                     Done (h, ProtectedAwaitable (sa_with_owner_and_wait_queue j (ea_wait_queue e)))
                 | ProtectedAwaitable s \<Rightarrow>
                     Done (h, ProtectedAwaitable (s\<lparr>sa_wait_queue := ea_wait_queue e\<rparr>))
                 | Locked j \<Rightarrow>
                     Done (h, LockedAwaitable (ea_with_owner_and_wait_queue j (ea_wait_queue e)))
                 | LockedAwaitable e' \<Rightarrow>
                     revoke_promotion h (LockedAwaitable (ea_set_queue e' (ea_wait_queue e)))
                 | _ \<Rightarrow> Done (h, p))
         else Done (h, DeletedAwaitable e))"
proof (cases "ea_prior_ownership e")
  case None
  then show ?thesis by (subst revoke_promotion.simps) simp
next
  case (Some p)
  then obtain i j q where e: "e = ExclusiveAwaitable i j (Some p) q" by (cases e) auto
  with assms have "\<not> is_deletion p" "queue_of p = []" "\<not> (is_creation p \<and> q \<noteq> [] \<and> is_rolled_back h j)"
    by simp_all
  then show ?thesis
    by (cases p) (auto simp: e revoke_promotion.simps [of h "DeletedAwaitable _"] revoke_promotion_other
        revoke_promotion_none ea_with_owner_and_wait_queue_def)
qed

text \<open>What revoking promotions does to well-formed ownership.\<close>

definition revoked :: "'b heap \<Rightarrow> ownership \<Rightarrow> ownership \<Rightarrow> bool" where
  "revoked h own own' \<longleftrightarrow>
     wf_own h own' \<and> \<not> stuck_deletion h own' \<and> queue_of own' = queue_of own \<and>
     owners own' \<subseteq> owners own \<and> (\<forall>j \<in> owners own - owners own'. is_rolled_back h j) \<and>
     (own' = own \<or> prior_depth own' < prior_depth own)"

text \<open>A promotion by a journal that was rolled back.\<close>

fun revocable :: "'b heap \<Rightarrow> ownership \<Rightarrow> bool" where
  "revocable h (LockedAwaitable e) = (ea_prior_ownership e \<noteq> None \<and> is_rolled_back h (ea_owner e))"
| "revocable h (DeletedAwaitable e) = (ea_prior_ownership e \<noteq> None \<and> is_rolled_back h (ea_owner e))"
| "revocable h _ = False"

lemma revoke_locked_ok:
  assumes "wf_own h (LockedAwaitable e)"
  shows "\<exists>own'. revoke_promotion h (LockedAwaitable e) = Done (h, own') \<and>
    revoked h (LockedAwaitable e) own' \<and> (revocable h (LockedAwaitable e) \<longrightarrow> own' \<noteq> LockedAwaitable e)"
proof (cases "ea_prior_ownership e")
  case None
  then show ?thesis using assms by (simp add: revoke_locked revoked_def)
next
  case (Some p)
  then obtain i j q where e: "e = ExclusiveAwaitable i j (Some p) q" by (cases e) auto
  from assms have p: "is_shared p" "queue_of p = []" "wf_own h p" by (simp_all add: e)
  then show ?thesis
    using assms
    by (cases p) (auto simp: revoke_locked e revoked_def sa_with_owner_and_wait_queue_def)
qed

lemma revoked_trans:
  "revoked h own own1 \<Longrightarrow> revoked h own1 own2 \<Longrightarrow> revoked h own own2"
  unfolding revoked_def by (metis Diff_iff order_trans order_less_trans subsetD)

lemma revoke_ok:
  assumes wf: "wf_own h own" and ok: "\<not> stuck_deletion h own"
  shows "\<exists>own'. revoke_promotion h own = Done (h, own') \<and> revoked h own own' \<and>
    (revocable h own \<longrightarrow> own' \<noteq> own)"
proof (cases "\<exists>e. own = LockedAwaitable e \<or> own = DeletedAwaitable e")
  case False
  then show ?thesis
    using wf ok by (cases own) (auto simp: revoke_promotion_other revoked_def)
next
  case True
  then consider (locked) e where "own = LockedAwaitable e" | (deleted) e where "own = DeletedAwaitable e"
    by blast
  then show ?thesis
  proof cases
    case locked
    with revoke_locked_ok [of h e] wf show ?thesis by simp
  next
    case deleted
    note del = revoke_deleted [OF wf [unfolded deleted] ok [unfolded deleted]]
    show ?thesis
    proof (cases "ea_prior_ownership e")
      case None
      then show ?thesis using wf ok by (simp add: deleted del revoked_def)
    next
      case (Some p)
      then obtain i j q where e: "e = ExclusiveAwaitable i j (Some p) q" by (cases e) auto
      from wf have p: "\<not> is_deletion p" "queue_of p = []" "wf_own h p"
        "\<forall>i \<in> owners p. same_transaction h i j"
        by (simp_all add: e deleted)
      show ?thesis
      proof (cases "is_rolled_back h j \<and> q \<noteq> [] \<and> (\<exists>e'. p = LockedAwaitable e')")
        case True
        then obtain e' where e': "p = LockedAwaitable e'" by blast
        obtain i' j' r' q' where e'': "e' = ExclusiveAwaitable i' j' r' q'" by (cases e')
        have wf': "wf_own h (LockedAwaitable (ea_set_queue e' q))"
          using p e' by (simp add: wf_own_set_queue)
        obtain own' where own': "revoke_promotion h (LockedAwaitable (ea_set_queue e' q)) = Done (h, own')"
          "revoked h (LockedAwaitable (ea_set_queue e' q)) own'"
          using revoke_locked_ok [OF wf'] by blast
        have "revoked h own (LockedAwaitable (ea_set_queue e' q))"
          using wf' p True by (cases r') (auto simp: revoked_def deleted e e' e'')
        note trans = revoked_trans [OF this own'(2)]
        have "revoke_promotion h own = Done (h, own')"
          unfolding deleted del using own'(1) True by (simp add: e e')
        moreover have "prior_depth own' < prior_depth own"
          using own'(2) by (auto simp: revoked_def deleted e e')
        ultimately show ?thesis using trans by auto
      next
        case False
        then show ?thesis
          using wf ok p unfolding deleted del
          by (cases p) (auto simp: e revoked_def sa_with_owner_and_wait_queue_def
              ea_with_owner_and_wait_queue_def)
      qed
    qed
  qed
qed

subsection \<open>Preparing a transfer\<close>

primrec state_depth :: "object_state \<Rightarrow> nat" where
  "state_depth (Owned own) = prior_depth own"
| "state_depth (CreatedAt _) = 0"
| "state_depth (DeletedAt _) = 0"

primrec revocable_state :: "'b heap \<Rightarrow> object_state \<Rightarrow> bool" where
  "revocable_state h (Owned own) = revocable h own"
| "revocable_state h (CreatedAt _) = False"
| "revocable_state h (DeletedAt _) = False"

text \<open>
  The state stays well-formed, its requests keep waiting, and whoever is no longer an owner has
  ended.
\<close>

definition kept :: "'b heap \<Rightarrow> object_state \<Rightarrow> object_state \<Rightarrow> bool" where
  "kept h st st' \<longleftrightarrow>
     wf_state h st' \<and> \<not> stuck_state h st' \<and> state_queue st' = state_queue st \<and>
     (\<forall>j \<in> state_owners st - state_owners st'. is_terminated h j)"

lemma kept_trans: "kept h st st1 \<Longrightarrow> kept h st1 st2 \<Longrightarrow> kept h st st2"
  by (auto simp: kept_def)

lemma terminated_intros:
  "is_rolled_back h j \<Longrightarrow> is_terminated h j"
  "ja_eot_instant h j = Some i \<Longrightarrow> is_terminated h j"
  by (simp_all add: is_terminated_def)

lemma same_transaction_refl [simp]: "same_transaction h j j"
  by (simp add: same_transaction_def)

lemma same_transaction_eot:
  "same_transaction h i j \<Longrightarrow> ja_eot_instant h i = ja_eot_instant h j"
  by (simp add: same_transaction_def ja_eot_instant_def)

lemma settle_kept:
  assumes "wf_own h own" and "\<not> stuck_deletion h own"
  shows "kept h (Owned own) (settle_ownership h own) \<and>
    state_owners (settle_ownership h own) \<subseteq> owners own \<and>
    state_depth (settle_ownership h own) \<le> prior_depth own \<and>
    (revocable_state h (settle_ownership h own) \<longrightarrow> settle_ownership h own = Owned own) \<and>
    (exclusively_held h (Owned own) \<longrightarrow> settle_ownership h own = Owned own)"
proof (cases own)
  case (CreatedAwaitable e)
  then show ?thesis
    using assms by (cases e) (auto simp: settle_ownership_def kept_def ea_is_empty_def exclusively_held_def
        intro: terminated_intros split: option.splits)
next
  case (LockedAwaitable e)
  show ?thesis
  proof (cases e)
    case (ExclusiveAwaitable i j r q)
    with LockedAwaitable assms show ?thesis
      by (cases r) (auto simp: settle_ownership_def kept_def ea_is_empty_def exclusively_held_def)
  qed
next
  case (DeletedAwaitable e)
  show ?thesis
  proof (cases e)
    case (ExclusiveAwaitable i j r q)
    with DeletedAwaitable assms show ?thesis
      by (cases r) (auto simp: settle_ownership_def kept_def ea_is_empty_def exclusively_held_def
          intro: terminated_intros split: option.splits)
  qed
qed (use assms in \<open>auto simp: settle_ownership_def kept_def exclusively_held_def intro: terminated_intros
       split: option.splits\<close>)

lemma revoke_held:
  "exclusively_held h (Owned own) \<Longrightarrow> revoke_promotion h own = Done (h, own)"
proof -
  assume "exclusively_held h (Owned own)"
  then obtain j where j: "holder own = Some j" "\<not> is_rolled_back h j"
    by (auto simp: exclusively_held_def is_terminated_def)
  then show ?thesis
    by (cases own) (simp_all add: revoke_promotion_other revoke_promotion.simps [of h "LockedAwaitable _"]
        revoke_promotion.simps [of h "DeletedAwaitable _"])
qed

lemma prepare_ok:
  assumes "wf_state h st" and "\<not> stuck_state h st"
  shows "\<exists>st'. prepare_ownership_transfer h st = Done (h, st') \<and> kept h st st' \<and>
    state_owners st' \<subseteq> state_owners st \<and>
    (revocable_state h st' \<longrightarrow> state_depth st' < state_depth st) \<and>
    (exclusively_held h st \<longrightarrow> st' = st)"
proof (cases st)
  case (Owned own)
  obtain own' where own': "revoke_promotion h own = Done (h, own')" "revoked h own own'"
    "revocable h own \<longrightarrow> own' \<noteq> own"
    using revoke_ok [of h own] assms Owned by auto
  then have kept1: "kept h st (Owned own')"
    by (auto simp: Owned kept_def revoked_def intro: terminated_intros)
  have wf': "wf_own h own'" "\<not> stuck_deletion h own'" using own'(2) by (simp_all add: revoked_def)
  have settle: "kept h (Owned own') (settle_ownership h own')"
    "state_owners (settle_ownership h own') \<subseteq> owners own'"
    "revocable_state h (settle_ownership h own') \<longrightarrow> settle_ownership h own' = Owned own'"
    "exclusively_held h (Owned own') \<longrightarrow> settle_ownership h own' = Owned own'"
    using settle_kept [OF wf'] by blast+
  have depth: "revocable_state h (settle_ownership h own') \<longrightarrow>
      state_depth (settle_ownership h own') < state_depth st"
    using settle(3) own'(2,3) by (auto simp: Owned revoked_def)
  have held: "exclusively_held h st \<longrightarrow> settle_ownership h own' = st"
  proof
    assume held: "exclusively_held h st"
    then have "revoke_promotion h own = Done (h, own)" by (simp add: revoke_held Owned)
    with own'(1) held settle(4) show "settle_ownership h own' = st" by (simp add: Owned)
  qed
  show ?thesis
  proof (intro exI conjI)
    show "prepare_ownership_transfer h st = Done (h, settle_ownership h own')"
      using own'(1) by (simp add: Owned prepare_ownership_transfer_def)
    show "kept h st (settle_ownership h own')" by (rule kept_trans [OF kept1 settle(1)])
    show "state_owners (settle_ownership h own') \<subseteq> state_owners st"
      using settle(2) own'(2) by (auto simp: Owned revoked_def)
  qed (fact depth, fact held)
qed (use assms in \<open>auto simp: prepare_ownership_transfer_def kept_def\<close>)

subsection \<open>The contract of an attempt\<close>

text \<open>
  \<open>mode\<close> is the kind of ownership an operation obtains. Whatever the result, no owner that has
  not ended is displaced, an object that is exclusively held stays so, and no waiting request is
  lost; a granted request makes the requester an
  owner in that mode; otherwise nobody becomes an owner.
\<close>

definition attempt_ok ::
  "(ownership \<Rightarrow> bool) \<Rightarrow> 'b heap \<Rightarrow> journal_id \<Rightarrow> object_state \<Rightarrow> object_state \<Rightarrow> access_result \<Rightarrow> bool" where
  "attempt_ok mode h new_owner st st' r \<longleftrightarrow>
     kept h st st' \<and>
     (exclusively_held h st \<longrightarrow> (\<exists>own. st' = Owned own \<and> \<not> is_shared own)) \<and>
     (case r of
        Inr (Some True) \<Rightarrow>
          state_owners st' \<subseteq> insert new_owner (state_owners st) \<and>
          (\<exists>own. st' = Owned own \<and> mode own \<and> new_owner \<in> owners own)
      | Inr (Some False) \<Rightarrow>
          state_owners st' \<subseteq> state_owners st \<and>
          (\<exists>own j. st' = Owned own \<and> j \<in> owners own \<and> same_transaction h j new_owner)
      | Inr None \<Rightarrow>
          state_owners st' \<subseteq> state_owners st \<and> (\<exists>own. st' = Owned own \<and> is_awaitable own)
      | Inl _ \<Rightarrow> state_owners st' \<subseteq> state_owners st)"

lemma attempt_ok_kept:
  "kept h st st1 \<Longrightarrow> state_owners st1 \<subseteq> state_owners st \<Longrightarrow> exclusively_held h st \<longrightarrow> st1 = st \<Longrightarrow>
     attempt_ok mode h new_owner st1 st' r \<Longrightarrow> attempt_ok mode h new_owner st st' r"
  by (auto simp: attempt_ok_def intro: kept_trans split: sum.splits option.splits bool.splits)

definition step_ok ::
  "(ownership \<Rightarrow> bool) \<Rightarrow> 'b heap \<Rightarrow> journal_id \<Rightarrow> object_state \<Rightarrow> object_state \<Rightarrow> access_result flow \<Rightarrow> bool" where
  "step_ok mode h new_owner st st' f \<longleftrightarrow>
     (case f of
        Return r \<Rightarrow> attempt_ok mode h new_owner st st' r
      | Again \<Rightarrow> kept h st st' \<and> state_owners st' \<subseteq> state_owners st \<and>
                 (exclusively_held h st \<longrightarrow> st' = st) \<and>
                 (rollback_complete h \<longrightarrow> state_depth st' < state_depth st))"

subsection \<open>Exclusively owned objects\<close>

lemmas awaitable_defs = ea_with_owner_def ea_with_owner_and_wait_queue_def
  ea_with_instant_and_owner_def sa_with_owner_def sa_with_owner_and_wait_queue_def
  sa_with_instant_and_owner_def

lemmas awaitable_unfold = exclusive_awaitable_access_defails_def attempt_ok_def kept_def retry_flow_def
  wait_or_fail_def awaitable_defs exclusively_held_def

fun is_lock :: "ownership \<Rightarrow> bool" where
  "is_lock (Locked _) = True"
| "is_lock (LockedAwaitable _) = True"
| "is_lock _ = False"

text \<open>What each relationship tells about the owner.\<close>

lemma owner_relationship:
  "case grant_write_access h j new_owner of
     RelCommitted i \<Rightarrow> is_terminated h j \<and> ja_eot_instant h j = Some i \<and> i \<noteq> 0
   | RelRolledBack \<Rightarrow> is_terminated h j \<and> (rollback_complete h \<longrightarrow> is_rolled_back h j)
   | Linearizable \<Rightarrow> same_transaction h j new_owner
   | Concurrent \<Rightarrow> same_transaction h j new_owner
   | Unknown \<Rightarrow> True"
  by (auto simp: grant_write_access_def is_terminated_def same_transaction_def rollback_complete_def
      split: option.splits)

lemma Linearizable_same: "grant_write_access h j k = Linearizable \<Longrightarrow> same_transaction h j k"
  using owner_relationship [of h j k] by simp

lemma prior_owners_terminated:
  assumes "wf_own h own" and "ja_eot_instant h j = Some i"
    and "own = LockedAwaitable (ExclusiveAwaitable c j (Some p) q) \<or>
         own = DeletedAwaitable (ExclusiveAwaitable c j (Some p) q)"
    and "k \<in> owners p"
  shows "is_terminated h k"
  using assms same_transaction_eot [of h k j] by (auto intro: terminated_intros)

lemma share_exclusively_owned_ok:
  assumes "\<exists>j. own = Created j \<or> own = Locked j \<or> own = Deleted j"
  shows "attempt_ok is_shared h new_owner (Owned own)
    (Owned (fst (try_share_exclusively_owned h own new_owner deadline)))
    (snd (try_share_exclusively_owned h own new_owner deadline))"
proof -
  from assms obtain j where own: "own = Created j \<or> own = Locked j \<or> own = Deleted j" by blast
  then show ?thesis
    using owner_relationship [of h j new_owner]
    by (cases "grant_write_access h j new_owner"; cases deadline)
      (auto simp: try_share_exclusively_owned_def exclusive_owner_details_def attempt_ok_def kept_def
        exclusively_held_def awaitable_defs augment_wait_queue_def)
qed

lemma lock_exclusively_owned_ok:
  assumes "\<exists>j. own = Created j \<or> own = Locked j \<or> own = Deleted j"
  shows "attempt_ok is_lock h new_owner (Owned own)
    (Owned (fst (try_lock_exclusively_owned h own new_owner deadline)))
    (snd (try_lock_exclusively_owned h own new_owner deadline))"
proof -
  from assms obtain j where own: "own = Created j \<or> own = Locked j \<or> own = Deleted j" by blast
  then show ?thesis
    using owner_relationship [of h j new_owner]
    by (cases "grant_write_access h j new_owner"; cases deadline)
      (auto simp: try_lock_exclusively_owned_def exclusive_owner_details_def attempt_ok_def kept_def
        exclusively_held_def awaitable_defs augment_wait_queue_def)
qed

lemma delete_exclusively_owned_ok:
  assumes "\<exists>j. own = Created j \<or> own = Locked j \<or> own = Deleted j"
  shows "attempt_ok is_deletion h new_owner (Owned own)
    (Owned (fst (try_delete_exclusively_owned h own new_owner deadline)))
    (snd (try_delete_exclusively_owned h own new_owner deadline))"
proof -
  from assms obtain j where own: "own = Created j \<or> own = Locked j \<or> own = Deleted j" by blast
  then show ?thesis
    using owner_relationship [of h j new_owner]
    by (cases "grant_write_access h j new_owner"; cases deadline)
      (auto simp: try_delete_exclusively_owned_def exclusive_owner_details_def attempt_ok_def kept_def
        exclusively_held_def awaitable_defs augment_wait_queue_def)
qed

lemma exclusive_awaitable_ok:
  assumes own: "\<exists>e. own = CreatedAwaitable e \<or> own = LockedAwaitable e \<or> own = DeletedAwaitable e"
    and wf: "wf_own h own" and ok: "\<not> stuck_deletion h own"
  shows "\<exists>own' r. try_share_exclusive_awaitable h own new_owner deadline = ((h, own'), r) \<and>
    (case retry_flow r of
       Return a \<Rightarrow> attempt_ok is_shared h new_owner (Owned own) (Owned own') a
     | Again \<Rightarrow> own' = own \<and> (rollback_complete h \<longrightarrow> revocable h own))" (is ?share)
    and "\<exists>own' r. try_lock_exclusive_awaitable h own new_owner deadline = ((h, own'), r) \<and>
    (case retry_flow r of
       Return a \<Rightarrow> attempt_ok is_lock h new_owner (Owned own) (Owned own') a
     | Again \<Rightarrow> own' = own \<and> (rollback_complete h \<longrightarrow> revocable h own))" (is ?lock)
    and "\<exists>own' r. try_delete_exclusive_awaitable h own new_owner deadline = ((h, own'), r) \<and>
    (case retry_flow r of
       Return a \<Rightarrow> attempt_ok is_deletion h new_owner (Owned own) (Owned own') a
     | Again \<Rightarrow> own' = own \<and> (rollback_complete h \<longrightarrow> revocable h own))" (is ?delete)
proof -
  from own obtain i j p q where e:
    "own = CreatedAwaitable (ExclusiveAwaitable i j p q) \<or>
     own = LockedAwaitable (ExclusiveAwaitable i j p q) \<or>
     own = DeletedAwaitable (ExclusiveAwaitable i j p q)"
    by (metis exclusive_awaitable.exhaust)
  note facts = e wf ok owner_relationship [of h j new_owner] drop_ownership_empty [OF wf] prior_owners_terminated [OF wf]
  show ?share using facts
    by (cases "grant_write_access h j new_owner"; cases p) (auto simp: awaitable_unfold try_share_exclusive_awaitable_def)
  show ?lock using facts
    by (cases "grant_write_access h j new_owner"; cases p) (auto simp: awaitable_unfold try_lock_exclusive_awaitable_def)
  show ?delete using facts
    by (cases "grant_write_access h j new_owner"; cases p)
      (auto simp: awaitable_unfold try_delete_exclusive_awaitable_def drop_ownership_def same_transaction_def)
qed

subsection \<open>The retry loops\<close>

text \<open>One round of a retry loop on an exclusively owned object.\<close>

lemma exclusive_flow_ok:
  assumes own: "wf_own h own" "\<not> stuck_deletion h own" "\<not> is_shared own"
    and owned: "\<exists>j. own = Created j \<or> own = Locked j \<or> own = Deleted j \<Longrightarrow>
      attempt_ok mode h new_owner (Owned own) (Owned (fst owned)) (snd owned)"
    and awaitable: "\<exists>e. own = CreatedAwaitable e \<or> own = LockedAwaitable e \<or> own = DeletedAwaitable e \<Longrightarrow>
      \<exists>own' r. awaitable = ((h, own'), r) \<and>
        (case retry_flow r of
           Return a \<Rightarrow> attempt_ok mode h new_owner (Owned own) (Owned own') a
         | Again \<Rightarrow> own' = own \<and> (rollback_complete h \<longrightarrow> revocable h own))"
  shows "\<exists>st' f. exclusive_flow owned awaitable h own = ((h, st'), f) \<and>
    (case f of
       Return a \<Rightarrow> attempt_ok mode h new_owner (Owned own) st' a
     | Again \<Rightarrow> st' = Owned own \<and> (rollback_complete h \<longrightarrow> revocable h own))"
proof (cases "\<exists>j. own = Created j \<or> own = Locked j \<or> own = Deleted j")
  case True
  with owned show ?thesis by (auto simp: exclusive_flow_def)
next
  case False
  with own have ex: "\<exists>e. own = CreatedAwaitable e \<or> own = LockedAwaitable e \<or> own = DeletedAwaitable e"
    by (cases own) auto
  from awaitable [OF this] obtain own' r where aw: "awaitable = ((h, own'), r)"
    and cases: "case retry_flow r of
           Return a \<Rightarrow> attempt_ok mode h new_owner (Owned own) (Owned own') a
         | Again \<Rightarrow> own' = own \<and> (rollback_complete h \<longrightarrow> revocable h own)"
    by blast
  have flow: "exclusive_flow owned awaitable h own = ((h, Owned own'), retry_flow r)"
    using ex by (auto simp: exclusive_flow_def aw)
  show ?thesis unfolding flow using cases by (cases "retry_flow r") auto
qed

lemma cleanup_inactive_ok:
  assumes "sorted (sa_owner_set s)" "distinct (sa_owner_set s)"
    and "cleanup_inactive_owners h s = (s1, b)"
  shows "sorted (sa_owner_set s1)" "distinct (sa_owner_set s1)" "sa_wait_queue s1 = sa_wait_queue s"
    "sa_creation_instant s1 = sa_creation_instant s"
    "set (sa_owner_set s1) = {j \<in> set (sa_owner_set s). \<not> is_terminated h j}"
  using assms by (auto simp: cleanup_inactive_owners_def Let_def sorted_wrt_filter filter_empty_conv)

lemma try_promote_None:
  "try_promote_to_exclusive h s new_owner = (s', None) \<Longrightarrow> s' = s"
  by (auto simp: try_promote_to_exclusive_def Let_def split: if_splits)

lemma try_promote_Some:
  assumes "try_promote_to_exclusive h s new_owner = (s', Some e)"
    and "sorted (sa_owner_set s)" "distinct (sa_owner_set s)"
  shows "wf_own h (LockedAwaitable e)" "wf_own h (DeletedAwaitable e)"
    "\<not> stuck_deletion h (DeletedAwaitable e)" "ea_wait_queue e = sa_wait_queue s"
    "owners (LockedAwaitable e) = insert new_owner (set (sa_owner_set s))"
    "owners (DeletedAwaitable e) = insert new_owner (set (sa_owner_set s))"
proof -
  from assms(1) have e: "e = ExclusiveAwaitable 0 new_owner
      (Some (ProtectedAwaitable (s\<lparr>sa_wait_queue := []\<rparr>))) (sa_wait_queue s)"
    and lin: "\<forall>j \<in> set (sa_owner_set s). grant_write_access h j new_owner = Linearizable"
    by (auto simp: try_promote_to_exclusive_def Let_def ea_with_owner_and_wait_queue_def list_ex_iff
        split: if_splits)
  from lin have "\<forall>j \<in> set (sa_owner_set s). same_transaction h j new_owner"
    by (auto dest: Linearizable_same)
  then show "wf_own h (LockedAwaitable e)" "wf_own h (DeletedAwaitable e)"
    "\<not> stuck_deletion h (DeletedAwaitable e)" "ea_wait_queue e = sa_wait_queue s"
    "owners (LockedAwaitable e) = insert new_owner (set (sa_owner_set s))"
    "owners (DeletedAwaitable e) = insert new_owner (set (sa_owner_set s))"
    using assms(2,3) by (simp_all add: e)
qed

lemma step_ok_prepared:
  assumes "kept h st st1" and "state_owners st1 \<subseteq> state_owners st"
    and "revocable_state h st1 \<longrightarrow> state_depth st1 < state_depth st"
    and "exclusively_held h st \<longrightarrow> st1 = st"
    and "case f of
       Return a \<Rightarrow> attempt_ok mode h new_owner st1 st' a
     | Again \<Rightarrow> st' = st1 \<and> (rollback_complete h \<longrightarrow> revocable_state h st1)"
  shows "step_ok mode h new_owner st st' f"
  using assms by (auto simp: step_ok_def intro: attempt_ok_kept split: flow.splits)

text \<open>A round first settles the state; after that it meets a shared object, an exclusively owned one or none.\<close>

definition settled_ok ::
  "(ownership \<Rightarrow> bool) \<Rightarrow> 'b heap \<Rightarrow> journal_id \<Rightarrow> object_state \<Rightarrow> (('b heap \<times> object_state) \<times> access_result flow) run \<Rightarrow> bool" where
  "settled_ok mode h new_owner st1 r \<longleftrightarrow> (\<exists>st' f. r = returns ((h, st'), f) \<and>
     (case f of
        Return a \<Rightarrow> attempt_ok mode h new_owner st1 st' a
      | Again \<Rightarrow> st' = st1 \<and> (rollback_complete h \<longrightarrow> revocable_state h st1)))"

lemma body_ok:
  assumes wf: "wf_state h st" "\<not> stuck_state h st"
    and body: "\<And>st1. prepare_ownership_transfer h st = Done (h, st1) \<Longrightarrow> wf_state h st1 \<Longrightarrow> \<not> stuck_state h st1 \<Longrightarrow>
      settled_ok mode h new_owner st1 r"
  shows "\<exists>st' f. r = returns ((h, st'), f) \<and> step_ok mode h new_owner st st' f"
proof -
  obtain st1 where prep: "prepare_ownership_transfer h st = Done (h, st1)"
    and st1: "kept h st st1" "state_owners st1 \<subseteq> state_owners st"
      "revocable_state h st1 \<longrightarrow> state_depth st1 < state_depth st"
      "exclusively_held h st \<longrightarrow> st1 = st"
    using prepare_ok [OF wf] by blast
  have "settled_ok mode h new_owner st1 r" using body [OF prep] st1(1) by (simp add: kept_def)
  then show ?thesis using step_ok_prepared [OF st1] unfolding settled_ok_def by blast
qed

lemma exclusive_settled_ok:
  assumes "wf_own h own" "\<not> stuck_deletion h own" "\<not> is_shared own"
    and "\<exists>j. own = Created j \<or> own = Locked j \<or> own = Deleted j \<Longrightarrow>
      attempt_ok mode h new_owner (Owned own) (Owned (fst owned)) (snd owned)"
    and "\<exists>e. own = CreatedAwaitable e \<or> own = LockedAwaitable e \<or> own = DeletedAwaitable e \<Longrightarrow>
      \<exists>own' r. awaitable = ((h, own'), r) \<and>
        (case retry_flow r of
           Return a \<Rightarrow> attempt_ok mode h new_owner (Owned own) (Owned own') a
         | Again \<Rightarrow> own' = own \<and> (rollback_complete h \<longrightarrow> revocable h own))"
  shows "settled_ok mode h new_owner (Owned own) (returns (exclusive_flow owned awaitable h own))"
  using exclusive_flow_ok [OF assms] unfolding settled_ok_def by (auto split: flow.splits)

lemmas settled_unfold = settled_ok_def attempt_ok_def kept_def exclusively_held_def awaitable_defs

lemma share_body_ok:
  assumes wf: "wf_state h st" "\<not> stuck_state h st"
  shows "\<exists>st' f. try_share_body new_owner deadline (h, st) = returns ((h, st'), f) \<and>
    step_ok is_shared h new_owner st st' f"
proof (rule body_ok [OF wf])
  fix st1 assume prep: "prepare_ownership_transfer h st = Done (h, st1)" and wf1: "wf_state h st1" "\<not> stuck_state h st1"
  show "settled_ok is_shared h new_owner st1 (try_share_body new_owner deadline (h, st))"
  proof (cases st1)
    case (Owned own)
    show ?thesis
    proof (cases "is_shared own")
      case True
      with Owned wf1 show ?thesis
        by (cases own) (auto simp: try_share_body_def prep settled_unfold
            sa_insert_def set_insort_insert sorted_insort_insert distinct_insort_insert list_ex_iff dest: Linearizable_same)
    next
      case False
      with wf1 Owned have own: "wf_own h own" "\<not> stuck_deletion h own" "\<not> is_shared own" by simp_all
      have "try_share_body new_owner deadline (h, st) = returns (exclusive_flow (try_share_exclusively_owned h own new_owner deadline)
          (try_share_exclusive_awaitable h own new_owner deadline) h own)"
        using False by (cases own) (simp_all add: try_share_body_def prep Owned)
      with Owned exclusive_settled_ok [OF own share_exclusively_owned_ok exclusive_awaitable_ok(1) [OF _ own(1,2)]]
      show ?thesis by simp
    qed
  qed (use wf1 in \<open>auto simp: try_share_body_def prep settled_unfold\<close>)
qed

text \<open>An object that is shared is locked or deleted in the same way.\<close>

lemma claim_shared_ok:
  assumes prep: "prepare_ownership_transfer h st = Done (h, Owned own)" and own: "is_shared own" "wf_own h own"
  shows "settled_ok is_lock h new_owner (Owned own) (try_lock_body new_owner deadline (h, st)) \<and>
    settled_ok is_deletion h new_owner (Owned own) (try_delete_body new_owner deadline (h, st))"
  using own(1)
proof (cases own)
  case (Protected j)
  then show ?thesis by (auto simp: try_lock_body_def try_delete_body_def prep settled_unfold dest: Linearizable_same)
next
  case (ProtectedAwaitable s)
  with own have s: "sorted (sa_owner_set s)" "distinct (sa_owner_set s)" by simp_all
  show ?thesis
  proof (cases "snd (cleanup_inactive_owners h s)")
    case True
    with ProtectedAwaitable show ?thesis
      by (auto simp: try_lock_body_def try_delete_body_def prep settled_unfold cleanup_inactive_owners_def Let_def filter_empty_conv)
  next
    case False
    then obtain s1 where s1: "cleanup_inactive_owners h s = (s1, False)" by (cases "cleanup_inactive_owners h s") auto
    note clean = cleanup_inactive_ok [OF s s1]
    obtain s2 r where p: "try_promote_to_exclusive h s1 new_owner = (s2, r)" by fastforce
    show ?thesis
    proof (cases r)
      case None
      with try_promote_None [of h s1 new_owner] ProtectedAwaitable s1 p clean show ?thesis
        by (auto simp: try_lock_body_def try_delete_body_def prep settled_unfold)
    next
      case (Some e)
      with try_promote_Some [of h s1 new_owner s2 e] ProtectedAwaitable s1 p clean show ?thesis
        by (auto simp: try_lock_body_def try_delete_body_def prep settled_unfold)
    qed
  qed
qed simp_all

lemma lock_body_ok:
  assumes wf: "wf_state h st" "\<not> stuck_state h st"
  shows "\<exists>st' f. try_lock_body new_owner deadline (h, st) = returns ((h, st'), f) \<and>
    step_ok is_lock h new_owner st st' f"
proof (rule body_ok [OF wf])
  fix st1 assume prep: "prepare_ownership_transfer h st = Done (h, st1)" and wf1: "wf_state h st1" "\<not> stuck_state h st1"
  show "settled_ok is_lock h new_owner st1 (try_lock_body new_owner deadline (h, st))"
  proof (cases st1)
    case (Owned own)
    with wf1 have own: "wf_own h own" "\<not> stuck_deletion h own" by simp_all
    show ?thesis
    proof (cases "is_shared own")
      case False
      then have "try_lock_body new_owner deadline (h, st) = returns (exclusive_flow (try_lock_exclusively_owned h own new_owner deadline)
          (try_lock_exclusive_awaitable h own new_owner deadline) h own)"
        by (cases own) (simp_all add: try_lock_body_def prep Owned)
      with Owned exclusive_settled_ok [OF own False lock_exclusively_owned_ok exclusive_awaitable_ok(2) [OF _ own]]
      show ?thesis by simp
    qed (use claim_shared_ok [OF prep [unfolded Owned] _ own(1)] Owned in simp)
  qed (use wf1 in \<open>auto simp: try_lock_body_def prep settled_unfold\<close>)
qed

lemma delete_body_ok:
  assumes wf: "wf_state h st" "\<not> stuck_state h st"
  shows "\<exists>st' f. try_delete_body new_owner deadline (h, st) = returns ((h, st'), f) \<and>
    step_ok is_deletion h new_owner st st' f"
proof (rule body_ok [OF wf])
  fix st1 assume prep: "prepare_ownership_transfer h st = Done (h, st1)" and wf1: "wf_state h st1" "\<not> stuck_state h st1"
  show "settled_ok is_deletion h new_owner st1 (try_delete_body new_owner deadline (h, st))"
  proof (cases st1)
    case (Owned own)
    with wf1 have own: "wf_own h own" "\<not> stuck_deletion h own" by simp_all
    show ?thesis
    proof (cases "is_shared own")
      case False
      then have "try_delete_body new_owner deadline (h, st) = returns (exclusive_flow (try_delete_exclusively_owned h own new_owner deadline)
          (try_delete_exclusive_awaitable h own new_owner deadline) h own)"
        by (cases own) (simp_all add: try_delete_body_def prep Owned)
      with Owned exclusive_settled_ok [OF own False delete_exclusively_owned_ok exclusive_awaitable_ok(3) [OF _ own]]
      show ?thesis by simp
    qed (use claim_shared_ok [OF prep [unfolded Owned] _ own(1)] Owned in simp)
  qed (use wf1 in \<open>auto simp: try_delete_body_def prep settled_unfold\<close>)
qed

section \<open>The interface of the retry loops\<close>

text \<open>
  An operation whose loop body keeps the contract above: \<open>mode\<close> is the kind of ownership it
  obtains.
\<close>

locale retry_operation =
  fixes mode :: "ownership \<Rightarrow> bool"
    and body :: "journal_id \<Rightarrow> time option \<Rightarrow> 'b heap \<times> object_state \<Rightarrow>
      (('b heap \<times> object_state) \<times> access_result flow) run"
  assumes body_law: "wf_state h st \<Longrightarrow> \<not> stuck_state h st \<Longrightarrow>
    \<exists>st' f. body new_owner deadline (h, st) = returns ((h, st'), f) \<and> step_ok mode h new_owner st st' f"
begin

text \<open>The loop returns, and the contract holds for the state and the result it returns.\<close>

lemma loop_returns:
  assumes "rollback_complete h" and "wf_state h st" and "\<not> stuck_state h st"
  shows "\<exists>s r. rust_loop (body new_owner deadline) (h, st) = returns (s, r)"
proof -
  let ?I = "\<lambda>(h', st). h' = h \<and> wf_state h st \<and> \<not> stuck_state h st"
  have "?I (h, st)" using assms by simp
  moreover have "\<exists>s' f. body new_owner deadline s = returns (s', f) \<and>
      (f = Again \<longrightarrow> ?I s' \<and> state_depth (snd s') < state_depth (snd s))" if I: "?I s" for s
  proof -
    obtain st where s: "s = (h, st)" using I by (cases s) auto
    with I body_law [of h st new_owner deadline] assms(1) show ?thesis
      by (fastforce simp: step_ok_def kept_def)
  qed
  ultimately show ?thesis by (rule rust_loop_returns [where I = ?I and m = "\<lambda>s. state_depth (snd s)"])
qed

lemma loop_contract:
  assumes ret: "rust_loop (body new_owner deadline) (h, st) = returns ((h', st'), r)"
    and wf: "wf_state h st" "\<not> stuck_state h st"
  shows "h' = h \<and> attempt_ok mode h new_owner st st' r"
proof -
  let ?I = "\<lambda>(h', st1). h' = h \<and> kept h st st1 \<and> state_owners st1 \<subseteq> state_owners st \<and>
    (exclusively_held h st \<longrightarrow> st1 = st)"
  let ?Q = "\<lambda>s r. fst s = h \<and> attempt_ok mode h new_owner st (snd s) r"
  have law: "\<exists>st2 f. s = (h, snd s) \<and> body new_owner deadline s = returns ((h, st2), f) \<and>
      step_ok mode h new_owner (snd s) st2 f" if "?I s" for s
    using that body_law [of h "snd s" new_owner deadline] by (cases s) (auto simp: kept_def)
  have "?Q (h', st') r"
  proof (rule rust_loop_rule [OF ret, where I = ?I and Q = ?Q])
    show "?I (h, st)" using wf by (auto simp: kept_def)
    show "?I s'" if "?I s" "body new_owner deadline s = returns (s', Again)" for s s'
      using law [OF that(1)] that by (cases s) (auto simp: step_ok_def intro: kept_trans)
    show "?Q s' r" if "?I s" "body new_owner deadline s = returns (s', Return r)" for s s' r
      using law [OF that(1)] that by (cases s) (auto simp: step_ok_def intro: attempt_ok_kept)
  qed
  then show ?thesis by simp
qed

lemma loop_ok:
  assumes "rollback_complete h" and "wf_state h st" and "\<not> stuck_state h st"
  shows "\<exists>st' r. rust_loop (body new_owner deadline) (h, st) = returns ((h, st'), r) \<and>
    attempt_ok mode h new_owner st st' r"
  using loop_returns [OF assms, of new_owner deadline] loop_contract [OF _ assms(2,3)] by fastforce

end

interpretation share: retry_operation is_shared try_share_body
  by unfold_locales (rule share_body_ok)

interpretation lock: retry_operation is_lock try_lock_body
  by unfold_locales (rule lock_body_ok)

interpretation delete: retry_operation is_deletion try_delete_body
  by unfold_locales (rule delete_body_ok)

end
