(* ===== verification/Access_Control.thy ===== *)
theory Access_Control
  imports Ownership
begin

text \<open>
  The properties of the access controller: mutual exclusion between transactions, progress of
  free objects, the wait queue, visibility of objects to readers, and garbage collection.
\<close>

section \<open>Lemmas\<close>

lemma rollback_complete_idle [simp]: "rollback_complete idle_heap"
  by (simp add: rollback_complete_def)

text \<open>An object that is not shared has the owners of one transaction only.\<close>

lemma exclusive_one_transaction:
  assumes "wf_own h own" and "\<not> is_shared own" and "i \<in> owners own" and "j \<in> owners own"
  shows "same_transaction h i j"
proof (cases own)
  case (CreatedAwaitable e)
  with assms show ?thesis by (cases e) auto
next
  case (LockedAwaitable e)
  obtain c k p q where "e = ExclusiveAwaitable c k p q" by (cases e)
  with LockedAwaitable assms show ?thesis by (cases p) (auto simp: same_transaction_def)
next
  case (DeletedAwaitable e)
  obtain c k p q where "e = ExclusiveAwaitable c k p q" by (cases e)
  with DeletedAwaitable assms show ?thesis by (cases p) (auto simp: same_transaction_def)
qed (use assms in auto)

text \<open>A granted exclusive request was not in conflict with a live owner of another transaction.\<close>

lemma granted_exclusive:
  assumes "attempt_ok mode h new_owner st st' (Ok (Some True))"
    and "\<And>own. mode own \<Longrightarrow> \<not> is_shared own"
    and "j \<in> state_owners st" and "\<not> is_terminated h j"
  shows "same_transaction h j new_owner"
proof -
  from assms(1) obtain own where own: "st' = Owned own" "mode own" "new_owner \<in> owners own"
    and wf: "wf_own h own" and displaced: "\<forall>j \<in> state_owners st - owners own. is_terminated h j"
    by (auto simp: attempt_ok_def kept_def)
  from displaced assms(3,4) have "j \<in> owners own" by blast
  with exclusive_one_transaction [OF wf] assms(2) own show ?thesis by blast
qed

lemma granted_shared:
  "attempt_ok is_shared h new_owner st st' (Ok (Some True)) \<Longrightarrow> \<not> exclusively_held h st"
  by (auto simp: attempt_ok_def)

lemma refused_keeps_owners:
  "attempt_ok mode h new_owner st st' r \<Longrightarrow> r \<noteq> Ok (Some True) \<Longrightarrow> state_owners st' \<subseteq> state_owners st"
  by (auto simp: attempt_ok_def split: sum.splits option.splits bool.splits)

subsection \<open>Free objects\<close>

text \<open>
  An object whose owners have all ended and belong to other transactions, that nobody waits for
  and that is not being created or deleted.
\<close>

definition released :: "'b heap \<Rightarrow> journal_id \<Rightarrow> object_state \<Rightarrow> bool" where
  "released h new_owner st \<longleftrightarrow>
     (case st of
        Owned own \<Rightarrow> (is_shared own \<or> is_lock own) \<and> queue_of own = [] \<and>
          (\<forall>j \<in> owners own. is_terminated h j \<and> \<not> same_transaction h j new_owner)
      | CreatedAt _ \<Rightarrow> True
      | DeletedAt _ \<Rightarrow> False)"

lemma terminated_relationship:
  "is_terminated h j \<Longrightarrow> \<not> same_transaction h j k \<Longrightarrow>
     grant_write_access h j k = RelRolledBack \<or> (\<exists>i. grant_write_access h j k = RelCommitted i)"
  by (auto simp: grant_write_access_def is_terminated_def same_transaction_def split: option.splits)

lemma prepare_released:
  assumes wf: "wf_state h st" "\<not> stuck_state h st" and rel: "released h new_owner st"
    and prep: "prepare_ownership_transfer h st = Done (h', st')"
  shows "released h new_owner st'"
proof (cases st)
  case (Owned own)
  with rel have kind: "is_shared own \<or> is_lock own" and q: "queue_of own = []"
    and ended: "\<forall>j \<in> owners own. is_terminated h j \<and> \<not> same_transaction h j new_owner"
    by (auto simp: released_def)
  show ?thesis
  proof (cases own)
    case (LockedAwaitable e)
    obtain c k p qs where e: "e = ExclusiveAwaitable c k p qs" by (cases e)
    with LockedAwaitable q have qs: "qs = []" by simp
    show ?thesis
    proof (cases p)
      case None
      with Owned LockedAwaitable prep ended e qs show ?thesis
        by (auto simp: prepare_ownership_transfer_def revoke_promotion_none settle_ownership_def
            released_def ea_is_empty_def split: if_splits)
    next
      case (Some own')
      with wf Owned LockedAwaitable e have "is_shared own'" "queue_of own' = []" by simp_all
      with Owned LockedAwaitable prep ended e qs Some wf show ?thesis
        by (cases own') (auto simp: prepare_ownership_transfer_def revoke_locked settle_ownership_def
            released_def ea_is_empty_def split: if_splits)
    qed
  qed (use Owned prep kind q ended in \<open>auto simp: prepare_ownership_transfer_def revoke_promotion_other
       settle_ownership_def released_def\<close>)
qed (use rel prep in \<open>auto simp: prepare_ownership_transfer_def released_def\<close>)

text \<open>One round of the lock on a free object either grants it or goes on with a free object.\<close>

lemma lock_body_released:
  assumes wf: "wf_state h st" "\<not> stuck_state h st" and rel: "released h new_owner st"
    and body: "try_lock_body new_owner deadline (h, st) = returns ((h', st'), f)"
  shows "f = Return (Ok (Some True)) \<or> (f = Again \<and> h' = h \<and> released h new_owner st')"
proof -
  obtain st1 where prep: "prepare_ownership_transfer h st = Done (h, st1)" and "kept h st st1"
    using prepare_ok [OF wf] by blast
  then have wf1: "wf_state h st1" by (simp add: kept_def)
  note rel1 = prepare_released [OF wf rel prep]
  show ?thesis
  proof (cases st1)
    case (Owned own)
    with rel1 have kind: "is_shared own \<or> is_lock own" and q: "queue_of own = []"
      and ended: "\<forall>j \<in> owners own. is_terminated h j \<and> \<not> same_transaction h j new_owner"
      by (auto simp: released_def)
    show ?thesis
    proof (cases own)
      case (Protected j)
      with body ended prep Owned show ?thesis by (auto simp: try_lock_body_def split: if_splits)
    next
      case (ProtectedAwaitable s)
      with body ended prep Owned q show ?thesis
        by (auto simp: try_lock_body_def cleanup_inactive_owners_def Let_def filter_empty_conv)
    next
      case (Locked j)
      with ended terminated_relationship [of h j new_owner] have
        "grant_write_access h j new_owner = RelRolledBack \<or>
         (\<exists>i. grant_write_access h j new_owner = RelCommitted i)" by simp
      with body prep Owned Locked show ?thesis
        by (auto simp: try_lock_body_def exclusive_flow_def try_lock_exclusively_owned_def
            exclusive_owner_details_def)
    next
      case (LockedAwaitable e)
      obtain c k p qs where e: "e = ExclusiveAwaitable c k p qs" by (cases e)
      with ended LockedAwaitable have k: "is_terminated h k" "\<not> same_transaction h k new_owner"
        by (cases p; simp)+
      have drop: "drop_ownership own h = h"
        using wf1 Owned q by (simp add: drop_ownership_empty)
      from terminated_relationship [OF k] body prep Owned LockedAwaitable e q drop rel1 show ?thesis
        by (auto simp: try_lock_body_def exclusive_flow_def try_lock_exclusive_awaitable_def
            exclusive_awaitable_access_defails_def retry_flow_def split: if_splits)
    qed (use kind in simp_all)
  qed (use body prep rel1 in \<open>auto simp: try_lock_body_def released_def\<close>)
qed

lemma lock_released:
  assumes "rollback_complete h" and wf: "wf_state h st" "\<not> stuck_state h st"
    and rel: "released h new_owner st"
  shows "\<exists>st'. try_lock h st new_owner deadline = returns ((h, st'), Ok (Some True))"
proof -
  obtain st' r where ret: "try_lock h st new_owner deadline = returns ((h, st'), r)"
    using lock.loop_ok [OF assms(1) wf] unfolding try_lock_def by blast
  let ?I = "\<lambda>(h', st). h' = h \<and> wf_state h st \<and> \<not> stuck_state h st \<and> released h new_owner st"
  have "r = Ok (Some True)"
  proof (rule rust_loop_rule [OF ret [unfolded try_lock_def], where I = ?I and Q = "\<lambda>_ r. r = Ok (Some True)"])
    show "?I (h, st)" using assms by simp
    show "?I s'" if "?I s" "try_lock_body new_owner deadline s = returns (s', Again)" for s s'
      using that lock_body_released [of h "snd s" new_owner deadline] lock_body_ok [of h "snd s" new_owner deadline]
      by (cases s; cases s') (auto simp: step_ok_def kept_def)
    show "r = Ok (Some True)" if "?I s" "try_lock_body new_owner deadline s = returns (s', Return r)" for s s' r
      using that lock_body_released [of h "snd s" new_owner deadline] by (cases s; cases s') auto
  qed
  with ret show ?thesis by blast
qed

section \<open>The wait queue\<close>

definition answered :: "'b heap \<Rightarrow> request \<Rightarrow> bool" where
  "answered h r \<longleftrightarrow> rc_poisoned (cells h (request_cell r)) \<or> rc_result (cells h (request_cell r)) \<noteq> None"

text \<open>What processing the wait queue may change in the heap.\<close>

definition answers_only :: "'b heap \<Rightarrow> 'b heap \<Rightarrow> bool" where
  "answers_only h h' \<longleftrightarrow> same_owners h h' \<and> (\<forall>r. answered h r \<longrightarrow> answered h' r)"

lemma answers_only_refl [simp]: "answers_only h h"
  by (simp add: answers_only_def)

lemma answers_only_trans: "answers_only h h1 \<Longrightarrow> answers_only h1 h2 \<Longrightarrow> answers_only h h2"
  by (auto simp: answers_only_def intro: same_owners_trans)

lemma answers_only_steps:
  "answers_only h (set_wake_up_others j h)" "answers_only h (set_result c a h)"
  "answers_only h (take_waker_and_wake c h)"
  by (auto simp: answers_only_def answered_def same_owners_def set_result_def take_waker_and_wake_def
      upd_cell_def split: option.splits)

lemma answers_only_answer:
  "answers_only h (take_waker_and_wake c (set_wake_up_others j (set_result c a h)))"
  "answers_only h (take_waker_and_wake c (set_result c a h))"
  by (meson answers_only_steps answers_only_trans)+

lemma answered_set_result: "answered (set_result (request_cell r) a h) r"
  by (simp add: answered_def set_result_def upd_cell_def)

lemma answered_answer:
  "answered (take_waker_and_wake (request_cell r) (set_wake_up_others j (set_result (request_cell r) a h))) r"
  "answered (take_waker_and_wake (request_cell r) (set_result (request_cell r) a h)) r"
  using answers_only_steps answered_set_result [of r a h] by (metis answers_only_def)+

lemma wf_own_same_owners: "same_owners h h' \<Longrightarrow> wf_own h own \<Longrightarrow> wf_own h' own"
proof (induction h own rule: wf_own.induct)
  case (2 h i j p q)
  then show ?case by (auto simp: same_transaction_def same_owners_fields)
next
  case (3 h i j p q)
  then show ?case by (auto simp: same_transaction_def same_owners_fields)
qed auto

lemma wf_state_same_owners: "same_owners h h' \<Longrightarrow> wf_state h st \<Longrightarrow> wf_state h' st"
  by (cases st) (auto simp: wf_own_same_owners)

lemma same_owners_sym: "same_owners h h' \<Longrightarrow> same_owners h' h"
  by (simp add: same_owners_def)

lemma rollback_complete_same_owners: "same_owners h h' \<Longrightarrow> rollback_complete h \<Longrightarrow> rollback_complete h'"
  by (simp add: rollback_complete_def same_owners_rules)

lemma not_stuck_no_queue: "state_queue st = [] \<Longrightarrow> \<not> stuck_state h st"
proof (cases st)
  case (Owned own)
  moreover assume "state_queue st = []"
  ultimately show ?thesis by (cases "(h, own)" rule: stuck_deletion.cases) auto
qed simp_all

lemma owners_unpromoted: "ea_prior_ownership e = None \<Longrightarrow> owners (CreatedAwaitable e) = {ea_owner e}"
  by (cases e) auto

lemma try_create_ok:
  assumes wf: "wf_state h st" and q: "state_queue st = []"
  shows "\<exists>st' r. try_create h st new_owner deadline = Done ((h, st'), r) \<and>
    attempt_ok is_creation h new_owner st st' r"
proof -
  obtain st1 where prep: "prepare_ownership_transfer h st = Done (h, st1)"
    and st1: "kept h st st1" "state_owners st1 \<subseteq> state_owners st" "exclusively_held h st \<longrightarrow> st1 = st"
    using prepare_ok [OF wf not_stuck_no_queue [OF q]] by blast
  have wf1: "wf_state h st1" and q1: "state_queue st1 = []" and ok1: "\<not> stuck_state h st1"
    using st1(1) q by (simp_all add: kept_def)
  have "\<exists>st' r. try_create h st new_owner deadline = Done ((h, st'), r) \<and>
    attempt_ok is_creation h new_owner st1 st' r"
  proof (cases "\<exists>own j. st1 = Owned own \<and> is_creation own \<and> holder own = Some j")
    case True
    then obtain own j where own: "st1 = Owned own" "is_creation own" "holder own = Some j" by blast
    have owners: "owners own = {j}"
      using own wf1 by (cases own rule: is_creation.cases) (auto simp: owners_unpromoted)
    have drop: "drop_ownership own h = h" using wf1 q1 own by (simp add: drop_ownership_empty)
    show ?thesis
      using own owners drop owner_relationship [of h j new_owner] wf1 q1 ok1
      by (cases "grant_write_access h j new_owner"; cases own rule: is_creation.cases)
        (auto simp: try_create_def prep attempt_ok_def kept_def awaitable_defs exclusively_held_def)
  next
    case False
    then show ?thesis
      using wf1 ok1
      by (cases st1; cases "case st1 of Owned own \<Rightarrow> own | _ \<Rightarrow> undefined")
        (auto simp: try_create_def prep attempt_ok_def kept_def exclusively_held_def)
  qed
  then show ?thesis using attempt_ok_kept [OF st1] by blast
qed

primrec request_mode :: "request \<Rightarrow> ownership \<Rightarrow> bool" where
  "request_mode (ReqCreate _ _ _) = is_creation"
| "request_mode (ReqProtect _ _ _) = is_shared"
| "request_mode (ReqLock _ _ _) = is_lock"
| "request_mode (ReqDelete _ _ _) = is_deletion"

lemma try_request_ok:
  assumes "rollback_complete h" and "wf_state h st" and "state_queue st = []"
  shows "\<exists>st' r. try_request req deadline (h, st) = returns ((h, st'), r) \<and>
    attempt_ok (request_mode req) h (request_owner req) st st' r"
  using try_create_ok [OF assms(2,3), of "request_owner req" deadline]
    share.loop_ok [OF assms(1,2) not_stuck_no_queue [OF assms(3)], of "request_owner req" deadline]
    lock.loop_ok [OF assms(1,2) not_stuck_no_queue [OF assms(3)], of "request_owner req" deadline]
    delete.loop_ok [OF assms(1,2) not_stuck_no_queue [OF assms(3)], of "request_owner req" deadline]
  by (cases req) (auto simp: try_request_def try_share_def try_lock_def try_delete_def)

text \<open>The contract of an attempt only depends on who owns what and who has ended.\<close>

lemma stuck_state_same_owners: "same_owners h h' \<Longrightarrow> stuck_state h' st = stuck_state h st"
proof (cases st)
  case (Owned own)
  assume "same_owners h h'"
  with Owned show ?thesis by (cases "(h, own)" rule: stuck_deletion.cases) (auto simp: same_owners_rules)
qed simp_all

lemma attempt_ok_same_owners:
  assumes "same_owners h h'"
  shows "attempt_ok mode h' j st st' r = attempt_ok mode h j st st' r"
proof -
  have "kept h' st st' = kept h st st'"
    using wf_state_same_owners [OF assms] wf_state_same_owners [OF same_owners_sym [OF assms]]
      stuck_state_same_owners [OF assms]
    by (auto simp: kept_def same_owners_rules [OF assms])
  moreover have "same_transaction h' i k = same_transaction h i k" for i k
    by (simp add: same_transaction_def same_owners_fields(1) [OF assms])
  ultimately show ?thesis
    by (cases r) (auto simp: attempt_ok_def exclusively_held_def same_owners_rules [OF assms]
        split: option.splits bool.splits)
qed

text \<open>What every attempt of a request in the queue keeps.\<close>

definition stable :: "'b heap \<Rightarrow> wait_queue \<Rightarrow> (object_state \<Rightarrow> bool) \<Rightarrow> bool" where
  "stable h q J \<longleftrightarrow> (\<forall>r \<in> set q. \<forall>st st' res. wf_state h st \<longrightarrow> state_queue st = [] \<longrightarrow> J st \<longrightarrow>
     attempt_ok (request_mode r) h (request_owner r) st st' res \<longrightarrow> J st')"

lemma stable_True [simp]: "stable h q (\<lambda>_. True)"
  by (simp add: stable_def)

text \<open>One round of \<^verbatim>\<open>process_wait_queue\<close>, with the queue taken out of the state.\<close>

definition queue_state_ok ::
  "'b heap \<Rightarrow> wait_queue \<Rightarrow> (object_state \<Rightarrow> bool) \<Rightarrow> 'b heap \<times> object_state \<times> wait_queue \<Rightarrow> bool" where
  "queue_state_ok h0 q0 J = (\<lambda>(h, st, q).
     answers_only h0 h \<and> wf_state h0 st \<and> state_queue st = [] \<and> J st \<and>
     (\<exists>n. q = drop n q0 \<and> (\<forall>r \<in> set (take n q0). answered h r)))"

definition queue_measure :: "'b heap \<times> object_state \<times> wait_queue \<Rightarrow> nat" where
  "queue_measure = (\<lambda>(h, st, q).
     2 * length q + (if q \<noteq> [] \<and> \<not> answered h (hd q) then 1 else 0))"

lemma queue_state_ok_remove:
  assumes "queue_state_ok h0 q0 J (h, st, r # q)" and "answered h r"
  shows "queue_state_ok h0 q0 J (h, st, q)"
proof -
  from assms obtain n where n: "r # q = drop n q0" "\<forall>r \<in> set (take n q0). answered h r"
    by (auto simp: queue_state_ok_def)
  then have "n < length q0" by (metis drop_all linorder_not_less list.distinct(1))
  with n assms(2) have "q = drop (Suc n) q0" "\<forall>r \<in> set (take (Suc n) q0). answered h r"
    by (metis drop_Suc list.sel(3) tl_drop)
      (metis Cons_nth_drop_Suc \<open>n < length q0\<close> assms(2) insert_iff list.inject n set_append
        list.simps(15) set_ConsD take_Suc_conv_app_nth UnE empty_iff list.set(1))
  with assms(1) show ?thesis by (auto simp: queue_state_ok_def)
qed

lemma queue_state_ok_answer:
  assumes "queue_state_ok h0 q0 J (h, st, q)" and "answers_only h h'" and "wf_state h0 st'"
    and "state_queue st' = []" and "J st'"
  shows "queue_state_ok h0 q0 J (h', st', q)"
  using assms unfolding queue_state_ok_def by (auto simp: answers_only_def intro: same_owners_trans)

lemma process_body_ok:
  assumes rc: "rollback_complete h0" and J: "stable h0 q0 J" and ok: "queue_state_ok h0 q0 J (h, st, q)"
  shows "\<exists>s' f. process_wait_queue_body now (h, st, q) = returns (s', f) \<and> queue_state_ok h0 q0 J s' \<and>
    (case f of
       Again \<Rightarrow> queue_measure s' < queue_measure (h, st, q)
     | Return _ \<Rightarrow> snd (snd s') = [] \<or> (\<exists>own. fst (snd s') = Owned own \<and> is_awaitable own))"
proof (cases q)
  case Nil
  with ok show ?thesis by (simp add: process_wait_queue_body_def Let_def clone_oldest_def)
next
  case (Cons r rest)
  show ?thesis
  proof (cases "answered h r")
    case True
    then have "process_wait_queue_body now (h, st, q) = returns ((h, st, rest), Again)"
      by (auto simp: process_wait_queue_body_def Let_def clone_oldest_def remove_oldest_def Cons answered_def)
    moreover have "queue_state_ok h0 q0 J (h, st, rest)"
      using queue_state_ok_remove ok True Cons by blast
    ultimately show ?thesis using True by (simp add: queue_measure_def Cons)
  next
    case False
    have so: "same_owners h0 h" and wf0: "wf_state h0 st" and sq: "state_queue st = []" and J0: "J st"
      using ok by (auto simp: queue_state_ok_def answers_only_def)
    have "set q \<subseteq> set q0" using ok set_drop_subset by (fastforce simp: queue_state_ok_def)
    then have r: "r \<in> set q0" by (simp add: Cons)
    obtain st' res where req: "try_request r (Some now) (h, st) = returns ((h, st'), res)"
      and att: "attempt_ok (request_mode r) h (request_owner r) st st' res"
      using try_request_ok [OF rollback_complete_same_owners [OF so rc] wf_state_same_owners [OF so wf0] sq]
      by blast
    have wf': "wf_state h0 st'" and sq': "state_queue st' = []"
      using att sq wf_state_same_owners [OF same_owners_sym [OF so]]
      by (auto simp: attempt_ok_def kept_def)
    have "attempt_ok (request_mode r) h0 (request_owner r) st st' res"
      using att by (simp add: attempt_ok_same_owners [OF so])
    then have "J st'" using J r wf0 sq J0 unfolding stable_def by blast
    note keep = queue_state_ok_answer [OF ok _ wf' sq' this]
    show ?thesis
    proof (cases "res = Ok None")
      case True
      with False req att keep [of h] show ?thesis
        by (auto simp: process_wait_queue_body_def Let_def clone_oldest_def Cons answered_def attempt_ok_def)
    next
      case not_none: False
      define h1 where "h1 = (case res of
          Inr (Some a) \<Rightarrow> take_waker_and_wake (request_cell r)
            (set_wake_up_others (request_owner r) (set_result (request_cell r) (Ok a) h))
        | Inl e \<Rightarrow> take_waker_and_wake (request_cell r) (set_result (request_cell r) (Err e) h)
        | Inr None \<Rightarrow> h)"
      have body: "process_wait_queue_body now (h, st, q) = returns ((h1, st', q), Again)"
        using False req not_none
        by (auto simp: process_wait_queue_body_def Let_def clone_oldest_def Cons answered_def h1_def
            split: sum.splits option.splits)
      have "answers_only h h1"
        using not_none unfolding h1_def
        by (auto split: sum.splits option.splits intro: answers_only_answer)
      moreover have "answered h1 r"
        using not_none unfolding h1_def by (auto split: sum.splits option.splits simp: answered_answer)
      ultimately show ?thesis
        using body keep [of h1] False by (auto simp: queue_measure_def Cons)
    qed
  qed
qed

lemma process_wait_queue_ok:
  assumes rc: "rollback_complete h" and wf: "wf_state h st" and sq: "state_queue st = []"
    and J: "stable h q J" "J st"
  shows "\<exists>h' st' n. process_wait_queue now h st q =
      returns (h', st', if drop n q = [] then None else Some (drop n q)) \<and>
    answers_only h h' \<and> wf_state h st' \<and> state_queue st' = [] \<and> J st' \<and>
    (\<forall>r \<in> set (take n q). answered h' r) \<and>
    (drop n q = [] \<or> (\<exists>own. st' = Owned own \<and> is_awaitable own))"
proof -
  let ?I = "queue_state_ok h q J"
  let ?Q = "\<lambda>s (_ :: unit). ?I s \<and> (snd (snd s) = [] \<or> (\<exists>own. fst (snd s) = Owned own \<and> is_awaitable own))"
  have init: "?I (h, st, q)" using wf sq J by (auto simp: queue_state_ok_def intro!: exI [of _ 0])
  have step: "\<exists>s' f. process_wait_queue_body now s = returns (s', f) \<and> ?I s' \<and>
    (case f of
       Again \<Rightarrow> queue_measure s' < queue_measure s
     | Return _ \<Rightarrow> snd (snd s') = [] \<or> (\<exists>own. fst (snd s') = Owned own \<and> is_awaitable own))"
    if "?I s" for s
    by (cases s rule: prod_cases3) (use process_body_ok [OF rc J(1)] that in blast)
  have "\<exists>s' r. rust_loop (process_wait_queue_body now) (h, st, q) = returns (s', r)"
    by (rule rust_loop_returns [where I = ?I and m = queue_measure])
      (use init step in \<open>fastforce split: flow.splits\<close>)+
  then obtain s' r where ret: "rust_loop (process_wait_queue_body now) (h, st, q) = returns (s', r)"
    by blast
  have "?Q s' r"
    by (rule rust_loop_rule [OF ret, where I = ?I and Q = ?Q])
      (use init step in \<open>fastforce split: flow.splits\<close>)+
  then show ?thesis
    using ret by (cases s') (auto simp: process_wait_queue_def queue_state_ok_def)
qed

lemma post_process_ok:
  assumes wf: "wf_state h st" and sq: "state_queue st = []"
    and wq: "q = None \<or> (\<exists>q'. q = Some q' \<and> q' \<noteq> [] \<and> (\<exists>own. st = Owned own \<and> is_awaitable own))"
  shows "\<exists>st'. post_process_object_state st q = (st', q \<noteq> None) \<and> wf_state h st' \<and>
    state_queue st' = (case q of None \<Rightarrow> [] | Some q' \<Rightarrow> q')"
proof (cases st)
  case (Owned own)
  show ?thesis
  proof (cases own)
    case (CreatedAwaitable e)
    then show ?thesis using Owned assms
      by (cases e) (auto simp: post_process_object_state_def inherit_def)
  next
    case (LockedAwaitable e)
    obtain c j p r where "e = ExclusiveAwaitable c j p r" by (cases e)
    then show ?thesis using Owned LockedAwaitable assms
      by (cases p) (auto simp: post_process_object_state_def inherit_def)
  next
    case (DeletedAwaitable e)
    obtain c j p r where "e = ExclusiveAwaitable c j p r" by (cases e)
    then show ?thesis using Owned DeletedAwaitable assms
      by (cases p) (auto simp: post_process_object_state_def inherit_def)
  next
    case (ProtectedAwaitable s)
    then show ?thesis using Owned assms
      by (auto simp: post_process_object_state_def inherit_def split: list.splits)
  qed (use Owned assms in \<open>auto simp: post_process_object_state_def\<close>)
qed (use assms in \<open>auto simp: post_process_object_state_def\<close>)

lemma take_wait_queue_ok:
  assumes "wf_state h st"
  shows "case take_wait_queue st of
     None \<Rightarrow> state_queue st = []
   | Some (st', q) \<Rightarrow> wf_state h st' \<and> state_queue st' = [] \<and> q = state_queue st"
proof (cases st)
  case (Owned own)
  show ?thesis
  proof (cases own)
    case (CreatedAwaitable e)
    then show ?thesis using Owned assms by (cases e) (auto simp: take_wait_queue_def)
  next
    case (LockedAwaitable e)
    obtain c j p r where "e = ExclusiveAwaitable c j p r" by (cases e)
    then show ?thesis using Owned LockedAwaitable assms by (cases p) (auto simp: take_wait_queue_def)
  next
    case (DeletedAwaitable e)
    obtain c j p r where "e = ExclusiveAwaitable c j p r" by (cases e)
    then show ?thesis using Owned DeletedAwaitable assms by (cases p) (auto simp: take_wait_queue_def)
  qed (use Owned assms in \<open>auto simp: take_wait_queue_def\<close>)
qed (use assms in \<open>auto simp: take_wait_queue_def\<close>)

section \<open>Deletions that cannot be undone\<close>

text \<open>Every operation panics on a state with such a deletion, so an operation that returns met another one.\<close>

lemma stuck_panics: "stuck_state h st \<Longrightarrow> prepare_ownership_transfer h st = Panic"
proof (cases st)
  case (Owned own)
  assume "stuck_state h st"
  with Owned show ?thesis
    by (cases "(h, own)" rule: stuck_deletion.cases)
      (auto simp: prepare_ownership_transfer_def revoke_promotion.simps [of h "DeletedAwaitable _"]
        split: ownership.splits elim: is_creation.elims)
qed simp_all

lemma stuck_loops:
  assumes "stuck_state h st"
  shows "try_share h st j d = panics" "try_lock h st j d = panics" "try_delete h st j d = panics"
    "try_create h st j d = Panic" "transfer_ownership now h st = panics" "remove_condition c h st = Panic"
  using stuck_panics [OF assms]
  by (simp_all add: try_share_def try_lock_def try_delete_def rust_loop.simps [of _ "(h, st)"] try_share_body_def
      try_lock_body_def try_delete_body_def try_create_def transfer_ownership_def remove_condition_def)

section \<open>Readers\<close>

lemma read_after_eot:
  "read_object h st snapshot deadline = Inl a \<Longrightarrow> eot_instant (tas h (ae_transaction a)) = None"
  by (auto simp: read_object_def grant_read_access_def Let_def map_negate_def
      split: object_state.splits ownership.splits if_splits option.splits sum.splits)

lemma read_of_rolled_back:
  "is_database_snapshot s \<Longrightarrow> ja_eot_instant h j = Some 0 \<Longrightarrow> grant_read_access h j s deadline = Inr False"
  by (simp add: grant_read_access_database Let_def ja_eot_instant_def committed_by_def)

lemma await_eot_poll_returns:
  assumes "scc_bag_laws B"
  shows "\<exists>h' p. await_eot_poll B now w a h = returns (h', p) \<and>
    (eot_instant (tas h (ae_transaction a)) \<noteq> None \<longrightarrow> h' = h \<and> p = Ready (Ok ())) \<and>
    (eot_instant (tas h (ae_transaction a)) = None \<longrightarrow>
       p = (if ae_deadline a < now then Ready (Err Timeout) else Pending))"
  by (auto simp: await_eot_poll_def wait_eot_def Let_def eot_instant_def split: prod.splits)

definition read_measure :: "'b heap \<times> await_eot option \<Rightarrow> nat" where
  "read_measure = (\<lambda>(h, awaiting).
     case awaiting of
       None \<Rightarrow> 1
     | Some a \<Rightarrow> if eot_instant (tas h (ae_transaction a)) \<noteq> None then 2 else 0)"

section \<open>Properties\<close>

lemma lock_ok:
  assumes "rollback_complete h" and "wf_state h st" and "\<not> stuck_state h st"
  shows "\<exists>st' r. try_lock h st new_owner deadline = returns ((h, st'), r) \<and>
    wf_state h st' \<and> state_queue st' = state_queue st \<and>
    (\<forall>j \<in> state_owners st - state_owners st'. is_terminated h j) \<and>
    (r = Ok (Some True) \<longrightarrow> new_owner \<in> state_owners st' \<and>
       (\<forall>j \<in> state_owners st. \<not> is_terminated h j \<longrightarrow> same_transaction h j new_owner)) \<and>
    (r \<noteq> Ok (Some True) \<longrightarrow> state_owners st' \<subseteq> state_owners st)"
proof -
  obtain st' r where r: "try_lock h st new_owner deadline = returns ((h, st'), r)"
    and ok: "attempt_ok is_lock h new_owner st st' r"
    using lock.loop_ok [OF assms] unfolding try_lock_def by blast
  have "\<not> is_shared own" if "is_lock own" for own using that by (cases own) auto
  with ok granted_exclusive [of is_lock h new_owner st st'] refused_keeps_owners [OF ok] r show ?thesis
    by (auto simp: attempt_ok_def kept_def)
qed

text \<open>
  C2: \<^verbatim>\<open>try_lock\<close> excludes. On a well-formed state, where transactions that were rolled back have
  rolled back their journals, it panics exactly if the object is a deletion that cannot be undone
  (the journal that deleted an object of its own transaction was rolled back while others wait for the
  object). Otherwise it returns, and it grants the lock only if every owner that has not ended belongs
  to the requesting transaction. Whatever its result, nobody who has not ended loses ownership, the
  waiting requests keep waiting, and a refusal gives ownership to nobody.
\<close>

theorem lock_mutual_exclusion:
  assumes "rollback_complete h" and "wf_state h st"
  shows "(try_lock h st new_owner deadline = panics \<longleftrightarrow> stuck_state h st) \<and>
    (\<not> stuck_state h st \<longrightarrow>
      (\<exists>st' r. try_lock h st new_owner deadline = returns ((h, st'), r) \<and>
        wf_state h st' \<and> state_queue st' = state_queue st \<and>
        (\<forall>j \<in> state_owners st - state_owners st'. is_terminated h j) \<and>
        (r = Ok (Some True) \<longrightarrow> new_owner \<in> state_owners st' \<and>
           (\<forall>j \<in> state_owners st. \<not> is_terminated h j \<longrightarrow> same_transaction h j new_owner)) \<and>
        (r \<noteq> Ok (Some True) \<longrightarrow> state_owners st' \<subseteq> state_owners st)))"
proof (cases "stuck_state h st")
  case True
  then show ?thesis using stuck_loops(2) by simp
next
  case False
  from lock_ok [OF assms False, of new_owner deadline]
  have "try_lock h st new_owner deadline \<noteq> panics" by (elim exE conjE) simp
  with lock_ok [OF assms False, of new_owner deadline] False show ?thesis by blast
qed

theorem lock_mutual_exclusion_witness:
  "try_lock idle_heap (Owned (Locked 16)) 32 None \<noteq> panics \<and>
   (\<exists>st' r. try_lock idle_heap (Owned (Locked 16)) 32 None = returns ((idle_heap, st'), r) \<and>
      wf_state idle_heap st' \<and> state_queue st' = [])"
  using lock_mutual_exclusion [of idle_heap "Owned (Locked 16)" 32 None] by auto

text \<open>
  \<^verbatim>\<open>try_delete\<close> returns, and it excludes in the same way: a deletion is granted only if every
  owner that has not ended belongs to the requesting transaction.
\<close>

theorem delete_mutual_exclusion:
  assumes "rollback_complete h" and "wf_state h st" and "\<not> stuck_state h st"
  shows "\<exists>st' r. try_delete h st new_owner deadline = returns ((h, st'), r) \<and>
    wf_state h st' \<and> state_queue st' = state_queue st \<and>
    (\<forall>j \<in> state_owners st - state_owners st'. is_terminated h j) \<and>
    (r = Ok (Some True) \<longrightarrow> new_owner \<in> state_owners st' \<and>
       (\<forall>j \<in> state_owners st. \<not> is_terminated h j \<longrightarrow> same_transaction h j new_owner)) \<and>
    (r \<noteq> Ok (Some True) \<longrightarrow> state_owners st' \<subseteq> state_owners st)"
proof -
  obtain st' r where r: "try_delete h st new_owner deadline = returns ((h, st'), r)"
    and ok: "attempt_ok is_deletion h new_owner st st' r"
    using delete.loop_ok [OF assms] unfolding try_delete_def by blast
  have "\<not> is_shared own" if "is_deletion own" for own using that by (cases own) auto
  with ok granted_exclusive [of is_deletion h new_owner st st'] refused_keeps_owners [OF ok] r show ?thesis
    by (auto simp: attempt_ok_def kept_def)
qed

theorem delete_mutual_exclusion_witness:
  "\<exists>st' r. try_delete idle_heap (Owned (Protected 16)) 32 (Some 5) = returns ((idle_heap, st'), r) \<and>
    wf_state idle_heap st' \<and> state_queue st' = []"
  using delete_mutual_exclusion [of idle_heap "Owned (Protected 16)" 32 "Some 5"] by auto

text \<open>
  \<^verbatim>\<open>try_share\<close> returns, and it grants shared ownership only of an object that no journal which
  has not ended owns exclusively; owners that have not ended keep their ownership.
\<close>

theorem share_respects_exclusive:
  assumes "rollback_complete h" and "wf_state h st" and "\<not> stuck_state h st"
  shows "\<exists>st' r. try_share h st new_owner deadline = returns ((h, st'), r) \<and>
    wf_state h st' \<and> state_queue st' = state_queue st \<and>
    (\<forall>j \<in> state_owners st - state_owners st'. is_terminated h j) \<and>
    (r = Ok (Some True) \<longrightarrow> new_owner \<in> state_owners st' \<and> \<not> exclusively_held h st) \<and>
    (r \<noteq> Ok (Some True) \<longrightarrow> state_owners st' \<subseteq> state_owners st)"
proof -
  obtain st' r where r: "try_share h st new_owner deadline = returns ((h, st'), r)"
    and ok: "attempt_ok is_shared h new_owner st st' r"
    using share.loop_ok [OF assms] unfolding try_share_def by blast
  with granted_shared [of h new_owner st st'] refused_keeps_owners [OF ok] show ?thesis
    by (auto simp: attempt_ok_def kept_def)
qed

theorem share_respects_exclusive_witness:
  "\<exists>st' r. try_share idle_heap (Owned (Created 16)) 32 None = returns ((idle_heap, st'), r) \<and>
    wf_state idle_heap st' \<and> state_queue st' = []"
  using share_respects_exclusive [of idle_heap "Owned (Created 16)" 32 None] by auto

text \<open>
  An object that is only shared or locked, by journals of other transactions, and that nobody
  waits for, can be locked at once exactly when all of its owners have ended.
\<close>

theorem lock_granted_iff_released:
  assumes "rollback_complete h" and "wf_own h own" and "is_shared own \<or> is_lock own"
    and "queue_of own = []" and "\<forall>j \<in> owners own. \<not> same_transaction h j new_owner"
  shows "(\<exists>st'. try_lock h (Owned own) new_owner deadline = returns ((h, st'), Ok (Some True))) \<longleftrightarrow>
    (\<forall>j \<in> owners own. is_terminated h j)"
proof
  have wf: "wf_state h (Owned own)" "\<not> stuck_state h (Owned own)"
    using assms not_stuck_no_queue [of "Owned own" h] by auto
  show "\<forall>j \<in> owners own. is_terminated h j"
    if "\<exists>st'. try_lock h (Owned own) new_owner deadline = returns ((h, st'), Ok (Some True))"
  proof -
    from that obtain st' where ret: "rust_loop (try_lock_body new_owner deadline) (h, Owned own) =
        returns ((h, st'), Ok (Some True))"
      unfolding try_lock_def by blast
    have ok: "attempt_ok is_lock h new_owner (Owned own) st' (Ok (Some True))"
      using lock.loop_contract [OF ret wf] by simp
    have "\<not> is_shared own" if "is_lock own" for own using that by (cases own) auto
    from granted_exclusive [OF ok this] assms(5) show ?thesis by fastforce
  qed
  show "\<exists>st'. try_lock h (Owned own) new_owner deadline = returns ((h, st'), Ok (Some True))"
    if "\<forall>j \<in> owners own. is_terminated h j"
    using lock_released [OF assms(1) wf] that assms by (simp add: released_def)
qed

theorem lock_granted_iff_released_witness:
  "\<not> (\<exists>st'. try_lock idle_heap (Owned (Protected 16)) 32 None = returns ((idle_heap, st'), Ok (Some True)))"
  using lock_granted_iff_released [of idle_heap "Protected 16" 32 None]
  by (simp add: same_transaction_def)

text \<open>
  Taking the queue out of a state and putting the rest back changes neither the owners' transactions
  nor whether the object is shared.
\<close>

definition same_holders :: "'b heap \<Rightarrow> object_state \<Rightarrow> object_state \<Rightarrow> bool" where
  "same_holders h st st' \<longleftrightarrow> state_owners st' \<subseteq> state_owners st \<and>
     (\<forall>j \<in> state_owners st. \<exists>k \<in> state_owners st'. same_transaction h k j) \<and>
     (\<forall>own. st = Owned own \<longrightarrow> (\<exists>own'. st' = Owned own' \<and> is_shared own' = is_shared own))"

lemma same_holders_refl [simp]: "same_holders h st st"
  by (auto simp: same_holders_def intro: same_transaction_refl)

lemma owners_set_queue [simp]:
  "owners (CreatedAwaitable (ea_set_queue e q)) = owners (CreatedAwaitable e)"
  "owners (LockedAwaitable (ea_set_queue e q)) = owners (LockedAwaitable e)"
  "owners (DeletedAwaitable (ea_set_queue e q)) = owners (DeletedAwaitable e)"
  by (cases e; cases "ea_prior_ownership e"; simp)+

lemma take_wait_queue_holders:
  "take_wait_queue st = Some (st', q) \<Longrightarrow> same_holders h st st'"
  unfolding take_wait_queue_def same_holders_def
  by (auto split: object_state.splits ownership.splits intro: same_transaction_refl)

lemma post_process_holders:
  assumes "wf_state h st" "post_process_object_state st q = (st', waiting)"
  shows "same_holders h st st'"
proof (cases st)
  case (Owned own)
  have *: ?thesis if "own = LockedAwaitable e \<or> own = DeletedAwaitable e" for e
  proof -
    obtain c j p r where "e = ExclusiveAwaitable c j p r" by (cases e)
    with that Owned assms show ?thesis
      by (cases p) (auto simp: post_process_object_state_def same_holders_def same_transaction_def
          split: prod.splits if_splits bool.splits)
  qed
  show ?thesis
  proof (cases own)
    case (CreatedAwaitable e)
    with Owned assms show ?thesis
      by (cases e) (auto simp: post_process_object_state_def same_holders_def same_transaction_def
          split: prod.splits if_splits bool.splits)
  next
    case (LockedAwaitable e)
    then show ?thesis by (intro * [of e]) simp
  next
    case (DeletedAwaitable e)
    then show ?thesis by (intro * [of e]) simp
  qed (use Owned assms in \<open>auto simp: post_process_object_state_def same_holders_def same_transaction_def
       awaitable_defs split: option.splits prod.splits if_splits bool.splits list.splits\<close>)
qed (use assms in \<open>auto simp: post_process_object_state_def\<close>)

lemma transfer_keeps:
  assumes "rollback_complete h" and "wf_state h st" and "\<not> stuck_state h st"
    and J: "stable h (state_queue st) J" "J st"
    and prepared: "\<And>st'. kept h st st' \<Longrightarrow> state_owners st' \<subseteq> state_owners st \<Longrightarrow> exclusively_held h st \<longrightarrow> st' = st \<Longrightarrow> J st'"
    and moved: "\<And>st st'. J st \<Longrightarrow> same_holders h st st' \<Longrightarrow> J st'"
  shows "\<exists>h' st' n. transfer_ownership now h st = returns (h', st', state_queue st' \<noteq> []) \<and>
    answers_only h h' \<and> wf_state h' st' \<and> state_queue st' = drop n (state_queue st) \<and>
    (\<forall>r \<in> set (take n (state_queue st)). answered h' r) \<and> J st'"
proof -
  obtain st1 where prep: "prepare_ownership_transfer h st = Done (h, st1)"
    and st1: "wf_state h st1" "state_queue st1 = state_queue st" "J st1"
    using prepare_ok [OF assms(2,3)] prepared by (auto simp: kept_def)
  show ?thesis
  proof (cases "take_wait_queue st1")
    case None
    then have q: "state_queue st1 = []" using take_wait_queue_ok [OF st1(1)] by simp
    obtain st' where pp: "post_process_object_state st1 None = (st', False)" "wf_state h st'" "state_queue st' = []"
      using post_process_ok [OF st1(1) q, of None] by auto
    from moved [OF st1(3) post_process_holders [OF st1(1) pp(1)]] pp prep None q st1 show ?thesis
      by (auto simp: transfer_ownership_def intro!: exI [of _ 0])
  next
    case (Some sq)
    obtain st2 q where sq: "sq = (st2, q)" by (cases sq)
    with take_wait_queue_ok [OF st1(1)] Some st1
    have st2: "wf_state h st2" "state_queue st2 = []" "q = state_queue st" by auto
    have J2: "stable h q J" "J st2"
      using J(1) st2(3) moved [OF st1(3)] take_wait_queue_holders Some sq by (simp, blast)
    obtain h' st3 n where proc: "process_wait_queue now h st2 q =
        returns (h', st3, if drop n q = [] then None else Some (drop n q))"
      and post: "answers_only h h'" "wf_state h st3" "state_queue st3 = []" "J st3"
        "\<forall>r \<in> set (take n q). answered h' r"
        "drop n q = [] \<or> (\<exists>own. st3 = Owned own \<and> is_awaitable own)"
      using process_wait_queue_ok [OF assms(1) st2(1,2) J2, of now] by (elim exE conjE) (rule that)
    obtain st4 where pp: "post_process_object_state st3 (if drop n q = [] then None else Some (drop n q)) =
        (st4, drop n q \<noteq> [])"
      and st4: "wf_state h st4" "state_queue st4 = drop n q"
      using post_process_ok [OF post(2,3), of None] post_process_ok [OF post(2,3), of "Some (drop n q)"]
        post(6)
      by (cases "drop n q = []") auto
    have "transfer_ownership now h st = returns (h', st4, state_queue st4 \<noteq> [])"
      using prep Some sq proc pp st4 by (simp add: transfer_ownership_def)
    moreover have "wf_state h' st4"
      using st4(1) post(1) wf_state_same_owners [of h h' st4] by (simp add: answers_only_def)
    moreover have "J st4" using moved [OF post(4) post_process_holders [OF post(2) pp]] .
    ultimately show ?thesis using st4(2) post(1,5) st2(3) by blast
  qed
qed

lemma transfer_ok:
  assumes "rollback_complete h" and "wf_state h st" and "\<not> stuck_state h st"
  shows "\<exists>h' st' n. transfer_ownership now h st = returns (h', st', state_queue st' \<noteq> []) \<and>
    answers_only h h' \<and> wf_state h' st' \<and> state_queue st' = drop n (state_queue st) \<and>
    (\<forall>r \<in> set (take n (state_queue st)). answered h' r)"
  using transfer_keeps [OF assms, of "\<lambda>_. True" now] by simp

text \<open>
  C14: Processing an object in the background loses no waiting request. On a well-formed state, where
  transactions that were rolled back have rolled back their journals, \<^verbatim>\<open>transfer_ownership\<close> panics
  exactly if the object is a deletion that cannot be undone. Otherwise it returns: the requests are
  served first come, first served, those taken off the queue have their result (or nobody can read
  it), the others stay in the queue in their order, and the returned flag says whether there are any.
\<close>

theorem transfer_keeps_waiters:
  assumes "rollback_complete h" and "wf_state h st"
  shows "(transfer_ownership now h st = panics \<longleftrightarrow> stuck_state h st) \<and>
    (\<not> stuck_state h st \<longrightarrow>
      (\<exists>h' st' n. transfer_ownership now h st = returns (h', st', state_queue st' \<noteq> []) \<and>
        wf_state h' st' \<and> state_queue st' = drop n (state_queue st) \<and>
        (\<forall>r \<in> set (take n (state_queue st)). answered h' r)))"
proof (cases "stuck_state h st")
  case True
  then show ?thesis using stuck_loops(5) by simp
next
  case False
  from transfer_ok [OF assms False, of now] have "transfer_ownership now h st \<noteq> panics" by (elim exE conjE) simp
  with transfer_ok [OF assms False, of now] False show ?thesis by blast
qed

theorem transfer_keeps_waiters_witness:
  "\<exists>h' st' n. transfer_ownership 9 idle_heap
      (Owned (LockedAwaitable (ExclusiveAwaitable 0 16 None [ReqLock 1 32 0, ReqProtect 2 48 1]))) =
        returns (h', st', state_queue st' \<noteq> []) \<and> wf_state h' st' \<and>
      state_queue st' = drop n [ReqLock 1 32 0, ReqProtect 2 48 1]"
proof -
  let ?st = "Owned (LockedAwaitable (ExclusiveAwaitable 0 16 None [ReqLock 1 32 0, ReqProtect 2 48 1]))"
  have st: "wf_state idle_heap ?st" "\<not> stuck_state idle_heap ?st" by simp_all
  from transfer_keeps_waiters [OF rollback_complete_idle st(1), of 9] st(2)
  obtain h' st' n where "transfer_ownership 9 idle_heap ?st = returns (h', st', state_queue st' \<noteq> [])"
    "wf_state h' st'" "state_queue st' = drop n (state_queue ?st)"
    by blast
  then show ?thesis
    by (intro exI [of _ h'] exI [of _ st'] exI [of _ n]) (simp only: state_queue.simps queue_of.simps
        exclusive_awaitable.sel simp_thms)
qed

text \<open>
  Reads and the end of an owner agree: the journal that holds the object was not rolled back, or its
  transaction was rolled back as a whole and the ownership was not promoted; and the snapshot is not
  older than an object that is being deleted.
\<close>

definition readable_end :: "'b heap \<Rightarrow> u64 \<Rightarrow> object_state \<Rightarrow> bool" where
  "readable_end h instant st \<longleftrightarrow>
     (\<forall>own j. st = Owned own \<longrightarrow> holder own = Some j \<longrightarrow> is_rolled_back h j \<longrightarrow>
        ja_eot_instant h j = Some 0 \<and>
        (\<forall>e. own = LockedAwaitable e \<or> own = DeletedAwaitable e \<longrightarrow> ea_prior_ownership e = None)) \<and>
     (\<forall>e. st = Owned (DeletedAwaitable e) \<longrightarrow> ea_creation_instant e \<le> instant)"

lemma prepare_reads:
  assumes db: "is_database_snapshot snapshot" and st: "readable_end h (database_snapshot snapshot) st"
  shows "\<exists>st'. prepare_ownership_transfer h st = Done (h, st') \<and>
    read_object h st' snapshot deadline = read_object h st snapshot deadline"
proof (cases st)
  case (Owned own)
  have own: "ja_eot_instant h j = Some 0 \<and>
      (\<forall>e. own = LockedAwaitable e \<or> own = DeletedAwaitable e \<longrightarrow> ea_prior_ownership e = None)"
    if "holder own = Some j" "is_rolled_back h j" for j
    using st that Owned by (simp add: readable_end_def)
  have del: "ea_creation_instant e \<le> database_snapshot snapshot" if "own = DeletedAwaitable e" for e
    using st that Owned by (simp add: readable_end_def)
  have "revoke_promotion h own = Done (h, own)"
    using own by (cases own) (auto simp: revoke_promotion_other
        revoke_promotion.simps [of h "LockedAwaitable _"] revoke_promotion.simps [of h "DeletedAwaitable _"])
  moreover have read: "grant_read_access h j snapshot deadline = Inr (c \<le> database_snapshot snapshot)"
    if "holder own = Some j" "ja_eot_instant h j = Some c" "c \<noteq> 0" for j c
    using own [OF that(1)] that
    by (auto simp: grant_read_access_database [OF db] Let_def ja_eot_instant_def committed_by_def)
  then have "read_object h (settle_ownership h own) snapshot deadline = read_object h (Owned own) snapshot deadline"
    using del read_of_rolled_back [OF db]
    by (cases own) (auto simp: settle_ownership_def read_object_def map_negate_def linorder_not_le
        split: option.splits)
  ultimately show ?thesis by (simp add: prepare_ownership_transfer_def Owned)
qed (simp_all add: prepare_ownership_transfer_def)

text \<open>
  C33: Turning ownership into instants does not change what readers see. Suppose that the journal which
  holds the object was not rolled back, or its transaction was rolled back as a whole and the
  ownership was not promoted from another; and, if the object is being deleted and has a wait queue,
  that it was created at or before the instant of the snapshot. Then every reader of the database gets
  the same answer before and after \<^verbatim>\<open>prepare_ownership_transfer\<close>. (Without the two conditions the answer
  changes: \<open>rolled_back_creation_visible\<close> and \<open>deletion_forgets_creation\<close>.)
\<close>

theorem prepare_preserves_visibility:
  assumes "is_database_snapshot snapshot" and "readable_end h (database_snapshot snapshot) st"
  shows "\<exists>st'. prepare_ownership_transfer h st = Done (h, st') \<and>
    read_object h st' snapshot deadline = read_object h st snapshot deadline"
  using assms by (rule prepare_reads)

definition committed_heap :: "waker list heap" where
  "committed_heap = upd_ta 16 (\<lambda>a. a\<lparr>ta_state := Committed, ta_commit_instant := 7\<rparr>) idle_heap"

definition snapshot_at :: "u64 \<Rightarrow> snapshot" where
  "snapshot_at i = \<lparr>snap_tracker = Some \<lparr>e_addr = 0, e_instant = i\<rparr>, snap_transaction = None,
                   snap_journal = None, snap_task_processor = 0\<rparr>"

lemma snapshot_at_simps [simp]:
  "is_database_snapshot (snapshot_at i)" "database_snapshot (snapshot_at i) = i"
  by (simp_all add: is_database_snapshot_def snapshot_at_def database_snapshot_def to_instant_def)

lemma committed_heap_simps [simp]:
  "ja_eot_instant committed_heap 16 = Some 7" "is_rolled_back committed_heap j = False"
  by (simp_all add: committed_heap_def ja_eot_instant_def is_rolled_back_def eot_instant_def Let_def
      idle_heap_def anchor_new_def)

lemma readable_end_held:
  "\<not> is_rolled_back h j \<Longrightarrow> readable_end h i (Owned (Created j))"
  "readable_end h i (CreatedAt c)" "readable_end h i (DeletedAt c)"
  by (simp_all add: readable_end_def)

theorem prepare_preserves_visibility_witness:
  "\<exists>st'. prepare_ownership_transfer committed_heap (Owned (Created 16)) = Done (committed_heap, st') \<and>
    read_object committed_heap st' (snapshot_at 9) None =
      read_object committed_heap (Owned (Created 16)) (snapshot_at 9) None"
  by (rule prepare_preserves_visibility) (simp_all add: readable_end_held)

lemma removal_reads:
  assumes "remove_condition (\<lambda>i. i \<le> watermark) h st = Done (h', st', True, notified)"
    and "is_database_snapshot snapshot" and "watermark \<le> database_snapshot snapshot"
    and "wf_state h st"
  shows "read_object h' st' snapshot deadline = Inr (notified = None) \<and>
    (\<exists>st1. prepare_ownership_transfer h st = Done (h, st1) \<and> h' = h \<and>
       read_object h st1 snapshot deadline = Inr (notified = None))"
proof -
  have ns: "\<not> stuck_state h st" using assms(1) stuck_loops(6) by force
  obtain st1 where prep: "prepare_ownership_transfer h st = Done (h, st1)"
    using prepare_ok [OF assms(4) ns] by blast
  have st': "h' = h \<and> st' = st1" using assms(1) prep
    by (auto simp: remove_condition_def split: object_state.splits ownership.splits option.splits if_splits)
  have "read_object h' st' snapshot deadline = Inr (notified = None)"
  proof (cases st1)
    case (Owned own)
    have "settle_ownership h own' = Owned own \<Longrightarrow>
        (\<forall>j. (own = Created j \<or> own = Deleted j) \<longrightarrow> ja_eot_instant h j = None \<or> ja_eot_instant h j = Some 0)"
      for own'
      by (cases own') (auto simp: settle_ownership_def split: if_splits option.splits)
    with prep Owned have "\<forall>j. (own = Created j \<or> own = Deleted j) \<longrightarrow>
        ja_eot_instant h j = None \<or> ja_eot_instant h j = Some 0"
      by (auto simp: prepare_ownership_transfer_def split: object_state.splits outcome.splits)
    then show ?thesis
      using assms(1) prep Owned
      by (cases own) (auto simp: remove_condition_def read_object_def map_negate_def
          read_of_rolled_back [OF assms(2)], metis)
  next
    case (CreatedAt i)
    then show ?thesis using assms(1,3) prep by (auto simp: remove_condition_def read_object_def)
  next
    case (DeletedAt i)
    then show ?thesis using assms(1,3) prep
      by (auto simp: remove_condition_def read_object_def split: if_splits)
  qed
  with prep st' show ?thesis by blast
qed

text \<open>What a poll of \<^verbatim>\<open>read\<close> answers before and after the access data is removed.\<close>

lemma removal_polls:
  assumes T: "scc_map_laws T" and st: "m_get T i tbl = Some st" "wf_state h st"
    and rm: "try_remove_access_data_sync T (\<lambda>instant. instant \<le> watermark) i (h, tbl) = Done ((h', tbl'), True, notified)"
    and snap: "is_database_snapshot snapshot" "watermark \<le> database_snapshot snapshot"
      "readable_end h (database_snapshot snapshot) st"
  shows "read_poll T B tbl i snapshot deadline now w (h, None) = returns ((h, None), Ready (Ok (notified = None)))"
    and "read_poll T B tbl' i snapshot deadline now w (h', None) = returns ((h', None), Ready (Ok True))"
proof -
  obtain h1 st1 where rc: "remove_condition (\<lambda>instant. instant \<le> watermark) h st = Done (h1, st1, True, notified)"
    and tbl': "tbl' = m_remove T i tbl"
    using st rm by (auto simp: try_remove_access_data_sync_def split: outcome.splits if_splits)
  from removal_reads [OF rc snap(1,2) st(2), of deadline] prepare_reads [OF snap(1,3), of deadline]
  have "read_object h st snapshot deadline = Inr (notified = None)" by auto
  with st(1) show "read_poll T B tbl i snapshot deadline now w (h, None) = returns ((h, None), Ready (Ok (notified = None)))"
    unfolding read_poll_def by (subst rust_loop.simps) (simp add: read_body_def)
  have "m_get T i tbl' = None" using T tbl' by (simp add: scc_map_laws_def)
  then show "read_poll T B tbl' i snapshot deadline now w (h', None) = returns ((h', None), Ready (Ok True))"
    unfolding read_poll_def by (subst rust_loop.simps) (simp add: read_body_def)
qed



text \<open>
  One poll of \<^verbatim>\<open>read\<close> always returns: it has an answer, times out, or waits for a transaction
  that has not ended.
\<close>

theorem read_poll_returns:
  assumes "scc_bag_laws B"
  shows "\<exists>s p. read_poll T B tbl object_id snapshot deadline now w (h, awaiting) = returns (s, p)"
  unfolding read_poll_def
proof (rule rust_loop_returns [where I = "\<lambda>_. True" and m = read_measure])
  fix s :: "'a heap \<times> await_eot option"
  obtain h aw where s: "s = (h, aw)" by (cases s)
  show "\<exists>s' f. read_body T B tbl object_id snapshot deadline now w s = returns (s', f) \<and>
      (f = Again \<longrightarrow> True \<and> read_measure s' < read_measure s)"
  proof (cases aw)
    case None
    show ?thesis
    proof (cases "m_get T object_id tbl")
      case None
      then show ?thesis by (simp add: s \<open>aw = None\<close> read_body_def)
    next
      case (Some st)
      then show ?thesis
        using read_after_eot [of h st snapshot deadline]
        by (cases "read_object h st snapshot deadline")
          (simp_all add: s \<open>aw = None\<close> read_body_def read_measure_def)
    qed
  next
    case (Some a)
    obtain h' p where poll: "await_eot_poll B now w a h = returns (h', p)"
      and eot: "eot_instant (tas h (ae_transaction a)) \<noteq> None \<longrightarrow> h' = h \<and> p = Ready (Ok ())"
        "eot_instant (tas h (ae_transaction a)) = None \<longrightarrow>
           p = (if ae_deadline a < now then Ready (Err Timeout) else Pending)"
      using await_eot_poll_returns [OF assms, of now w a h] by (elim exE conjE) (rule that)
    show ?thesis
      using eot by (cases "eot_instant (tas h (ae_transaction a))")
        (auto simp: s Some read_body_def poll read_measure_def)
  qed
qed simp

theorem read_poll_returns_witness:
  "\<exists>s p. read_poll fun_map list_bag (\<lambda>_. Some (Owned (Created 16))) 1 (snapshot_at 9) (Some 5) 3 0
     (idle_heap, None) = returns (s, p)"
  by (rule read_poll_returns) (rule list_bag_laws)

end
