(* ===== verification/Access_Gaps.thy ===== *)
theory Access_Gaps
  imports Access_Control
begin

text \<open>
  Where the access controller falls short of its contract: the hypotheses of the properties in
  \<open>Access_Control\<close> are needed, and each theorem here shows what happens without one of them.
\<close>

section \<open>Lemmas\<close>

lemma rollback_anchor_simps [simp]:
  "ja_eot_instant (anchor_rollback j h) i = ja_eot_instant h i"
  "is_rolled_back (anchor_rollback j h) i \<longleftrightarrow> i = j \<or> is_rolled_back h i"
  "ja_transaction (jas (anchor_rollback j h) i) = ja_transaction (jas h i)"
  "cells (anchor_rollback j h) = cells h"
  by (simp_all add: ja_eot_instant_def is_rolled_back_def) (simp add: anchor_rollback_def)

lemma idle_cells: "cells idle_heap c = \<lparr>rc_result = None, rc_waker = None, rc_poisoned = False\<rparr>"
  by (simp add: idle_heap_def)

text \<open>Dropping one request answers it if it has no answer, and no other request.\<close>

definition drop_request :: "request \<Rightarrow> 'b heap \<Rightarrow> 'b heap" where
  "drop_request r h =
     (let c = request_cell r in
      if rc_poisoned (cells h c) then h
      else take_waker_and_wake c
             (if rc_result (cells h c) = None then set_result c (Err OutOfMemory) h else h))"

lemma drop_wait_queue_Cons: "drop_wait_queue (r # q) h = drop_wait_queue q (drop_request r h)"
  by (simp add: drop_request_def Let_def)

lemma drop_request_cells:
  "rc_result (cells (drop_request r h) c) =
     (if c = request_cell r \<and> \<not> rc_poisoned (cells h c) \<and> rc_result (cells h c) = None
      then Some (Err OutOfMemory) else rc_result (cells h c))"
  "rc_poisoned (cells (drop_request r h) c) = rc_poisoned (cells h c)"
  by (auto simp: drop_request_def Let_def take_waker_and_wake_def set_result_def upd_cell_def
      split: option.splits)

lemma drop_wait_queue_keeps:
  "rc_result (cells h c) = Some x \<Longrightarrow> rc_result (cells (drop_wait_queue q h) c) = Some x"
proof (induction q arbitrary: h)
  case (Cons r q)
  then show ?case unfolding drop_wait_queue_Cons by (simp add: drop_request_cells)
qed simp

lemma drop_wait_queue_answers:
  assumes "r \<in> set q" and "\<not> rc_poisoned (cells h (request_cell r))"
    and "rc_result (cells h (request_cell r)) = None"
  shows "rc_result (cells (drop_wait_queue q h) (request_cell r)) = Some (Err OutOfMemory)"
  using assms
proof (induction q arbitrary: h)
  case (Cons s q)
  show ?case
  proof (cases "request_cell s = request_cell r")
    case True
    with Cons.prems show ?thesis
      unfolding drop_wait_queue_Cons by (intro drop_wait_queue_keeps) (simp add: drop_request_cells)
  next
    case False
    then have "r \<in> set q" using Cons.prems(1) by auto
    with False Cons.prems show ?thesis
      unfolding drop_wait_queue_Cons by (intro Cons.IH) (simp_all add: drop_request_cells)
  qed
qed simp

section \<open>Properties\<close>

text \<open>
  The retry loop of \<^verbatim>\<open>try_lock\<close> never ends on a promoted lock whose transaction was rolled
  back while the promoting journal was not: \<^verbatim>\<open>grant_write_access\<close> reports a rollback,
  \<^verbatim>\<open>prepare_ownership_transfer\<close> only acts on the flag of the journal.
\<close>

theorem retry_loop_diverges:
  assumes "ja_eot_instant h j = Some 0" and "\<not> is_rolled_back h j" and "j \<noteq> new_owner"
  shows "try_lock h (Owned (LockedAwaitable (ExclusiveAwaitable c j (Some p) q))) new_owner deadline = None"
  unfolding try_lock_def
proof (rule rust_loop_diverges [where I = "\<lambda>s. s = (h, Owned (LockedAwaitable (ExclusiveAwaitable c j (Some p) q)))"])
  let ?own = "LockedAwaitable (ExclusiveAwaitable c j (Some p) q)"
  have rel: "grant_write_access h j new_owner = RelRolledBack"
    using assms by (simp add: grant_write_access_def)
  have prep: "prepare_ownership_transfer h (Owned ?own) = Done (h, Owned ?own)"
    using assms by (simp add: prepare_ownership_transfer_def revoke_promotion.simps [of h ?own]
        settle_ownership_def ea_is_empty_def)
  show "\<exists>s'. try_lock_body new_owner deadline s = returns (s', Again) \<and> s' = (h, Owned ?own)"
    if "s = (h, Owned ?own)" for s
    using that rel prep
    by (simp add: try_lock_body_def exclusive_flow_def try_lock_exclusive_awaitable_def
        exclusive_awaitable_access_defails_def retry_flow_def)
qed simp

definition aborted_heap :: "waker list heap" where
  "aborted_heap = upd_ta 16 (\<lambda>a. a\<lparr>ta_state := RolledBack\<rparr>) idle_heap"

theorem retry_loop_diverges_witness:
  "try_lock aborted_heap (Owned (LockedAwaitable (ExclusiveAwaitable 0 16 (Some (Protected 16)) []))) 32 None
     = None"
  by (rule retry_loop_diverges)
    (simp_all add: aborted_heap_def ja_eot_instant_def is_rolled_back_def eot_instant_def Let_def
      idle_heap_def anchor_new_def tx_anchor_new_def)

text \<open>
  \<^verbatim>\<open>transfer_ownership_sync\<close> forgets that a lock was promoted once nobody waits for it: the
  prior ownership is dropped. When the promoting journal is then rolled back, another transaction
  gets the lock although the prior owner has not ended.
\<close>

theorem promotion_forgotten:
  assumes "ja_eot_instant h j = None" and "\<not> is_rolled_back h j"
    and "\<not> is_terminated h i" and "i \<noteq> j"
    and "\<not> same_transaction h j k"
  shows "transfer_ownership now h
      (Owned (LockedAwaitable (ExclusiveAwaitable 0 j (Some (Protected i)) []))) =
        returns (h, Owned (Locked j), False) \<and>
    (\<exists>st'. try_lock (anchor_rollback j h) (Owned (Locked j)) k deadline =
       returns ((anchor_rollback j h, st'), Ok (Some True))) \<and>
    \<not> is_terminated (anchor_rollback j h) i"
proof (intro conjI)
  let ?own = "LockedAwaitable (ExclusiveAwaitable 0 j (Some (Protected i)) [])"
  have prep: "prepare_ownership_transfer h (Owned ?own) = Done (h, Owned ?own)"
    using assms by (simp add: prepare_ownership_transfer_def revoke_promotion.simps [of h ?own]
        settle_ownership_def ea_is_empty_def)
  have loop: "rust_loop (process_wait_queue_body now) (h, st, []) = returns ((h, st, []), ())" for st
    by (subst rust_loop.simps) (simp add: process_wait_queue_body_def clone_oldest_def)
  show "transfer_ownership now h (Owned ?own) = returns (h, Owned (Locked j), False)"
    by (simp add: transfer_ownership_def prep take_wait_queue_def process_wait_queue_def loop
        post_process_object_state_def inherit_def)
  have rel: "grant_write_access (anchor_rollback j h) j k = RelRolledBack"
    using assms by (auto simp: grant_write_access_def same_transaction_def)
  show "\<exists>st'. try_lock (anchor_rollback j h) (Owned (Locked j)) k deadline =
       returns ((anchor_rollback j h, st'), Ok (Some True))"
    unfolding try_lock_def
    by (subst rust_loop.simps)
      (simp add: try_lock_body_def prepare_ownership_transfer_def revoke_promotion_other
        settle_ownership_def exclusive_flow_def try_lock_exclusively_owned_def
        exclusive_owner_details_def rel)
  show "\<not> is_terminated (anchor_rollback j h) i" using assms by (simp add: is_terminated_def)
qed

definition two_journals :: "waker list heap" where
  "two_journals = upd_ja 24 (\<lambda>a. a\<lparr>ja_transaction := 16\<rparr>) idle_heap"

lemma two_journals_simps [simp]:
  "ja_eot_instant two_journals j = None" "is_rolled_back two_journals j = False"
  "is_terminated two_journals j = False"
  "ja_transaction (jas two_journals j) = (if j = 24 then 16 else j)"
  by (auto simp: two_journals_def idle_heap_def ja_eot_instant_def eot_instant_def tx_anchor_new_def
      Let_def is_rolled_back_def anchor_new_def is_terminated_def)

theorem promotion_forgotten_witness:
  "transfer_ownership 5 two_journals
      (Owned (LockedAwaitable (ExclusiveAwaitable 0 24 (Some (Protected 16)) []))) =
        returns (two_journals, Owned (Locked 24), False) \<and>
    (\<exists>st'. try_lock (anchor_rollback 24 two_journals) (Owned (Locked 24)) 32 None =
       returns ((anchor_rollback 24 two_journals, st'), Ok (Some True))) \<and>
    \<not> is_terminated (anchor_rollback 24 two_journals) 16"
  by (rule promotion_forgotten) (simp_all add: same_transaction_def)

text \<open>
  \<^verbatim>\<open>unreachable!()\<close> is reachable. A journal deletes an object that an earlier journal of its
  transaction created, another transaction waits for the object, and the deleting journal is
  rolled back: the next transfer of ownership panics.
\<close>

theorem deletion_rollback_panics:
  assumes "grant_write_access h i j = Linearizable" and "ja_eot_instant h i = None"
  shows "try_delete h (Owned (Created i)) j deadline =
      returns ((h, Owned (DeletedAwaitable (ExclusiveAwaitable 0 j (Some (Created i)) []))), Ok (Some True)) \<and>
    transfer_ownership now (anchor_rollback j h)
      (Owned (DeletedAwaitable (ExclusiveAwaitable 0 j (Some (Created i)) (r # q)))) = panics"
proof
  show "try_delete h (Owned (Created i)) j deadline =
      returns ((h, Owned (DeletedAwaitable (ExclusiveAwaitable 0 j (Some (Created i)) []))), Ok (Some True))"
    unfolding try_delete_def
    by (subst rust_loop.simps)
      (simp add: try_delete_body_def prepare_ownership_transfer_def revoke_promotion_other
        settle_ownership_def exclusive_flow_def try_delete_exclusively_owned_def
        exclusive_owner_details_def assms ea_with_owner_def)
  show "transfer_ownership now (anchor_rollback j h)
      (Owned (DeletedAwaitable (ExclusiveAwaitable 0 j (Some (Created i)) (r # q)))) = panics"
    by (simp add: transfer_ownership_def prepare_ownership_transfer_def
        revoke_promotion.simps [of _ "DeletedAwaitable _"])
qed

theorem deletion_rollback_panics_witness:
  "try_delete idle_heap (Owned (Created 16)) 16 None =
      returns ((idle_heap, Owned (DeletedAwaitable (ExclusiveAwaitable 0 16 (Some (Created 16)) []))),
        Ok (Some True)) \<and>
    transfer_ownership 5 (anchor_rollback 16 idle_heap)
      (Owned (DeletedAwaitable (ExclusiveAwaitable 0 16 (Some (Created 16)) [ReqLock 1 32 0]))) = panics"
  by (rule deletion_rollback_panics) (simp_all add: grant_write_access_def)

text \<open>
  An object created by a journal that was rolled back becomes visible when the transaction of
  the journal commits: no reader sees it before \<^verbatim>\<open>prepare_ownership_transfer\<close>, every snapshot that
  is not older than the commit does afterwards.
\<close>

theorem rolled_back_creation_visible:
  assumes "ja_eot_instant h j = Some commit_instant" and "commit_instant \<noteq> 0" and "is_rolled_back h j"
    and "is_database_snapshot snapshot" and "commit_instant \<le> database_snapshot snapshot"
  shows "read_object h (Owned (Created j)) snapshot deadline = Inr False \<and>
    prepare_ownership_transfer h (Owned (Created j)) = Done (h, CreatedAt commit_instant) \<and>
    read_object h (CreatedAt commit_instant) snapshot deadline = Inr True"
  using assms
  by (auto simp: read_object_def grant_read_access_database Let_def ja_eot_instant_def committed_by_def
      prepare_ownership_transfer_def revoke_promotion_other settle_ownership_def)

theorem rolled_back_creation_visible_witness:
  "read_object (anchor_rollback 16 committed_heap) (Owned (Created 16)) (snapshot_at 9) None = Inr False \<and>
    prepare_ownership_transfer (anchor_rollback 16 committed_heap) (Owned (Created 16)) =
      Done (anchor_rollback 16 committed_heap, CreatedAt 7) \<and>
    read_object (anchor_rollback 16 committed_heap) (CreatedAt 7) (snapshot_at 9) None = Inr True"
  by (rule rolled_back_creation_visible) simp_all

text \<open>
  A committed deletion forgets when the object was created: a snapshot older than the creation,
  which did not see the object, sees it once the deletion has been settled.
\<close>

theorem deletion_forgets_creation:
  assumes "ja_eot_instant h j = Some commit_instant" and "commit_instant \<noteq> 0"
    and "database_snapshot snapshot < creation" and "creation < commit_instant"
  shows "read_object h (Owned (DeletedAwaitable (ExclusiveAwaitable creation j None []))) snapshot deadline
      = Inr False \<and>
    prepare_ownership_transfer h (Owned (DeletedAwaitable (ExclusiveAwaitable creation j None []))) =
      Done (h, DeletedAt commit_instant) \<and>
    read_object h (DeletedAt commit_instant) snapshot deadline = Inr True"
  using assms
  by (auto simp: read_object_def prepare_ownership_transfer_def settle_ownership_def ea_is_empty_def
      revoke_promotion.simps [of h "DeletedAwaitable _"])

theorem deletion_forgets_creation_witness:
  "read_object committed_heap (Owned (DeletedAwaitable (ExclusiveAwaitable 5 16 None []))) (snapshot_at 3) None
      = Inr False \<and>
    prepare_ownership_transfer committed_heap (Owned (DeletedAwaitable (ExclusiveAwaitable 5 16 None []))) =
      Done (committed_heap, DeletedAt 7) \<and>
    read_object committed_heap (DeletedAt 7) (snapshot_at 3) None = Inr True"
  by (rule deletion_forgets_creation) simp_all

text \<open>
  Promoting shared ownership to a lock forgets when the object was created: a snapshot older
  than the creation sees the object as soon as its only protector locks it.
\<close>

theorem promotion_forgets_creation:
  assumes "grant_write_access h i j = Linearizable" and "\<not> is_terminated h i"
    and "database_snapshot snapshot < creation"
  shows "let s = \<lparr>sa_creation_instant = creation, sa_owner_set = [i], sa_wait_queue = q\<rparr> in
    read_object h (Owned (ProtectedAwaitable s)) snapshot d = Inr False \<and>
    (\<exists>st'. try_lock h (Owned (ProtectedAwaitable s)) j deadline = returns ((h, st'), Ok (Some True)) \<and>
       read_object h st' snapshot d = Inr True)"
proof -
  let ?s = "\<lparr>sa_creation_instant = creation, sa_owner_set = [i], sa_wait_queue = q\<rparr>"
  let ?e = "ExclusiveAwaitable 0 j (Some (ProtectedAwaitable (?s\<lparr>sa_wait_queue := []\<rparr>))) q"
  have "try_lock h (Owned (ProtectedAwaitable ?s)) j deadline =
      returns ((h, Owned (LockedAwaitable ?e)), Ok (Some True))"
    unfolding try_lock_def
    by (subst rust_loop.simps)
      (simp add: try_lock_body_def prepare_ownership_transfer_def revoke_promotion_other
        settle_ownership_def cleanup_inactive_owners_def Let_def try_promote_to_exclusive_def assms
        ea_with_owner_and_wait_queue_def)
  with assms show ?thesis by (simp add: Let_def read_object_def linorder_not_le)
qed

theorem promotion_forgets_creation_witness:
  "let s = \<lparr>sa_creation_instant = 5, sa_owner_set = [16], sa_wait_queue = []\<rparr> in
    read_object idle_heap (Owned (ProtectedAwaitable s)) (snapshot_at 3) None = Inr False \<and>
    (\<exists>st'. try_lock idle_heap (Owned (ProtectedAwaitable s)) 16 None =
         returns ((idle_heap, st'), Ok (Some True)) \<and>
       read_object idle_heap st' (snapshot_at 3) None = Inr True)"
  by (rule promotion_forgets_creation) (simp_all add: grant_write_access_def)

text \<open>
  A \<^verbatim>\<open>create\<close> that takes over from a rolled back creation drops the wait queue: the requests of
  other transactions that were waiting are answered with \<^verbatim>\<open>OutOfMemory\<close>.
\<close>

theorem create_drops_waiters:
  assumes "grant_write_access h j new_owner = RelRolledBack" and "q \<noteq> []" and "r \<in> set q"
    and "\<not> rc_poisoned (cells h (request_cell r))" and "rc_result (cells h (request_cell r)) = None"
  shows "\<exists>h'. try_create h (Owned (CreatedAwaitable (ExclusiveAwaitable c j None q))) new_owner deadline =
      Done ((h', Owned (Created new_owner)), Ok (Some True)) \<and>
    rc_result (cells h' (request_cell r)) = Some (Err OutOfMemory)"
  using assms drop_wait_queue_answers [OF assms(3-5)]
  by (simp add: try_create_def prepare_ownership_transfer_def revoke_promotion_other settle_ownership_def
      ea_is_empty_def drop_ownership_def)

theorem create_drops_waiters_witness:
  "\<exists>h'. try_create (anchor_rollback 16 idle_heap)
      (Owned (CreatedAwaitable (ExclusiveAwaitable 0 16 None [ReqLock 1 48 0]))) 32 None =
      Done ((h', Owned (Created 32)), Ok (Some True)) \<and>
    rc_result (cells h' (request_cell (ReqLock 1 48 0))) = Some (Err OutOfMemory)"
  by (rule create_drops_waiters)
    (simp_all add: grant_write_access_def idle_cells)

end
