(* ===== verification/Access_Runs.thy ===== *)
theory Access_Runs
  imports Access_Control
begin

text \<open>
  Runs of the access controller (\<^verbatim>\<open>src/src/access_controller.rs\<close>): requests of all journals, the
  hand-over and the removal by the task processor, and the ends of transactions, in any order. Each
  operation holds the lock of the entry it works on, so it is one step.
\<close>

section \<open>Definitions\<close>

text \<open>
  What transactions do to the anchors in between: \<open>A\<close> are the journals there are. A journal belongs to
  one transaction, and an end is final.
\<close>

definition rely :: "journal_id set \<Rightarrow> 'b heap \<Rightarrow> 'b heap \<Rightarrow> bool" where
  "rely A h h' \<longleftrightarrow> rollback_complete h' \<and>
     (\<forall>j \<in> A. ja_transaction (jas h' j) = ja_transaction (jas h j) \<and>
        (is_terminated h j \<longrightarrow> is_terminated h' j))"

text \<open>An operation on one object, and a step of a run.\<close>

inductive ac_op :: "'t object_map \<Rightarrow> journal_id set \<Rightarrow> object_id \<Rightarrow> 'b heap \<times> 't \<Rightarrow> 'b heap \<times> 't \<Rightarrow> bool" for T A i where
  creates: "j \<in> A \<Longrightarrow> ac_create T i j deadline now s = returns (s', a) \<Longrightarrow> ac_op T A i s s'"
| shares: "j \<in> A \<Longrightarrow> ac_share T i j deadline now s = returns (s', a) \<Longrightarrow> ac_op T A i s s'"
| locks: "j \<in> A \<Longrightarrow> ac_lock T i j deadline now s = returns (s', a) \<Longrightarrow> ac_op T A i s s'"
| deletes: "j \<in> A \<Longrightarrow> ac_delete T i j deadline now s = returns (s', a) \<Longrightarrow> ac_op T A i s s'"
| transfers: "transfer_ownership_sync T now i s = returns (s', waiting) \<Longrightarrow> ac_op T A i s s'"
| removes: "try_remove_access_data_sync T condition i s = Done (s', removed, notified) \<Longrightarrow> ac_op T A i s s'"

inductive ac_step ::
  "'t object_map \<Rightarrow> journal_id set \<times> 'b heap \<times> 't \<Rightarrow> journal_id set \<times> 'b heap \<times> 't \<Rightarrow> bool" for T where
  operates: "ac_op T A i (h, tbl) (h', tbl') \<Longrightarrow> ac_step T (A, h, tbl) (A, h', tbl')"
| others: "rely A h h' \<Longrightarrow> A \<subseteq> A' \<Longrightarrow> ac_step T (A, h, tbl) (A', h', tbl)"

text \<open>The invariant of the table.\<close>

definition entry_inv :: "journal_id set \<Rightarrow> 'b heap \<Rightarrow> object_state \<Rightarrow> bool" where
  "entry_inv A h st \<longleftrightarrow> wf_state h st \<and> state_owners st \<subseteq> A \<and> request_owner ` set (state_queue st) \<subseteq> A"

definition ac_inv :: "'t object_map \<Rightarrow> journal_id set \<times> 'b heap \<times> 't \<Rightarrow> bool" where
  "ac_inv T = (\<lambda>(A, h, tbl).
     rollback_complete h \<and> (\<forall>i st. m_get T i tbl = Some st \<longrightarrow> entry_inv A h st))"

section \<open>Lemmas\<close>

subsection \<open>Attempts\<close>

text \<open>
  What an operation that acquires an object for \<open>j\<close> may do to its entry. The last part says that an
  object which a journal holds exclusively does not become shared.
\<close>

definition changed :: "'b heap \<Rightarrow> journal_id \<Rightarrow> object_state \<Rightarrow> object_state \<Rightarrow> bool" where
  "changed h j st st' \<longleftrightarrow>
     wf_state h st' \<and> state_owners st' \<subseteq> insert j (state_owners st) \<and>
     set (state_queue st') \<subseteq> set (state_queue st) \<and>
     (\<forall>k \<in> state_owners st - state_owners st'. is_terminated h k) \<and>
     (exclusively_held h st \<longrightarrow> (\<exists>own. st' = Owned own \<and> \<not> is_shared own))"

text \<open>No request gets a positive answer; together with what an attempt does to the heap.\<close>

definition quiet :: "'b heap \<Rightarrow> 'b heap \<Rightarrow> bool" where
  "quiet h h' \<longleftrightarrow> (\<forall>c b. rc_result (cells h' c) = Some (Ok b) \<longrightarrow> rc_result (cells h c) = Some (Ok b))"

definition attempted :: "'b heap \<Rightarrow> journal_id \<Rightarrow> object_state \<Rightarrow> 'b heap \<Rightarrow> object_state \<Rightarrow> bool" where
  "attempted h j st h' st' \<longleftrightarrow>
     same_owners h h' \<and> quiet h h' \<and> next_cell h' = next_cell h \<and> changed h j st st'"

lemma quiet_refl [simp]: "quiet h h"
  by (simp add: quiet_def)

lemma quiet_trans: "quiet h h1 \<Longrightarrow> quiet h1 h2 \<Longrightarrow> quiet h h2"
  by (simp add: quiet_def)

lemma take_waker_cells [simp]:
  "rc_result (cells (take_waker_and_wake c h) c') = rc_result (cells h c')" "next_cell (take_waker_and_wake c h) = next_cell h"
  by (auto simp: take_waker_and_wake_def upd_cell_def wake_def split: option.splits)

lemma set_result_cells [simp]:
  "rc_result (cells (set_result c a h) c') = (if c' = c then Some a else rc_result (cells h c'))"
  "next_cell (set_result c a h) = next_cell h"
  by (auto simp: set_result_def upd_cell_def)

lemma drop_wait_queue_quiet: "quiet h (drop_wait_queue q h) \<and> next_cell (drop_wait_queue q h) = next_cell h"
proof (induction q arbitrary: h)
  case (Cons r q)
  let ?c = "request_cell r"
  let ?h = "if rc_poisoned (cells h ?c) then h else take_waker_and_wake ?c
    (if rc_result (cells h ?c) = None then set_result ?c (Err OutOfMemory) h else h)"
  have h: "quiet h ?h" "next_cell ?h = next_cell h" by (auto simp: quiet_def)
  have q: "quiet ?h (drop_wait_queue q ?h)" "next_cell (drop_wait_queue q ?h) = next_cell ?h" using Cons by blast+
  show ?case
    unfolding drop_wait_queue.simps Let_def using quiet_trans [OF h(1) q(1)] trans [OF q(2) h(2)] by (rule conjI)
qed simp

lemma drop_quiet [simp]:
  "quiet h (drop_ownership own h)" "next_cell (drop_ownership own h) = next_cell h"
  "quiet h (drop_object_state st h)" "next_cell (drop_object_state st h) = next_cell h"
proof -
  show o: "quiet h (drop_ownership own h)" "next_cell (drop_ownership own h) = next_cell h" for own
    by (simp_all add: drop_ownership_def drop_wait_queue_quiet)
  show "quiet h (drop_object_state st h)" "next_cell (drop_object_state st h) = next_cell h"
    by (cases st; simp add: o)+
qed

lemma attempt_changed: "attempt_ok mode h j st st' r \<Longrightarrow> changed h j st st'"
  unfolding attempt_ok_def kept_def changed_def
  by (cases r) (auto split: option.splits bool.splits)

lemma same_owners_drop [simp]:
  "same_owners h (drop_ownership own h)" "same_owners h (drop_object_state st h)"
  by (simp_all add: same_owners_def drop_ownership_def)

lemma holder_not_shared: "holder own = Some j \<Longrightarrow> \<not> is_shared own"
  by (cases own) simp_all

lemma held_not_shared: "exclusively_held h st \<Longrightarrow> \<exists>own. st = Owned own \<and> \<not> is_shared own"
  by (auto simp: exclusively_held_def dest: holder_not_shared)

lemma prepared_changed:
  assumes "kept h st st1" "state_owners st1 \<subseteq> state_owners st" "exclusively_held h st \<longrightarrow> st1 = st"
  shows "changed h j st st1"
proof -
  have "\<exists>own. st1 = Owned own \<and> \<not> is_shared own" if "exclusively_held h st"
    using held_not_shared [OF that] assms(3) that by simp
  with assms(1,2) show ?thesis unfolding changed_def kept_def by (simp add: subset_insertI2)
qed

lemma changed_after:
  assumes "kept h st st1" "state_owners st1 \<subseteq> state_owners st" "exclusively_held h st \<longrightarrow> st1 = st" "changed h j st1 st'"
  shows "changed h j st st'"
proof -
  have held: "exclusively_held h st \<longrightarrow> (\<exists>own. st' = Owned own \<and> \<not> is_shared own)"
    using assms(3,4) by (simp add: changed_def)
  have q: "state_queue st1 = state_queue st" and d: "\<And>k. k \<in> state_owners st - state_owners st1 \<Longrightarrow> is_terminated h k"
    using assms(1) by (simp_all add: kept_def)
  have "\<forall>k \<in> state_owners st - state_owners st'. is_terminated h k"
    using d assms(4) unfolding changed_def by blast
  moreover have "state_owners st' \<subseteq> insert j (state_owners st)" using assms(2,4) by (auto simp: changed_def)
  ultimately show ?thesis using assms(4) held by (simp add: changed_def q)
qed

lemma try_create_changed:
  assumes wf: "wf_state h st" and ret: "try_create h st j deadline = Done ((h', st'), r)"
  shows "attempted h j st h' st'"
proof -
  have "\<not> stuck_state h st" using ret stuck_loops(4) by force
  from prepare_ok [OF wf this] obtain st1 where prep: "prepare_ownership_transfer h st = Done (h, st1)"
    and st1: "kept h st st1" "state_owners st1 \<subseteq> state_owners st" "exclusively_held h st \<longrightarrow> st1 = st" by blast
  have "same_owners h h' \<and> quiet h h' \<and> next_cell h' = next_cell h \<and> (st' = st1 \<or> changed h j st1 st')"
  proof (cases "\<exists>own k. st1 = Owned own \<and> is_creation own \<and> holder own = Some k")
    case True
    then obtain own k where own: "st1 = Owned own" "is_creation own" "holder own = Some k" by blast
    have wf1: "wf_own h own" using st1(1) own(1) by (simp add: kept_def)
    have owners: "owners own = {k}"
      using own wf1 by (cases own rule: is_creation.cases) (auto simp: owners_unpromoted)
    have "own = Created k \<or> (\<exists>e. own = CreatedAwaitable e \<and> ea_owner e = k)" using own by (cases own) auto
    then consider "h' = h" "st' = st1" | "h' = drop_ownership own h" "st' = Owned (Created j)" "is_terminated h k"
      | "h' = h" "st' = Owned (CreatedAwaitable (ea_with_owner k))"
      using ret own owner_relationship [of h k j]
      by (elim disjE exE conjE; cases "grant_write_access h k j") (simp_all add: try_create_def prep split: if_splits)
    then show ?thesis
      by cases (use own owners in \<open>simp_all add: changed_def awaitable_defs exclusively_held_def\<close>)
  next
    case False
    show ?thesis
    proof (cases st1)
      case (Owned own)
      with False ret show ?thesis by (cases own) (simp_all add: try_create_def prep)
    qed (use ret in \<open>simp_all add: try_create_def prep\<close>)
  qed
  moreover note prepared_changed [OF st1, of j] changed_after [OF st1, of j st']
  ultimately show ?thesis unfolding attempted_def by blast
qed

lemma loops_changed:
  assumes "wf_state h st"
  shows "try_share h st j d = returns ((h', st'), r) \<Longrightarrow> attempted h j st h' st'"
    "try_lock h st j d = returns ((h', st'), r) \<Longrightarrow> attempted h j st h' st'"
    "try_delete h st j d = returns ((h', st'), r) \<Longrightarrow> attempted h j st h' st'"
proof -
  show "attempted h j st h' st'" if ret: "try_share h st j d = returns ((h', st'), r)"
  proof -
    have "\<not> stuck_state h st" using stuck_loops(1) ret by force
    from share.loop_contract [OF ret [unfolded try_share_def] assms this] attempt_changed show ?thesis by (auto simp: attempted_def)
  qed
  show "attempted h j st h' st'" if ret: "try_lock h st j d = returns ((h', st'), r)"
  proof -
    have "\<not> stuck_state h st" using stuck_loops(2) ret by force
    from lock.loop_contract [OF ret [unfolded try_lock_def] assms this] attempt_changed show ?thesis by (auto simp: attempted_def)
  qed
  show "attempted h j st h' st'" if ret: "try_delete h st j d = returns ((h', st'), r)"
  proof -
    have "\<not> stuck_state h st" using stuck_loops(3) ret by force
    from delete.loop_contract [OF ret [unfolded try_delete_def] assms this] attempt_changed show ?thesis by (auto simp: attempted_def)
  qed
qed

subsection \<open>Requests\<close>

text \<open>The four requests differ in the attempt, the first ownership, and what they wait for.\<close>

definition acquire ::
  "('b heap \<Rightarrow> object_state \<Rightarrow> journal_id \<Rightarrow> time option \<Rightarrow> (('b heap \<times> object_state) \<times> access_result) run) \<Rightarrow>
     (journal_id \<Rightarrow> ownership) \<Rightarrow> bool \<Rightarrow> (time \<Rightarrow> journal_id \<Rightarrow> nat \<Rightarrow> request) \<Rightarrow> 't object_map \<Rightarrow>
     object_id \<Rightarrow> journal_id \<Rightarrow> time option \<Rightarrow> time \<Rightarrow> 'b heap \<times> 't \<Rightarrow> (('b heap \<times> 't) \<times> acquisition) run" where
  "acquire attempt own created_only mk T i j deadline now = (\<lambda>(h, tbl).
     case m_get T i tbl of
       None \<Rightarrow> returns ((h, m_put T i (Owned (own j)) tbl), Answer (Ok True))
     | Some st \<Rightarrow>
         bind_run (attempt h st j deadline) (\<lambda>((h, st), result).
           case result of
             Inl e \<Rightarrow> returns ((h, m_put T i st tbl), Answer (Err e))
           | Inr (Some r) \<Rightarrow> returns ((h, m_put T i st tbl), Answer (Ok r))
           | Inr None \<Rightarrow>
               (case deadline of
                  None \<Rightarrow> returns ((h, m_put T i st tbl), Answer (Err SerializationFailure))
                | Some d \<Rightarrow>
                    (case enqueue created_only (mk now j) st h of
                       Some (h, st, c) \<Rightarrow>
                         returns ((h, m_put T i st tbl),
                           Await \<lparr>ar_object_id = i, ar_registered = False, ar_deadline = d, ar_result = c\<rparr>)
                     | None \<Rightarrow> returns ((h, m_put T i st tbl), Answer (Err SerializationFailure))))))"

lemma requests_acquire:
  "ac_create T = acquire (\<lambda>h st j d. Some (try_create h st j d)) Created True ReqCreate T"
  "ac_share T = acquire try_share Protected False ReqProtect T"
  "ac_lock T = acquire try_lock Locked False ReqLock T"
  "ac_delete T = acquire try_delete Deleted False ReqDelete T"
  by (simp_all add: fun_eq_iff acquire_def ac_create_def ac_share_def ac_lock_def ac_delete_def)

lemma same_owners_push [simp]: "same_owners h (foldl (\<lambda>h k. set_wake_up_others k h) h xs)"
  by (induction xs arbitrary: h) (auto intro: same_owners_trans same_owners_wake_up_others)

lemma same_owners_new_cell: "new_cell h = (h', c) \<Longrightarrow> same_owners h h'"
  by (auto simp: new_cell_def same_owners_def)

lemma ea_set_queue_simps [simp]:
  "ea_wait_queue (ea_set_queue e q) = q" "ea_owner (ea_set_queue e q) = ea_owner e"
  "ea_prior_ownership (ea_set_queue e q) = ea_prior_ownership e"
  by (cases e; simp)+

lemma wf_own_queue:
  "wf_own h (CreatedAwaitable (ea_set_queue e q)) = wf_own h (CreatedAwaitable e)"
  "wf_own h (LockedAwaitable (ea_set_queue e q)) = wf_own h (LockedAwaitable e)"
  "wf_own h (DeletedAwaitable (ea_set_queue e q)) = wf_own h (DeletedAwaitable e)"
  by (cases e; cases "ea_prior_ownership e"; simp)+

text \<open>Waiting changes neither the owners nor the ownership.\<close>

lemma enqueue_ok:
  assumes "enqueue only mk st h = Some (h', st', c)" "wf_state h st" "\<And>c. request_owner (mk c) = j"
  shows "same_owners h h' \<and> wf_state h st' \<and> same_holders h st st' \<and> state_owners st' = state_owners st \<and>
    request_owner ` set (state_queue st') \<subseteq> insert j (request_owner ` set (state_queue st))"
proof -
  obtain h1 c1 where cell: "new_cell h = (h1, c1)" by fastforce
  obtain own where own: "st = Owned own" using assms(1) cell by (cases st) (auto simp: enqueue_def)
  note so = same_owners_new_cell [OF cell]
  show ?thesis
  proof (cases own)
    case (ProtectedAwaitable s)
    with assms cell own so same_owners_push [of h1 "sa_owner_set s"] show ?thesis
      by (auto simp: enqueue_def sa_push_request_def same_holders_def split: if_splits
          intro: same_owners_trans same_transaction_refl)
  qed (use assms cell own so same_owners_wake_up_others [of h1] in
      \<open>auto simp: enqueue_def ea_push_request_def wf_own_queue same_holders_def split: if_splits
        intro: same_owners_trans same_transaction_refl\<close>)
qed

subsection \<open>Holding an object\<close>

text \<open>
  A transaction \<open>t\<close> holds an object if one of its journals owns it; \<open>exclusive\<close> asks for more than
  shared ownership. The transaction is running if none of its journals has ended.
\<close>

definition held_in :: "journal_id set \<Rightarrow> 'b heap \<Rightarrow> transaction_id \<Rightarrow> bool \<Rightarrow> object_state \<Rightarrow> bool" where
  "held_in A h t exclusive st \<longleftrightarrow> (\<exists>own. st = Owned own \<and> owners own \<subseteq> A \<and>
     (\<exists>k \<in> owners own. ja_transaction (jas h k) = t) \<and> (exclusive \<longrightarrow> \<not> is_shared own))"

definition running :: "journal_id set \<Rightarrow> 'b heap \<Rightarrow> transaction_id \<Rightarrow> bool" where
  "running A h t \<longleftrightarrow> (\<forall>k \<in> A. ja_transaction (jas h k) = t \<longrightarrow> \<not> is_terminated h k)"

lemma holder_owner: "\<not> is_shared own \<Longrightarrow> \<exists>m \<in> owners own. holder own = Some m"
proof (cases own)
  case (CreatedAwaitable e)
  then show ?thesis by (cases e; cases "ea_prior_ownership e") auto
next
  case (LockedAwaitable e)
  then show ?thesis by (cases e; cases "ea_prior_ownership e") auto
next
  case (DeletedAwaitable e)
  then show ?thesis by (cases e; cases "ea_prior_ownership e") auto
qed auto

lemma held_changed:
  assumes wf: "wf_state h st" and run: "running A h t" and held: "held_in A h t x st"
    and ch: "changed h j st st'" and j: "j \<in> A"
  shows "held_in A h t x st'"
proof -
  obtain own k where own: "st = Owned own" "owners own \<subseteq> A" "k \<in> owners own" "ja_transaction (jas h k) = t"
    and x: "x \<Longrightarrow> \<not> is_shared own"
    using held by (auto simp: held_in_def)
  have "\<not> is_terminated h k" using run own by (auto simp: running_def)
  with ch own have k': "k \<in> state_owners st'" by (auto simp: changed_def)
  then obtain own' where own': "st' = Owned own'" by (cases st') auto
  have "\<not> is_shared own'" if "x"
  proof -
    note ns = x [OF that]
    obtain m where m: "m \<in> owners own" "holder own = Some m" using holder_owner [OF ns] by blast
    have "same_transaction h m k"
      using exclusive_one_transaction [OF _ ns m(1) own(3)] wf own(1) by simp
    then have "\<not> is_terminated h m" using run own m by (auto simp: running_def same_transaction_def)
    then have "exclusively_held h st" using m own(1) by (auto simp: exclusively_held_def)
    with ch own' show ?thesis by (auto simp: changed_def)
  qed
  with k' own own' ch j show ?thesis by (auto simp: held_in_def changed_def)
qed

lemma held_moved: "held_in A h t x st \<Longrightarrow> same_holders h st st' \<Longrightarrow> held_in A h t x st'"
  unfolding held_in_def same_holders_def same_transaction_def by fastforce

text \<open>What one operation on one object does to the table.\<close>

definition step_keeps :: "'t object_map \<Rightarrow> journal_id set \<Rightarrow> 'b heap \<Rightarrow> 't \<Rightarrow> 'b heap \<Rightarrow> 't \<Rightarrow> bool" where
  "step_keeps T A h tbl h' tbl' \<longleftrightarrow> same_owners h h' \<and>
     (\<forall>i st. m_get T i tbl' = Some st \<longrightarrow> entry_inv A h st) \<and>
     (\<forall>i st t x. m_get T i tbl = Some st \<longrightarrow> running A h t \<longrightarrow> held_in A h t x st \<longrightarrow>
        (\<exists>st'. m_get T i tbl' = Some st' \<and> held_in A h t x st'))"

lemma put_keeps:
  assumes T: "scc_map_laws T" and inv: "ac_inv T (A, h, tbl)" and "same_owners h h'" "entry_inv A h st'"
    and "\<And>st t x. m_get T i tbl = Some st \<Longrightarrow> running A h t \<Longrightarrow> held_in A h t x st \<Longrightarrow> held_in A h t x st'"
  shows "step_keeps T A h tbl h' (m_put T i st' tbl)"
proof -
  have get: "m_get T k (m_put T i st' tbl) = (if k = i then Some st' else m_get T k tbl)" for k
    using T by (simp add: scc_map_laws_def)
  show ?thesis using assms(2-) by (auto simp: step_keeps_def get ac_inv_def)
qed

lemma same_holders_same_owners: "same_owners h h' \<Longrightarrow> same_holders h' st st' \<Longrightarrow> same_holders h st st'"
  by (simp add: same_holders_def same_transaction_def same_owners_fields)

lemma acquire_keeps:
  assumes T: "scc_map_laws T" and inv: "ac_inv T (A, h, tbl)" and j: "j \<in> A"
    and attempt: "\<And>st h' st' r. wf_state h st \<Longrightarrow> attempt h st j deadline = returns ((h', st'), r) \<Longrightarrow>
      attempted h j st h' st'"
    and mk: "\<And>c. request_owner (mk now j c) = j"
    and own: "wf_own h (own j)" "owners (own j) = {j}" "queue_of (own j) = []"
    and ret: "acquire attempt own only mk T i j deadline now (h, tbl) = returns ((h', tbl'), a)"
  shows "step_keeps T A h tbl h' tbl'"
proof (cases "m_get T i tbl")
  case None
  have "step_keeps T A h tbl h (m_put T i (Owned (own j)) tbl)"
    using None own j by (intro put_keeps [OF T inv]) (simp_all add: entry_inv_def)
  with None ret show ?thesis by (simp add: acquire_def)
next
  case (Some st)
  with inv have st: "wf_state h st" "state_owners st \<subseteq> A" "request_owner ` set (state_queue st) \<subseteq> A"
    by (auto simp: ac_inv_def entry_inv_def)
  obtain h1 st1 r where r: "attempt h st j deadline = returns ((h1, st1), r)"
    using ret Some by (auto simp: acquire_def)
  note ch = attempt [OF st(1) this, unfolded attempted_def]
  have e1: "entry_inv A h st1" using ch st j unfolding entry_inv_def changed_def by blast
  have k1: "held_in A h t x st1" if "running A h t" "held_in A h t x st" for t x
    using held_changed [OF st(1) that] ch j by blast
  have put1: "step_keeps T A h tbl h1 (m_put T i st1 tbl)"
    using ch e1 k1 Some by (intro put_keeps [OF T inv]) simp_all
  have wf1: "wf_state h1 st1" using ch e1 wf_state_same_owners by (auto simp: entry_inv_def)
  have put2: "step_keeps T A h tbl h2 (m_put T i st2 tbl)" if q: "enqueue only (mk now j) st1 h1 = Some (h2, st2, c)" for h2 st2 c
  proof -
    have e: "same_owners h1 h2" "wf_state h1 st2" "state_owners st2 = state_owners st1" "same_holders h1 st1 st2"
      "request_owner ` set (state_queue st2) \<subseteq> insert j (request_owner ` set (state_queue st1))"
      using enqueue_ok [OF q wf1 mk] by simp_all
    have sh: "same_holders h st1 st2" using e(4) same_holders_same_owners ch by blast
    have so: "same_owners h h2" using e(1) ch same_owners_trans by blast
    have "wf_state h st2" using wf_state_same_owners [OF same_owners_sym e(2)] ch by blast
    then have e2: "entry_inv A h st2" using e(3,5) e1 j unfolding entry_inv_def by blast
    show ?thesis
    proof (rule put_keeps [OF T inv so e2])
      fix st0 t x assume "m_get T i tbl = Some st0" "running A h t" "held_in A h t x st0"
      with Some k1 have "held_in A h t x st1" by simp
      from held_moved [OF this sh] show "held_in A h t x st2" .
    qed
  qed
  show ?thesis
    using ret Some r put1 put2
    by (auto simp: acquire_def split: sum.splits option.splits prod.splits)
qed

subsection \<open>Hand-over and removal\<close>

lemma held_prepared:
  assumes "wf_state h st" "running A h t" "held_in A h t x st"
    and "kept h st st'" "state_owners st' \<subseteq> state_owners st" "exclusively_held h st \<longrightarrow> st' = st"
  shows "held_in A h t x st'"
proof -
  obtain k where "k \<in> A" using assms(3) by (auto simp: held_in_def)
  with held_changed [OF assms(1-3) prepared_changed [OF assms(4-6)]] show ?thesis .
qed

lemma transfer_step_keeps:
  assumes T: "scc_map_laws T" and inv: "ac_inv T (A, h, tbl)"
    and ret: "transfer_ownership_sync T now i (h, tbl) = returns ((h', tbl'), waiting)"
  shows "step_keeps T A h tbl h' tbl'"
proof (cases "m_get T i tbl")
  case None
  with ret inv show ?thesis by (auto simp: transfer_ownership_sync_def step_keeps_def ac_inv_def)
next
  case (Some st)
  with inv have st: "wf_state h st" "state_owners st \<subseteq> A" "request_owner ` set (state_queue st) \<subseteq> A"
    and rc: "rollback_complete h" by (auto simp: ac_inv_def entry_inv_def)
  have ns: "\<not> stuck_state h st" using ret Some stuck_loops(5) [of h st now] by (auto simp: transfer_ownership_sync_def)
  let ?J = "\<lambda>st'. state_owners st' \<subseteq> A \<and> (\<forall>t x. running A h t \<longrightarrow> held_in A h t x st \<longrightarrow> held_in A h t x st')"
  have stable: "stable h (state_queue st) ?J"
    unfolding stable_def
  proof (intro ballI allI impI)
    fix r st1 st2 res
    assume r: "r \<in> set (state_queue st)" "wf_state h st1" "?J st1"
      "attempt_ok (request_mode r) h (request_owner r) st1 st2 res"
    then have j: "request_owner r \<in> A" and ch: "changed h (request_owner r) st1 st2"
      using st(3) attempt_changed by blast+
    then show "?J st2" using r(3) held_changed [OF r(2) _ _ ch j] by (auto simp: changed_def)
  qed
  have J0: "?J st" using st(2) by simp
  have prep: "?J st'" if "kept h st st'" "state_owners st' \<subseteq> state_owners st" "exclusively_held h st \<longrightarrow> st' = st" for st'
    using held_prepared [OF st(1) _ _ that] that(2) st(2) by blast
  have moved: "?J st2" if "?J st1" "same_holders h st1 st2" for st1 st2
  proof -
    have "state_owners st2 \<subseteq> state_owners st1" using that(2) by (simp add: same_holders_def)
    with that(1) held_moved [OF _ that(2)] show ?thesis by blast
  qed
  have "\<exists>h1 st1 n. transfer_ownership now h st = returns (h1, st1, state_queue st1 \<noteq> []) \<and> answers_only h h1 \<and>
      wf_state h1 st1 \<and> state_queue st1 = drop n (state_queue st) \<and>
      (\<forall>r \<in> set (take n (state_queue st)). answered h1 r) \<and> ?J st1"
    by (rule transfer_keeps [OF rc st(1) ns stable J0]) (erule (2) prep, erule (1) moved)
  then obtain h1 st1 n where tr: "transfer_ownership now h st = returns (h1, st1, state_queue st1 \<noteq> [])"
    and so: "answers_only h h1" and wf: "wf_state h1 st1" and q: "state_queue st1 = drop n (state_queue st)" and J: "?J st1"
    by (elim exE conjE) (rule that; simp)
  have so: "same_owners h h1" using so by (simp add: answers_only_def)
  have "wf_state h st1" using wf_state_same_owners [OF same_owners_sym [OF so] wf] .
  moreover have "request_owner ` set (state_queue st1) \<subseteq> A" using q st(3) set_drop_subset [of n "state_queue st"] by auto
  ultimately have "entry_inv A h st1" using J by (simp add: entry_inv_def)
  then have "step_keeps T A h tbl h1 (m_put T i st1 tbl)" using J Some by (intro put_keeps [OF T inv so]) simp_all
  with ret Some tr show ?thesis by (simp add: transfer_ownership_sync_def)
qed

lemma remove_condition_keeps:
  assumes wf: "wf_state h st" and ret: "remove_condition condition h st = Done (h', st', removed, notified)"
  shows "h' = h \<and> wf_state h st' \<and> state_owners st' \<subseteq> state_owners st \<and> set (state_queue st') \<subseteq> set (state_queue st) \<and>
    (running A h t \<longrightarrow> held_in A h t x st \<longrightarrow> \<not> removed \<and> held_in A h t x st')"
proof -
  have "\<not> stuck_state h st" using ret stuck_loops(6) by force
  from prepare_ok [OF wf this] obtain st1 where prep: "prepare_ownership_transfer h st = Done (h, st1)"
    and st1: "kept h st st1" "state_owners st1 \<subseteq> state_owners st" "exclusively_held h st \<longrightarrow> st1 = st" by blast
  have held: "held_in A h t x st1" if "running A h t" "held_in A h t x st"
    using held_prepared [OF wf that st1] .
  have "h' = h \<and> wf_state h st' \<and> state_owners st' \<subseteq> state_owners st1 \<and> set (state_queue st') \<subseteq> set (state_queue st1) \<and>
    (running A h t \<longrightarrow> held_in A h t x st1 \<longrightarrow> \<not> removed \<and> held_in A h t x st')"
  proof (cases st1)
    case (Owned own)
    with st1(1) ret prep show ?thesis
      by (cases own) (auto simp: remove_condition_def kept_def held_in_def running_def is_terminated_def
          split: option.splits if_splits)
  qed (use st1(1) ret prep in \<open>auto simp: remove_condition_def kept_def held_in_def split: if_splits\<close>)
  with held st1 show ?thesis by (auto simp: kept_def)
qed

lemma remove_step_keeps:
  assumes T: "scc_map_laws T" and inv: "ac_inv T (A, h, tbl)"
    and ret: "try_remove_access_data_sync T condition i (h, tbl) = Done ((h', tbl'), removed, notified)"
  shows "step_keeps T A h tbl h' tbl'"
proof (cases "m_get T i tbl")
  case None
  with ret inv show ?thesis by (auto simp: try_remove_access_data_sync_def step_keeps_def ac_inv_def)
next
  case (Some st)
  with inv have st: "wf_state h st" "state_owners st \<subseteq> A" "request_owner ` set (state_queue st) \<subseteq> A"
    by (auto simp: ac_inv_def entry_inv_def)
  obtain h1 st1 where rc: "remove_condition condition h st = Done (h1, st1, removed, notified)"
    using ret Some by (auto simp: try_remove_access_data_sync_def split: outcome.splits if_splits)
  note keeps = remove_condition_keeps [OF st(1) rc]
  then have h1: "h1 = h" by blast
  show ?thesis
  proof (cases removed)
    case True
    have get: "m_get T k (m_remove T i tbl) = (if k = i then None else m_get T k tbl)" for k
      using T by (simp add: scc_map_laws_def)
    from True keeps Some inv have "step_keeps T A h tbl (drop_object_state st1 h) (m_remove T i tbl)"
      by (auto simp: step_keeps_def get ac_inv_def)
    with True ret Some rc h1 show ?thesis by (simp add: try_remove_access_data_sync_def)
  next
    case False
    have "entry_inv A h st1" using keeps st unfolding entry_inv_def by blast
    then have "step_keeps T A h tbl h (m_put T i st1 tbl)"
      using keeps Some by (intro put_keeps [OF T inv]) simp_all
    with False ret Some rc h1 show ?thesis by (simp add: try_remove_access_data_sync_def)
  qed
qed

subsection \<open>Runs\<close>

text \<open>A step is an operation on one object, or something that transactions do.\<close>

lemma ac_op_keeps:
  assumes T: "scc_map_laws T" and inv: "ac_inv T (A, h, tbl)" and op: "ac_op T A i (h, tbl) (h', tbl')"
  shows "step_keeps T A h tbl h' tbl'"
  using op
proof cases
  case (creates j deadline now a)
  show ?thesis
    by (rule acquire_keeps [OF T inv creates(1) _ _ _ _ _ creates(2) [unfolded requests_acquire]]) (simp_all add: try_create_changed)
next
  case (shares j deadline now a)
  show ?thesis
    by (rule acquire_keeps [OF T inv shares(1) _ _ _ _ _ shares(2) [unfolded requests_acquire]]) (simp_all add: loops_changed(1))
next
  case (locks j deadline now a)
  show ?thesis
    by (rule acquire_keeps [OF T inv locks(1) _ _ _ _ _ locks(2) [unfolded requests_acquire]]) (simp_all add: loops_changed(2))
next
  case (deletes j deadline now a)
  show ?thesis
    by (rule acquire_keeps [OF T inv deletes(1) _ _ _ _ _ deletes(2) [unfolded requests_acquire]]) (simp_all add: loops_changed(3))
next
  case (transfers now waiting)
  then show ?thesis using transfer_step_keeps [OF T inv] by blast
next
  case (removes condition removed notified)
  then show ?thesis using remove_step_keeps [OF T inv] by blast
qed

lemma ac_step_keeps:
  assumes "scc_map_laws T" "ac_inv T (A, h, tbl)" "ac_step T (A, h, tbl) (A', h', tbl')"
  shows "A' = A \<and> step_keeps T A h tbl h' tbl' \<or> tbl' = tbl \<and> rely A h h' \<and> A \<subseteq> A'"
  using assms(3) by cases (use ac_op_keeps [OF assms(1,2)] in auto)

lemma wf_own_rely: "wf_own h own \<Longrightarrow> owners own \<subseteq> A \<Longrightarrow> rely A h h' \<Longrightarrow> wf_own h' own"
proof (induction h own rule: wf_own.induct)
  case (2 h i j p q)
  then show ?case by (auto simp: same_transaction_def rely_def)
next
  case (3 h i j p q)
  then show ?case by (auto simp: same_transaction_def rely_def)
qed auto

lemma ac_step_inv:
  assumes T: "scc_map_laws T" and inv: "ac_inv T s" and step: "ac_step T s s'"
  shows "ac_inv T s'"
proof -
  obtain A h tbl A' h' tbl' where s: "s = (A, h, tbl)" "s' = (A', h', tbl')" by (cases s; cases s')
  from ac_step_keeps [OF T inv [unfolded s] step [unfolded s]] show ?thesis
  proof
    assume "A' = A \<and> step_keeps T A h tbl h' tbl'"
    with inv s show ?thesis
      using rollback_complete_same_owners wf_state_same_owners by (fastforce simp: ac_inv_def step_keeps_def entry_inv_def)
  next
    assume r: "tbl' = tbl \<and> rely A h h' \<and> A \<subseteq> A'"
    have "wf_state h' st" if "entry_inv A h st" for st
      using that r wf_own_rely by (cases st) (auto simp: entry_inv_def)
    then have "entry_inv A' h' st" if "entry_inv A h st" for st
      using that r unfolding entry_inv_def by blast
    with inv s r show ?thesis by (simp add: ac_inv_def rely_def)
  qed
qed

lemma ac_run_inv:
  assumes T: "scc_map_laws T" and "(ac_step T)\<^sup>*\<^sup>* s s'" and "ac_inv T s"
  shows "ac_inv T s'"
  using assms(2,3) by (induction rule: rtranclp_induct) (auto intro: ac_step_inv [OF T])

text \<open>A transaction that is running now was running before; what it holds it keeps.\<close>

definition running_at :: "transaction_id \<Rightarrow> journal_id set \<times> 'b heap \<times> 't \<Rightarrow> bool" where
  "running_at t = (\<lambda>(A, h, tbl). running A h t)"

definition holds_at :: "'t object_map \<Rightarrow> object_id \<Rightarrow> transaction_id \<Rightarrow> bool \<Rightarrow> journal_id set \<times> 'b heap \<times> 't \<Rightarrow> bool" where
  "holds_at T i t exclusive = (\<lambda>(A, h, tbl). \<exists>st. m_get T i tbl = Some st \<and> held_in A h t exclusive st)"

lemma held_in_mono:
  assumes "held_in A h t x st" "A \<subseteq> A'" "\<And>k. k \<in> A \<Longrightarrow> ja_transaction (jas h' k) = ja_transaction (jas h k)"
  shows "held_in A' h' t x st"
  using assms unfolding held_in_def by (metis subsetD subset_trans)

lemma ac_step_holds:
  assumes T: "scc_map_laws T" and inv: "ac_inv T s" and step: "ac_step T s s'" and run: "running_at t s'"
  shows "running_at t s" "holds_at T i t x s \<Longrightarrow> holds_at T i t x s'"
proof -
  obtain A h tbl A' h' tbl' where s: "s = (A, h, tbl)" "s' = (A', h', tbl')" by (cases s; cases s')
  from ac_step_keeps [OF T inv [unfolded s] step [unfolded s]]
  have "running_at t s \<and> (holds_at T i t x s \<longrightarrow> holds_at T i t x s')"
  proof
    assume k: "A' = A \<and> step_keeps T A h tbl h' tbl'"
    then have so: "same_owners h h'" by (simp add: step_keeps_def)
    have r: "running A h t" using run s k by (simp add: running_at_def running_def same_owners_rules [OF so] same_owners_fields [OF so])
    have mono: "held_in A h' t x st" if "held_in A h t x st" for st
      by (rule held_in_mono [OF that]) (simp_all add: same_owners_fields [OF so])
    have "holds_at T i t x s'" if "holds_at T i t x s"
      using that k r s mono unfolding holds_at_def step_keeps_def by fast
    with r s show ?thesis by (simp add: running_at_def)
  next
    assume k: "tbl' = tbl \<and> rely A h h' \<and> A \<subseteq> A'"
    then have "running A h t" using run s by (auto simp: running_at_def running_def rely_def)
    moreover have "holds_at T i t x s'" if "holds_at T i t x s"
      using that s k held_in_mono [of A h t x _ A' h'] by (auto simp: holds_at_def rely_def)
    ultimately show ?thesis using s by (simp add: running_at_def)
  qed
  then show "running_at t s" "holds_at T i t x s \<Longrightarrow> holds_at T i t x s'" by blast+
qed

lemma ac_run_running:
  assumes T: "scc_map_laws T" and "(ac_step T)\<^sup>*\<^sup>* s s'" and "ac_inv T s" "running_at t s'"
  shows "running_at t s"
  using assms(2-)
proof (induction rule: converse_rtranclp_induct)
  case (step s s1)
  have "ac_inv T s1" using ac_step_inv [OF T step.prems(1) step.hyps(1)] .
  from ac_step_holds(1) [OF T step.prems(1) step.hyps(1) step.IH [OF this step.prems(2)]] show ?case .
qed

lemma ac_run_holds:
  assumes T: "scc_map_laws T" and "(ac_step T)\<^sup>*\<^sup>* s s'" and "ac_inv T s" "running_at t s'" "holds_at T i t x s"
  shows "running_at t s \<and> holds_at T i t x s'"
  using assms(2-)
proof (induction rule: converse_rtranclp_induct)
  case (step s s1)
  have inv: "ac_inv T s1" using ac_step_inv [OF T step.prems(1) step.hyps(1)] .
  have "running_at t s1" using ac_run_running [OF T step.hyps(2) inv step.prems(2)] .
  note s1 = ac_step_holds [OF T step.prems(1) step.hyps(1) this]
  from step.IH [OF inv step.prems(2) s1(2) [OF step.prems(3)]] s1(1) show ?case by blast
qed simp

lemma acquire_returns:
  assumes "\<And>st. m_get T i tbl = Some st \<Longrightarrow> \<exists>s r. attempt h st j deadline = returns (s, r)"
  shows "\<exists>s a. acquire attempt own only mk T i j deadline now (h, tbl) = returns (s, a)"
proof (cases "m_get T i tbl")
  case None
  then show ?thesis by (simp add: acquire_def)
next
  case (Some st)
  with assms obtain h1 st1 r where "attempt h st j deadline = returns ((h1, st1), r)" by fastforce
  with Some show ?thesis by (auto simp: acquire_def split: sum.split option.split prod.split)
qed

lemma ac_inv_entry:
  "ac_inv T (A, h, tbl) \<Longrightarrow> m_get T i tbl = Some st \<Longrightarrow> rollback_complete h \<and> wf_state h st \<and> state_owners st \<subseteq> A"
  by (simp add: ac_inv_def entry_inv_def)

lemma requests_return:
  assumes inv: "ac_inv T (A, h, tbl)" and ns: "\<And>st. m_get T i tbl = Some st \<Longrightarrow> \<not> stuck_state h st"
  shows "\<exists>s a. ac_create T i j deadline now (h, tbl) = returns (s, a)"
    "\<exists>s a. ac_share T i j deadline now (h, tbl) = returns (s, a)"
    "\<exists>s a. ac_lock T i j deadline now (h, tbl) = returns (s, a)"
    "\<exists>s a. ac_delete T i j deadline now (h, tbl) = returns (s, a)"
    "\<exists>s w. transfer_ownership_sync T now i (h, tbl) = returns (s, w)"
    "\<exists>s r n. try_remove_access_data_sync T condition i (h, tbl) = Done (s, r, n)"
proof -
  have st: "rollback_complete h \<and> wf_state h st \<and> \<not> stuck_state h st" if "m_get T i tbl = Some st" for st
    using ac_inv_entry [OF inv that] ns [OF that] by blast
  have prep: "\<exists>st'. prepare_ownership_transfer h st = Done (h, st')" if "m_get T i tbl = Some st" for st
    using prepare_ok [of h st] st [OF that] by blast
  show "\<exists>s a. ac_create T i j deadline now (h, tbl) = returns (s, a)"
    unfolding requests_acquire
  proof (rule acquire_returns)
    show "\<exists>s r. Some (try_create h st j deadline) = returns (s, r)" if "m_get T i tbl = Some st" for st
      using prep [OF that] by (cases "try_create h st j deadline") (auto simp: try_create_def)
  qed
  show "\<exists>s a. ac_share T i j deadline now (h, tbl) = returns (s, a)"
    unfolding requests_acquire try_share_def [abs_def] by (rule acquire_returns, drule st) (elim conjE, rule share.loop_returns)
  show "\<exists>s a. ac_lock T i j deadline now (h, tbl) = returns (s, a)"
    unfolding requests_acquire try_lock_def [abs_def] by (rule acquire_returns, drule st) (elim conjE, rule lock.loop_returns)
  show "\<exists>s a. ac_delete T i j deadline now (h, tbl) = returns (s, a)"
    unfolding requests_acquire try_delete_def [abs_def] by (rule acquire_returns, drule st) (elim conjE, rule delete.loop_returns)
  show "\<exists>s w. transfer_ownership_sync T now i (h, tbl) = returns (s, w)"
  proof (cases "m_get T i tbl")
    case (Some st0)
    with st transfer_ok [of h st0 now] obtain h' st' n where "transfer_ownership now h st0 = returns (h', st', n)" by blast
    with Some show ?thesis by (auto simp: transfer_ownership_sync_def)
  qed (auto simp: transfer_ownership_sync_def)
  show "\<exists>s r n. try_remove_access_data_sync T condition i (h, tbl) = Done (s, r, n)"
    using prep by (cases "m_get T i tbl")
      (auto simp: try_remove_access_data_sync_def remove_condition_def split: prod.split)
qed

lemma ac_run_transaction:
  assumes T: "scc_map_laws T" and "(ac_step T)\<^sup>*\<^sup>* s s'" and "ac_inv T s" and "s' = (A', h', tbl')"
  shows "\<forall>j \<in> fst s. ja_transaction (jas h' j) = ja_transaction (jas (fst (snd s)) j)"
  using assms(2-)
proof (induction rule: converse_rtranclp_induct)
  case (step s s1)
  obtain A h tbl A1 h1 tbl1 where s: "s = (A, h, tbl)" "s1 = (A1, h1, tbl1)" by (cases s; cases s1)
  note step.IH [OF ac_step_inv [OF T step.prems(1) step.hyps(1)] step.prems(2)]
  moreover from ac_step_keeps [OF T step.prems(1) [unfolded s] step.hyps(1) [unfolded s]]
  have "A \<subseteq> A1 \<and> (\<forall>j \<in> A. ja_transaction (jas h1 j) = ja_transaction (jas h j))"
    by (auto simp: step_keeps_def rely_def same_owners_fields)
  ultimately show ?case by (auto simp: s)
qed simp

lemma empty_inv: "rollback_complete h \<Longrightarrow> \<forall>i. m_get T i tbl = None \<Longrightarrow> ac_inv T (A, h, tbl)"
  by (simp add: ac_inv_def)

subsection \<open>What transactions do\<close>

text \<open>
  The operations on anchors are steps of this kind: starting a journal at a free address, submitting
  and rolling back a journal, committing a transaction at a non-zero instant, and ending the rollback
  of one whose journals are all rolled back.
\<close>

lemma rely_journal:
  assumes "rollback_complete h"
  shows "rely A h (anchor_submit j h)" "rely A h (anchor_rollback j h)" "rely A h (anchor_commit j h)"
    "rely A h (fst (set_next j n h))"
  using assms
  by (simp_all add: rely_def rollback_complete_def is_terminated_def is_rolled_back_def ja_eot_instant_def
      anchor_submit_def anchor_rollback_def anchor_commit_def set_next_def Let_def upd_ja_def)

lemma rely_new_journal:
  assumes "rollback_complete h" "j \<notin> A" "eot_instant (tas h t) = None"
  shows "rely A h (upd_ja j (\<lambda>_. anchor_new t c) h)"
  using assms by (auto simp: rely_def rollback_complete_def is_terminated_def is_rolled_back_def ja_eot_instant_def
      upd_ja_def anchor_new_def)

lemma rely_commit:
  assumes "rollback_complete h" "eot_instant (tas h t) = None" "c \<noteq> 0"
  shows "rely A h (upd_ta t (\<lambda>a. a\<lparr>ta_commit_instant := c, ta_state := Committed\<rparr>) h)"
  using assms by (auto simp: rely_def rollback_complete_def is_terminated_def is_rolled_back_def ja_eot_instant_def
      upd_ta_def eot_instant_def Let_def)

lemma rely_rollback:
  assumes "rollback_complete h" "eot_instant (tas h t) = None" "\<forall>j. ja_transaction (jas h j) = t \<longrightarrow> is_rolled_back h j"
  shows "rely A h (upd_ta t (\<lambda>a. a\<lparr>ta_state := RolledBack\<rparr>) h)"
  using assms by (auto simp: rely_def rollback_complete_def is_terminated_def is_rolled_back_def ja_eot_instant_def
      upd_ta_def eot_instant_def Let_def)

section \<open>Properties\<close>

text \<open>
  C4: In every run of the access controller that starts without access data, every entry is
  well-formed: prior owners belong to the transaction of the current one, an object that is not shared
  has owners of one transaction only, and requests wait for the current owner. Every operation on an
  object returns there, unless the object is a creation under a rolled-back deletion with requests
  waiting.
\<close>

theorem reachable_entries_typed:
  assumes T: "scc_map_laws T" and "rollback_complete h0" and "\<forall>i. m_get T i tbl0 = None"
    and "(ac_step T)\<^sup>*\<^sup>* (A0, h0, tbl0) (A, h, tbl)"
  shows "(\<forall>i st. m_get T i tbl = Some st \<longrightarrow> wf_state h st \<and> state_owners st \<subseteq> A) \<and>
    (\<forall>i own j k. m_get T i tbl = Some (Owned own) \<longrightarrow> \<not> is_shared own \<longrightarrow> j \<in> owners own \<longrightarrow> k \<in> owners own \<longrightarrow>
       same_transaction h j k) \<and>
    (\<forall>i j deadline now condition. (\<forall>st. m_get T i tbl = Some st \<longrightarrow> \<not> stuck_state h st) \<longrightarrow>
       (\<exists>s a. ac_create T i j deadline now (h, tbl) = returns (s, a)) \<and>
       (\<exists>s a. ac_share T i j deadline now (h, tbl) = returns (s, a)) \<and>
       (\<exists>s a. ac_lock T i j deadline now (h, tbl) = returns (s, a)) \<and>
       (\<exists>s a. ac_delete T i j deadline now (h, tbl) = returns (s, a)) \<and>
       (\<exists>s w. transfer_ownership_sync T now i (h, tbl) = returns (s, w)) \<and>
       (\<exists>s r n. try_remove_access_data_sync T condition i (h, tbl) = Done (s, r, n)))"
proof -
  have inv: "ac_inv T (A, h, tbl)" by (rule ac_run_inv [OF T assms(4) empty_inv [OF assms(2,3)]])
  have one: "\<forall>i own j k. m_get T i tbl = Some (Owned own) \<longrightarrow> \<not> is_shared own \<longrightarrow> j \<in> owners own \<longrightarrow> k \<in> owners own \<longrightarrow>
       same_transaction h j k"
    using ac_inv_entry [OF inv] exclusive_one_transaction by (metis wf_state.simps(1))
  have wf: "\<forall>i st. m_get T i tbl = Some st \<longrightarrow> wf_state h st \<and> state_owners st \<subseteq> A"
    using ac_inv_entry [OF inv] by blast
  show ?thesis by (intro conjI wf one allI impI requests_return [OF inv]) blast+
qed

text \<open>
  C3: An object that a transaction has acquired stays with it until the end. Whatever requests of other
  journals, hand-overs, removals and ends of other transactions come in between: as long as the
  transaction has not ended and none of its journals was rolled back, one of its journals owns the
  object; if it was acquired exclusively, it has no other owners.
\<close>

theorem owned_until_end:
  assumes T: "scc_map_laws T" and start: "rollback_complete h0" "\<forall>i. m_get T i tbl0 = None"
    and run: "(ac_step T)\<^sup>*\<^sup>* (A0, h0, tbl0) (A1, h1, tbl1)"
    and own1: "m_get T i tbl1 = Some (Owned own1)" "j \<in> owners own1"
    and later: "(ac_step T)\<^sup>*\<^sup>* (A1, h1, tbl1) (A2, h2, tbl2)"
    and running: "\<forall>k \<in> A2. same_transaction h2 k j \<longrightarrow> \<not> is_terminated h2 k"
  shows "\<exists>own2. m_get T i tbl2 = Some (Owned own2) \<and> (\<exists>k \<in> owners own2. same_transaction h2 k j) \<and>
    (\<not> is_shared own1 \<longrightarrow> \<not> is_shared own2 \<and> (\<forall>k \<in> owners own2. same_transaction h2 k j))"
proof -
  let ?t = "ja_transaction (jas h2 j)"
  have inv1: "ac_inv T (A1, h1, tbl1)" by (rule ac_run_inv [OF T run empty_inv [OF start]])
  note inv2 = ac_run_inv [OF T later inv1]
  have A1: "owners own1 \<subseteq> A1" using ac_inv_entry [OF inv1 own1(1)] by simp
  have t: "ja_transaction (jas h1 j) = ?t" using ac_run_transaction [OF T later inv1 refl] A1 own1(2) by auto
  have "running_at ?t (A2, h2, tbl2)" using running by (simp add: running_at_def running_def same_transaction_def)
  moreover have "holds_at T i ?t (\<not> is_shared own1) (A1, h1, tbl1)"
    using own1 A1 t by (auto simp: holds_at_def held_in_def)
  ultimately have "holds_at T i ?t (\<not> is_shared own1) (A2, h2, tbl2)"
    using ac_run_holds [OF T later inv1] by blast
  then obtain own2 k where own2: "m_get T i tbl2 = Some (Owned own2)" "k \<in> owners own2" "same_transaction h2 k j"
    and x: "\<not> is_shared own1 \<longrightarrow> \<not> is_shared own2"
    by (auto simp: holds_at_def held_in_def same_transaction_def)
  have "same_transaction h2 m j" if "\<not> is_shared own1" "m \<in> owners own2" for m
  proof -
    have "wf_own h2 own2" using ac_inv_entry [OF inv2 own2(1)] by simp
    from exclusive_one_transaction [OF this _ that(2) own2(2)] x that(1) own2(3) show ?thesis
      by (simp add: same_transaction_def)
  qed
  with own2 x show ?thesis by blast
qed

text \<open>A lock, and a request of another transaction for the same object.\<close>

lemma demo_access_run:
  "\<exists>h2 tbl2. (ac_step fun_map)\<^sup>*\<^sup>* ({16, 32}, idle_heap, Map.empty) ({16, 32}, idle_heap, [3 \<mapsto> Owned (Locked 16)]) \<and>
     ac_step fun_map ({16, 32}, idle_heap, [3 \<mapsto> Owned (Locked 16)]) ({16, 32}, h2, tbl2) \<and> same_owners idle_heap h2"
proof -
  have first: "ac_step fun_map ({16, 32}, idle_heap, Map.empty) ({16, 32}, idle_heap, [3 \<mapsto> Owned (Locked 16)])"
    by (rule operates [where i = 3], rule locks [where j = 16 and deadline = None and now = 0 and a = "Answer (Ok True)"])
      (simp_all add: ac_lock_def fun_map_def)
  have inv: "ac_inv fun_map ({16, 32}, idle_heap, [3 \<mapsto> Owned (Locked 16)])"
    by (auto simp: ac_inv_def entry_inv_def fun_map_def split: if_splits)
  from requests_return(3) [OF this, of 3 32 "Some 9" 5]
  obtain h2 tbl2 a where second: "ac_lock fun_map 3 32 (Some 9) 5 (idle_heap, [3 \<mapsto> Owned (Locked 16)]) = returns ((h2, tbl2), a)"
    by (auto simp: fun_map_def)
  then have "ac_step fun_map ({16, 32}, idle_heap, [3 \<mapsto> Owned (Locked 16)]) ({16, 32}, h2, tbl2)"
    by (intro operates [where i = 3] locks [where j = 32]) simp_all
  moreover have "step_keeps fun_map {16, 32} idle_heap [3 \<mapsto> Owned (Locked 16)] h2 tbl2"
    by (rule acquire_keeps [OF fun_map_laws inv _ _ _ _ _ _ second [unfolded requests_acquire]])
      (simp_all add: loops_changed(2))
  ultimately show ?thesis using first by (auto simp: step_keeps_def)
qed

theorem reachable_entries_typed_witness:
  "\<exists>s a. ac_delete fun_map 3 32 (Some 9) 5 (idle_heap, [3 \<mapsto> Owned (Locked 16)]) = returns (s, a)"
proof -
  have "(ac_step fun_map)\<^sup>*\<^sup>* ({16, 32}, idle_heap, Map.empty) ({16, 32}, idle_heap, [3 \<mapsto> Owned (Locked 16)])"
    using demo_access_run by blast
  from reachable_entries_typed [OF fun_map_laws rollback_complete_idle _ this] show ?thesis
    by (simp add: fun_map_def)
qed

theorem owned_until_end_witness:
  "\<exists>h2 tbl2 own2. ac_step fun_map ({16, 32}, idle_heap, [3 \<mapsto> Owned (Locked 16)]) ({16, 32}, h2, tbl2) \<and>
     tbl2 3 = Some (Owned own2) \<and> \<not> is_shared own2"
proof -
  obtain h2 tbl2 where run: "(ac_step fun_map)\<^sup>*\<^sup>* ({16, 32}, idle_heap, Map.empty) ({16, 32}, idle_heap, [3 \<mapsto> Owned (Locked 16)])"
    and step: "ac_step fun_map ({16, 32}, idle_heap, [3 \<mapsto> Owned (Locked 16)]) ({16, 32}, h2, tbl2)"
    and so: "same_owners idle_heap h2"
    using demo_access_run by blast
  have "\<forall>k \<in> {16, 32}. same_transaction h2 k 16 \<longrightarrow> \<not> is_terminated h2 k" by (simp add: same_owners_rules [OF so])
  moreover have "(ac_step fun_map)\<^sup>*\<^sup>* ({16, 32}, idle_heap, [3 \<mapsto> Owned (Locked 16)]) ({16, 32}, h2, tbl2)"
    using step by (rule r_into_rtranclp)
  ultimately have "\<exists>own2. m_get fun_map 3 tbl2 = Some (Owned own2) \<and> \<not> is_shared own2"
    using owned_until_end [OF fun_map_laws rollback_complete_idle _ run, of 3 "Locked 16" 16 "{16, 32}" h2 tbl2]
    by (auto simp: fun_map_def)
  with step
  show ?thesis by (auto simp: fun_map_def)
qed

end
