(* ===== verification/Access_Grants.thy ===== *)
theory Access_Grants
  imports Access_Runs
begin

text \<open>
  What a granted request of the access controller (\<^verbatim>\<open>src/src/access_controller.rs\<close>) is worth: the
  object belongs to the transaction that asked for it, whether the request was granted at once or
  by the hand-over of ownership later.
\<close>

section \<open>Requests of a journal\<close>

text \<open>
  A request asks for exclusive ownership unless it is one to protect the object.
\<close>

primrec asks_exclusive :: "request \<Rightarrow> bool" where
  "asks_exclusive (ReqCreate _ _ _) = True"
| "asks_exclusive (ReqProtect _ _ _) = False"
| "asks_exclusive (ReqLock _ _ _) = True"
| "asks_exclusive (ReqDelete _ _ _) = True"

text \<open>
  What a journal relies on when it requests an object: the request returns, other objects are left
  alone, an object that is granted is owned by the transaction of the journal and not shared. A
  request that waits has a new result cell without an answer, and the only request added to the queue
  is one of the journal, with this cell.
\<close>

definition request_ok ::
  "'t object_map \<Rightarrow> journal_id set \<Rightarrow> object_id \<Rightarrow> journal_id \<Rightarrow> 'b heap \<times> 't \<Rightarrow> 'b heap \<times> 't \<Rightarrow> acquisition \<Rightarrow> bool" where
  "request_ok T A i j = (\<lambda>(h, tbl) (h', tbl') a.
     step_keeps T A h tbl h' tbl' \<and> (\<forall>k. k \<noteq> i \<longrightarrow> m_get T k tbl' = m_get T k tbl) \<and>
     (case a of
        Answer (Inr _) \<Rightarrow> (\<exists>st. m_get T i tbl' = Some st \<and> \<not> stuck_state h st \<and>
          held_in A h (ja_transaction (jas h j)) True st)
      | Answer (Inl _) \<Rightarrow> True
      | Await aw \<Rightarrow> ar_result aw = next_cell h \<and> next_cell h < next_cell h' \<and> rc_result (cells h' (next_cell h)) = None \<and>
          (\<exists>st st'. m_get T i tbl = Some st \<and> m_get T i tbl' = Some st' \<and>
            (\<forall>r \<in> set (state_queue st'). r \<in> set (state_queue st) \<or> request_owner r = j \<and> asks_exclusive r))))"

lemma push_cells [simp]:
  "cells (set_wake_up_others k h) = cells h" "next_cell (set_wake_up_others k h) = next_cell h"
  "cells (foldl (\<lambda>h k. set_wake_up_others k h) h xs) = cells h"
  "next_cell (foldl (\<lambda>h k. set_wake_up_others k h) h xs) = next_cell h"
proof -
  show c: "cells (set_wake_up_others k h) = cells h" "next_cell (set_wake_up_others k h) = next_cell h" for k and h :: "'a heap"
    by (simp_all add: set_wake_up_others_def upd_ja_def)
  show "cells (foldl (\<lambda>h k. set_wake_up_others k h) h xs) = cells h"
    "next_cell (foldl (\<lambda>h k. set_wake_up_others k h) h xs) = next_cell h"
    by (induction xs arbitrary: h) (simp_all add: c)
qed

lemma enqueue_cell:
  assumes "enqueue only mk st h = Some (h', st', c)"
  shows "c = next_cell h \<and> next_cell h' = Suc (next_cell h) \<and> state_queue st' = state_queue st @ [mk c] \<and>
    (\<forall>x. rc_result (cells h' x) = (if x = c then None else rc_result (cells h x)))"
  using assms
  by (auto simp: enqueue_def new_cell_def ea_push_request_def sa_push_request_def
      split: object_state.splits ownership.splits if_splits)

text \<open>What an attempt guarantees when it grants the object.\<close>

definition grants ::
  "('b heap \<Rightarrow> object_state \<Rightarrow> journal_id \<Rightarrow> time option \<Rightarrow> (('b heap \<times> object_state) \<times> access_result) run) \<Rightarrow> bool" where
  "grants attempt \<longleftrightarrow> (\<forall>h st j deadline h' st' b. wf_state h st \<longrightarrow>
     attempt h st j deadline = returns ((h', st'), Ok (Some b)) \<longrightarrow>
     (\<exists>own. st' = Owned own \<and> \<not> stuck_state h st' \<and> \<not> is_shared own \<and> (\<exists>k \<in> owners own. same_transaction h k j)))"

lemma create_grants: "grants (\<lambda>h st j d. Some (try_create h st j d))"
  unfolding grants_def
proof (intro allI impI)
  fix h :: "'b heap" and st j deadline h' st' b
  assume wf: "wf_state h st" and "Some (try_create h st j deadline) = returns ((h', st'), Ok (Some b))"
  then have ret: "try_create h st j deadline = Done ((h', st'), Ok (Some b))" by simp
  then obtain st1 where prep: "prepare_ownership_transfer h st = Done (h, st1)" and "kept h st st1"
    using prepare_ok [OF wf] stuck_loops(4) [of h st j deadline] by force
  then have wf1: "wf_state h st1" by (simp add: kept_def)
  have "\<exists>own. st' = Owned own \<and> is_creation own \<and> (\<exists>k \<in> owners own. same_transaction h k j)"
  proof (cases st1)
    case (Owned own)
    have c: "own = Created k \<or> (\<exists>e. own = CreatedAwaitable e \<and> ea_owner e = k) \<Longrightarrow>
        grant_write_access h k j = Linearizable \<and> st' = st1 \<or> st' = Owned (Created j)" for k
      using ret Owned by (elim disjE exE conjE; cases "grant_write_access h k j")
        (simp_all add: try_create_def prep split: if_splits)
    show ?thesis
    proof (cases own)
      case (Created k)
      with c [of k] Owned same_transaction_Linearizable [of h k j] show ?thesis by (auto simp: same_transaction_def)
    next
      case (CreatedAwaitable e)
      with c [of "ea_owner e"] Owned same_transaction_Linearizable [of h "ea_owner e" j] wf1 show ?thesis
        by (auto simp: same_transaction_def owners_unpromoted)
    qed (use ret prep Owned in \<open>simp_all add: try_create_def\<close>)
  qed (use ret prep in \<open>simp_all add: try_create_def\<close>)
  moreover have "\<not> is_shared own \<and> \<not> stuck_state h (Owned own)" if "is_creation own" for own
    using that by (cases own) simp_all
  ultimately show "\<exists>own. st' = Owned own \<and> \<not> stuck_state h st' \<and> \<not> is_shared own \<and>
      (\<exists>k \<in> owners own. same_transaction h k j)" by blast
qed

text \<open>An object that is granted to be locked or deleted is not shared, even if its transaction had locked it before.\<close>

lemma retry_flow_Some: "retry_flow r = Return (Ok (Some b)) \<longleftrightarrow> r = Ok (True, b)"
  by (cases r) (auto simp: retry_flow_def split: prod.splits if_splits)

lemma exclusive_bodies:
  assumes "try_lock_body j deadline (h, st) = returns ((h', st'), Return (Ok (Some b))) \<or>
    try_delete_body j deadline (h, st) = returns ((h', st'), Return (Ok (Some b)))"
  shows "\<exists>own. st' = Owned own \<and> \<not> is_shared own"
proof -
  obtain h1 st1 where prep: "prepare_ownership_transfer h st = Done (h1, st1)"
    using assms by (cases "prepare_ownership_transfer h st") (auto simp: try_delete_body_def try_lock_body_def)
  show ?thesis
  proof (cases st1)
    case (Owned own)
    show ?thesis
    proof (cases own)
      case (Protected k)
      with assms prep Owned show ?thesis by (auto simp: try_delete_body_def try_lock_body_def split: if_splits)
    next
      case (ProtectedAwaitable s)
      with assms prep Owned show ?thesis
        by (auto simp: try_delete_body_def try_lock_body_def split: if_splits prod.splits bool.splits option.splits)
    qed (use assms prep Owned in \<open>auto simp: try_delete_body_def try_lock_body_def exclusive_flow_def try_delete_exclusively_owned_def
        try_lock_exclusively_owned_def try_delete_exclusive_awaitable_def try_lock_exclusive_awaitable_def wait_or_fail_def
        retry_flow_Some Let_def split: sum.splits prod.splits relationship.splits if_splits option.splits\<close>)
  qed (use assms prep in \<open>auto simp: try_delete_body_def try_lock_body_def\<close>)
qed

context retry_operation
begin

lemma loop_grants:
  assumes stuck: "\<And>h st j d. stuck_state h st \<Longrightarrow> rust_loop (body j d) (h, st) = panics"
    and exclusive: "\<And>h st j d h' st' b. body j d (h, st) = returns ((h', st'), Return (Ok (Some b))) \<Longrightarrow>
      \<exists>own. st' = Owned own \<and> \<not> is_shared own"
  shows "grants (\<lambda>h st j d. rust_loop (body j d) (h, st))"
  unfolding grants_def
proof (intro allI impI)
  fix h :: "'b heap" and st j deadline h' st' b
  assume wf: "wf_state h st" and ret: "rust_loop (body j deadline) (h, st) = returns ((h', st'), Ok (Some b))"
  then have ns: "\<not> stuck_state h st" using stuck by force
  have "Ok (Some b) = Ok (Some c) \<longrightarrow> (\<exists>own. st' = Owned own \<and> \<not> is_shared own)" for c
    by (rule rust_loop_rule [OF ret, where I = "\<lambda>_. True" and
        Q = "\<lambda>(h, st) r. r = Ok (Some c) \<longrightarrow> (\<exists>own. st = Owned own \<and> \<not> is_shared own)", unfolded prod.case])
      (auto dest: exclusive)
  moreover have "\<exists>own. st' = Owned own \<and> \<not> stuck_state h st' \<and> (\<exists>k \<in> owners own. same_transaction h k j)"
    using loop_contract [OF ret wf ns]
    by (cases b) (auto simp: attempt_ok_def kept_def intro: same_transaction_refl)
  ultimately show "\<exists>own. st' = Owned own \<and> \<not> stuck_state h st' \<and> \<not> is_shared own \<and>
      (\<exists>k \<in> owners own. same_transaction h k j)" by auto
qed

end

lemma lock_grants: "grants try_lock"
  using lock.loop_grants [OF stuck_loops(2) [unfolded try_lock_def]] exclusive_bodies
  unfolding try_lock_def [abs_def] by blast

lemma delete_grants: "grants try_delete"
  using delete.loop_grants [OF stuck_loops(3) [unfolded try_delete_def]] exclusive_bodies
  unfolding try_delete_def [abs_def] by blast

text \<open>A request stores one state for the object; its answer is the one of the attempt.\<close>

lemma acquire_cases:
  assumes ret: "acquire attempt own only mk T i j deadline now (h, tbl) = returns ((h', tbl'), a)"
    and get: "m_get T i tbl = Some st"
  obtains h1 st1 r st2 where "attempt h st j deadline = returns ((h1, st1), r)" "tbl' = m_put T i st2 tbl"
    "\<And>b. a = Answer (Inr b) \<Longrightarrow> r = Ok (Some b) \<and> st2 = st1"
    "\<And>aw. a = Await aw \<Longrightarrow> enqueue only (mk now j) st1 h1 = Some (h', st2, ar_result aw)"
    "h' = h1 \<and> st2 = st1 \<or> (\<exists>c. enqueue only (mk now j) st1 h1 = Some (h', st2, c))"
proof -
  obtain h1 st1 r where r: "attempt h st j deadline = returns ((h1, st1), r)"
    using ret get by (auto simp: acquire_def)
  show ?thesis
  proof (cases "r = Ok None \<and> deadline \<noteq> None \<and> enqueue only (mk now j) st1 h1 \<noteq> None")
    case True
    then obtain d h2 st2 c where "r = Ok None" "deadline = Some d" "enqueue only (mk now j) st1 h1 = Some (h2, st2, c)" by auto
    with ret get r show ?thesis by (intro that [OF r, of st2]) (auto simp: acquire_def)
  next
    case False
    then have "h' = h1 \<and> tbl' = m_put T i st1 tbl \<and> a = Answer (case r of Inr (Some b) \<Rightarrow> Ok b | Inl e \<Rightarrow> Err e | _ \<Rightarrow> Err SerializationFailure)"
      using ret get r by (auto simp: acquire_def split: sum.splits option.splits)
    then show ?thesis by (intro that [OF r, of st1]) (auto split: sum.splits option.splits)
  qed
qed

lemma acquire_request_ok:
  assumes T: "scc_map_laws T" and inv: "ac_inv T (A, h, tbl)" and j: "j \<in> A"
    and attempt: "\<And>st h' st' r. wf_state h st \<Longrightarrow> attempt h st j deadline = returns ((h', st'), r) \<Longrightarrow>
      attempted h j st h' st'"
    and mk: "\<And>c. request_owner (mk now j c) = j" "\<And>c. asks_exclusive (mk now j c)"
    and own: "wf_own h (own j)" "owners (own j) = {j}" "queue_of (own j) = []" "\<not> is_shared (own j)"
    and g: "grants attempt"
    and ret: "acquire attempt own only mk T i j deadline now (h, tbl) = returns ((h', tbl'), a)"
  shows "request_ok T A i j (h, tbl) (h', tbl') a"
proof -
  have keeps: "step_keeps T A h tbl h' tbl'" by (rule acquire_keeps [OF T inv j attempt mk(1) own(1-3) ret])
  then have inv': "entry_inv A h st" if "m_get T k tbl' = Some st" for k st using that by (auto simp: step_keeps_def)
  have held: "held_in A h (ja_transaction (jas h j)) True (Owned own)"
    if "m_get T i tbl' = Some (Owned own)" "\<not> is_shared own" "\<exists>k \<in> owners own. same_transaction h k j" for own
    using inv' [OF that(1)] that(2,3) by (auto simp: held_in_def entry_inv_def same_transaction_def)
  have get: "m_get T k (m_put T i st tbl) = (if k = i then Some st else m_get T k tbl)" for k st
    using T by (simp add: scc_map_laws_def)
  show ?thesis
  proof (cases "m_get T i tbl")
    case None
    with ret have "h' = h" "tbl' = m_put T i (Owned (own j)) tbl" "a = Answer (Ok True)" by (simp_all add: acquire_def)
    with keeps get held own not_stuck_no_queue [of "Owned (own j)" h] show ?thesis by (auto simp: request_ok_def)
  next
    case (Some st)
    then have wf: "wf_state h st" using ac_inv_entry [OF inv] by blast
    from acquire_cases [OF ret Some] obtain h1 st1 r st2
      where r: "attempt h st j deadline = returns ((h1, st1), r)" and tbl': "tbl' = m_put T i st2 tbl"
      and granted: "\<And>b. a = Answer (Inr b) \<Longrightarrow> r = Ok (Some b) \<and> st2 = st1"
      and waits: "\<And>aw. a = Await aw \<Longrightarrow> enqueue only (mk now j) st1 h1 = Some (h', st2, ar_result aw)" by metis
    have "\<exists>st. m_get T i tbl' = Some st \<and> \<not> stuck_state h st \<and> held_in A h (ja_transaction (jas h j)) True st"
      if "a = Answer (Inr b)" for b
    proof -
      have "r = Ok (Some b)" "st2 = st1" using granted [OF that] by simp_all
      with g [unfolded grants_def, rule_format, OF wf] r obtain own where "st2 = Owned own" "\<not> stuck_state h st2"
        "\<not> is_shared own" "\<exists>k \<in> owners own. same_transaction h k j" by blast
      with held tbl' get show ?thesis by auto
    qed
    moreover have "ar_result aw = next_cell h \<and> next_cell h < next_cell h' \<and> rc_result (cells h' (next_cell h)) = None \<and>
        (\<forall>r \<in> set (state_queue st2). r \<in> set (state_queue st) \<or> request_owner r = j \<and> asks_exclusive r)"
      if "a = Await aw" for aw
      using enqueue_cell [OF waits [OF that]] attempt [OF wf r] mk by (auto simp: attempted_def changed_def)
    ultimately show ?thesis using keeps tbl' get Some
      by (cases a) (simp_all add: request_ok_def split: sum.split)
  qed
qed

subsection \<open>The interface of the journal\<close>

text \<open>The request a journal makes for each of its objects, as the journal sees it.\<close>

locale journal_request =
  fixes request :: "'t object_map \<Rightarrow> object_id \<Rightarrow> journal_id \<Rightarrow> time option \<Rightarrow> time \<Rightarrow> 'b heap \<times> 't \<Rightarrow>
    (('b heap \<times> 't) \<times> acquisition) run"
  assumes request_law: "scc_map_laws T \<Longrightarrow> ac_inv T (A, h, tbl) \<Longrightarrow> j \<in> A \<Longrightarrow>
    (\<And>st. m_get T i tbl = Some st \<Longrightarrow> \<not> stuck_state h st) \<Longrightarrow>
    \<exists>h' tbl' a. request T i j deadline now (h, tbl) = returns ((h', tbl'), a) \<and> request_ok T A i j (h, tbl) (h', tbl') a"
    and request_op: "j \<in> A \<Longrightarrow> request T i j deadline now s = returns (s', a) \<Longrightarrow> ac_op T A i s s'"

lemma create_request_ok:
  assumes T: "scc_map_laws T" and inv: "ac_inv T (A, h, tbl)" and j: "j \<in> A"
    and ns: "\<And>st. m_get T i tbl = Some st \<Longrightarrow> \<not> stuck_state h st"
  shows "\<exists>h' tbl' a. ac_create T i j deadline now (h, tbl) = returns ((h', tbl'), a) \<and> request_ok T A i j (h, tbl) (h', tbl') a"
proof -
  obtain h' tbl' a where ret: "ac_create T i j deadline now (h, tbl) = returns ((h', tbl'), a)"
    using requests_return(1) [where i = i and j = j and deadline = deadline and now = now, OF inv] ns by fastforce
  have "request_ok T A i j (h, tbl) (h', tbl') a"
    by (rule acquire_request_ok [OF T inv j _ _ _ _ _ _ _ create_grants ret [unfolded requests_acquire]]) (simp_all add: try_create_changed)
  with ret show ?thesis by blast
qed

lemma delete_request_ok:
  assumes T: "scc_map_laws T" and inv: "ac_inv T (A, h, tbl)" and j: "j \<in> A"
    and ns: "\<And>st. m_get T i tbl = Some st \<Longrightarrow> \<not> stuck_state h st"
  shows "\<exists>h' tbl' a. ac_delete T i j deadline now (h, tbl) = returns ((h', tbl'), a) \<and> request_ok T A i j (h, tbl) (h', tbl') a"
proof -
  obtain h' tbl' a where ret: "ac_delete T i j deadline now (h, tbl) = returns ((h', tbl'), a)"
    using requests_return(4) [where i = i and j = j and deadline = deadline and now = now, OF inv] ns by fastforce
  have "request_ok T A i j (h, tbl) (h', tbl') a"
    by (rule acquire_request_ok [OF T inv j _ _ _ _ _ _ _ delete_grants ret [unfolded requests_acquire]]) (simp_all add: loops_changed(3))
  with ret show ?thesis by blast
qed

interpretation creating: journal_request ac_create
  by unfold_locales (rule create_request_ok, assumption+, rule creates)

interpretation deleting: journal_request ac_delete
  by unfold_locales (rule delete_request_ok, assumption+, rule deletes)

section \<open>Answers of the hand-over\<close>

lemma try_request_grants:
  assumes wf: "wf_state h st" and ret: "try_request r deadline (h, st) = returns ((h', st'), Ok (Some b))"
    and ok: "attempt_ok (request_mode r) h (request_owner r) st st' (Ok (Some b))"
  shows "\<exists>own. st' = Owned own \<and> (\<exists>k \<in> owners own. same_transaction h k (request_owner r)) \<and>
    (asks_exclusive r \<longrightarrow> \<not> is_shared own)"
proof (cases "asks_exclusive r")
  case True
  with ret have "\<exists>attempt :: 'a heap \<Rightarrow> _. grants attempt \<and> attempt h st (request_owner r) deadline = returns ((h', st'), Ok (Some b))"
    using create_grants lock_grants delete_grants by (cases r) (auto simp: try_request_def)
  with wf show ?thesis unfolding grants_def by blast
next
  case False
  from ok show ?thesis by (cases b) (auto simp: attempt_ok_def False intro: same_transaction_refl)
qed

text \<open>
  A round of \<^verbatim>\<open>process_wait_queue\<close>: \<open>honest\<close> says that a positive answer in cell \<open>c\<close> was there before,
  or a request with this cell holds the object.
\<close>

definition honest :: "journal_id set \<Rightarrow> 'b heap \<Rightarrow> wait_queue \<Rightarrow> nat \<Rightarrow> 'b heap \<Rightarrow> object_state \<Rightarrow> bool" where
  "honest A h0 q0 c h st \<longleftrightarrow> (\<forall>b. rc_result (cells h c) = Some (Ok b) \<longrightarrow>
     rc_result (cells h0 c) = Some (Ok b) \<or>
     (\<exists>r \<in> set q0. request_cell r = c \<and> held_in A h0 (ja_transaction (jas h0 (request_owner r))) (asks_exclusive r) st))"

lemma honest_held:
  assumes "honest A h0 q0 c h st"
    and "\<And>r x. r \<in> set q0 \<Longrightarrow> request_cell r = c \<Longrightarrow> held_in A h0 (ja_transaction (jas h0 (request_owner r))) x st \<Longrightarrow>
      held_in A h0 (ja_transaction (jas h0 (request_owner r))) x st'"
  shows "honest A h0 q0 c h st'"
  using assms unfolding honest_def by meson

lemma honest_body:
  assumes rc: "rollback_complete h0" and q0: "request_owner ` set q0 \<subseteq> A"
    and run: "\<And>r. r \<in> set q0 \<Longrightarrow> request_cell r = c \<Longrightarrow> running A h0 (ja_transaction (jas h0 (request_owner r)))"
    and ok: "queue_state_ok h0 q0 (\<lambda>st. state_owners st \<subseteq> A) (h, st, q)" and hon: "honest A h0 q0 c h st"
    and body: "process_wait_queue_body now (h, st, q) = returns ((h', st', q'), f)"
  shows "honest A h0 q0 c h' st' \<and> next_cell h' = next_cell h"
proof (cases "q = [] \<or> answered h (hd q)")
  case True
  with body hon show ?thesis
    by (cases q) (auto simp: process_wait_queue_body_def Let_def clone_oldest_def answered_def split: if_splits)
next
  case False
  then obtain r rest where q: "q = r # rest" and na: "\<not> answered h r" by (cases q) auto
  have so: "same_owners h0 h" and wf0: "wf_state h0 st" and sq: "state_queue st = []" and A: "state_owners st \<subseteq> A"
    using ok by (auto simp: queue_state_ok_def answers_only_def)
  have "set q \<subseteq> set q0" using ok set_drop_subset by (fastforce simp: queue_state_ok_def)
  then have r: "r \<in> set q0" by (simp add: q)
  have wf: "wf_state h st" using wf_state_same_owners [OF so wf0] .
  obtain st1 res where req: "try_request r (Some now) (h, st) = returns ((h, st1), res)"
    and att: "attempt_ok (request_mode r) h (request_owner r) st st1 res"
    using try_request_ok [OF rollback_complete_same_owners [OF so rc] wf sq] by blast
  have ch: "changed h0 (request_owner r) st st1"
    using att attempt_changed unfolding attempt_ok_same_owners [OF so] by blast
  have kept: "honest A h0 q0 c h st1"
    by (rule honest_held [OF hon]) (use held_changed [OF wf0 run _ ch] q0 r in blast)
  have st': "st' = st1" and n: "next_cell h' = next_cell h" and cell: "rc_result (cells h' c) =
      (if res \<noteq> Ok None \<and> c = request_cell r then Some (case res of Inr (Some a) \<Rightarrow> Ok a | Inl e \<Rightarrow> Err e | _ \<Rightarrow> Err Timeout)
       else rc_result (cells h c))"
    using body na req
    by (auto simp: process_wait_queue_body_def Let_def clone_oldest_def q answered_def split: sum.splits option.splits)
  have "honest A h0 q0 c h' st1"
  proof (cases "res \<noteq> Ok None \<and> c = request_cell r")
    case True
    have "held_in A h0 (ja_transaction (jas h0 (request_owner r))) (asks_exclusive r) st1" if res: "res = Ok (Some a)" for a
    proof -
      obtain own where "st1 = Owned own" "\<exists>k \<in> owners own. same_transaction h k (request_owner r)"
        "asks_exclusive r \<longrightarrow> \<not> is_shared own"
        using try_request_grants [OF wf req [unfolded res] att [unfolded res]] by blast
      moreover have "state_owners st1 \<subseteq> A" using ch A q0 r unfolding changed_def by blast
      ultimately show ?thesis by (auto simp: held_in_def same_transaction_def same_owners_fields [OF so])
    qed
    with True cell r show ?thesis by (auto simp: honest_def split: sum.splits option.splits)
  next
    case False
    with cell kept show ?thesis by (auto simp: honest_def)
  qed
  with st' n show ?thesis by simp
qed

lemma honest_queue:
  assumes rc: "rollback_complete h" and wf: "wf_state h st" and sq: "state_queue st = []" and A: "state_owners st \<subseteq> A"
    and q: "request_owner ` set q \<subseteq> A"
    and run: "\<And>r. r \<in> set q \<Longrightarrow> request_cell r = c \<Longrightarrow> running A h (ja_transaction (jas h (request_owner r)))"
    and ret: "process_wait_queue now h st q = returns (h', st', rest)"
  shows "wf_state h st' \<and> honest A h q c h' st' \<and> next_cell h' = next_cell h"
proof -
  let ?J = "\<lambda>st. state_owners st \<subseteq> A"
  let ?I = "\<lambda>s. queue_state_ok h q ?J s \<and> honest A h q c (fst s) (fst (snd s)) \<and> next_cell (fst s) = next_cell h"
  have stable: "stable h q ?J"
    using q attempt_changed unfolding stable_def changed_def by (metis (no_types, lifting) image_subset_iff insert_subset order_trans)
  have step: "?I s'" if I: "?I s" and body: "process_wait_queue_body now s = returns (s', f)" for s s' f
  proof -
    obtain h1 st1 q1 h2 st2 q2 where s: "s = (h1, st1, q1)" "s' = (h2, st2, q2)" by (cases s; cases s')
    from process_body_ok [OF rc stable, of h1 st1 q1 now] I body s have "queue_state_ok h q ?J s'" by auto
    moreover have "honest A h q c h2 st2 \<and> next_cell h2 = next_cell h1"
      by (rule honest_body [OF rc q run _ _ body [unfolded s]]) (use I s in auto)
    ultimately show ?thesis using s I by simp
  qed
  obtain h1 st1 q1 u where loop: "rust_loop (process_wait_queue_body now) (h, st, q) = returns ((h1, st1, q1), u)"
    and eq: "h' = h1" "st' = st1"
    using ret by (auto simp: process_wait_queue_def)
  have "?I (h1, st1, q1)"
  proof (rule rust_loop_rule [OF loop, where I = ?I and Q = "\<lambda>s _. ?I s"])
    show "?I (h, st, q)" using wf sq A by (auto simp: queue_state_ok_def honest_def intro!: exI [of _ 0])
  qed (rule step; assumption)+
  with eq show ?thesis by (simp add: queue_state_ok_def)
qed

lemma honest_transfer:
  assumes rc: "rollback_complete h" and wf: "wf_state h st" and A: "state_owners st \<subseteq> A"
    and q: "request_owner ` set (state_queue st) \<subseteq> A"
    and run: "\<And>r. r \<in> set (state_queue st) \<Longrightarrow> request_cell r = c \<Longrightarrow> running A h (ja_transaction (jas h (request_owner r)))"
    and ret: "transfer_ownership now h st = returns (h', st', waiting)"
  shows "honest A h (state_queue st) c h' st' \<and> next_cell h' = next_cell h"
proof -
  have "\<not> stuck_state h st" using ret stuck_loops(5) by force
  from prepare_ok [OF wf this] obtain st1 where prep: "prepare_ownership_transfer h st = Done (h, st1)"
    and st1: "kept h st st1" "state_owners st1 \<subseteq> state_owners st" by blast
  have wf1: "wf_state h st1" and q1: "state_queue st1 = state_queue st" using st1(1) by (simp_all add: kept_def)
  show ?thesis
  proof (cases "take_wait_queue st1")
    case None
    with ret prep show ?thesis by (auto simp: transfer_ownership_def honest_def split: prod.splits)
  next
    case (Some sq)
    then obtain st2 where take: "take_wait_queue st1 = Some (st2, state_queue st)"
      and st2: "wf_state h st2" "state_queue st2 = []"
      using take_wait_queue_ok [OF wf1] q1 by auto
    have A2: "state_owners st2 \<subseteq> A" using take_wait_queue_holders [OF take, of h] st1(2) A by (auto simp: same_holders_def)
    from ret prep take obtain h3 st3 rest where loop: "process_wait_queue now h st2 (state_queue st) = returns (h3, st3, rest)"
      and post: "post_process_object_state st3 rest = (st', waiting)" and h': "h' = h3"
      by (auto simp: transfer_ownership_def split: prod.splits)
    have 3: "wf_state h st3 \<and> honest A h (state_queue st) c h3 st3 \<and> next_cell h3 = next_cell h"
      by (rule honest_queue [OF rc st2 A2 q run loop])
    then have "honest A h (state_queue st) c h3 st'"
      using honest_held held_moved [OF _ post_process_holders [OF _ post, of h]] by blast
    with 3 h' show ?thesis by simp
  qed
qed

section \<open>Properties\<close>

text \<open>
  C6: An answer of the hand-over can be trusted: when it gives a waiting request a positive result,
  then the object belongs to the transaction of that request, and to no other unless the request was
  one to protect the object. The transaction has not ended, and no two requests share a result.
\<close>

theorem positive_answer_owns:
  assumes T: "scc_map_laws T" and inv: "ac_inv T (A, h, tbl)" and get: "m_get T i tbl = Some st"
    and cells: "distinct (map request_cell (state_queue st))"
    and r: "r \<in> set (state_queue st)" "rc_result (cells h (request_cell r)) = None"
    and run: "\<forall>k \<in> A. same_transaction h k (request_owner r) \<longrightarrow> \<not> is_terminated h k"
    and ret: "transfer_ownership_sync T now i (h, tbl) = returns ((h', tbl'), waiting)"
    and answer: "rc_result (cells h' (request_cell r)) = Some (Ok b)"
  shows "\<exists>own. m_get T i tbl' = Some (Owned own) \<and> (\<exists>k \<in> owners own. same_transaction h k (request_owner r)) \<and>
    (asks_exclusive r \<longrightarrow> \<not> is_shared own \<and> (\<forall>k \<in> owners own. same_transaction h k (request_owner r)))"
proof -
  have st: "rollback_complete h" "wf_state h st" "state_owners st \<subseteq> A" "request_owner ` set (state_queue st) \<subseteq> A"
    using inv get by (auto simp: ac_inv_def entry_inv_def)
  obtain st' where tr: "transfer_ownership now h st = returns (h', st', waiting)" and tbl': "tbl' = m_put T i st' tbl"
    using ret get by (auto simp: transfer_ownership_sync_def)
  have same: "r' = r" if "r' \<in> set (state_queue st)" "request_cell r' = request_cell r" for r'
    using cells r(1) that by (auto simp: distinct_map inj_on_eq_iff)
  have "running A h (ja_transaction (jas h (request_owner r)))" using run by (simp add: running_def same_transaction_def)
  with same honest_transfer [OF st _ tr, of "request_cell r"] have "honest A h (state_queue st) (request_cell r) h' st'" by blast
  then have "held_in A h (ja_transaction (jas h (request_owner r))) (asks_exclusive r) st'"
    using answer r(2) same by (auto simp: honest_def)
  then obtain own k where own: "st' = Owned own" "k \<in> owners own" "same_transaction h k (request_owner r)"
    "asks_exclusive r \<longrightarrow> \<not> is_shared own" by (auto simp: held_in_def same_transaction_def)
  have get': "m_get T i tbl' = Some (Owned own)" using T tbl' own(1) by (simp add: scc_map_laws_def)
  have "entry_inv A h (Owned own)" using transfer_step_keeps [OF T inv ret] get' unfolding step_keeps_def by blast
  then have "wf_own h own" by (simp add: entry_inv_def)
  from exclusive_one_transaction [OF this _ _ own(2)] own get' show ?thesis
    by (auto simp: same_transaction_def)
qed

text \<open>A journal that waits for an object which it owns itself.\<close>

lemma demo_prepare:
  "prepare_ownership_transfer idle_heap (Owned (LockedAwaitable (ExclusiveAwaitable 0 16 None q))) =
     Done (idle_heap, Owned (LockedAwaitable (ExclusiveAwaitable 0 16 None q)))"
  using prepare_ok [of idle_heap "Owned (LockedAwaitable (ExclusiveAwaitable 0 16 None q))"]
  by (auto simp: exclusively_held_def)

lemma demo_transfer:
  "\<exists>h'. transfer_ownership 9 idle_heap (Owned (LockedAwaitable (ExclusiveAwaitable 0 16 None [ReqLock 5 16 0]))) =
       returns (h', Owned (Locked 16), False) \<and> rc_result (cells h' 0) = Some (Ok False)"
proof -
  let ?st = "Owned (LockedAwaitable (ExclusiveAwaitable 0 16 None []))"
  let ?h = "take_waker_and_wake 0 (set_wake_up_others 16 (set_result 0 (Ok False) idle_heap))"
  have flow: "try_lock_body 16 (Some 9) (idle_heap, ?st) = returns ((idle_heap, ?st), Return (Ok (Some False)))"
    by (simp add: try_lock_body_def demo_prepare exclusive_flow_def try_lock_exclusive_awaitable_def
        exclusive_awaitable_access_defails_def grant_write_access_def retry_flow_def)
  have req: "try_request (ReqLock 5 16 0) (Some 9) (idle_heap, ?st) = returns ((idle_heap, ?st), Ok (Some False))"
    unfolding try_request_def try_lock_def prod.case request.case by (subst rust_loop.simps) (simp add: flow)
  have idle: "\<not> rc_poisoned (cells idle_heap 0)" "rc_result (cells idle_heap 0) = None" by (simp_all add: idle_heap_def)
  have cell: "\<not> rc_poisoned (cells ?h 0)" "rc_result (cells ?h 0) = Some (Ok False)"
    by (simp_all add: take_waker_and_wake_def set_result_def upd_cell_def idle_heap_def)
  have b1: "process_wait_queue_body 9 (idle_heap, ?st, [ReqLock 5 16 0]) = returns ((?h, ?st, [ReqLock 5 16 0]), Again)"
    by (simp add: process_wait_queue_body_def clone_oldest_def Let_def req idle)
  have b2: "process_wait_queue_body 9 (?h, ?st, [ReqLock 5 16 0]) = returns ((?h, ?st, []), Again)"
    using cell by (simp add: process_wait_queue_body_def clone_oldest_def remove_oldest_def Let_def)
  have b3: "process_wait_queue_body 9 (?h, ?st, []) = returns ((?h, ?st, []), Return ())"
    by (simp add: process_wait_queue_body_def clone_oldest_def)
  have "process_wait_queue 9 idle_heap ?st [ReqLock 5 16 0] = returns (?h, ?st, None)"
    unfolding process_wait_queue_def
    by (subst rust_loop.simps, simp only: b1, simp, subst rust_loop.simps, simp only: b2, simp, subst rust_loop.simps, simp only: b3, simp)
  then have "transfer_ownership 9 idle_heap (Owned (LockedAwaitable (ExclusiveAwaitable 0 16 None [ReqLock 5 16 0]))) =
      returns (?h, Owned (Locked 16), False)"
    by (simp add: transfer_ownership_def demo_prepare take_wait_queue_def post_process_object_state_def inherit_def)
  with cell(2) show ?thesis by blast
qed

theorem positive_answer_owns_witness:
  "\<exists>h' tbl' own. transfer_ownership_sync fun_map 9 3 (idle_heap,
       [3 \<mapsto> Owned (LockedAwaitable (ExclusiveAwaitable 0 16 None [ReqLock 5 16 0]))]) = returns ((h', tbl'), False) \<and>
     tbl' 3 = Some (Owned own) \<and> \<not> is_shared own"
proof -
  let ?st = "Owned (LockedAwaitable (ExclusiveAwaitable 0 16 None [ReqLock 5 16 0]))"
  obtain h' where "transfer_ownership 9 idle_heap ?st = returns (h', Owned (Locked 16), False)"
    and answer: "rc_result (cells h' 0) = Some (Ok False)" using demo_transfer by blast
  then have ret: "transfer_ownership_sync fun_map 9 3 (idle_heap, [3 \<mapsto> ?st]) = returns ((h', [3 \<mapsto> Owned (Locked 16)]), False)"
    by (simp add: transfer_ownership_sync_def fun_map_def)
  have inv: "ac_inv fun_map ({16}, idle_heap, [3 \<mapsto> ?st])"
    by (auto simp: ac_inv_def entry_inv_def fun_map_def split: if_splits)
  have "\<exists>own. m_get fun_map 3 [3 \<mapsto> Owned (Locked 16)] = Some (Owned own) \<and> \<not> is_shared own"
    using positive_answer_owns [OF fun_map_laws inv _ _ _ _ _ ret, of ?st "ReqLock 5 16 0" False] answer
    by (auto simp: fun_map_def idle_heap_def)
  with ret show ?thesis by (auto simp: fun_map_def)
qed

end
