(* ===== verification/Access_Awaits.thy ===== *)
theory Access_Awaits
  imports Access_Grants
begin

text \<open>
  Result cells in runs of the access controller (\<^verbatim>\<open>src/src/access_controller.rs\<close>): a journal that waits
  for an object finds a positive answer only when it holds the object, however long it waits and
  whatever the others do meanwhile.
\<close>

section \<open>Definitions\<close>

definition bounded_cells :: "'t object_map \<Rightarrow> 'b heap \<times> 't \<Rightarrow> bool" where
  "bounded_cells T = (\<lambda>(h, tbl). \<forall>k st r. m_get T k tbl = Some st \<longrightarrow> r \<in> set (state_queue st) \<longrightarrow>
     request_cell r < next_cell h)"

text \<open>Journal \<open>j\<close> waits for object \<open>i\<close> with cell \<open>c\<close>.\<close>

definition awaits ::
  "'t object_map \<Rightarrow> object_id \<Rightarrow> journal_id \<Rightarrow> nat \<Rightarrow> journal_id set \<times> 'b heap \<times> 't \<Rightarrow> bool" where
  "awaits T i j c = (\<lambda>(A, h, tbl). c < next_cell h \<and>
     (\<forall>k st r. m_get T k tbl = Some st \<longrightarrow> r \<in> set (state_queue st) \<longrightarrow> request_cell r = c \<longrightarrow>
        k = i \<and> request_owner r = j \<and> asks_exclusive r) \<and>
     (\<forall>b. rc_result (cells h c) = Some (Ok b) \<longrightarrow> holds_at T i (ja_transaction (jas h j)) True (A, h, tbl)))"

text \<open>
  What others do while a journal waits: operations of the access controller, and what transactions do
  to their anchors; no other code gives a positive answer.
\<close>

inductive env_step ::
  "'t object_map \<Rightarrow> journal_id set \<times> 'b heap \<times> 't \<Rightarrow> journal_id set \<times> 'b heap \<times> 't \<Rightarrow> bool" for T where
  env_operates: "ac_op T A i (h, tbl) (h', tbl') \<Longrightarrow> env_step T (A, h, tbl) (A, h', tbl')"
| env_others: "rely A h h' \<Longrightarrow> quiet h h' \<Longrightarrow> next_cell h \<le> next_cell h' \<Longrightarrow> A \<subseteq> A' \<Longrightarrow>
    env_step T (A, h, tbl) (A', h', tbl)"

lemma env_ac_step: "env_step T s s' \<Longrightarrow> ac_step T s s'"
  by (auto elim!: env_step.cases intro: ac_step.intros)

section \<open>What an operation does to the cells\<close>

text \<open>
  Requests are only added with new cells, and a positive answer comes from the hand-over, to a request
  that holds the object.
\<close>

definition op_cells ::
  "'t object_map \<Rightarrow> journal_id set \<Rightarrow> object_id \<Rightarrow> 'b heap \<times> 't \<Rightarrow> 'b heap \<times> 't \<Rightarrow> nat \<Rightarrow> bool" where
  "op_cells T A i = (\<lambda>(h, tbl) (h', tbl') c.
     next_cell h \<le> next_cell h' \<and> (\<forall>k. k \<noteq> i \<longrightarrow> m_get T k tbl' = m_get T k tbl) \<and>
     (\<forall>st' r. m_get T i tbl' = Some st' \<longrightarrow> r \<in> set (state_queue st') \<longrightarrow>
        (\<exists>st. m_get T i tbl = Some st \<and> r \<in> set (state_queue st)) \<or>
        next_cell h \<le> request_cell r \<and> request_cell r < next_cell h') \<and>
     (\<forall>b. rc_result (cells h' c) = Some (Ok b) \<longrightarrow>
        rc_result (cells h c) = Some (Ok b) \<or>
        (\<exists>st st' r. m_get T i tbl = Some st \<and> r \<in> set (state_queue st) \<and> request_cell r = c \<and> m_get T i tbl' = Some st' \<and>
           held_in A h (ja_transaction (jas h (request_owner r))) (asks_exclusive r) st')))"

lemma op_cells_put:
  assumes T: "scc_map_laws T" and "next_cell h \<le> next_cell h'" "quiet h h'"
    and "\<And>r. r \<in> set (state_queue st') \<Longrightarrow> (\<exists>st. m_get T i tbl = Some st \<and> r \<in> set (state_queue st)) \<or>
      next_cell h \<le> request_cell r \<and> request_cell r < next_cell h'"
  shows "op_cells T A i (h, tbl) (h', m_put T i st' tbl) c"
proof -
  have get: "m_get T k (m_put T i st' tbl) = (if k = i then Some st' else m_get T k tbl)" for k
    using T by (simp add: scc_map_laws_def)
  from assms(2-) show ?thesis unfolding op_cells_def prod.case get quiet_def by auto
qed

lemma acquire_cells:
  assumes T: "scc_map_laws T" and inv: "ac_inv T (A, h, tbl)" and "mk = ReqCreate \<or> mk = ReqProtect \<or> mk = ReqLock \<or> mk = ReqDelete"
    and attempt: "\<And>st h' st' r. wf_state h st \<Longrightarrow> attempt h st j deadline = returns ((h', st'), r) \<Longrightarrow> attempted h j st h' st'"
    and own: "queue_of (own j) = []"
    and ret: "acquire attempt own only mk T i j deadline now (h, tbl) = returns ((h', tbl'), a)"
  shows "op_cells T A i (h, tbl) (h', tbl') c"
proof (cases "m_get T i tbl")
  case None
  with ret own show ?thesis using op_cells_put [OF T, of h h "Owned (own j)"] by (auto simp: acquire_def)
next
  case (Some st)
  have mk: "request_cell (mk now j x) = x" for x using assms(3) by auto
  obtain h1 st1 r st2 where r: "attempt h st j deadline = returns ((h1, st1), r)" and tbl': "tbl' = m_put T i st2 tbl"
    and eff: "h' = h1 \<and> st2 = st1 \<or> (\<exists>c. enqueue only (mk now j) st1 h1 = Some (h', st2, c))"
    using acquire_cases [OF ret Some] by metis
  have at: "quiet h h1" "next_cell h1 = next_cell h" "set (state_queue st1) \<subseteq> set (state_queue st)"
    using attempt [OF _ r] ac_inv_entry [OF inv Some] by (auto simp: attempted_def changed_def)
  from eff have "next_cell h1 \<le> next_cell h' \<and> quiet h1 h' \<and>
      (\<forall>r \<in> set (state_queue st2). r \<in> set (state_queue st1) \<or> request_cell r = next_cell h1 \<and> next_cell h1 < next_cell h')"
    using enqueue_cell [of only "mk now j" st1 h1] mk by (fastforce simp: quiet_def split: if_splits)
  with at Some quiet_trans [OF at(1)] show ?thesis unfolding tbl' by (intro op_cells_put [OF T]) auto
qed

lemma transfer_cells:
  assumes T: "scc_map_laws T" and inv: "ac_inv T (A, h, tbl)"
    and run: "\<And>st r. m_get T i tbl = Some st \<Longrightarrow> r \<in> set (state_queue st) \<Longrightarrow> request_cell r = c \<Longrightarrow>
      running A h (ja_transaction (jas h (request_owner r)))"
    and ret: "transfer_ownership_sync T now i (h, tbl) = returns ((h', tbl'), waiting)"
  shows "op_cells T A i (h, tbl) (h', tbl') c"
proof (cases "m_get T i tbl")
  case None
  with ret show ?thesis by (auto simp: transfer_ownership_sync_def op_cells_def)
next
  case (Some st)
  have st: "rollback_complete h" "wf_state h st" "state_owners st \<subseteq> A" "request_owner ` set (state_queue st) \<subseteq> A"
    using inv Some by (auto simp: ac_inv_def entry_inv_def)
  obtain st' where tr: "transfer_ownership now h st = returns (h', st', waiting)" and tbl': "tbl' = m_put T i st' tbl"
    using ret Some by (auto simp: transfer_ownership_sync_def)
  have "\<not> stuck_state h st" using tr stuck_loops(5) by force
  from transfer_ok [OF st(1,2) this, of now] tr have q: "set (state_queue st') \<subseteq> set (state_queue st)"
    using set_drop_subset by fastforce
  have h: "honest A h (state_queue st) c h' st'" "next_cell h' = next_cell h"
    using honest_transfer [OF st run [OF Some] tr] by simp_all
  have get: "m_get T k tbl' = (if k = i then Some st' else m_get T k tbl)" for k
    using T tbl' by (simp add: scc_map_laws_def)
  from h q Some show ?thesis unfolding op_cells_def prod.case get honest_def by auto
qed

lemma remove_cells:
  assumes T: "scc_map_laws T" and inv: "ac_inv T (A, h, tbl)"
    and ret: "try_remove_access_data_sync T condition i (h, tbl) = Done ((h', tbl'), removed, notified)"
  shows "op_cells T A i (h, tbl) (h', tbl') c"
proof (cases "m_get T i tbl")
  case None
  with ret show ?thesis by (auto simp: try_remove_access_data_sync_def op_cells_def)
next
  case (Some st)
  obtain h1 st1 where rc: "remove_condition condition h st = Done (h1, st1, removed, notified)"
    using ret Some by (auto simp: try_remove_access_data_sync_def split: outcome.splits if_splits)
  have wf: "wf_state h st" using ac_inv_entry [OF inv Some] by blast
  have h1: "h1 = h" "set (state_queue st1) \<subseteq> set (state_queue st)" using remove_condition_keeps [OF wf rc] by blast+
  have get: "m_get T k (m_remove T i tbl) = (if k = i then None else m_get T k tbl)" for k
    using T by (simp add: scc_map_laws_def)
  show ?thesis
  proof (cases removed)
    case True
    have "op_cells T A i (h, tbl) (drop_object_state st1 h, m_remove T i tbl) c"
      using drop_quiet(3) [of h st1] drop_quiet(4) [of st1 h] unfolding op_cells_def prod.case get quiet_def by auto
    with True ret Some rc h1 show ?thesis by (simp add: try_remove_access_data_sync_def)
  next
    case False
    have "op_cells T A i (h, tbl) (h, m_put T i st1 tbl) c" using h1(2) Some by (intro op_cells_put [OF T]) auto
    with False ret Some rc h1 show ?thesis by (simp add: try_remove_access_data_sync_def)
  qed
qed

lemma ac_op_cells:
  assumes T: "scc_map_laws T" and inv: "ac_inv T (A, h, tbl)"
    and run: "\<And>st r. m_get T i tbl = Some st \<Longrightarrow> r \<in> set (state_queue st) \<Longrightarrow> request_cell r = c \<Longrightarrow>
      running A h (ja_transaction (jas h (request_owner r)))"
    and op: "ac_op T A i (h, tbl) (h', tbl')"
  shows "op_cells T A i (h, tbl) (h', tbl') c"
  using op
proof cases
  case (creates j deadline now a)
  show ?thesis
    by (rule acquire_cells [OF T inv _ _ _ creates(2) [unfolded requests_acquire]]) (simp_all add: try_create_changed)
next
  case (shares j deadline now a)
  show ?thesis
    by (rule acquire_cells [OF T inv _ _ _ shares(2) [unfolded requests_acquire]]) (simp_all add: loops_changed)
next
  case (locks j deadline now a)
  show ?thesis
    by (rule acquire_cells [OF T inv _ _ _ locks(2) [unfolded requests_acquire]]) (simp_all add: loops_changed)
next
  case (deletes j deadline now a)
  show ?thesis
    by (rule acquire_cells [OF T inv _ _ _ deletes(2) [unfolded requests_acquire]]) (simp_all add: loops_changed)
next
  case (transfers now waiting)
  show ?thesis by (rule transfer_cells [OF T inv _ transfers]) (rule run)
next
  case (removes condition removed notified)
  then show ?thesis using remove_cells [OF T inv] by blast
qed

section \<open>Waiting in a run\<close>

lemma op_awaits:
  assumes T: "scc_map_laws T" and inv: "ac_inv T (A, h, tbl)" and op: "ac_op T A k (h, tbl) (h', tbl')"
    and aw: "awaits T i j c (A, h, tbl)" and run: "running A h (ja_transaction (jas h j))"
  shows "awaits T i j c (A, h', tbl')"
proof -
  let ?t = "ja_transaction (jas h j)"
  have queue: "l = i \<and> request_owner r = j \<and> asks_exclusive r"
    if "m_get T l tbl = Some st" "r \<in> set (state_queue st)" "request_cell r = c" for l st r
    using aw that by (simp add: awaits_def)
  have keeps: "step_keeps T A h tbl h' tbl'" by (rule ac_op_keeps [OF T inv op])
  then have so: "same_owners h h'" by (simp add: step_keeps_def)
  have cells: "op_cells T A k (h, tbl) (h', tbl') c" by (rule ac_op_cells [OF T inv _ op]) (use queue run in blast)
  have held: "holds_at T i ?t True (A, h, tbl')" if "rc_result (cells h' c) = Some (Ok b)" for b
  proof (cases "rc_result (cells h c) = Some (Ok b)")
    case True
    with aw obtain st where "m_get T i tbl = Some st" "held_in A h ?t True st" by (auto simp: awaits_def holds_at_def)
    with keeps run show ?thesis unfolding step_keeps_def holds_at_def prod.case by blast
  next
    case False
    with cells that obtain st st' r where r: "m_get T k tbl = Some st" "r \<in> set (state_queue st)" "request_cell r = c"
      and st': "m_get T k tbl' = Some st'" "held_in A h (ja_transaction (jas h (request_owner r))) (asks_exclusive r) st'"
      unfolding op_cells_def prod.case by blast
    with queue [OF r] show ?thesis by (auto simp: holds_at_def)
  qed
  have c: "c < next_cell h" using aw by (simp add: awaits_def)
  have "l = i \<and> request_owner r = j \<and> asks_exclusive r"
    if "m_get T l tbl' = Some st" "r \<in> set (state_queue st)" "request_cell r = c" for l st r
  proof -
    have "\<exists>st0. m_get T l tbl = Some st0 \<and> r \<in> set (state_queue st0)"
      using that cells c unfolding op_cells_def prod.case by (cases "l = k") auto
    with queue that(3) show ?thesis by blast
  qed
  moreover have "c < next_cell h'" using cells c by (auto simp: op_cells_def)
  ultimately show ?thesis using held so same_owners_fields(1) [OF so, of j]
    unfolding awaits_def prod.case by (auto simp: holds_at_def held_in_def same_owners_fields [OF so])
qed

lemma op_bounded:
  assumes "scc_map_laws T" "ac_inv T (A, h, tbl)" "ac_op T A k (h, tbl) (h', tbl')" "bounded_cells T (h, tbl)"
  shows "bounded_cells T (h', tbl')"
proof -
  have b: "request_cell r < next_cell h" if "m_get T l tbl = Some st" "r \<in> set (state_queue st)" for l st r
    using assms(4) that by (simp add: bounded_cells_def)
  have cells: "op_cells T A k (h, tbl) (h', tbl') (next_cell h)"
    by (rule ac_op_cells [OF assms(1,2) _ assms(3)]) (use b in fastforce)
  show ?thesis unfolding bounded_cells_def prod.case
  proof (intro allI impI)
    fix l st r assume "m_get T l tbl' = Some st" "r \<in> set (state_queue st)"
    with cells b [of l] b [of k] show "request_cell r < next_cell h'"
      unfolding op_cells_def prod.case by (cases "l = k") (fastforce dest: less_le_trans)+
  qed
qed

lemma env_step_inv:
  assumes T: "scc_map_laws T" and step: "env_step T (A, h, tbl) (A', h', tbl')" and inv: "ac_inv T (A, h, tbl)"
    and bounded: "bounded_cells T (h, tbl)" and run: "running A' h' t"
  shows "ac_inv T (A', h', tbl') \<and> bounded_cells T (h', tbl') \<and> A \<subseteq> A' \<and> running A h t \<and>
    (\<forall>j \<in> A. ja_transaction (jas h' j) = ja_transaction (jas h j)) \<and>
    (\<forall>i x. holds_at T i t x (A, h, tbl) \<longrightarrow> holds_at T i t x (A', h', tbl'))"
proof -
  note step' = env_ac_step [OF step]
  have "running_at t (A', h', tbl')" using run by (simp add: running_at_def)
  note holds = ac_step_holds [OF T inv step' this]
  have b: "bounded_cells T (h', tbl')"
    using step
  proof cases
    case (env_operates i)
    then show ?thesis using op_bounded [OF T inv _ bounded] by simp
  next
    case env_others
    with bounded show ?thesis by (auto simp: bounded_cells_def intro: less_le_trans)
  qed
  have "A \<subseteq> A' \<and> (\<forall>j \<in> A. ja_transaction (jas h' j) = ja_transaction (jas h j))"
    using ac_step_keeps [OF T inv step'] by (auto simp: step_keeps_def rely_def same_owners_fields)
  with b holds ac_step_inv [OF T inv step'] show ?thesis by (auto simp: running_at_def)
qed

lemma env_step_awaits:
  assumes T: "scc_map_laws T" and step: "env_step T (A, h, tbl) (A', h', tbl')" and inv: "ac_inv T (A, h, tbl)"
    and bounded: "bounded_cells T (h, tbl)" and aw: "awaits T i j c (A, h, tbl)" and j: "j \<in> A"
    and run: "running A' h' (ja_transaction (jas h j))"
  shows "awaits T i j c (A', h', tbl')"
proof -
  note facts = env_step_inv [OF T step inv bounded run]
  from step show ?thesis
  proof cases
    case (env_operates k)
    with op_awaits [OF T inv _ aw] facts show ?thesis by blast
  next
    case env_others
    have "holds_at T i (ja_transaction (jas h j)) True (A', h', tbl)" if "rc_result (cells h' c) = Some (Ok b)" for b
      using env_others(1) facts aw that env_others(3) by (auto simp: awaits_def quiet_def)
    with env_others aw facts j show ?thesis by (auto simp: awaits_def)
  qed
qed

text \<open>However long a journal of a transaction that is still running at the end has waited.\<close>

lemma env_run_awaits:
  assumes T: "scc_map_laws T" and "(env_step T)\<^sup>*\<^sup>* s (A', h', tbl')"
    and "ac_inv T s" "bounded_cells T (snd s)" "j \<in> fst s" "ja_transaction (jas (fst (snd s)) j) = t" "running A' h' t"
  shows "ac_inv T (A', h', tbl') \<and> bounded_cells T (h', tbl') \<and> j \<in> A' \<and> ja_transaction (jas h' j) = t \<and> running_at t s \<and>
    (\<forall>i x. holds_at T i t x s \<longrightarrow> holds_at T i t x (A', h', tbl')) \<and>
    (\<forall>i c. awaits T i j c s \<longrightarrow> awaits T i j c (A', h', tbl'))"
  using assms(2-6)
proof (induction rule: converse_rtranclp_induct)
  case base
  with assms(7) show ?case by (simp add: running_at_def)
next
  case (step s s1)
  obtain A h tbl A1 h1 tbl1 where s: "s = (A, h, tbl)" "s1 = (A1, h1, tbl1)" by (cases s; cases s1)
  have st: "env_step T (A, h, tbl) (A1, h1, tbl1)" and inv: "ac_inv T (A, h, tbl)" "bounded_cells T (h, tbl)"
    and j: "j \<in> A" "ja_transaction (jas h j) = t" using step s by simp_all
  have run1: "running A1 h1 t"
  proof -
    have "(ac_step T)\<^sup>*\<^sup>* s1 (A', h', tbl')"
      using step.hyps(2) by (rule mono_rtranclp [rule_format, rotated]) (rule env_ac_step)
    from ac_run_running [OF T this ac_step_inv [OF T step.prems(1) env_ac_step [OF step.hyps(1)]], of t] assms(7)
    show ?thesis by (simp add: running_at_def s)
  qed
  note f = env_step_inv [OF T st inv run1]
  have "awaits T i j c s1" if "awaits T i j c s" for i c
    using env_step_awaits [OF T st inv _ j(1), of i c] that run1 j(2) s by simp
  with step.IH f j s show ?case by (auto simp: running_at_def)
qed

end
