(* ===== verification/Persistence.thy ===== *)
theory Persistence
  imports Anchors
begin

text \<open>
  The interface between the transaction system and a persistence layer
  (\<^verbatim>\<open>src/src/persistence_layer.rs\<close>): the operations of the trait as a record of functions on the
  state of the layer, and the future that awaits an I/O completion. \<open>File_Io\<close> is the
  implementation the library comes with.
\<close>

section \<open>Definitions\<close>

text \<open>
  A log buffer is shared between a journal or transaction and the layer; it is known by its
  address in the state of the layer. \<open>pl_new_buffer\<close> is \<^verbatim>\<open>Arc::default()\<close>.
\<close>

type_synonym log_buffer_id = nat

record 'p persistence_layer =
  pl_wait_prepare_logging :: bool
  pl_new_buffer :: "'p \<Rightarrow> 'p \<times> log_buffer_id"
  pl_participate :: "transaction_id \<Rightarrow> u8 list \<Rightarrow> 'p \<Rightarrow> ('p \<times> log_buffer_id) outcome"
  pl_create :: "log_buffer_id \<Rightarrow> transaction_id \<Rightarrow> journal_id \<Rightarrow> object_id list \<Rightarrow> 'p \<Rightarrow>
    ('p \<times> log_buffer_id result) outcome"
  pl_delete :: "log_buffer_id \<Rightarrow> transaction_id \<Rightarrow> journal_id \<Rightarrow> object_id list \<Rightarrow> 'p \<Rightarrow>
    ('p \<times> log_buffer_id result) outcome"
  pl_submit :: "log_buffer_id \<Rightarrow> transaction_id \<Rightarrow> journal_id \<Rightarrow> u32 option \<Rightarrow> 'p \<Rightarrow> 'p outcome"
  pl_discard :: "log_buffer_id \<Rightarrow> transaction_id \<Rightarrow> journal_id \<Rightarrow> 'p \<Rightarrow> 'p outcome"
  pl_rewind :: "log_buffer_id \<Rightarrow> transaction_id \<Rightarrow> u32 option \<Rightarrow> 'p \<Rightarrow> 'p outcome"
  pl_prepare :: "log_buffer_id \<Rightarrow> transaction_id \<Rightarrow> u64 \<Rightarrow> 'p \<Rightarrow> 'p outcome"
  pl_commit :: "log_buffer_id \<Rightarrow> transaction_id \<Rightarrow> u64 \<Rightarrow> 'p \<Rightarrow> 'p outcome"
  pl_current_flush_epoch :: "'p \<Rightarrow> u64 option"
  pl_check_io_completion :: "u64 option \<Rightarrow> waker \<Rightarrow> 'p \<Rightarrow> 'p \<times> bool"
  pl_get_durable_flush_epoch :: "log_buffer_id \<Rightarrow> 'p \<Rightarrow> u64 option"

record await_io =
  io_log_buffer :: log_buffer_id
  io_deadline :: "time option"

text \<open>
  \<^verbatim>\<open>AwaitIO::poll\<close> at the wall-clock instant \<open>now\<close>; \<open>reread\<close> is the epoch the second look at the
  buffer finds, which the I/O thread may have set in the meantime.
\<close>

definition await_io_poll ::
  "'p persistence_layer \<Rightarrow> time \<Rightarrow> waker \<Rightarrow> u64 option \<Rightarrow> await_io \<Rightarrow> 'p \<times> 'b heap \<Rightarrow>
     ('p \<times> 'b heap) \<times> unit result poll" where
  "await_io_poll P now w reread io = (\<lambda>(p, h).
     let flush_epoch = pl_get_durable_flush_epoch P (io_log_buffer io) p in
     case pl_check_io_completion P flush_epoch w p of
       (p, completed) \<Rightarrow>
         if completed then ((p, h), Ready (Ok ()))
         else if (case io_deadline io of None \<Rightarrow> False | Some d \<Rightarrow> d < now) then ((p, h), Ready (Err Timeout))
         else ((p, if flush_epoch \<noteq> reread then wake w h else h), Pending))"

section \<open>Lemmas\<close>

lemma await_io_poll_ok:
  "await_io_poll P now w reread io (p, h) = ((p', h'), Ready (Ok ())) \<longleftrightarrow>
     pl_check_io_completion P (pl_get_durable_flush_epoch P (io_log_buffer io) p) w p = (p', True) \<and> h' = h"
  by (auto simp: await_io_poll_def Let_def split: prod.splits if_splits)

section \<open>The interface\<close>

text \<open>
  What transactions and journals rely on. \<open>inv p W E\<close>: the layer is in the state \<open>p\<close>, its clients
  hold the buffers \<open>W\<close> of journals and the empty buffers \<open>E\<close>. An operation is given a buffer its
  caller holds, end-of-transaction operations an empty one; then it does not panic, and the
  caller no longer holds the buffers that were passed on to be written to disk.
\<close>

locale log_layer =
  fixes P :: "'p persistence_layer"
    and inv :: "'p \<Rightarrow> log_buffer_id set \<Rightarrow> log_buffer_id set \<Rightarrow> bool"
  assumes new_law: "inv p W E \<Longrightarrow> pl_new_buffer P p = (p', a) \<Longrightarrow> inv p' W (insert a E) \<and> a \<notin> W \<union> E"
    and journal_law: "inv p W E \<Longrightarrow> a \<in> E \<Longrightarrow> inv p (insert a W) (E - {a})"
    and create_law: "inv p W E \<Longrightarrow> a \<in> W \<Longrightarrow>
      \<exists>p' a'. pl_create P a t j ids p = Done (p', Ok a') \<and> inv p' (insert a' (W - {a})) E"
    and delete_law: "inv p W E \<Longrightarrow> a \<in> W \<Longrightarrow>
      \<exists>p' a'. pl_delete P a t j ids p = Done (p', Ok a') \<and> inv p' (insert a' (W - {a})) E"
    and submit_law: "inv p W E \<Longrightarrow> a \<in> W \<Longrightarrow> \<exists>p'. pl_submit P a t j i p = Done p' \<and> inv p' (W - {a}) E"
    and discard_law: "inv p W E \<Longrightarrow> a \<in> W \<Longrightarrow> \<exists>p'. pl_discard P a t j p = Done p' \<and> inv p' (W - {a}) E"
    and rewind_law: "inv p W E \<Longrightarrow> a \<in> E \<Longrightarrow> \<exists>p'. pl_rewind P a t i p = Done p' \<and> inv p' W (E - {a})"
    and prepare_law: "inv p W E \<Longrightarrow> a \<in> E \<Longrightarrow> \<exists>p'. pl_prepare P a t c p = Done p' \<and> inv p' W (E - {a})"
    and commit_law: "inv p W E \<Longrightarrow> a \<in> E \<Longrightarrow> \<exists>p'. pl_commit P a t c p = Done p' \<and> inv p' W (E - {a})"
    and check_law: "inv p W E \<Longrightarrow> pl_check_io_completion P e w p = (p', r) \<Longrightarrow> inv p' W E"

end
