(* ===== verification/Transaction.thy ===== *)
theory Transaction
  imports Persistence Access
begin

text \<open>
  Transactions and journals (\<^verbatim>\<open>src/src/transaction.rs\<close>, \<^verbatim>\<open>src/src/journal.rs\<close>): the strand of
  submitted journals, rewinding, the two phases of a commit and rolling back. The database a
  transaction refers to is passed explicitly: its sequencer, the heap of anchors with the task
  channel, and the state of its persistence layer.
\<close>

section \<open>Definitions\<close>

record ('q, 'b, 'p) db =
  db_sequencer :: "'q monotonic_u64"
  db_heap :: "'b heap"
  db_layer :: "'p"

record transaction =
  tx_durable_flush_epoch :: u64
  tx_eot_log_buffer :: "log_buffer_id option"
  tx_journal_strand :: "journal_id option"
  tx_xid :: "u8 list option"
  tx_id :: transaction_id

record journal =
  jn_log_buffer :: "log_buffer_id option"
  jn_id :: journal_id

definition MAX_TRANSACTION_INSTANT :: u32 where
  "MAX_TRANSACTION_INSTANT = 0xFFFFFFFE"

text \<open>\<^verbatim>\<open>Arc::default()\<close> for a log buffer.\<close>

definition new_buffer :: "'p persistence_layer \<Rightarrow> ('q, 'b, 'p) db \<Rightarrow> ('q, 'b, 'p) db \<times> log_buffer_id" where
  "new_buffer P db = (case pl_new_buffer P (db_layer db) of (p, a) \<Rightarrow> (db\<lparr>db_layer := p\<rparr>, a))"

text \<open>A transaction whose anchor is allocated at \<open>addr\<close>.\<close>

definition transaction_new ::
  "'b scc_bag \<Rightarrow> 'p persistence_layer \<Rightarrow> transaction_id \<Rightarrow> ('q, 'b, 'p) db \<Rightarrow> ('q, 'b, 'p) db \<times> transaction" where
  "transaction_new B P addr db =
     (case new_buffer P db of (db, a) \<Rightarrow>
       (db\<lparr>db_heap := upd_ta addr (\<lambda>_. tx_anchor_new B) (db_heap db)\<rparr>,
        \<lparr>tx_durable_flush_epoch = 0, tx_eot_log_buffer = Some a, tx_journal_strand = None,
         tx_xid = None, tx_id = addr\<rparr>))"

definition tx_now :: "'b heap \<Rightarrow> transaction \<Rightarrow> u32 option" where
  "tx_now h tx =
     (case tx_journal_strand tx of
        None \<Rightarrow> None
      | Some j \<Rightarrow> map_option (\<lambda>i. min i MAX_TRANSACTION_INSTANT) (submit_instant (jas h j)))"

definition tx_snapshot :: "nat \<Rightarrow> 'b heap \<Rightarrow> transaction \<Rightarrow> snapshot" where
  "tx_snapshot tp h tx = from_transaction tp \<lparr>ts_id = tx_id tx, ts_instant = tx_now h tx\<rparr>"

subsection \<open>Journals\<close>

text \<open>A journal whose anchor is allocated at \<open>addr\<close>.\<close>

definition journal_new ::
  "journal_id \<Rightarrow> transaction \<Rightarrow> ('q, 'b, 'p) db \<Rightarrow> ('q, 'b, 'p) db \<times> journal" where
  "journal_new addr tx db =
     (db\<lparr>db_heap := upd_ja addr (\<lambda>_. anchor_new (tx_id tx) (tx_now (db_heap db) tx)) (db_heap db)\<rparr>,
      \<lparr>jn_log_buffer = None, jn_id = addr\<rparr>)"

definition jn_snapshot :: "nat \<Rightarrow> journal \<Rightarrow> snapshot" where
  "jn_snapshot tp jn = from_journal tp \<lparr>js_id = jn_id jn\<rparr>"

text \<open>
  \<^verbatim>\<open>Journal::create\<close> and \<^verbatim>\<open>Journal::delete\<close> as futures: the identifiers still to be acquired and
  the response awaited, if any. \<open>acquire\<close> is the operation of the access controller, \<open>log\<close> the one
  of the persistence layer; \<open>contended\<close> is for \<^verbatim>\<open>AwaitResponse::poll\<close>.
\<close>

record ('q, 'b, 'p, 't) journal_op =
  op_db :: "('q, 'b, 'p) db"
  op_table :: "'t"
  op_journal :: journal
  op_pending :: "object_id list"
  op_awaiting :: "await_response option"

definition log_acquired ::
  "'p persistence_layer \<Rightarrow>
     (log_buffer_id \<Rightarrow> transaction_id \<Rightarrow> journal_id \<Rightarrow> object_id list \<Rightarrow> 'p \<Rightarrow> ('p \<times> log_buffer_id result) outcome) \<Rightarrow>
     transaction \<Rightarrow> object_id list \<Rightarrow> ('q, 'b, 'p, 't) journal_op \<Rightarrow>
     (('q, 'b, 'p, 't) journal_op \<times> unit result poll flow) run" where
  "log_acquired P log tx object_ids s =
     (let (db, a) = (case jn_log_buffer (op_journal s) of
                       Some a \<Rightarrow> (op_db s, a) | None \<Rightarrow> new_buffer P (op_db s));
          s = s\<lparr>op_journal := (op_journal s)\<lparr>jn_log_buffer := None\<rparr>\<rparr>
      in case log a (tx_id tx) (jn_id (op_journal s)) object_ids (db_layer db) of
           Panic \<Rightarrow> panics
         | Done (p, Inl e) \<Rightarrow> returns (s\<lparr>op_db := db\<lparr>db_layer := p\<rparr>\<rparr>, Return (Ready (Err e)))
         | Done (p, Inr a) \<Rightarrow>
             returns (s\<lparr>op_db := db\<lparr>db_layer := p\<rparr>,
                        op_journal := (op_journal s)\<lparr>jn_log_buffer := Some a\<rparr>\<rparr>, Return (Ready (Ok ()))))"

definition journal_op_body ::
  "'p persistence_layer \<Rightarrow>
     (object_id \<Rightarrow> journal_id \<Rightarrow> time option \<Rightarrow> time \<Rightarrow> 'b heap \<times> 't \<Rightarrow> (('b heap \<times> 't) \<times> acquisition) run) \<Rightarrow>
     (log_buffer_id \<Rightarrow> transaction_id \<Rightarrow> journal_id \<Rightarrow> object_id list \<Rightarrow> 'p \<Rightarrow> ('p \<times> log_buffer_id result) outcome) \<Rightarrow>
     transaction \<Rightarrow> object_id list \<Rightarrow> time option \<Rightarrow> time \<Rightarrow> waker \<Rightarrow> bool \<Rightarrow>
     ('q, 'b, 'p, 't) journal_op \<Rightarrow> (('q, 'b, 'p, 't) journal_op \<times> unit result poll flow) run" where
  "journal_op_body P acquire log tx object_ids deadline now w contended s =
     (case op_awaiting s of
        Some a \<Rightarrow>
          (case await_response_poll contended now w a (db_heap (op_db s)) of
             (h, a, p) \<Rightarrow>
               let s = s\<lparr>op_db := (op_db s)\<lparr>db_heap := h\<rparr>\<rparr> in
               (case p of
                  Pending \<Rightarrow> returns (s\<lparr>op_awaiting := Some a\<rparr>, Return Pending)
                | Ready (Inl e) \<Rightarrow> returns (s\<lparr>op_awaiting := None\<rparr>, Return (Ready (Err e)))
                | Ready (Inr _) \<Rightarrow> returns (s\<lparr>op_awaiting := None, op_pending := tl (op_pending s)\<rparr>, Again)))
      | None \<Rightarrow>
          (case op_pending s of
             [] \<Rightarrow> log_acquired P log tx object_ids s
           | oid # rest \<Rightarrow>
               bind_run (acquire oid (jn_id (op_journal s)) deadline now (db_heap (op_db s), op_table s))
                 (\<lambda>((h, tbl), r).
                    let s = s\<lparr>op_db := (op_db s)\<lparr>db_heap := h\<rparr>, op_table := tbl\<rparr> in
                    case r of
                      Await a \<Rightarrow> returns (s\<lparr>op_awaiting := Some a\<rparr>, Again)
                    | Answer (Inl e) \<Rightarrow> returns (s, Return (Ready (Err e)))
                    | Answer (Inr _) \<Rightarrow> returns (s\<lparr>op_pending := rest\<rparr>, Again))))"

definition journal_create ::
  "'p persistence_layer \<Rightarrow> 't object_map \<Rightarrow> transaction \<Rightarrow> object_id list \<Rightarrow> time option \<Rightarrow> time \<Rightarrow> waker \<Rightarrow> bool \<Rightarrow>
     ('q, 'b, 'p, 't) journal_op \<Rightarrow> (('q, 'b, 'p, 't) journal_op \<times> unit result poll) run" where
  "journal_create P T tx object_ids deadline now w contended =
     rust_loop (journal_op_body P (ac_create T) (pl_create P) tx object_ids deadline now w contended)"

definition journal_delete ::
  "'p persistence_layer \<Rightarrow> 't object_map \<Rightarrow> transaction \<Rightarrow> object_id list \<Rightarrow> time option \<Rightarrow> time \<Rightarrow> waker \<Rightarrow> bool \<Rightarrow>
     ('q, 'b, 'p, 't) journal_op \<Rightarrow> (('q, 'b, 'p, 't) journal_op \<times> unit result poll) run" where
  "journal_delete P T tx object_ids deadline now w contended =
     rust_loop (journal_op_body P (ac_delete T) (pl_delete P) tx object_ids deadline now w contended)"

text \<open>\<^verbatim>\<open>Drop for Journal\<close>\<close>

definition journal_drop ::
  "'p persistence_layer \<Rightarrow> transaction \<Rightarrow> journal \<Rightarrow> ('q, 'b, 'p) db \<Rightarrow> ('q, 'b, 'p) db outcome" where
  "journal_drop P tx jn db =
     (if submit_instant (jas (db_heap db) (jn_id jn)) = None then
        let db = db\<lparr>db_heap := anchor_rollback (jn_id jn) (db_heap db)\<rparr> in
        (case jn_log_buffer jn of
           None \<Rightarrow> Done db
         | Some a \<Rightarrow>
             (case pl_discard P a (tx_id tx) (jn_id jn) (db_layer db) of
                Panic \<Rightarrow> Panic | Done p \<Rightarrow> Done (db\<lparr>db_layer := p\<rparr>)))
      else Done db)"

subsection \<open>Submitting a journal\<close>

text \<open>
  The strand is a linked list of anchors. Each failed exchange of its head, with the head seen by
  then, has already set the link and the submit instant of the anchor; the exchange that succeeds
  saw the actual head.
\<close>

definition durable_after_submit :: "u64 option \<Rightarrow> u64 \<Rightarrow> u64" where
  "durable_after_submit current_flush_epoch current =
     (let durable = (case current_flush_epoch of None \<Rightarrow> 0 | Some e \<Rightarrow> e) + 2
      in if current < durable then durable else current)"

definition submit_journal ::
  "'p persistence_layer \<Rightarrow> journal_id option list \<Rightarrow> journal_id \<Rightarrow> log_buffer_id option \<Rightarrow>
     transaction \<times> ('q, 'b, 'p) db \<Rightarrow> ((transaction \<times> ('q, 'b, 'p) db) \<times> u32) outcome" where
  "submit_journal P stale_heads anchor log_buffer = (\<lambda>(tx, db).
     let h = foldl (\<lambda>h head. fst (set_next anchor head h)) (db_heap db) stale_heads in
     (case set_next anchor (tx_journal_strand tx) h of
        (h, _, instant) \<Rightarrow>
          let tx = tx\<lparr>tx_journal_strand := Some anchor\<rparr>; db = db\<lparr>db_heap := h\<rparr> in
          (case (case log_buffer of
                   None \<Rightarrow> Done (tx, db)
                 | Some a \<Rightarrow>
                     (case pl_submit P a (tx_id tx) anchor (Some instant) (db_layer db) of
                        Panic \<Rightarrow> Panic
                      | Done p \<Rightarrow>
                          Done (tx\<lparr>tx_durable_flush_epoch :=
                                     durable_after_submit (pl_current_flush_epoch P p) (tx_durable_flush_epoch tx)\<rparr>,
                                db\<lparr>db_layer := p\<rparr>))) of
             Panic \<Rightarrow> Panic
           | Done (tx, db) \<Rightarrow>
               Done ((tx, db\<lparr>db_heap := anchor_submit anchor (db_heap db)\<rparr>), instant))))"

text \<open>\<^verbatim>\<open>Journal::submit\<close>: the journal is consumed, and dropped after it was submitted.\<close>

definition journal_submit ::
  "'p persistence_layer \<Rightarrow> journal_id option list \<Rightarrow> journal \<Rightarrow>
     transaction \<times> ('q, 'b, 'p) db \<Rightarrow> ((transaction \<times> ('q, 'b, 'p) db) \<times> u32) outcome" where
  "journal_submit P stale_heads jn s =
     (case submit_journal P stale_heads (jn_id jn) (jn_log_buffer jn) s of
        Panic \<Rightarrow> Panic
      | Done ((tx, db), i) \<Rightarrow>
          (case journal_drop P tx (jn\<lparr>jn_log_buffer := None\<rparr>) db of
             Panic \<Rightarrow> Panic | Done db \<Rightarrow> Done ((tx, db), i)))"

subsection \<open>Rewinding\<close>

definition rewind_body ::
  "u32 option \<Rightarrow> 'b heap \<times> journal_id option \<Rightarrow> (('b heap \<times> journal_id option) \<times> unit flow) run" where
  "rewind_body instant = (\<lambda>(h, current).
     case current of
       None \<Rightarrow> returns ((h, None), Return ())
     | Some record \<Rightarrow>
         if option_le (submit_instant (jas h record)) instant then returns ((h, Some record), Return ())
         else (case set_next record None (anchor_rollback record h) of
                 (h, nxt, _) \<Rightarrow> returns ((h, nxt), Again)))"

definition log_rewind ::
  "'p persistence_layer \<Rightarrow> u32 option \<Rightarrow> transaction \<times> ('q, 'b, 'p) db \<Rightarrow>
     (transaction \<times> ('q, 'b, 'p) db) outcome" where
  "log_rewind P new_instant = (\<lambda>(tx, db).
     case tx_eot_log_buffer tx of
       None \<Rightarrow> Done (tx, db)
     | Some a \<Rightarrow>
         (case pl_rewind P a (tx_id tx) new_instant (db_layer db) of
            Panic \<Rightarrow> Panic
          | Done p \<Rightarrow> Done (tx\<lparr>tx_eot_log_buffer := None\<rparr>, db\<lparr>db_layer := p\<rparr>)))"

definition tx_rewind ::
  "'p persistence_layer \<Rightarrow> u32 option \<Rightarrow> transaction \<times> ('q, 'b, 'p) db \<Rightarrow>
     ((transaction \<times> ('q, 'b, 'p) db) \<times> u32 option result) run" where
  "tx_rewind P instant = (\<lambda>(tx, db).
     bind_run (rust_loop (rewind_body instant) (db_heap db, tx_journal_strand tx)) (\<lambda>((h, current), _).
       let new_instant = (case current of None \<Rightarrow> None | Some r \<Rightarrow> submit_instant (jas h r))
       in (case log_rewind P new_instant (tx\<lparr>tx_journal_strand := current\<rparr>, db\<lparr>db_heap := h\<rparr>) of
             Panic \<Rightarrow> panics
           | Done (tx, db) \<Rightarrow>
               returns
                 (if instant \<noteq> None then
                    (case new_buffer P db of (db, a) \<Rightarrow> (tx\<lparr>tx_eot_log_buffer := Some a\<rparr>, db))
                  else (tx, db), Ok new_instant))))"

subsection \<open>Ending a transaction\<close>

definition set_state :: "transaction \<Rightarrow> tx_state \<Rightarrow> ('q, 'b, 'p) db \<Rightarrow> ('q, 'b, 'p) db" where
  "set_state tx st db = db\<lparr>db_heap := upd_ta (tx_id tx) (\<lambda>a. a\<lparr>ta_state := st\<rparr>) (db_heap db)\<rparr>"

definition wake_readers :: "'b scc_bag \<Rightarrow> transaction \<Rightarrow> ('q, 'b, 'p) db \<Rightarrow> ('q, 'b, 'p) db run" where
  "wake_readers B tx db =
     bind_run (wake_up B (tx_id tx) (db_heap db)) (\<lambda>h. returns (db\<lparr>db_heap := h\<rparr>))"

definition rollback_internal ::
  "'b scc_bag \<Rightarrow> 'p persistence_layer \<Rightarrow> transaction \<times> ('q, 'b, 'p) db \<Rightarrow>
     (transaction \<times> ('q, 'b, 'p) db) run" where
  "rollback_internal B P = (\<lambda>(tx, db).
     bind_run (wake_readers B tx (set_state tx RollingBack db)) (\<lambda>db.
       bind_run (tx_rewind P None (tx, db)) (\<lambda>((tx, db), _).
         returns (tx, set_state tx RolledBack db))))"

text \<open>\<^verbatim>\<open>Drop for Transaction\<close>, and \<^verbatim>\<open>rollback\<close>, which drops the transaction after rolling it back.\<close>

definition tx_drop ::
  "'b scc_bag \<Rightarrow> 'p persistence_layer \<Rightarrow> transaction \<times> ('q, 'b, 'p) db \<Rightarrow> ('q, 'b, 'p) db run" where
  "tx_drop B P = (\<lambda>(tx, db).
     let state = ta_state (tas (db_heap db) (tx_id tx)) in
     if state = Active \<or> state = Committing
     then bind_run (rollback_internal B P (tx, db)) (\<lambda>(_, db). returns db)
     else returns db)"

definition tx_rollback ::
  "'b scc_bag \<Rightarrow> 'p persistence_layer \<Rightarrow> transaction \<times> ('q, 'b, 'p) db \<Rightarrow> ('q, 'b, 'p) db run" where
  "tx_rollback B P s = bind_run (rollback_internal B P s) (tx_drop B P)"

definition determine_need_for_io_completion ::
  "'p persistence_layer \<Rightarrow> bool \<Rightarrow> transaction \<Rightarrow> ('q, 'b, 'p) db \<Rightarrow> bool" where
  "determine_need_for_io_completion P commit_log_record tx db \<longleftrightarrow>
     (\<not> commit_log_record \<and> tx_xid tx \<noteq> None) \<or>
     (case nonzero (tx_durable_flush_epoch tx) of
        None \<Rightarrow> False
      | Some f \<Rightarrow>
          commit_log_record \<or>
          (pl_wait_prepare_logging P \<and> \<not> option_le (Some f) (pl_current_flush_epoch P (db_layer db))))"

text \<open>
  \<^verbatim>\<open>participate\<close>: whether the identifier still has to be logged, and what happens when the
  completion was awaited.
\<close>

definition participate_start ::
  "'p persistence_layer \<Rightarrow> u8 list \<Rightarrow> transaction \<Rightarrow> ('q, 'b, 'p) db \<Rightarrow>
     (('q, 'b, 'p) db \<times> (unit result + await_io)) outcome" where
  "participate_start P xid tx db =
     (case tx_xid tx of
        Some own \<Rightarrow> Done (db, Inl (if own = xid then Ok () else Err UnexpectedState))
      | None \<Rightarrow>
          (case pl_participate P (tx_id tx) xid (db_layer db) of
             Panic \<Rightarrow> Panic
           | Done (p, a) \<Rightarrow> Done (db\<lparr>db_layer := p\<rparr>, Inr \<lparr>io_log_buffer = a, io_deadline = None\<rparr>)))"

definition participate_resume :: "u8 list \<Rightarrow> unit result \<Rightarrow> transaction \<Rightarrow> transaction \<times> unit result" where
  "participate_resume xid completion tx =
     (case completion of
        Inl e \<Rightarrow> (tx, Err e)
      | Inr _ \<Rightarrow> (tx\<lparr>tx_xid := Some xid\<rparr>, Ok ()))"

text \<open>\<^verbatim>\<open>prepare\<close> up to the point where it may have to await the I/O completion.\<close>

definition prepare_start ::
  "'p persistence_layer \<Rightarrow> transaction \<times> ('q, 'b, 'p) db \<Rightarrow>
     ((transaction \<times> ('q, 'b, 'p) db) \<times> await_io option) outcome" where
  "prepare_start P = (\<lambda>(tx, db).
     let instant = seq_now (db_sequencer db);
         db = db\<lparr>db_heap := upd_ta (tx_id tx)
                  (\<lambda>a. a\<lparr>ta_prepare_instant := instant, ta_state := Committing\<rparr>) (db_heap db)\<rparr>
     in case new_buffer P db of
          (db, a) \<Rightarrow>
            (case pl_prepare P a (tx_id tx) instant (db_layer db) of
               Panic \<Rightarrow> Panic
             | Done p \<Rightarrow>
                 let db = db\<lparr>db_layer := p\<rparr> in
                 Done ((tx, db),
                       if determine_need_for_io_completion P False tx db
                       then Some \<lparr>io_log_buffer = a, io_deadline = None\<rparr> else None)))"

record committable =
  ct_transaction :: "transaction option"
  ct_commit_log_io :: "(await_io \<times> u64) option"

text \<open>Awaiting the completion; a transaction whose completion failed is dropped.\<close>

definition poll_io ::
  "'p persistence_layer \<Rightarrow> time \<Rightarrow> waker \<Rightarrow> u64 option \<Rightarrow> await_io \<Rightarrow> ('q, 'b, 'p) db \<Rightarrow>
     ('q, 'b, 'p) db \<times> unit result poll" where
  "poll_io P now w reread io db =
     (case await_io_poll P now w reread io (db_layer db, db_heap db) of
        ((p, h), r) \<Rightarrow> (db\<lparr>db_layer := p, db_heap := h\<rparr>, r))"

definition prepare_resume ::
  "'b scc_bag \<Rightarrow> 'p persistence_layer \<Rightarrow> time \<Rightarrow> waker \<Rightarrow> u64 option \<Rightarrow> await_io \<Rightarrow>
     transaction \<times> ('q, 'b, 'p) db \<Rightarrow> (('q, 'b, 'p) db \<times> committable result poll) run" where
  "prepare_resume B P now w reread io = (\<lambda>(tx, db).
     case poll_io P now w reread io db of
       (db, Pending) \<Rightarrow> returns (db, Pending)
     | (db, Ready (Inl e)) \<Rightarrow> bind_run (tx_drop B P (tx, db)) (\<lambda>db. returns (db, Ready (Err e)))
     | (db, Ready (Inr _)) \<Rightarrow>
         returns (db, Ready (Ok \<lparr>ct_transaction = Some tx, ct_commit_log_io = None\<rparr>)))"

definition generate_commit_log_record ::
  "'p persistence_layer \<Rightarrow> transaction \<times> ('q, 'b, 'p) db \<Rightarrow>
     ((transaction \<times> ('q, 'b, 'p) db) \<times> (await_io \<times> u64) result) outcome" where
  "generate_commit_log_record P = (\<lambda>(tx, db).
     case tx_eot_log_buffer tx of
       None \<Rightarrow> Done ((tx, db), Err UnexpectedState)
     | Some a \<Rightarrow>
         (case seq_advance (db_sequencer db) of
            (s, commit_instant) \<Rightarrow>
              (case pl_commit P a (tx_id tx) commit_instant (db_layer db) of
                 Panic \<Rightarrow> Panic
               | Done p \<Rightarrow>
                   Done ((tx\<lparr>tx_eot_log_buffer := None\<rparr>, db\<lparr>db_sequencer := s, db_layer := p\<rparr>),
                         Ok (\<lparr>io_log_buffer = a, io_deadline = None\<rparr>, commit_instant)))))"

definition commit_body ::
  "'b heap \<times> journal_id option \<Rightarrow> (('b heap \<times> journal_id option) \<times> unit flow) run" where
  "commit_body = (\<lambda>(h, current).
     case current of
       None \<Rightarrow> returns ((h, None), Return ())
     | Some record \<Rightarrow>
         (case set_next record None (anchor_commit record h) of
            (h, nxt, _) \<Rightarrow> returns ((h, nxt), Again)))"

definition post_commit ::
  "'b scc_bag \<Rightarrow> u64 \<Rightarrow> transaction \<times> ('q, 'b, 'p) db \<Rightarrow> (transaction \<times> ('q, 'b, 'p) db) run" where
  "post_commit B commit_instant = (\<lambda>(tx, db).
     let db = db\<lparr>db_heap := upd_ta (tx_id tx)
                  (\<lambda>a. a\<lparr>ta_commit_instant := commit_instant, ta_state := Committed\<rparr>) (db_heap db)\<rparr>
     in bind_run (wake_readers B tx db) (\<lambda>db.
          bind_run (rust_loop commit_body (db_heap db, tx_journal_strand tx)) (\<lambda>((h, _), _).
            returns (tx\<lparr>tx_journal_strand := None\<rparr>, db\<lparr>db_heap := h\<rparr>))))"

text \<open>
  \<^verbatim>\<open>Committable::poll\<close>: a transaction that is not put back is dropped, which rolls it back unless
  it was committed.
\<close>

definition committable_poll ::
  "'b scc_bag \<Rightarrow> 'p persistence_layer \<Rightarrow> time \<Rightarrow> waker \<Rightarrow> u64 option \<Rightarrow> committable \<times> ('q, 'b, 'p) db \<Rightarrow>
     ((committable \<times> ('q, 'b, 'p) db) \<times> u64 result poll) run" where
  "committable_poll B P now w reread = (\<lambda>(c, db).
     let done = \<lparr>ct_transaction = None, ct_commit_log_io = None\<rparr> in
     case ct_transaction c of
       None \<Rightarrow> returns ((c, db), Ready (Err UnexpectedState))
     | Some tx \<Rightarrow>
         (case ct_commit_log_io c of
            Some (io, commit_instant) \<Rightarrow>
              (case poll_io P now w reread io db of
                 (db, Ready (Inr _)) \<Rightarrow>
                   bind_run (post_commit B commit_instant (tx, db)) (\<lambda>s.
                     bind_run (tx_drop B P s) (\<lambda>db. returns ((done, db), Ready (Ok commit_instant))))
               | (db, Ready (Inl e)) \<Rightarrow>
                   bind_run (tx_drop B P (tx, db)) (\<lambda>db. returns ((done, db), Ready (Err e)))
               | (db, Pending) \<Rightarrow> returns ((c, db), Pending))
          | None \<Rightarrow>
              (case generate_commit_log_record P (tx, db) of
                 Panic \<Rightarrow> panics
               | Done ((tx, db), Inl e) \<Rightarrow>
                   bind_run (tx_drop B P (tx, db)) (\<lambda>db. returns ((done, db), Ready (Err e)))
               | Done ((tx, db), Inr (io, commit_instant)) \<Rightarrow>
                   if \<not> determine_need_for_io_completion P True tx db then
                     bind_run (post_commit B commit_instant (tx, db)) (\<lambda>s.
                       bind_run (tx_drop B P s) (\<lambda>db. returns ((done, db), Ready (Ok commit_instant))))
                   else returns ((\<lparr>ct_transaction = Some tx, ct_commit_log_io = Some (io, commit_instant)\<rparr>,
                                  db\<lparr>db_heap := wake w (db_heap db)\<rparr>), Pending))))"

text \<open>Dropping a \<^verbatim>\<open>Committable\<close> drops the transaction it still has.\<close>

definition committable_drop ::
  "'b scc_bag \<Rightarrow> 'p persistence_layer \<Rightarrow> committable \<times> ('q, 'b, 'p) db \<Rightarrow> ('q, 'b, 'p) db run" where
  "committable_drop B P = (\<lambda>(c, db).
     case ct_transaction c of None \<Rightarrow> returns db | Some tx \<Rightarrow> tx_drop B P (tx, db))"

text \<open>\<^verbatim>\<open>commit\<close> as a future: it prepares the transaction, then awaits the committable one.\<close>

datatype commit_future =
    Preparing transaction await_io
  | Committable committable

definition commit_start ::
  "'p persistence_layer \<Rightarrow> transaction \<times> ('q, 'b, 'p) db \<Rightarrow> (commit_future \<times> ('q, 'b, 'p) db) outcome" where
  "commit_start P s =
     (case prepare_start P s of
        Panic \<Rightarrow> Panic
      | Done ((tx, db), Some io) \<Rightarrow> Done (Preparing tx io, db)
      | Done ((tx, db), None) \<Rightarrow>
          Done (Committable \<lparr>ct_transaction = Some tx, ct_commit_log_io = None\<rparr>, db))"

definition commit_poll ::
  "'b scc_bag \<Rightarrow> 'p persistence_layer \<Rightarrow> time \<Rightarrow> waker \<Rightarrow> u64 option \<Rightarrow> commit_future \<times> ('q, 'b, 'p) db \<Rightarrow>
     ((commit_future \<times> ('q, 'b, 'p) db) \<times> u64 result poll) run" where
  "commit_poll B P now w reread = (\<lambda>(f, db).
     let await = (\<lambda>c db. bind_run (committable_poll B P now w reread (c, db)) (\<lambda>((c, db), r).
                    returns ((Committable c, db), r)))
     in case f of
          Committable c \<Rightarrow> await c db
        | Preparing tx io \<Rightarrow>
            bind_run (prepare_resume B P now w reread io (tx, db)) (\<lambda>(db, r).
              case r of
                Pending \<Rightarrow> returns ((Preparing tx io, db), Pending)
              | Ready (Inl e) \<Rightarrow>
                  returns ((Committable \<lparr>ct_transaction = None, ct_commit_log_io = None\<rparr>, db), Ready (Err e))
              | Ready (Inr c) \<Rightarrow> await c db))"

end
