(* ===== verification/Playback.thy ===== *)
theory Playback
  imports Transaction
begin

text \<open>
  Transactions that are played back from the log (\<^verbatim>\<open>Playback\<close> in \<^verbatim>\<open>src/src/transaction.rs\<close>): the
  anchors a recovery allocates for the journals it finds in the log, and what becomes of them when
  the log says that a journal was submitted or discarded, or that the transaction was rewound,
  prepared, committed or rolled back.
\<close>

section \<open>Definitions\<close>

text \<open>
  What a recovery changes of the database: its sequencer, the anchors and the task channel, the
  table of the access controller. \<open>rk_free\<close> are the addresses the allocator still has; running out
  of memory aborts the program.
\<close>

record ('q, 'b, 't) recovered =
  rk_sequencer :: "'q monotonic_u64"
  rk_heap :: "'b heap"
  rk_table :: "'t"
  rk_free :: "u64 list"

definition allocate :: "('q, 'b, 't) recovered \<Rightarrow> (('q, 'b, 't) recovered \<times> u64) outcome" where
  "allocate k = (case rk_free k of [] \<Rightarrow> Panic | a # free \<Rightarrow> Done (k\<lparr>rk_free := free\<rparr>, a))"

text \<open>
  The journals that have not been submitted by their identifiers in the log; the submitted ones,
  a \<^verbatim>\<open>BTreeMap\<close>, by their instants in increasing order; and those submitted after the last
  instant that can be represented.
\<close>

record playback =
  pb_journal_anchor_map :: "journal_id \<Rightarrow> journal_id option"
  pb_submitted :: "(u32 \<times> journal_id) list"
  pb_unbounded :: "journal_id list"
  pb_xid :: "u8 list option"
  pb_anchor :: transaction_id

fun btree_insert :: "u32 \<Rightarrow> 'v \<Rightarrow> (u32 \<times> 'v) list \<Rightarrow> (u32 \<times> 'v) list" where
  "btree_insert k v [] = [(k, v)]"
| "btree_insert k v ((k', v') # xs) =
     (if k < k' then (k, v) # (k', v') # xs
      else if k = k' then (k, v) # xs
      else (k', v') # btree_insert k v xs)"

definition playback_new ::
  "'b scc_bag \<Rightarrow> ('q, 'b, 't) recovered \<Rightarrow> (('q, 'b, 't) recovered \<times> playback) outcome" where
  "playback_new B k =
     (case allocate k of
        Panic \<Rightarrow> Panic
      | Done (k, a) \<Rightarrow>
          Done (k\<lparr>rk_heap := upd_ta a (\<lambda>_. tx_anchor_new B) (rk_heap k)\<rparr>,
                \<lparr>pb_journal_anchor_map = Map.empty, pb_submitted = [], pb_unbounded = [],
                 pb_xid = None, pb_anchor = a\<rparr>))"

definition playback_now :: "playback \<Rightarrow> u32 option" where
  "playback_now pb =
     (if pb_unbounded pb = [] then
        if length (pb_submitted pb) < 2 ^ 32
        then map_option (\<lambda>i. min i MAX_TRANSACTION_INSTANT) (nonzero (of_nat (length (pb_submitted pb))))
        else None
      else Some MAX_TRANSACTION_INSTANT)"

definition get_or_create_journal_anchor ::
  "journal_id \<Rightarrow> ('q, 'b, 't) recovered \<times> playback \<Rightarrow>
     ((('q, 'b, 't) recovered \<times> playback) \<times> journal_id) outcome" where
  "get_or_create_journal_anchor i = (\<lambda>(k, pb).
     case pb_journal_anchor_map pb i of
       Some a \<Rightarrow> Done ((k, pb), a)
     | None \<Rightarrow>
         (case allocate k of
            Panic \<Rightarrow> Panic
          | Done (k, a) \<Rightarrow>
              Done ((k\<lparr>rk_heap := upd_ja a (\<lambda>_. anchor_new (pb_anchor pb) (playback_now pb)) (rk_heap k)\<rparr>,
                     pb\<lparr>pb_journal_anchor_map := (pb_journal_anchor_map pb)(i \<mapsto> a)\<rparr>), a)))"

definition playback_participate :: "u8 list \<Rightarrow> playback \<Rightarrow> playback" where
  "playback_participate xid pb = pb\<lparr>pb_xid := Some xid\<rparr>"

definition submit_journal_anchor ::
  "journal_id \<Rightarrow> u32 \<Rightarrow> 'b heap \<times> playback \<Rightarrow> 'b heap \<times> playback" where
  "submit_journal_anchor i transaction_instant = (\<lambda>(h, pb).
     case pb_journal_anchor_map pb i of
       None \<Rightarrow> (h, pb)
     | Some a \<Rightarrow>
         let pb = pb\<lparr>pb_journal_anchor_map := (pb_journal_anchor_map pb)(i := None)\<rparr>;
             h = anchor_submit a (set_submit_instant a transaction_instant h)
         in (h, if transaction_instant = - 1 then pb\<lparr>pb_unbounded := pb_unbounded pb @ [a]\<rparr>
                else pb\<lparr>pb_submitted := btree_insert transaction_instant a (pb_submitted pb)\<rparr>))"

definition discard_journal_anchor :: "journal_id \<Rightarrow> playback \<Rightarrow> playback" where
  "discard_journal_anchor i pb =
     pb\<lparr>pb_journal_anchor_map := (pb_journal_anchor_map pb)(i := None)\<rparr>"

text \<open>The loop over \<^verbatim>\<open>last_entry()\<close>, on the submitted journals from the newest to the oldest.\<close>

fun rewind_submitted ::
  "u32 \<Rightarrow> (u32 \<times> journal_id) list \<Rightarrow> 'b heap \<Rightarrow> (u32 \<times> journal_id) list \<times> 'b heap" where
  "rewind_submitted rewind_to [] h = ([], h)"
| "rewind_submitted rewind_to ((k, a) # rest) h =
     (if (case submit_instant (jas h a) of None \<Rightarrow> 0 | Some i \<Rightarrow> i) \<le> rewind_to then ((k, a) # rest, h)
      else rewind_submitted rewind_to rest (anchor_rollback a h))"

definition playback_rewind :: "u32 option \<Rightarrow> 'b heap \<times> playback \<Rightarrow> 'b heap \<times> playback" where
  "playback_rewind instant = (\<lambda>(h, pb).
     let rewind_to = (case instant of None \<Rightarrow> 0 | Some i \<Rightarrow> i) in
     if rewind_to = - 1 then (h, pb)
     else
       let h = foldl (\<lambda>h a. anchor_rollback a h) h (rev (pb_unbounded pb)) in
       (case rewind_submitted rewind_to (rev (pb_submitted pb)) h of
          (newest_first, h) \<Rightarrow> (h, pb\<lparr>pb_unbounded := [], pb_submitted := rev newest_first\<rparr>)))"

definition update_sequencer ::
  "u64 \<Rightarrow> ('q, 'b, 't) recovered \<Rightarrow> ('q, 'b, 't) recovered run" where
  "update_sequencer instant k =
     (case seq_update (rk_sequencer k) instant of
        None \<Rightarrow> None
      | Some (s, _) \<Rightarrow> returns (k\<lparr>rk_sequencer := s\<rparr>))"

definition playback_prepare ::
  "u64 \<Rightarrow> playback \<Rightarrow> ('q, 'b, 't) recovered \<Rightarrow> ('q, 'b, 't) recovered run" where
  "playback_prepare instant pb k =
     bind_run (update_sequencer instant k) (\<lambda>k.
       returns (k\<lparr>rk_heap := upd_ta (pb_anchor pb)
                    (\<lambda>a. a\<lparr>ta_prepare_instant := instant, ta_state := Committing\<rparr>) (rk_heap k)\<rparr>))"

definition playback_commit ::
  "'b scc_bag \<Rightarrow> u64 \<Rightarrow> playback \<Rightarrow> ('q, 'b, 't) recovered \<Rightarrow> ('q, 'b, 't) recovered run" where
  "playback_commit B commit_instant pb k =
     bind_run (update_sequencer commit_instant k) (\<lambda>k.
       bind_run (wake_up B (pb_anchor pb)
                   (upd_ta (pb_anchor pb)
                      (\<lambda>a. a\<lparr>ta_commit_instant := commit_instant, ta_state := Committed\<rparr>) (rk_heap k))) (\<lambda>h.
         returns (k\<lparr>rk_heap := foldl (\<lambda>h a. anchor_commit a h)
                      (foldl (\<lambda>h (_, a). anchor_commit a h) h (pb_submitted pb)) (pb_unbounded pb)\<rparr>)))"

definition playback_rollback ::
  "'b scc_bag \<Rightarrow> playback \<Rightarrow> ('q, 'b, 't) recovered \<Rightarrow> ('q, 'b, 't) recovered run" where
  "playback_rollback B pb k =
     bind_run (wake_up B (pb_anchor pb)
                 (upd_ta (pb_anchor pb) (\<lambda>a. a\<lparr>ta_state := RollingBack\<rparr>) (rk_heap k))) (\<lambda>h.
       returns (k\<lparr>rk_heap := upd_ta (pb_anchor pb) (\<lambda>a. a\<lparr>ta_state := RolledBack\<rparr>)
                    (fst (playback_rewind None (h, pb)))\<rparr>))"

end
