(* ===== verification/Random_Access.thy ===== *)
theory Random_Access
  imports Tsf_Prelude
begin

text \<open>
  The file abstraction the persistence layer reads and writes
  (\<^verbatim>\<open>src/src/persistence_layer/file_io/random_access_file.rs\<close>).
\<close>

section \<open>Files\<close>

text \<open>
  \<^verbatim>\<open>RandomAccessFile\<close>: the content of the operating system's file and the length the library
  keeps for it. \<open>fault\<close> is the error the operating system reports, if any.
\<close>

record random_access_file =
  raf_file :: "u8 list"
  raf_len :: u64

definition raf_open :: "error option \<Rightarrow> u8 list \<Rightarrow> random_access_file result" where
  "raf_open fault content =
     (case fault of
        Some e \<Rightarrow> Err e
      | None \<Rightarrow> Ok \<lparr>raf_file = content, raf_len = of_nat (length content)\<rparr>)"

definition raf_set_len :: "error option \<Rightarrow> u64 \<Rightarrow> random_access_file \<Rightarrow> random_access_file \<times> unit result" where
  "raf_set_len fault len f =
     (case fault of
        Some e \<Rightarrow> (f, Err e)
      | None \<Rightarrow> (\<lparr>raf_file = take (unat len) (raf_file f @ replicate (unat len - length (raf_file f)) 0),
                  raf_len = len\<rparr>, Ok ()))"

text \<open>\<^verbatim>\<open>read_exact_at\<close> fails unless the whole buffer can be filled.\<close>

definition unexpected_eof :: error where
  "unexpected_eof = IO 0"

definition raf_read :: "error option \<Rightarrow> nat \<Rightarrow> u64 \<Rightarrow> random_access_file \<Rightarrow> u8 list result" where
  "raf_read fault buffer_len offset f =
     (case fault of
        Some e \<Rightarrow> Err e
      | None \<Rightarrow>
          if unat offset + buffer_len \<le> length (raf_file f)
          then Ok (take buffer_len (drop (unat offset) (raf_file f)))
          else Err unexpected_eof)"

definition write_bytes :: "u8 list \<Rightarrow> nat \<Rightarrow> u8 list \<Rightarrow> u8 list" where
  "write_bytes bytes offset content =
     (let padded = content @ replicate (offset - length content) 0
      in take offset padded @ bytes @ drop (offset + length bytes) padded)"

text \<open>
  A write that fails leaves the file as it was. The system call may have written a prefix of the bytes;
  the I/O thread repeats a failed write at the same offset until it succeeds, which overwrites them, and
  a failed write of a new header ends the opening of the file.
\<close>

definition raf_write ::
  "error option \<Rightarrow> u8 list \<Rightarrow> u64 \<Rightarrow> random_access_file \<Rightarrow> random_access_file \<times> unit result" where
  "raf_write fault bytes offset f =
     (case fault of
        Some e \<Rightarrow> (f, Err e)
      | None \<Rightarrow>
          (let new_len = offset + of_nat (length bytes)
           in (\<lparr>raf_file = write_bytes bytes (unat offset) (raf_file f),
                raf_len = (if raf_len f < new_len then new_len else raf_len f)\<rparr>, Ok ())))"

end
