(* ===== verification/Page.thy ===== *)
theory Page
  imports Random_Access
begin

text \<open>
  The in-memory representation of a page of the database file
  (\<^verbatim>\<open>src/src/persistence_layer/file_io/evictable_page.rs\<close>).
\<close>

section \<open>Definitions\<close>

definition PAGE_SIZE :: nat where
  "PAGE_SIZE = 512"

definition PAGE_HEADER_LEN :: nat where
  "PAGE_HEADER_LEN = 16"

record evictable_page =
  pg_address_and_dirty_flag :: u64
  pg_buffer :: "u8 list"

definition page_from_file :: "error option \<Rightarrow> random_access_file \<Rightarrow> u64 \<Rightarrow> evictable_page result" where
  "page_from_file fault db address =
     (case raf_read fault PAGE_SIZE address db of
        Inl e \<Rightarrow> Err e
      | Inr buffer \<Rightarrow> Ok \<lparr>pg_address_and_dirty_flag = address, pg_buffer = buffer\<rparr>)"

definition page_address :: "evictable_page \<Rightarrow> u64" where
  "page_address p = pg_address_and_dirty_flag p AND NOT 1"

definition is_dirty :: "evictable_page \<Rightarrow> bool" where
  "is_dirty p \<longleftrightarrow> pg_address_and_dirty_flag p AND 1 \<noteq> 0"

definition set_dirty :: "evictable_page \<Rightarrow> evictable_page" where
  "set_dirty p = p\<lparr>pg_address_and_dirty_flag := pg_address_and_dirty_flag p OR 1\<rparr>"

definition prev_page_address :: "evictable_page \<Rightarrow> u64" where
  "prev_page_address p = from_le_bytes (take 8 (pg_buffer p))"

definition set_prev_page_address :: "u64 \<Rightarrow> evictable_page \<Rightarrow> evictable_page" where
  "set_prev_page_address a p = p\<lparr>pg_buffer := to_le_bytes 8 a @ drop 8 (pg_buffer p)\<rparr>"

definition next_page_address :: "evictable_page \<Rightarrow> u64" where
  "next_page_address p = from_le_bytes (take 8 (drop 8 (pg_buffer p)))"

definition set_next_page_address :: "u64 \<Rightarrow> evictable_page \<Rightarrow> evictable_page" where
  "set_next_page_address a p = p\<lparr>pg_buffer := take 8 (pg_buffer p) @ to_le_bytes 8 a @ drop 16 (pg_buffer p)\<rparr>"

text \<open>\<^verbatim>\<open>buffer\<close>, and what a writer does through \<^verbatim>\<open>buffer_mut\<close>.\<close>

definition page_content :: "evictable_page \<Rightarrow> u8 list" where
  "page_content p = drop PAGE_HEADER_LEN (pg_buffer p)"

definition update_content :: "(u8 list \<Rightarrow> u8 list) \<Rightarrow> evictable_page \<Rightarrow> evictable_page" where
  "update_content f p = p\<lparr>pg_buffer := take PAGE_HEADER_LEN (pg_buffer p) @ f (page_content p)\<rparr>"

definition write_back ::
  "error option \<Rightarrow> evictable_page \<times> random_access_file \<Rightarrow> (evictable_page \<times> random_access_file) \<times> unit result" where
  "write_back fault = (\<lambda>(p, db).
     case raf_write fault (pg_buffer p) (page_address p) db of
       (db, Inl e) \<Rightarrow> ((p, db), Err e)
     | (db, Inr _) \<Rightarrow> ((p\<lparr>pg_address_and_dirty_flag := pg_address_and_dirty_flag p AND NOT 1\<rparr>, db), Ok ()))"

section \<open>Lemmas\<close>

text \<open>A page has a full buffer; pages lie at multiples of their size within the file.\<close>

definition wf_page :: "evictable_page \<Rightarrow> bool" where
  "wf_page p \<longleftrightarrow> length (pg_buffer p) = PAGE_SIZE"

definition page_at :: "random_access_file \<Rightarrow> u64 \<Rightarrow> bool" where
  "page_at db a \<longleftrightarrow> unat a mod PAGE_SIZE = 0 \<and> unat a + PAGE_SIZE \<le> length (raf_file db) \<and>
     length (raf_file db) < 2 ^ 64"

text \<open>The content of the file at the address of a page.\<close>

definition file_page :: "random_access_file \<Rightarrow> u64 \<Rightarrow> u8 list" where
  "file_page db a = take PAGE_SIZE (drop (unat a) (raf_file db))"

lemma page_flag_simps [simp]:
  "pg_buffer (set_dirty p) = pg_buffer p" "is_dirty (set_dirty p)" "page_address (set_dirty p) = page_address p"
  by (simp_all add: set_dirty_def is_dirty_def page_address_def bit.conj_disj_distrib2)

lemma page_links_simps [simp]:
  assumes "wf_page p"
  shows "prev_page_address (set_prev_page_address a p) = a" "next_page_address (set_next_page_address a p) = a"
    "next_page_address (set_prev_page_address a p) = next_page_address p"
    "prev_page_address (set_next_page_address a p) = prev_page_address p"
    "page_content (set_prev_page_address a p) = page_content p"
    "page_content (set_next_page_address a p) = page_content p"
    "wf_page (set_prev_page_address a p)" "wf_page (set_next_page_address a p)" "wf_page (set_dirty p)"
  using assms
  by (simp_all add: wf_page_def PAGE_SIZE_def PAGE_HEADER_LEN_def prev_page_address_def next_page_address_def
      set_prev_page_address_def set_next_page_address_def page_content_def)

lemma page_from_file_ok:
  "page_at db a \<Longrightarrow> page_from_file None db a = Ok \<lparr>pg_address_and_dirty_flag = a, pg_buffer = file_page db a\<rparr>"
  by (simp add: page_from_file_def raf_read_def page_at_def file_page_def)

lemma length_file_page: "page_at db a \<Longrightarrow> length (file_page db a) = PAGE_SIZE"
  by (auto simp: file_page_def page_at_def)

text \<open>Writing a page changes that page of the file and no other.\<close>

lemma write_bytes_within:
  "offset + length bytes \<le> length content \<Longrightarrow>
   write_bytes bytes offset content = take offset content @ bytes @ drop (offset + length bytes) content"
  by (simp add: write_bytes_def Let_def)

lemma pages_apart:
  assumes "m mod 512 = 0" "n mod 512 = (0 :: nat)" "m \<noteq> n"
  shows "m + 512 \<le> n \<or> n + 512 \<le> m"
proof -
  obtain i j where ij: "m = 512 * i" "n = 512 * j" using assms(1,2) by (auto elim!: dvdE)
  with assms(3) have "i < j \<or> j < i" by auto
  with ij show ?thesis by auto
qed

lemma raf_write_page:
  assumes a: "page_at db a" and b: "length buffer = PAGE_SIZE"
  shows "\<exists>db'. raf_write None buffer a db = (db', Ok ()) \<and> length (raf_file db') = length (raf_file db) \<and>
    raf_len db' = max (raf_len db) (a + of_nat PAGE_SIZE) \<and> file_page db' a = buffer \<and>
    (\<forall>c. page_at db c \<longrightarrow> c \<noteq> a \<longrightarrow> file_page db' c = file_page db c)"
proof -
  let ?f = "raf_file db"
  have fits: "unat a + 512 \<le> length ?f" using a by (simp add: page_at_def PAGE_SIZE_def)
  have w: "write_bytes buffer (unat a) ?f = take (unat a) ?f @ buffer @ drop (unat a + 512) ?f"
    using fits b by (simp add: write_bytes_within PAGE_SIZE_def)
  let ?f' = "take (unat a) ?f @ buffer @ drop (unat a + 512) ?f"
  have other: "take 512 (drop (unat c) ?f') = take 512 (drop (unat c) ?f)" if c: "page_at db c" "c \<noteq> a" for c
  proof -
    have "unat c \<noteq> unat a" using c(2) by (simp add: word_unat_eq_iff)
    then have "unat c + 512 \<le> unat a \<or> unat a + 512 \<le> unat c"
      using c(1) a by (intro pages_apart) (simp_all add: page_at_def PAGE_SIZE_def)
    then show ?thesis
    proof
      assume "unat c + 512 \<le> unat a"
      with fits show ?thesis by (auto simp: drop_take min_def)
    next
      assume "unat a + 512 \<le> unat c"
      with fits b show ?thesis by (simp add: PAGE_SIZE_def)
    qed
  qed
  show ?thesis
    using fits b other
    by (auto simp: raf_write_def Let_def w file_page_def PAGE_SIZE_def max_def min_def)
qed

end
