(* ===== verification/File_Io.thy ===== *)
theory File_Io
  imports Persistence Log_Record Page "HOL-Library.Sublist"
begin

text \<open>
  The file persistence layer: log buffers and the layer's operations
  (\<^verbatim>\<open>src/src/persistence_layer/file_io/mod.rs\<close>), and the I/O thread's processing of log
  buffers (\<^verbatim>\<open>io_task_processor.rs\<close>).
\<close>

section \<open>The state of the layer\<close>

text \<open>Log buffers live at addresses; the address \<open>0\<close> is the null pointer.\<close>

record file_log_buffer =
  lb_buffer :: "u8 list"
  lb_bytes_written :: u8
  lb_submit_instant :: u32
  lb_eoj_logging :: bool
  lb_durable_flush_epoch :: u64
  lb_next :: nat

definition default_log_buffer :: file_log_buffer where
  "default_log_buffer =
     \<lparr>lb_buffer = replicate 32 0, lb_bytes_written = 0, lb_submit_instant = 0,
      lb_eoj_logging = False, lb_durable_flush_epoch = 0, lb_next = 0\<rparr>"

datatype io_task =
    Flush
  | Resize u64
  | FillCache u64
  | WriteBack u64
  | WriteBackEvicted evictable_page
  | Recover
  | ShutdownIO

record 'b file_io_data =
  fd_buffers :: "nat \<Rightarrow> file_log_buffer"
  fd_next_buffer :: nat
  fd_log_buffer_link :: nat
  fd_flush_epoch :: u64
  fd_waker_bag :: "'b"
  fd_log :: random_access_file
  fd_tasks :: "io_task list"
  fd_task_capacity :: nat
  fd_woken :: "waker list"

definition upd_buffer ::
  "nat \<Rightarrow> (file_log_buffer \<Rightarrow> file_log_buffer) \<Rightarrow> 'b file_io_data \<Rightarrow> 'b file_io_data" where
  "upd_buffer a f d = d\<lparr>fd_buffers := (fd_buffers d)(a := f (fd_buffers d a))\<rparr>"

definition new_log_buffer :: "'b file_io_data \<Rightarrow> 'b file_io_data \<times> nat" where
  "new_log_buffer d =
     (d\<lparr>fd_buffers := (fd_buffers d)(fd_next_buffer d := default_log_buffer),
        fd_next_buffer := Suc (fd_next_buffer d)\<rparr>, fd_next_buffer d)"

definition io_try_send :: "io_task \<Rightarrow> 'b file_io_data \<Rightarrow> 'b file_io_data \<times> bool" where
  "io_try_send task d =
     (if length (fd_tasks d) < fd_task_capacity d
      then (d\<lparr>fd_tasks := fd_tasks d @ [task]\<rparr>, True) else (d, False))"

text \<open>
  \<^verbatim>\<open>FileIO::with_path\<close>, the log file and the shared data: \<open>path_fault\<close> says that the directory
  cannot be created, \<open>log_fault\<close> is the error of opening \<^verbatim>\<open>l.log\<close>, and \<open>content\<close> what that file holds.
\<close>

definition with_path ::
  "'b scc_bag \<Rightarrow> bool \<Rightarrow> error option \<Rightarrow> u8 list \<Rightarrow> nat \<Rightarrow> 'b file_io_data result" where
  "with_path B path_fault log_fault content task_capacity =
     (if path_fault then Err (Generic ''the path could not be created'')
      else case raf_open log_fault content of
        Err e \<Rightarrow> Err e
      | Ok log \<Rightarrow> Ok
          \<lparr>fd_buffers = (\<lambda>_. default_log_buffer), fd_next_buffer = 1, fd_log_buffer_link = 0,
           fd_flush_epoch = 0, fd_waker_bag = bag_empty B, fd_log = log,
           fd_tasks = [], fd_task_capacity = task_capacity, fd_woken = []\<rparr>)"

section \<open>Log buffers\<close>

definition lb_pos :: "file_log_buffer \<Rightarrow> nat" where
  "lb_pos b = unat (lb_bytes_written b)"

definition set_buffer_position :: "nat \<Rightarrow> file_log_buffer \<Rightarrow> file_log_buffer" where
  "set_buffer_position pos b = b\<lparr>lb_bytes_written := of_nat pos\<rparr>"

text \<open>Writing a record behind what the buffer holds: \<^verbatim>\<open>log.write(log_buffer.buffer_mut())\<close>.\<close>

definition write_to_buffer :: "log_record \<Rightarrow> file_log_buffer \<Rightarrow> file_log_buffer \<times> nat option" where
  "write_to_buffer r b =
     (case write_record r (drop (lb_pos b) (lb_buffer b)) of
        (rest, n) \<Rightarrow> (b\<lparr>lb_buffer := take (lb_pos b) (lb_buffer b) @ rest\<rparr>, n))"

text \<open>\<^verbatim>\<open>take_next\<close>: the successor, which the buffer then no longer has.\<close>

definition take_next :: "nat \<Rightarrow> 'b file_io_data \<Rightarrow> 'b file_io_data \<times> nat option" where
  "take_next a d =
     (if lb_next (fd_buffers d a) = 0 then (d, None)
      else (upd_buffer a (\<lambda>b. b\<lparr>lb_next := 0\<rparr>) d, Some (lb_next (fd_buffers d a))))"

definition set_durable_flush_epoch :: "nat \<Rightarrow> u64 \<Rightarrow> 'b file_io_data \<Rightarrow> 'b file_io_data" where
  "set_durable_flush_epoch a epoch = upd_buffer a (\<lambda>b. b\<lparr>lb_durable_flush_epoch := epoch\<rparr>)"

definition get_durable_flush_epoch :: "nat \<Rightarrow> 'b file_io_data \<Rightarrow> u64 option" where
  "get_durable_flush_epoch a d = nonzero (lb_durable_flush_epoch (fd_buffers d a))"

text \<open>
  \<^verbatim>\<open>push_log_buffer\<close>: each failed exchange, with the head seen by then, overwrites the link of
  the buffer; the exchange that succeeds saw the actual head.
\<close>

definition push_log_buffer :: "nat list \<Rightarrow> nat \<Rightarrow> 'b file_io_data \<Rightarrow> 'b file_io_data" where
  "push_log_buffer stale_heads a d =
     (let d1 = foldl (\<lambda>d head. upd_buffer a (\<lambda>b. b\<lparr>lb_next := head\<rparr>) d) d stale_heads;
          d2 = upd_buffer a (\<lambda>b. b\<lparr>lb_next := fd_log_buffer_link d1\<rparr>) d1
      in d2\<lparr>fd_log_buffer_link := a\<rparr>)"

definition flush :: "nat \<Rightarrow> 'b file_io_data \<Rightarrow> 'b file_io_data" where
  "flush a d = fst (io_try_send Flush (push_log_buffer [] a d))"

section \<open>Operations of the layer\<close>

text \<open>
  \<^verbatim>\<open>create\<close> compresses consecutive identifiers: the record under construction is extended by an
  identifier if it can be.
\<close>

definition checked_sub :: "u64 \<Rightarrow> u64 \<Rightarrow> u64 option" where
  "checked_sub a b = (if b \<le> a then Some (a - b) else None)"

definition u32_try_from :: "u64 \<Rightarrow> u32 option" where
  "u32_try_from v = (if v < 2 ^ 32 then Some (ucast v) else None)"

definition extend_created :: "transaction_id \<Rightarrow> journal_id \<Rightarrow> object_id \<Rightarrow> log_record \<Rightarrow> log_record option" where
  "extend_created t j oid log =
     (case log of
        JournalCreatedObjectSingle _ _ prev_id \<Rightarrow>
          (case checked_sub oid prev_id of
             None \<Rightarrow> None
           | Some interval \<Rightarrow>
               (case u32_try_from interval of
                  None \<Rightarrow> None
                | Some interval \<Rightarrow> Some (JournalCreatedObjectRange t j prev_id interval 2)))
      | JournalCreatedObjectRange _ _ start_id interval num_objects \<Rightarrow>
          (case checked_sub oid start_id of
             None \<Rightarrow> None
           | Some diff \<Rightarrow>
               if num_objects \<noteq> - 1 \<and> diff = ucast interval * ucast num_objects
               then Some (JournalCreatedObjectRange t j start_id interval (num_objects + 1))
               else None)
      | _ \<Rightarrow> None)"

definition extend_deleted :: "transaction_id \<Rightarrow> journal_id \<Rightarrow> object_id \<Rightarrow> log_record \<Rightarrow> log_record option" where
  "extend_deleted t j oid log =
     (case log of
        JournalDeletedObjectSingle _ _ prev_id \<Rightarrow>
          (case checked_sub oid prev_id of
             None \<Rightarrow> None
           | Some interval \<Rightarrow>
               (case u32_try_from interval of
                  None \<Rightarrow> None
                | Some interval \<Rightarrow> Some (JournalDeletedObjectRange t j prev_id interval 2)))
      | JournalDeletedObjectRange _ _ start_id interval num_objects \<Rightarrow>
          (case checked_sub oid start_id of
             None \<Rightarrow> None
           | Some diff \<Rightarrow>
               if num_objects \<noteq> - 1 \<and> diff = ucast interval * ucast num_objects
               then Some (JournalDeletedObjectRange t j start_id interval (num_objects + 1))
               else None)
      | _ \<Rightarrow> None)"

text \<open>
  Writing a finished record: if the buffer is full it is flushed and the record goes to a new one.
\<close>

definition emit_record ::
  "log_record \<Rightarrow> 'b file_io_data \<times> nat \<Rightarrow> ('b file_io_data \<times> nat) outcome" where
  "emit_record log = (\<lambda>(d, a).
     case write_to_buffer log (fd_buffers d a) of
       (b, Some n) \<Rightarrow>
         Done (upd_buffer a (\<lambda>_. set_buffer_position (lb_pos b + n) b) d, a)
     | (b, None) \<Rightarrow>
         (case new_log_buffer (upd_buffer a (\<lambda>_. b) d) of
            (d, a') \<Rightarrow>
              let d = flush a d in
              (case write_to_buffer log (fd_buffers d a') of
                 (b, Some n) \<Rightarrow> Done (upd_buffer a' (\<lambda>_. set_buffer_position (lb_pos b + n) b) d, a')
               | (b, None) \<Rightarrow> Panic)))"

fun log_objects ::
  "(object_id \<Rightarrow> log_record \<Rightarrow> log_record option) \<Rightarrow> (object_id \<Rightarrow> log_record) \<Rightarrow>
     log_record option \<Rightarrow> object_id list \<Rightarrow> 'b file_io_data \<times> nat \<Rightarrow> ('b file_io_data \<times> nat) outcome" where
  "log_objects ext single None [] s = Done s"
| "log_objects ext single (Some log) [] s = emit_record log s"
| "log_objects ext single None (oid # ids) s = log_objects ext single (Some (single oid)) ids s"
| "log_objects ext single (Some log) (oid # ids) s =
     (case ext oid log of
        Some new_log \<Rightarrow> log_objects ext single (Some new_log) ids s
      | None \<Rightarrow>
          (case emit_record log s of
             Panic \<Rightarrow> Panic
           | Done s \<Rightarrow> log_objects ext single (Some (single oid)) ids s))"

definition file_create ::
  "nat \<Rightarrow> transaction_id \<Rightarrow> journal_id \<Rightarrow> object_id list \<Rightarrow> 'b file_io_data \<Rightarrow>
     ('b file_io_data \<times> nat result) outcome" where
  "file_create a t j object_ids d =
     (case log_objects (extend_created t j) (JournalCreatedObjectSingle t j) None object_ids (d, a) of
        Panic \<Rightarrow> Panic
      | Done (d, a) \<Rightarrow> Done (d, Ok a))"

definition file_delete ::
  "nat \<Rightarrow> transaction_id \<Rightarrow> journal_id \<Rightarrow> object_id list \<Rightarrow> 'b file_io_data \<Rightarrow>
     ('b file_io_data \<times> nat result) outcome" where
  "file_delete a t j object_ids d =
     (case log_objects (extend_deleted t j) (JournalDeletedObjectSingle t j) None object_ids (d, a) of
        Panic \<Rightarrow> Panic
      | Done (d, a) \<Rightarrow> Done (d, Ok a))"

text \<open>A record written to a buffer that is then flushed; the position is set to its size.\<close>

definition write_and_flush :: "log_record \<Rightarrow> nat \<Rightarrow> 'b file_io_data \<Rightarrow> 'b file_io_data outcome" where
  "write_and_flush log a d =
     (case write_to_buffer log (fd_buffers d a) of
        (b, Some n) \<Rightarrow> Done (flush a (upd_buffer a (\<lambda>_. set_buffer_position n b) d))
      | (b, None) \<Rightarrow> Panic)"

definition file_submit ::
  "nat \<Rightarrow> transaction_id \<Rightarrow> journal_id \<Rightarrow> u32 option \<Rightarrow> 'b file_io_data \<Rightarrow> 'b file_io_data outcome" where
  "file_submit a t j transaction_instant d =
     (case transaction_instant of
        None \<Rightarrow> Done (flush a d)
      | Some i \<Rightarrow>
          if lb_bytes_written (fd_buffers d a) = 0 then write_and_flush (JournalSubmitted t j i) a d
          else Done (flush a (upd_buffer a (\<lambda>b. b\<lparr>lb_submit_instant := i, lb_eoj_logging := True\<rparr>) d)))"

definition file_discard ::
  "nat \<Rightarrow> transaction_id \<Rightarrow> journal_id \<Rightarrow> 'b file_io_data \<Rightarrow> 'b file_io_data outcome" where
  "file_discard a t j d =
     (if lb_bytes_written (fd_buffers d a) = 0 then write_and_flush (JournalDiscarded t j) a d
      else Done (flush a (upd_buffer a (\<lambda>b. b\<lparr>lb_eoj_logging := True\<rparr>) d)))"

definition file_rewind ::
  "nat \<Rightarrow> transaction_id \<Rightarrow> u32 option \<Rightarrow> 'b file_io_data \<Rightarrow> 'b file_io_data outcome" where
  "file_rewind a t transaction_instant d =
     write_and_flush
       (TransactionRolledBack t (case transaction_instant of None \<Rightarrow> 0 | Some i \<Rightarrow> i)) a d"

definition file_prepare :: "nat \<Rightarrow> transaction_id \<Rightarrow> u64 \<Rightarrow> 'b file_io_data \<Rightarrow> 'b file_io_data outcome" where
  "file_prepare a t instant d = write_and_flush (TransactionPrepared t instant) a d"

definition file_commit :: "nat \<Rightarrow> transaction_id \<Rightarrow> u64 \<Rightarrow> 'b file_io_data \<Rightarrow> 'b file_io_data outcome" where
  "file_commit a t commit_instant d = write_and_flush (TransactionCommitted t commit_instant) a d"

definition file_current_flush_epoch :: "'b file_io_data \<Rightarrow> u64 option" where
  "file_current_flush_epoch d = nonzero (fd_flush_epoch d)"

definition file_check_io_completion ::
  "'b scc_bag \<Rightarrow> u64 option \<Rightarrow> waker \<Rightarrow> 'b file_io_data \<Rightarrow> 'b file_io_data \<times> bool" where
  "file_check_io_completion B expected_flush_epoch w d =
     (let expected = (case expected_flush_epoch of None \<Rightarrow> 0 | Some e \<Rightarrow> e);
          pushed = d\<lparr>fd_waker_bag := bag_push B w (fd_waker_bag d)\<rparr>
      in if expected = 0 then (pushed, False)
         else if expected \<le> fd_flush_epoch d then (d, True)
         else (pushed, expected \<le> fd_flush_epoch pushed))"

text \<open>The layer as an instance of the interface; \<^verbatim>\<open>participate\<close> is \<^verbatim>\<open>todo!()\<close>.\<close>

definition file_io :: "'b scc_bag \<Rightarrow> 'b file_io_data persistence_layer" where
  "file_io B =
     \<lparr>pl_wait_prepare_logging = True, pl_new_buffer = new_log_buffer,
      pl_participate = (\<lambda>_ _ _. Panic), pl_create = file_create, pl_delete = file_delete,
      pl_submit = file_submit, pl_discard = file_discard, pl_rewind = file_rewind,
      pl_prepare = file_prepare, pl_commit = file_commit,
      pl_current_flush_epoch = file_current_flush_epoch,
      pl_check_io_completion = file_check_io_completion B,
      pl_get_durable_flush_epoch = get_durable_flush_epoch\<rparr>"

section \<open>The I/O thread\<close>

text \<open>
  \<^verbatim>\<open>take_log_buffer_link\<close> takes the whole list of buffers and inverts the links, so that the
  oldest buffer comes first. The state of the loop is the current buffer and the next one.
\<close>

definition invert_body ::
  "u64 \<Rightarrow> 'b file_io_data \<times> nat \<times> nat option \<Rightarrow> (('b file_io_data \<times> nat \<times> nat option) \<times> nat flow) run" where
  "invert_body epoch = (\<lambda>(d, current, nxt).
     case nxt of
       None \<Rightarrow> returns ((d, current, None), Return current)
     | Some n \<Rightarrow>
         (case take_next n (set_durable_flush_epoch n epoch d) of
            (d, after) \<Rightarrow>
              let d = upd_buffer n (\<lambda>b. b\<lparr>lb_next := current\<rparr>) d in
              (case after of
                 Some m \<Rightarrow> returns ((d, n, Some m), Again)
               | None \<Rightarrow> returns ((d, current, None), Return n))))"

definition take_log_buffer_link :: "u64 \<Rightarrow> 'b file_io_data \<Rightarrow> ('b file_io_data \<times> nat option) run" where
  "take_log_buffer_link epoch d =
     (let head = fd_log_buffer_link d; d = d\<lparr>fd_log_buffer_link := 0\<rparr> in
      if head \<noteq> 0 then
        (case take_next head (set_durable_flush_epoch head epoch d) of
           (d, nxt) \<Rightarrow>
             bind_run (rust_loop (invert_body epoch) (d, head, nxt)) (\<lambda>((d, _), first).
               returns (d, Some first)))
      else returns (d, None))"

text \<open>What is written for one buffer: its bytes, then the end-of-journal record if asked for.\<close>

definition buffer_bytes :: "file_log_buffer \<Rightarrow> u8 list" where
  "buffer_bytes b =
     take (lb_pos b) (lb_buffer b) @
     (if lb_eoj_logging b then
        fst (write_record (if lb_submit_instant b = 0 then BufferDiscarded
                           else BufferSubmitted (lb_submit_instant b)) (replicate 8 0))
      else [])"

text \<open>
  A write that fails is repeated until it succeeds; \<open>faults\<close> gives the errors met by the writes
  at an offset before that.
\<close>

definition write_retry ::
  "(u64 \<Rightarrow> error list) \<Rightarrow> u8 list \<Rightarrow> u64 \<Rightarrow> 'b file_io_data \<Rightarrow> 'b file_io_data" where
  "write_retry faults bytes offset d =
     (let attempt = (\<lambda>fault d. d\<lparr>fd_log := fst (raf_write fault bytes offset (fd_log d))\<rparr>)
      in attempt None (foldl (\<lambda>d e. attempt (Some e) d) d (faults offset)))"

definition write_body ::
  "(u64 \<Rightarrow> error list) \<Rightarrow> 'b file_io_data \<times> nat \<times> u64 \<Rightarrow>
     (('b file_io_data \<times> nat \<times> u64) \<times> unit flow) run" where
  "write_body faults = (\<lambda>(d, a, log_offset).
     let b = fd_buffers d a;
         d = write_retry faults (take (lb_pos b) (lb_buffer b)) log_offset d;
         log_offset = log_offset + of_nat (lb_pos b);
         (d, log_offset) =
           (if lb_eoj_logging b then
              (let eoj = fst (write_record (if lb_submit_instant b = 0 then BufferDiscarded
                                else BufferSubmitted (lb_submit_instant b)) (replicate 8 0))
               in (write_retry faults eoj log_offset d, log_offset + of_nat (length eoj)))
            else (d, log_offset))
     in case take_next a d of
          (d, Some n) \<Rightarrow> returns ((d, n, log_offset), Again)
        | (d, None) \<Rightarrow> returns ((d, a, log_offset), Return ()))"

text \<open>\<^verbatim>\<open>waker_bag.pop_all(..)\<close>: every waker is taken out and invoked.\<close>

definition pop_all_body :: "'b scc_bag \<Rightarrow> 'b file_io_data \<Rightarrow> ('b file_io_data \<times> unit flow) run" where
  "pop_all_body B d =
     (case bag_pop B (fd_waker_bag d) of
        (b, Some w) \<Rightarrow> returns (d\<lparr>fd_waker_bag := b, fd_woken := fd_woken d @ [w]\<rparr>, Again)
      | (b, None) \<Rightarrow> returns (d\<lparr>fd_waker_bag := b\<rparr>, Return ()))"

definition process_log_buffer_batch ::
  "'b scc_bag \<Rightarrow> (u64 \<Rightarrow> error list) \<Rightarrow> 'b file_io_data \<times> u64 \<Rightarrow> ('b file_io_data \<times> u64) run" where
  "process_log_buffer_batch B faults = (\<lambda>(d, log_offset).
     let durable_flush_epoch = fd_flush_epoch d + 1 in
     bind_run (take_log_buffer_link durable_flush_epoch d) (\<lambda>(d, first).
       case first of
         None \<Rightarrow> returns (d, log_offset)
       | Some a \<Rightarrow>
           bind_run (rust_loop (write_body faults) (d, a, log_offset)) (\<lambda>((d, _, log_offset), _).
             bind_run (rust_loop (pop_all_body B) (d\<lparr>fd_flush_epoch := durable_flush_epoch\<rparr>)) (\<lambda>(d, _).
               returns (d, log_offset)))))"

text \<open>
  The same batch, one instruction at a time. The I/O thread holds no lock while it processes a batch:
  other threads flush buffers, poll for completions and register wakers in between. The program
  counter says what the thread does next: take the list, mark the first buffer with the epoch, mark
  and invert the next one, write one buffer, store the epoch, wake one waker. It carries the epoch of
  the batch and the buffers at hand.
\<close>

datatype batch_pc =
    Waiting
  | Taking u64
  | Marking u64 nat
  | Inverting u64 nat "nat option"
  | Writing u64 nat
  | Storing u64
  | Waking

definition batch_step ::
  "'b scc_bag \<Rightarrow> (u64 \<Rightarrow> error list) \<Rightarrow> batch_pc \<times> 'b file_io_data \<times> u64 \<Rightarrow>
     (batch_pc \<times> 'b file_io_data \<times> u64) run" where
  "batch_step B faults = (\<lambda>(pc, d, log_offset).
     case pc of
       Waiting \<Rightarrow> returns (Taking (fd_flush_epoch d + 1), d, log_offset)
     | Taking epoch \<Rightarrow>
         let head = fd_log_buffer_link d; d = d\<lparr>fd_log_buffer_link := 0\<rparr>
         in returns (if head \<noteq> 0 then Marking epoch head else Waiting, d, log_offset)
     | Marking epoch head \<Rightarrow>
         (case take_next head (set_durable_flush_epoch head epoch d) of
            (d, nxt) \<Rightarrow> returns (Inverting epoch head nxt, d, log_offset))
     | Inverting epoch current nxt \<Rightarrow>
         bind_run (invert_body epoch (d, current, nxt)) (\<lambda>((d, current, nxt), f).
           returns (case f of Again \<Rightarrow> Inverting epoch current nxt | Return first \<Rightarrow> Writing epoch first,
                    d, log_offset))
     | Writing epoch a \<Rightarrow>
         bind_run (write_body faults (d, a, log_offset)) (\<lambda>((d, a, log_offset), f).
           returns (case f of Again \<Rightarrow> Writing epoch a | Return _ \<Rightarrow> Storing epoch, d, log_offset))
     | Storing epoch \<Rightarrow> returns (Waking, d\<lparr>fd_flush_epoch := epoch\<rparr>, log_offset)
     | Waking \<Rightarrow>
         bind_run (pop_all_body B d) (\<lambda>(d, f).
           returns (case f of Again \<Rightarrow> Waking | Return _ \<Rightarrow> Waiting, d, log_offset)))"

section \<open>Reference definitions\<close>

text \<open>The list of buffers reached from an address through the links.\<close>

fun chain :: "'b file_io_data \<Rightarrow> nat \<Rightarrow> nat list \<Rightarrow> bool" where
  "chain d a [] = (a = 0)"
| "chain d a (x # xs) = (a = x \<and> x \<noteq> 0 \<and> chain d (lb_next (fd_buffers d x)) xs)"

text \<open>The objects a record stands for.\<close>

fun expand :: "log_record \<Rightarrow> object_id list" where
  "expand (JournalCreatedObjectSingle _ _ i) = [i]"
| "expand (JournalDeletedObjectSingle _ _ i) = [i]"
| "expand (JournalCreatedObjectRange _ _ i interval n) =
     map (\<lambda>k. i + of_nat k * ucast interval) [0..<unat n]"
| "expand (JournalDeletedObjectRange _ _ i interval n) =
     map (\<lambda>k. i + of_nat k * ucast interval) [0..<unat n]"
| "expand _ = []"

text \<open>The records \<^verbatim>\<open>create\<close> and \<^verbatim>\<open>delete\<close> write, and writing them one after the other.\<close>

fun compress ::
  "(object_id \<Rightarrow> log_record \<Rightarrow> log_record option) \<Rightarrow> (object_id \<Rightarrow> log_record) \<Rightarrow>
     log_record option \<Rightarrow> object_id list \<Rightarrow> log_record list" where
  "compress ext single None [] = []"
| "compress ext single (Some log) [] = [log]"
| "compress ext single None (oid # ids) = compress ext single (Some (single oid)) ids"
| "compress ext single (Some log) (oid # ids) =
     (case ext oid log of
        Some new_log \<Rightarrow> compress ext single (Some new_log) ids
      | None \<Rightarrow> log # compress ext single (Some (single oid)) ids)"

primrec emit_all :: "log_record list \<Rightarrow> 'b file_io_data \<times> nat \<Rightarrow> ('b file_io_data \<times> nat) outcome" where
  "emit_all [] s = Done s"
| "emit_all (r # rs) s = (case emit_record r s of Panic \<Rightarrow> Panic | Done s \<Rightarrow> emit_all rs s)"

text \<open>What the buffers of a journal hold so far, oldest first, the current one last.\<close>

definition written :: "'b file_io_data \<Rightarrow> nat \<Rightarrow> u8 list" where
  "written d a = take (lb_pos (fd_buffers d a)) (lb_buffer (fd_buffers d a))"

definition stream :: "'b file_io_data \<Rightarrow> nat list \<Rightarrow> nat \<Rightarrow> u8 list" where
  "stream d xs a = concat (map (written d) (rev xs)) @ written d a"

text \<open>A buffer that can still be written to.\<close>

definition open_buffer :: "'b file_io_data \<Rightarrow> nat \<Rightarrow> bool" where
  "open_buffer d a \<longleftrightarrow>
     a \<noteq> 0 \<and> a < fd_next_buffer d \<and> length (lb_buffer (fd_buffers d a)) = 32 \<and>
     lb_pos (fd_buffers d a) \<le> 32 \<and> \<not> lb_eoj_logging (fd_buffers d a) \<and>
     lb_submit_instant (fd_buffers d a) = 0 \<and> lb_durable_flush_epoch (fd_buffers d a) = 0"

text \<open>Adding a record to a buffer with room for it.\<close>

definition add_record :: "log_record \<Rightarrow> file_log_buffer \<Rightarrow> file_log_buffer" where
  "add_record r b =
     set_buffer_position (lb_pos b + record_size r)
       (b\<lparr>lb_buffer := take (lb_pos b) (lb_buffer b) @ encode r @
            drop (lb_pos b + record_size r) (lb_buffer b)\<rparr>)"

text \<open>
  The invariant of the layer: \<open>owned\<close> are the buffers held by journals and transactions, \<open>xs\<close> those
  in the list to be written to disk, the latest one first, \<open>ts\<close> those the I/O thread has taken from
  the list and not reported yet, and every other buffer is durable: its flush epoch has passed and its
  bytes are in the log file, which the I/O thread appends to.
\<close>

definition durable_buffer :: "'b file_io_data \<Rightarrow> nat \<Rightarrow> bool" where
  "durable_buffer d a \<longleftrightarrow>
     lb_durable_flush_epoch (fd_buffers d a) \<noteq> 0 \<and>
     lb_durable_flush_epoch (fd_buffers d a) \<le> fd_flush_epoch d \<and>
     sublist (buffer_bytes (fd_buffers d a)) (raf_file (fd_log d))"

definition closed_buffer :: "'b file_io_data \<Rightarrow> nat \<Rightarrow> bool" where
  "closed_buffer d a \<longleftrightarrow>
     a < fd_next_buffer d \<and> length (lb_buffer (fd_buffers d a)) = 32 \<and>
     lb_pos (fd_buffers d a) \<le> 32 \<and> lb_durable_flush_epoch (fd_buffers d a) = 0"

definition io_inv_taken :: "'b file_io_data \<Rightarrow> u64 \<Rightarrow> nat set \<Rightarrow> nat list \<Rightarrow> nat set \<Rightarrow> bool" where
  "io_inv_taken d log_offset owned xs ts \<longleftrightarrow>
     0 < fd_next_buffer d \<and> (\<forall>a \<in> owned. open_buffer d a) \<and>
     chain d (fd_log_buffer_link d) xs \<and> owned \<inter> set xs = {} \<and>
     (\<forall>a \<in> set xs. closed_buffer d a) \<and>
     (\<forall>a \<in> ts. 0 < a \<and> a < fd_next_buffer d \<and> a \<notin> owned \<and> a \<notin> set xs) \<and>
     (\<forall>a. 0 < a \<longrightarrow> a < fd_next_buffer d \<longrightarrow> a \<notin> owned \<longrightarrow> a \<notin> set xs \<longrightarrow> a \<notin> ts \<longrightarrow> durable_buffer d a) \<and>
     length (raf_file (fd_log d)) = unat log_offset"

text \<open>Between two batches no buffer is taken.\<close>

abbreviation io_inv :: "'b file_io_data \<Rightarrow> u64 \<Rightarrow> nat set \<Rightarrow> nat list \<Rightarrow> bool" where
  "io_inv d log_offset owned xs \<equiv> io_inv_taken d log_offset owned xs {}"

section \<open>Lemmas\<close>

lemma upd_buffer_simps [simp]:
  "fd_buffers (upd_buffer a f d) = (fd_buffers d)(a := f (fd_buffers d a))"
  "fd_next_buffer (upd_buffer a f d) = fd_next_buffer d"
  "fd_log_buffer_link (upd_buffer a f d) = fd_log_buffer_link d"
  "fd_flush_epoch (upd_buffer a f d) = fd_flush_epoch d"
  "fd_log (upd_buffer a f d) = fd_log d" "fd_waker_bag (upd_buffer a f d) = fd_waker_bag d"
  "fd_woken (upd_buffer a f d) = fd_woken d" "fd_tasks (upd_buffer a f d) = fd_tasks d"
  by (simp_all add: upd_buffer_def)

lemma chain_cong:
  "(\<And>x. x \<in> set xs \<Longrightarrow> lb_next (fd_buffers d' x) = lb_next (fd_buffers d x)) \<Longrightarrow>
     chain d' a xs = chain d a xs"
  by (induction xs arbitrary: a) auto

lemma chain_upd_other [simp]: "a \<notin> set xs \<Longrightarrow> chain (upd_buffer a f d) x xs = chain d x xs"
  by (rule chain_cong) auto

lemma chain_nonzero: "chain d a xs \<Longrightarrow> 0 \<notin> set xs"
  by (induction xs arbitrary: a) auto

subsection \<open>Compression\<close>

lemma log_objects_compress:
  "log_objects ext single cur ids s = emit_all (compress ext single cur ids) s"
proof (induction ids arbitrary: cur s)
  case Nil
  then show ?case by (cases cur) (auto split: outcome.splits)
next
  case (Cons oid ids)
  then show ?case by (cases cur) (auto split: option.splits outcome.splits)
qed

lemma unat_succ: "w \<noteq> - 1 \<Longrightarrow> unat (w + 1 :: 'a::len word) = Suc (unat w)"
  by (metis add.commute add.inverse_inverse eq_neg_iff_add_eq_0 unatSuc)

lemma ucast_u32: "(x :: u64) < 2 ^ 32 \<Longrightarrow> ucast (ucast x :: u32) = x"
  by (rule word_unat_eq_iff [THEN iffD2])
    (simp add: unsigned_ucast_eq word_less_nat_alt unsigned_take_bit_eq take_bit_nat_eq_self_iff)

lemma range_extend:
  assumes "n \<noteq> - 1" and "oid - start = ucast (interval :: u32) * ucast (n :: u32)"
  shows "map (\<lambda>k. start + of_nat k * ucast interval) [0..<unat (n + 1)] =
    map (\<lambda>k. start + of_nat k * ucast interval) [0..<unat n] @ [oid :: u64]"
proof -
  have "of_nat (unat n) = (ucast n :: u64)" by simp
  with assms(2) have "start + of_nat (unat n) * ucast interval = oid" by (simp add: algebra_simps)
  with unat_succ [OF assms(1)] show ?thesis by simp
qed

lemma range_two:
  assumes "oid - prev < 2 ^ 32"
  shows "map (\<lambda>k. prev + of_nat k * ucast (ucast (oid - prev) :: u32)) [0..<2] =
    [prev, oid :: u64]"
proof -
  have "[0..<2] = [0, 1 :: nat]" by (simp add: upt_rec)
  with ucast_u32 [OF assms] show ?thesis by simp
qed

lemma extend_created_expand:
  assumes "extend_created t j oid log = Some log'"
  shows "expand log' = expand log @ [oid]"
  using assms
  by (auto simp: extend_created_def checked_sub_def u32_try_from_def range_two range_extend
      split: log_record.splits if_splits)

lemma extend_deleted_expand:
  assumes "extend_deleted t j oid log = Some log'"
  shows "expand log' = expand log @ [oid]"
  using assms
  by (auto simp: extend_deleted_def checked_sub_def u32_try_from_def range_two range_extend
      split: log_record.splits if_splits)

lemma compress_expand:
  assumes "\<And>oid log log'. ext oid log = Some log' \<Longrightarrow> expand log' = expand log @ [oid]"
    and "\<And>oid. expand (single oid) = [oid]"
  shows "concat (map expand (compress ext single cur ids)) =
    (case cur of None \<Rightarrow> [] | Some log \<Rightarrow> expand log) @ ids"
proof (induction ids arbitrary: cur)
  case Nil
  then show ?case by (cases cur) auto
next
  case (Cons oid ids)
  then show ?case by (cases cur) (auto simp: assms split: option.splits)
qed

lemma compress_all:
  assumes "\<And>oid log log'. ext oid log = Some log' \<Longrightarrow> Q log'"
    and "\<And>oid. Q (single oid)" and "\<And>log. cur = Some log \<Longrightarrow> Q log"
    and "r \<in> set (compress ext single cur ids)"
  shows "Q r"
  using assms(3,4)
proof (induction ids arbitrary: cur)
  case Nil
  then show ?case by (cases cur) auto
next
  case (Cons oid ids)
  show ?case
  proof (cases cur)
    case None
    with Cons.prems(2) Cons.IH [of "Some (single oid)"] assms(2) show ?thesis by auto
  next
    case (Some log)
    show ?thesis
    proof (cases "ext oid log")
      case None
      with Some Cons.prems Cons.IH [of "Some (single oid)"] assms(2) show ?thesis by auto
    next
      case (Some log')
      with \<open>cur = Some log\<close> Cons.prems(2) Cons.IH [of "Some log'"] assms(1) show ?thesis by auto
    qed
  qed
qed

subsection \<open>Writing records\<close>

lemma lb_pos_set [simp]: "n < 256 \<Longrightarrow> lb_pos (set_buffer_position n b) = n"
  by (simp add: lb_pos_def set_buffer_position_def unat_of_nat)

lemma set_buffer_position_simps [simp]:
  "lb_buffer (set_buffer_position n b) = lb_buffer b"
  "lb_eoj_logging (set_buffer_position n b) = lb_eoj_logging b"
  "lb_submit_instant (set_buffer_position n b) = lb_submit_instant b"
  "lb_durable_flush_epoch (set_buffer_position n b) = lb_durable_flush_epoch b"
  "lb_next (set_buffer_position n b) = lb_next b"
  by (simp_all add: set_buffer_position_def)

lemma lb_pos_update [simp]:
  "lb_pos (b\<lparr>lb_next := n\<rparr>) = lb_pos b" "lb_pos (b\<lparr>lb_buffer := x\<rparr>) = lb_pos b"
  "lb_pos (b\<lparr>lb_eoj_logging := e\<rparr>) = lb_pos b" "lb_pos (b\<lparr>lb_submit_instant := i\<rparr>) = lb_pos b"
  "lb_pos (b\<lparr>lb_durable_flush_epoch := p\<rparr>) = lb_pos b"
  by (simp_all add: lb_pos_def)

lemma push_log_buffer_simps [simp]:
  "fd_log_buffer_link (push_log_buffer hs a d) = a"
  "fd_next_buffer (push_log_buffer hs a d) = fd_next_buffer d"
  "fd_buffers (push_log_buffer hs a d) =
     (fd_buffers d)(a := (fd_buffers d a)\<lparr>lb_next := fd_log_buffer_link d\<rparr>)"
  "fd_log (push_log_buffer hs a d) = fd_log d"
  "fd_flush_epoch (push_log_buffer hs a d) = fd_flush_epoch d"
  "fd_waker_bag (push_log_buffer hs a d) = fd_waker_bag d"
  "fd_woken (push_log_buffer hs a d) = fd_woken d"
proof -
  define d1 where "d1 = foldl (\<lambda>d head. upd_buffer a (\<lambda>b. b\<lparr>lb_next := head\<rparr>) d) d hs"
  have "\<exists>n. d1 = upd_buffer a (\<lambda>b. b\<lparr>lb_next := n\<rparr>) d"
    unfolding d1_def
  proof (induction hs rule: rev_induct)
    case Nil
    have "d = upd_buffer a (\<lambda>b. b\<lparr>lb_next := lb_next b\<rparr>) d" by (simp add: upd_buffer_def)
    then have "d = upd_buffer a (\<lambda>b. b\<lparr>lb_next := lb_next (fd_buffers d a)\<rparr>) d"
      by (simp add: upd_buffer_def)
    then show ?case by auto
  next
    case (snoc h hs)
    then show ?case by (auto simp: upd_buffer_def intro!: exI [of _ h])
  qed
  then obtain n where n: "d1 = upd_buffer a (\<lambda>b. b\<lparr>lb_next := n\<rparr>) d" by blast
  have p: "push_log_buffer hs a d =
    (upd_buffer a (\<lambda>b. b\<lparr>lb_next := fd_log_buffer_link d1\<rparr>) d1)\<lparr>fd_log_buffer_link := a\<rparr>"
    by (simp add: push_log_buffer_def Let_def d1_def)
  show "fd_log_buffer_link (push_log_buffer hs a d) = a"
    "fd_next_buffer (push_log_buffer hs a d) = fd_next_buffer d"
    "fd_buffers (push_log_buffer hs a d) =
       (fd_buffers d)(a := (fd_buffers d a)\<lparr>lb_next := fd_log_buffer_link d\<rparr>)"
    "fd_log (push_log_buffer hs a d) = fd_log d"
    "fd_flush_epoch (push_log_buffer hs a d) = fd_flush_epoch d"
    "fd_waker_bag (push_log_buffer hs a d) = fd_waker_bag d"
    "fd_woken (push_log_buffer hs a d) = fd_woken d"
    by (simp_all add: p n)
qed

lemma flush_simps [simp]:
  "fd_log_buffer_link (flush a d) = a" "fd_next_buffer (flush a d) = fd_next_buffer d"
  "fd_buffers (flush a d) = (fd_buffers d)(a := (fd_buffers d a)\<lparr>lb_next := fd_log_buffer_link d\<rparr>)"
  "fd_log (flush a d) = fd_log d" "fd_flush_epoch (flush a d) = fd_flush_epoch d"
  "fd_waker_bag (flush a d) = fd_waker_bag d" "fd_woken (flush a d) = fd_woken d"
  by (simp_all add: flush_def io_try_send_def)

lemma new_log_buffer_simps [simp]:
  "snd (new_log_buffer d) = fd_next_buffer d"
  "fd_next_buffer (fst (new_log_buffer d)) = Suc (fd_next_buffer d)"
  "fd_buffers (fst (new_log_buffer d)) = (fd_buffers d)(fd_next_buffer d := default_log_buffer)"
  "fd_log_buffer_link (fst (new_log_buffer d)) = fd_log_buffer_link d"
  "fd_log (fst (new_log_buffer d)) = fd_log d"
  "fd_flush_epoch (fst (new_log_buffer d)) = fd_flush_epoch d"
  by (simp_all add: new_log_buffer_def)

lemma chain_flush:
  "chain d (fd_log_buffer_link d) xs \<Longrightarrow> a \<noteq> 0 \<Longrightarrow> a \<notin> set xs \<Longrightarrow>
     chain (flush a d) (fd_log_buffer_link (flush a d)) (a # xs)"
  by (simp, subst chain_cong [of _ _ d]) auto

lemma write_to_buffer_fits:
  assumes "length (lb_buffer b) = 32" and "lb_pos b + record_size r \<le> 32"
  shows "write_to_buffer r b =
    (b\<lparr>lb_buffer := take (lb_pos b) (lb_buffer b) @ encode r @ drop (lb_pos b + record_size r) (lb_buffer b)\<rparr>,
     Some (record_size r))"
  using assms by (simp add: write_to_buffer_def write_record_fits add.commute)

lemma write_to_buffer_full:
  assumes "length (lb_buffer b) = 32" and "lb_pos b \<le> 32" and "\<not> lb_pos b + record_size r \<le> 32"
  shows "\<exists>rest. write_to_buffer r b =
    (b\<lparr>lb_buffer := take (lb_pos b) (lb_buffer b) @ rest\<rparr>, None) \<and> length rest = 32 - lb_pos b"
proof -
  let ?buffer = "drop (lb_pos b) (lb_buffer b)"
  have "snd (write_record r ?buffer) = None" using assms by (intro write_record_short) simp
  then show ?thesis
    using length_write_record [of r ?buffer] assms
    by (auto simp: write_to_buffer_def split: prod.splits)
qed

lemma default_buffer_simps [simp]:
  "length (lb_buffer default_log_buffer) = 32" "lb_pos default_log_buffer = 0"
  "lb_next default_log_buffer = 0" "\<not> lb_eoj_logging default_log_buffer"
  "lb_submit_instant default_log_buffer = 0" "lb_durable_flush_epoch default_log_buffer = 0"
  by (simp_all add: default_log_buffer_def lb_pos_def)

lemma add_record_simps:
  assumes "length (lb_buffer b) = 32" and "lb_pos b + record_size r \<le> 32"
  shows "length (lb_buffer (add_record r b)) = 32"
    and "lb_pos (add_record r b) = lb_pos b + record_size r"
    and "take (lb_pos (add_record r b)) (lb_buffer (add_record r b)) =
      take (lb_pos b) (lb_buffer b) @ encode r"
    and "lb_next (add_record r b) = lb_next b"
    and "lb_eoj_logging (add_record r b) = lb_eoj_logging b"
    and "lb_submit_instant (add_record r b) = lb_submit_instant b"
    and "lb_durable_flush_epoch (add_record r b) = lb_durable_flush_epoch b"
  using assms by (simp_all add: add_record_def)

lemma open_closed: "open_buffer d a \<Longrightarrow> closed_buffer d a"
  by (simp add: open_buffer_def closed_buffer_def)

lemma open_cong:
  "open_buffer d a \<Longrightarrow> fd_buffers d' a = fd_buffers d a \<Longrightarrow> fd_next_buffer d \<le> fd_next_buffer d' \<Longrightarrow>
     open_buffer d' a"
  by (auto simp: open_buffer_def)

lemma closed_cong:
  "closed_buffer d a \<Longrightarrow> fd_buffers d' a = fd_buffers d a \<Longrightarrow> fd_next_buffer d \<le> fd_next_buffer d' \<Longrightarrow>
     closed_buffer d' a"
  by (auto simp: closed_buffer_def)

lemma durable_cong:
  "durable_buffer d a \<Longrightarrow> fd_buffers d' a = fd_buffers d a \<Longrightarrow> fd_flush_epoch d' = fd_flush_epoch d \<Longrightarrow>
     fd_log d' = fd_log d \<Longrightarrow> durable_buffer d' a"
  by (auto simp: durable_buffer_def)

lemma io_takenD:
  assumes "io_inv_taken d off owned xs ts"
  shows "0 < fd_next_buffer d" and "\<And>a. a \<in> owned \<Longrightarrow> open_buffer d a"
    and "chain d (fd_log_buffer_link d) xs" and "\<And>a. a \<in> owned \<Longrightarrow> a \<notin> set xs"
    and "\<And>a. a \<in> set xs \<Longrightarrow> closed_buffer d a"
    and "\<And>a. 0 < a \<Longrightarrow> a < fd_next_buffer d \<Longrightarrow> a \<notin> owned \<Longrightarrow> a \<notin> set xs \<Longrightarrow> a \<notin> ts \<Longrightarrow> durable_buffer d a"
    and "length (raf_file (fd_log d)) = unat off"
    and "\<And>a. a \<in> ts \<Longrightarrow> 0 < a" "\<And>a. a \<in> ts \<Longrightarrow> a < fd_next_buffer d" "\<And>a. a \<in> ts \<Longrightarrow> a \<notin> owned"
      "\<And>a. a \<in> ts \<Longrightarrow> a \<notin> set xs"
  using assms by (auto simp: io_inv_taken_def)

lemma io_invD:
  assumes "io_inv d off owned xs"
  shows "0 < fd_next_buffer d" and "\<And>a. a \<in> owned \<Longrightarrow> open_buffer d a"
    and "chain d (fd_log_buffer_link d) xs" and "\<And>a. a \<in> owned \<Longrightarrow> a \<notin> set xs"
    and "\<And>a. a \<in> set xs \<Longrightarrow> closed_buffer d a"
    and "\<And>a. 0 < a \<Longrightarrow> a < fd_next_buffer d \<Longrightarrow> a \<notin> owned \<Longrightarrow> a \<notin> set xs \<Longrightarrow> durable_buffer d a"
    and "length (raf_file (fd_log d)) = unat off"
  using io_takenD [OF assms] by auto

text \<open>Changing one buffer at most, or adding new ones.\<close>

lemma io_inv_change:
  assumes inv: "io_inv_taken d off owned xs ts" and a: "a \<notin> set xs" "a \<notin> ts"
    and same: "\<And>x. x \<noteq> a \<Longrightarrow> x < fd_next_buffer d \<Longrightarrow> fd_buffers d' x = fd_buffers d x"
    and mono: "fd_next_buffer d \<le> fd_next_buffer d'"
    and log: "fd_flush_epoch d' = fd_flush_epoch d" "fd_log d' = fd_log d"
    and owned: "\<And>x. x \<in> owned' \<Longrightarrow> x \<in> owned - {a} \<or> open_buffer d' x"
    and xs: "\<And>x. x \<in> set xs' \<Longrightarrow> x \<in> set xs \<or> closed_buffer d' x"
    and chain: "chain d' (fd_log_buffer_link d') xs'" and disj: "owned' \<inter> set xs' = {}"
    and covers: "\<And>x. 0 < x \<Longrightarrow> x < fd_next_buffer d' \<Longrightarrow> x \<notin> owned' \<Longrightarrow> x \<notin> set xs' \<Longrightarrow>
      x < fd_next_buffer d \<and> x \<noteq> a \<and> x \<notin> owned \<and> x \<notin> set xs"
    and taken: "\<And>x. x \<in> ts \<Longrightarrow> x \<notin> owned' \<and> x \<notin> set xs'"
  shows "io_inv_taken d' off owned' xs' ts"
  unfolding io_inv_taken_def
proof (intro conjI ballI allI impI)
  note I = io_takenD [OF inv]
  show "0 < fd_next_buffer d'" using I(1) mono by simp
  show "chain d' (fd_log_buffer_link d') xs'" by fact
  show "owned' \<inter> set xs' = {}" by fact
  show "length (raf_file (fd_log d')) = unat off" using I(7) log by simp
  show "open_buffer d' x" if "x \<in> owned'" for x
    using owned [OF that] I(2) [of x] same [of x] mono by (auto intro: open_cong simp: open_buffer_def)
  show "0 < x" "x < fd_next_buffer d'" "x \<notin> owned'" "x \<notin> set xs'" if "x \<in> ts" for x
    using I(8,9) [OF that] taken [OF that] mono by auto
  show "closed_buffer d' x" if "x \<in> set xs'" for x
  proof (cases "x \<in> set xs")
    case True
    with a have "x \<noteq> a" by blast
    with I(5) [OF True] same [of x] mono show ?thesis by (simp add: closed_buffer_def)
  qed (use xs [OF that] in blast)
  show "durable_buffer d' x"
    if "0 < x" "x < fd_next_buffer d'" "x \<notin> owned'" "x \<notin> set xs'" "x \<notin> ts" for x
    using covers [OF that(1-4)] I(6) [of x] same [of x] log that by (auto simp: durable_buffer_def)
qed

lemma io_inv_update:
  assumes inv: "io_inv_taken d off owned xs ts" and a: "a \<in> owned"
    and "open_buffer (upd_buffer a f d) a"
  shows "io_inv_taken (upd_buffer a f d) off owned xs ts"
proof (rule io_inv_change [OF inv, of a])
  note I = io_takenD [OF inv]
  show "a \<notin> set xs" using I(4) [OF a] .
  then show "chain (upd_buffer a f d) (fd_log_buffer_link (upd_buffer a f d)) xs" using I(3) by simp
  show "owned \<inter> set xs = {}" using I(4) by blast
qed (use assms io_takenD(8-11) [OF inv] in auto)

lemma io_inv_new:
  assumes inv: "io_inv_taken d off owned xs ts"
  shows "io_inv_taken (fst (new_log_buffer d)) off (insert (fd_next_buffer d) owned) xs ts"
proof (rule io_inv_change [OF inv, of 0])
  note I = io_takenD [OF inv]
  show "0 \<notin> set xs" using chain_nonzero [OF I(3)] .
  have new: "fd_next_buffer d \<notin> set xs" using I(5) by (auto simp: closed_buffer_def)
  then show "insert (fd_next_buffer d) owned \<inter> set xs = {}" using I(4) by auto
  show "chain (fst (new_log_buffer d)) (fd_log_buffer_link (fst (new_log_buffer d))) xs"
    using I(3) new by (subst chain_cong [of _ _ d]) auto
  show "x \<in> owned - {0} \<or> open_buffer (fst (new_log_buffer d)) x"
    if "x \<in> insert (fd_next_buffer d) owned" for x
    using that I(1) I(2) [of x] by (auto simp: open_buffer_def)
qed (use io_takenD(8-11) [OF inv] in auto)

lemma io_inv_flush:
  assumes inv: "io_inv_taken d off owned xs ts" and a: "a \<in> owned"
    and closed: "closed_buffer (upd_buffer a f d) a"
  shows "io_inv_taken (flush a (upd_buffer a f d)) off (owned - {a}) (a # xs) ts"
proof (rule io_inv_change [OF inv, of a])
  note I = io_takenD [OF inv]
  show a': "a \<notin> set xs" using I(4) [OF a] .
  show "(owned - {a}) \<inter> set (a # xs) = {}" using I(4) by auto
  have "a \<noteq> 0" using I(2) [OF a] by (simp add: open_buffer_def)
  then show "chain (flush a (upd_buffer a f d)) (fd_log_buffer_link (flush a (upd_buffer a f d))) (a # xs)"
    using I(3) a' by (intro chain_flush) auto
  show "x \<in> set xs \<or> closed_buffer (flush a (upd_buffer a f d)) x" if "x \<in> set (a # xs)" for x
    using that closed by (auto simp: closed_buffer_def)
qed (use assms io_takenD(8-11) [OF inv] in auto)

lemma emit_record_ok:
  assumes inv: "io_inv_taken d off owned xs ts" and a: "a \<in> owned"
  obtains d' a' ys where "emit_record r (d, a) = Done (d', a')"
    and "io_inv_taken d' off (insert a' (owned - {a})) (ys @ xs) ts"
    and "stream d' ys a' = written d a @ encode r"
    and "\<forall>y \<in> set ys. \<not> lb_eoj_logging (fd_buffers d' y)"
    and "\<forall>x. x < fd_next_buffer d \<longrightarrow> x \<noteq> a \<longrightarrow> fd_buffers d' x = fd_buffers d x"
    and "a' \<in> insert a {fd_next_buffer d ..}" and "set ys \<subseteq> insert a {fd_next_buffer d ..}"
    and "fd_next_buffer d \<le> fd_next_buffer d'" and "a \<in> set ys \<or> a' = a"
proof -
  let ?b = "fd_buffers d a"
  have o: "open_buffer d a" using io_takenD(2) [OF inv a] .
  then have b: "length (lb_buffer ?b) = 32" "lb_pos ?b \<le> 32" and lt: "a < fd_next_buffer d"
    by (auto simp: open_buffer_def)
  show thesis
  proof (cases "lb_pos ?b + record_size r \<le> 32")
    case True
    let ?d = "upd_buffer a (\<lambda>_. add_record r ?b) d"
    have "emit_record r (d, a) = Done (?d, a)"
      by (simp add: emit_record_def write_to_buffer_fits [OF b(1) True] add_record_def)
    moreover have "open_buffer ?d a"
      using o True by (simp add: open_buffer_def add_record_simps)
    with inv a have "io_inv_taken ?d off owned xs ts" by (rule io_inv_update)
    with a have "io_inv_taken ?d off (insert a (owned - {a})) ([] @ xs) ts" by (simp add: insert_absorb)
    moreover have "stream ?d [] a = written d a @ encode r"
      by (simp add: stream_def written_def add_record_simps(3) [OF b(1) True])
    ultimately show thesis by (rule that) auto
  next
    case False
    then obtain rest where w: "write_to_buffer r ?b =
        (?b\<lparr>lb_buffer := take (lb_pos ?b) (lb_buffer ?b) @ rest\<rparr>, None)" and rest: "length rest = 32 - lb_pos ?b"
      using write_to_buffer_full [OF b] by blast
    define b' where "b' = ?b\<lparr>lb_buffer := take (lb_pos ?b) (lb_buffer ?b) @ rest\<rparr>"
    define d1 where "d1 = upd_buffer a (\<lambda>_. b') d"
    define n where "n = fd_next_buffer d"
    define d2 where "d2 = fst (new_log_buffer d1)"
    define d3 where "d3 = flush a d2"
    define d4 where "d4 = upd_buffer n (\<lambda>_. add_record r default_log_buffer) d3"
    have fits: "lb_pos default_log_buffer + record_size r \<le> 32" using record_size_le by simp
    have n: "n \<noteq> a" "fd_next_buffer d1 = n" using lt by (auto simp: n_def d1_def)
    have new: "new_log_buffer d1 = (d2, n)" by (simp add: d2_def new_log_buffer_def n)
    have buf: "fd_buffers d2 n = default_log_buffer" using n by (simp add: d2_def)
    have 1: "emit_record r (d, a) = Done (d4, n)"
      by (simp add: emit_record_def w b'_def [symmetric] d1_def [symmetric] new buf n(1) d3_def [symmetric]
          write_to_buffer_fits [OF default_buffer_simps(1) fits] d4_def add_record_def)
    have "open_buffer d1 a" using o b rest by (simp add: open_buffer_def d1_def b'_def)
    with inv a have "io_inv_taken d1 off owned xs ts" unfolding d1_def by (intro io_inv_update)
    from io_inv_new [OF this] have i2: "io_inv_taken d2 off (insert n owned) xs ts" by (simp add: d2_def n)
    have "closed_buffer d2 a"
      using io_takenD(2) [OF i2, of a] a by (simp add: open_closed)
    then have "closed_buffer (upd_buffer a (\<lambda>b. b) d2) a" by (simp add: closed_buffer_def)
    from io_inv_flush [OF i2 _ this] a
    have "io_inv_taken (flush a (upd_buffer a (\<lambda>b. b) d2)) off (insert n owned - {a}) (a # xs) ts" by simp
    moreover have "upd_buffer a (\<lambda>b. b) d2 = d2" by (simp add: upd_buffer_def)
    ultimately have i3: "io_inv_taken d3 off (insert n (owned - {a})) (a # xs) ts"
      using n(1) by (simp add: d3_def insert_Diff_if)
    have "open_buffer d3 n" using io_takenD(2) [OF i3] by simp
    then have "open_buffer d4 n"
      using fits by (simp add: open_buffer_def d4_def add_record_simps)
    with i3 have 2: "io_inv_taken d4 off (insert n (owned - {a})) ([a] @ xs) ts"
      unfolding d4_def by (auto intro: io_inv_update)
    have 3: "fd_buffers d4 a = b'\<lparr>lb_next := fd_log_buffer_link d2\<rparr>"
      using n by (simp add: d4_def d3_def d2_def d1_def)
    have "stream d4 [a] n = written d a @ encode r"
      using b rest add_record_simps(3) [OF default_buffer_simps(1) fits]
      by (simp add: stream_def written_def 3 b'_def) (simp add: d4_def)
    from 1 2 this show thesis
      by (rule that)
        (use o n in \<open>auto simp: 3 b'_def open_buffer_def d4_def d3_def d2_def d1_def n_def\<close>)
  qed
qed

text \<open>Writing a list of records appends their encodings, in order, to what the journal wrote.\<close>

lemma emit_all_ok:
  assumes inv: "io_inv_taken d off owned xs ts" and a: "a \<in> owned"
  obtains d' a' ys where "emit_all rs (d, a) = Done (d', a')"
    and "io_inv_taken d' off (insert a' (owned - {a})) (ys @ xs) ts"
    and "stream d' ys a' = written d a @ concat (map encode rs)"
    and "\<forall>y \<in> set ys. \<not> lb_eoj_logging (fd_buffers d' y)"
    and "\<forall>x. x < fd_next_buffer d \<longrightarrow> x \<noteq> a \<longrightarrow> fd_buffers d' x = fd_buffers d x"
    and "a' \<in> insert a {fd_next_buffer d ..}" and "set ys \<subseteq> insert a {fd_next_buffer d ..}"
    and "fd_next_buffer d \<le> fd_next_buffer d'" and "a \<in> set ys \<or> a' = a"
  using assms
proof (induction rs arbitrary: d a owned xs thesis)
  case Nil
  from Nil.prems(2,3) show ?case
    by (intro Nil.prems(1) [of d a "[]"]) (simp_all add: stream_def insert_absorb)
next
  case (Cons r rs)
  obtain d1 a1 ys where e: "emit_record r (d, a) = Done (d1, a1)"
    and i1: "io_inv_taken d1 off (insert a1 (owned - {a})) (ys @ xs) ts"
    and st1: "stream d1 ys a1 = written d a @ encode r"
    and eoj1: "\<forall>y \<in> set ys. \<not> lb_eoj_logging (fd_buffers d1 y)"
    and fr1: "\<forall>x. x < fd_next_buffer d \<longrightarrow> x \<noteq> a \<longrightarrow> fd_buffers d1 x = fd_buffers d x"
    and a1: "a1 \<in> insert a {fd_next_buffer d ..}" and ys: "set ys \<subseteq> insert a {fd_next_buffer d ..}"
    and n1: "fd_next_buffer d \<le> fd_next_buffer d1" and or1: "a \<in> set ys \<or> a1 = a"
    using emit_record_ok [OF Cons.prems(2,3), of r] .
  obtain d2 a2 zs where e2: "emit_all rs (d1, a1) = Done (d2, a2)"
    and i2: "io_inv_taken d2 off (insert a2 (insert a1 (owned - {a}) - {a1})) (zs @ ys @ xs) ts"
    and st2: "stream d2 zs a2 = written d1 a1 @ concat (map encode rs)"
    and eoj2: "\<forall>y \<in> set zs. \<not> lb_eoj_logging (fd_buffers d2 y)"
    and fr2: "\<forall>x. x < fd_next_buffer d1 \<longrightarrow> x \<noteq> a1 \<longrightarrow> fd_buffers d2 x = fd_buffers d1 x"
    and a2: "a2 \<in> insert a1 {fd_next_buffer d1 ..}" and zs: "set zs \<subseteq> insert a1 {fd_next_buffer d1 ..}"
    and n2: "fd_next_buffer d1 \<le> fd_next_buffer d2" and or2: "a1 \<in> set zs \<or> a2 = a1"
    using Cons.IH [OF _ i1, of a1] by blast
  have lt: "a < fd_next_buffer d" using io_takenD(2) [OF Cons.prems(2,3)] by (simp add: open_buffer_def)
  have own: "insert a1 (owned - {a}) - {a1} = owned - {a}"
    using a1 io_takenD(2) [OF Cons.prems(2), of a1] by (auto simp: open_buffer_def)
  have keep: "fd_buffers d2 y = fd_buffers d1 y" if "y \<in> set ys" for y
  proof -
    have "y < fd_next_buffer d1" using io_takenD(5) [OF i1, of y] that by (simp add: closed_buffer_def)
    moreover have "y \<noteq> a1" using io_takenD(4) [OF i1, of a1] that by auto
    ultimately show ?thesis using fr2 by blast
  qed
  then have "concat (map (written d2) (rev ys)) = concat (map (written d1) (rev ys))"
    by (intro arg_cong [of _ _ concat] map_cong refl) (simp add: written_def)
  with st1 st2 have st: "stream d2 (zs @ ys) a2 = written d a @ concat (map encode (r # rs))"
    by (simp add: stream_def)
  have fr: "fd_buffers d2 x = fd_buffers d x" if "x < fd_next_buffer d" "x \<noteq> a" for x
    using that fr1 fr2 n1 a1 by auto
  show ?case
  proof (rule Cons.prems(1) [of d2 a2 "zs @ ys"])
    show "emit_all (r # rs) (d, a) = Done (d2, a2)" using e e2 by simp
    show "io_inv_taken d2 off (insert a2 (owned - {a})) ((zs @ ys) @ xs) ts" using i2 own by simp
    show "stream d2 (zs @ ys) a2 = written d a @ concat (map encode (r # rs))" by (rule st)
    show "\<forall>y \<in> set (zs @ ys). \<not> lb_eoj_logging (fd_buffers d2 y)" using eoj1 eoj2 keep by auto
    show "\<forall>x. x < fd_next_buffer d \<longrightarrow> x \<noteq> a \<longrightarrow> fd_buffers d2 x = fd_buffers d x"
      using fr by blast
    show "a2 \<in> insert a {fd_next_buffer d ..}" using a1 a2 n1 by auto
    show "set (zs @ ys) \<subseteq> insert a {fd_next_buffer d ..}" using a1 ys zs n1 by auto
    show "fd_next_buffer d \<le> fd_next_buffer d2" using n1 n2 by simp
    show "a \<in> set (zs @ ys) \<or> a2 = a" using or1 or2 by auto
  qed
qed

subsection \<open>The I/O thread\<close>

lemma chain_functional: "chain d a xs \<Longrightarrow> chain d a ys \<Longrightarrow> xs = ys"
proof (induction xs arbitrary: a ys)
  case Nil
  then show ?case by (cases ys) auto
next
  case (Cons x xs)
  then show ?case by (cases ys) auto
qed

lemma chain_suffix: "chain d a (us @ x # vs) \<Longrightarrow> chain d x (x # vs)"
  by (induction us arbitrary: a) auto

lemma chain_distinct: "chain d a xs \<Longrightarrow> distinct xs"
proof (induction xs arbitrary: a)
  case (Cons x xs)
  have "x \<notin> set xs"
  proof
    assume "x \<in> set xs"
    then obtain us vs where xs: "xs = us @ x # vs" by (auto simp: in_set_conv_decomp)
    from Cons.prems have "chain d x (x # xs)" by simp
    moreover from Cons.prems xs have "chain d x (x # vs)" using chain_suffix [of d a "x # us" x vs] by simp
    ultimately have "x # xs = x # vs" by (rule chain_functional)
    with xs show False by simp
  qed
  with Cons show ?case by auto
qed simp

text \<open>The I/O thread changes the link and the epoch of a buffer only.\<close>

lemma same_bytes:
  "b'\<lparr>lb_next := 0, lb_durable_flush_epoch := 0\<rparr> = b\<lparr>lb_next := 0, lb_durable_flush_epoch := 0\<rparr> \<Longrightarrow>
     buffer_bytes b' = buffer_bytes b"
  by (cases b; cases b') (simp add: buffer_bytes_def lb_pos_def)

lemma update_commute:
  "b\<lparr>lb_durable_flush_epoch := e, lb_next := n\<rparr> = b\<lparr>lb_next := n, lb_durable_flush_epoch := e\<rparr>"
  by (cases b) simp

lemma take_next_chain:
  assumes "chain d (lb_next (fd_buffers d a)) xs"
  shows "take_next a d =
    (if xs = [] then (d, None) else (upd_buffer a (\<lambda>b. b\<lparr>lb_next := 0\<rparr>) d, Some (hd xs)))"
  using assms by (cases xs) (auto simp: take_next_def)

lemma invert_body_step:
  assumes "chain d n (n # rest)"
  shows "invert_body e (d, current, Some n) =
      (let d' = d\<lparr>fd_buffers := (fd_buffers d)(n := (fd_buffers d n)\<lparr>lb_next := current, lb_durable_flush_epoch := e\<rparr>)\<rparr>
       in if rest = [] then returns ((d', current, None), Return n) else returns ((d', n, Some (hd rest)), Again))"
proof -
  let ?e = "set_durable_flush_epoch n e d"
  have "n \<notin> set rest" using chain_distinct [OF assms] by simp
  then have "chain ?e (lb_next (fd_buffers ?e n)) rest"
    using assms by (simp add: set_durable_flush_epoch_def)
  then show ?thesis
    by (simp add: invert_body_def take_next_chain)
      (simp add: set_durable_flush_epoch_def upd_buffer_def update_commute)
qed

lemma invert_loop:
  assumes "chain d n rem" and "rem \<noteq> []" and "chain d current acc" and "acc \<noteq> []"
    and "distinct (rem @ acc)"
  shows "\<exists>bs s first. rust_loop (invert_body e) (d, current, Some n) =
      returns ((d\<lparr>fd_buffers := bs\<rparr>, s), first) \<and> chain (d\<lparr>fd_buffers := bs\<rparr>) first (rev rem @ acc) \<and>
      (\<forall>x \<in> set rem. bs x = (fd_buffers d x)\<lparr>lb_next := lb_next (bs x), lb_durable_flush_epoch := e\<rparr>) \<and>
      (\<forall>x. x \<notin> set rem \<longrightarrow> bs x = fd_buffers d x)"
  using assms
proof (induction rem arbitrary: d n current acc)
  case (Cons m rest)
  then have [simp]: "m = n" and n: "n \<noteq> 0" "n \<notin> set rest" "n \<notin> set acc" and current: "current = hd acc"
    by (cases acc; auto)+
  let ?b = "(fd_buffers d n)\<lparr>lb_next := current, lb_durable_flush_epoch := e\<rparr>"
  let ?d = "d\<lparr>fd_buffers := (fd_buffers d)(n := ?b)\<rparr>"
  have body: "invert_body e (d, current, Some n) =
      (if rest = [] then returns ((?d, current, None), Return n)
       else returns ((?d, n, Some (hd rest)), Again))"
    using invert_body_step [of d n rest e current] Cons.prems(1) by simp
  have c: "chain ?d n (n # acc)"
    using Cons.prems(3) n by (simp, subst chain_cong [of _ _ d]) auto
  show ?case
  proof (cases "rest = []")
    case True
    then have "rust_loop (invert_body e) (d, current, Some n) = returns ((?d, current, None), n)"
      using body by (simp add: rust_loop.simps)
    with True c show ?thesis
      by (intro exI [of _ "(fd_buffers d)(n := ?b)"] exI [of _ "(current, None)"] exI [of _ n])
        (simp del: fun_upd_apply add: fun_upd_same fun_upd_other)
  next
    case False
    have "chain ?d (hd rest) rest"
      using Cons.prems(1) False n by (subst chain_cong [of _ _ d]) (cases rest; auto)+
    from Cons.IH [OF this False c] Cons.prems(5)
    obtain bs s first where r: "rust_loop (invert_body e) (?d, n, Some (hd rest)) =
        returns ((?d\<lparr>fd_buffers := bs\<rparr>, s), first)"
      and ch: "chain (?d\<lparr>fd_buffers := bs\<rparr>) first (rev rest @ n # acc)"
      and set: "\<forall>x \<in> set rest. bs x = (fd_buffers ?d x)\<lparr>lb_next := lb_next (bs x), lb_durable_flush_epoch := e\<rparr>"
      and other: "\<forall>x. x \<notin> set rest \<longrightarrow> bs x = fd_buffers ?d x"
      by auto
    have "rust_loop (invert_body e) (d, current, Some n) = returns ((d\<lparr>fd_buffers := bs\<rparr>, s), first)"
      using r body False by (simp add: rust_loop.simps [of _ "(d, current, Some n)"])
    moreover have "chain (d\<lparr>fd_buffers := bs\<rparr>) first (rev (m # rest) @ acc)" using ch by simp
    moreover have "bs x = (fd_buffers d x)\<lparr>lb_next := lb_next (bs x), lb_durable_flush_epoch := e\<rparr>"
      if "x \<in> set (m # rest)" for x
      using that set other n by (cases "x = n") auto
    moreover have "bs x = fd_buffers d x" if "x \<notin> set (m # rest)" for x
      using that other by simp
    ultimately show ?thesis by blast
  qed
qed simp

lemma take_log_buffer_link_ok:
  assumes chain: "chain d (fd_log_buffer_link d) xs"
  shows "\<exists>bs. take_log_buffer_link e d =
      returns (d\<lparr>fd_log_buffer_link := 0, fd_buffers := bs\<rparr>, if xs = [] then None else Some (last xs)) \<and>
      (xs \<noteq> [] \<longrightarrow> chain (d\<lparr>fd_log_buffer_link := 0, fd_buffers := bs\<rparr>) (last xs) (rev xs)) \<and>
      (\<forall>x \<in> set xs. bs x = (fd_buffers d x)\<lparr>lb_next := lb_next (bs x), lb_durable_flush_epoch := e\<rparr>) \<and>
      (\<forall>x. x \<notin> set xs \<longrightarrow> bs x = fd_buffers d x)"
proof (cases xs)
  case Nil
  with chain have "take_log_buffer_link e d = returns (d\<lparr>fd_log_buffer_link := 0, fd_buffers := fd_buffers d\<rparr>, None)"
    by (simp add: take_log_buffer_link_def)
  with Nil show ?thesis by (intro exI [of _ "fd_buffers d"]) simp
next
  case (Cons h rest)
  have h: "fd_log_buffer_link d = h" "h \<noteq> 0" "h \<notin> set rest" "distinct rest"
    using chain chain_distinct [OF chain] by (auto simp: Cons)
  let ?d0 = "set_durable_flush_epoch h e (d\<lparr>fd_log_buffer_link := 0\<rparr>)"
  have c0: "chain ?d0 (lb_next (fd_buffers ?d0 h)) rest"
    using chain h by (simp add: Cons set_durable_flush_epoch_def)
      (subst chain_cong [of _ _ d], auto)
  let ?bs1 = "(fd_buffers d)(h := (fd_buffers d h)\<lparr>lb_next := 0, lb_durable_flush_epoch := e\<rparr>)"
  let ?d1 = "d\<lparr>fd_log_buffer_link := 0, fd_buffers := ?bs1\<rparr>"
  show ?thesis
  proof (cases "rest = []")
    case True
    have "lb_next (fd_buffers d h) = 0" using chain by (simp add: Cons True)
    then have "(fd_buffers d h)\<lparr>lb_next := 0\<rparr> = fd_buffers d h" by (cases "fd_buffers d h") simp
    then have d0: "?d0 = ?d1" by (simp add: set_durable_flush_epoch_def upd_buffer_def)
    have "rust_loop (invert_body e) (?d1, h, None) = returns ((?d1, h, None), h)"
      by (subst rust_loop.simps) (simp add: invert_body_def)
    then have "take_log_buffer_link e d = returns (?d1, Some h)"
      using h by (simp add: take_log_buffer_link_def Let_def take_next_chain [OF c0] True) (simp add: d0)
    then show ?thesis
      using h by (intro exI [of _ ?bs1]) (simp add: Cons True)
  next
    case False
    have d1: "upd_buffer h (\<lambda>b. b\<lparr>lb_next := 0\<rparr>) ?d0 = ?d1"
      by (simp add: set_durable_flush_epoch_def upd_buffer_def update_commute)
    have "chain ?d1 (hd rest) rest"
      using chain False h by (subst chain_cong [of _ _ d]) (cases rest; auto simp: Cons)+
    moreover have "chain ?d1 h [h]" using h by simp
    ultimately obtain bs s first where r: "rust_loop (invert_body e) (?d1, h, Some (hd rest)) =
        returns ((?d1\<lparr>fd_buffers := bs\<rparr>, s), first)"
      and ch: "chain (?d1\<lparr>fd_buffers := bs\<rparr>) first (rev rest @ [h])"
      and set: "\<forall>x \<in> set rest. bs x = (?bs1 x)\<lparr>lb_next := lb_next (bs x), lb_durable_flush_epoch := e\<rparr>"
      and other: "\<forall>x. x \<notin> set rest \<longrightarrow> bs x = ?bs1 x"
      using invert_loop [of ?d1 "hd rest" rest h "[h]" e] False h by auto
    have "first = last xs" using ch False by (cases rest rule: rev_cases) (auto simp: Cons)
    then have "take_log_buffer_link e d = returns (d\<lparr>fd_log_buffer_link := 0, fd_buffers := bs\<rparr>, Some (last xs))"
      using h r False by (simp add: take_log_buffer_link_def Let_def take_next_chain [OF c0] d1)
    moreover have "bs x = (fd_buffers d x)\<lparr>lb_next := lb_next (bs x), lb_durable_flush_epoch := e\<rparr>"
      if "x \<in> set xs" for x
      using that set other h by (cases "x = h") (auto simp: Cons)
    moreover have "bs x = fd_buffers d x" if "x \<notin> set xs" for x
      using that other by (simp add: Cons)
    ultimately show ?thesis using ch \<open>first = last xs\<close> by (auto simp: Cons)
  qed
qed

lemma write_retry_eq:
  "write_retry faults bytes offset d = d\<lparr>fd_log := fst (raf_write None bytes offset (fd_log d))\<rparr>"
proof -
  have "foldl (\<lambda>d e. d\<lparr>fd_log := fst (raf_write (Some e) bytes offset (fd_log d))\<rparr>) d es = d" for es
    by (induction es arbitrary: d) (simp_all add: raf_write_def)
  then show ?thesis by (simp add: write_retry_def Let_def)
qed

lemma raf_write_append:
  "length (raf_file f) = unat offset \<Longrightarrow>
     raf_file (fst (raf_write None bytes offset f)) = raf_file f @ bytes"
  by (simp add: raf_write_def Let_def write_bytes_def)

lemma unat_add_of_nat: "unat a + n < 2 ^ 64 \<Longrightarrow> unat (a + of_nat n :: u64) = unat a + n"
  by (simp add: unat_word_ariths(1) unat_of_nat)

lemma write_body_step:
  assumes chain: "chain d a (a # xs)" and len: "length (raf_file (fd_log d)) = unat off"
    and fits: "unat off + length (buffer_bytes (fd_buffers d a)) < 2 ^ 64"
    and b: "lb_pos (fd_buffers d a) \<le> length (lb_buffer (fd_buffers d a))"
  obtains f where "write_body faults (d, a, off) =
      (let d' = d\<lparr>fd_log := f\<rparr>; off' = off + of_nat (length (buffer_bytes (fd_buffers d a)))
       in if xs = [] then returns ((d', a, off'), Return ())
          else returns ((upd_buffer a (\<lambda>b. b\<lparr>lb_next := 0\<rparr>) d', hd xs, off'), Again))"
    and "raf_file f = raf_file (fd_log d) @ buffer_bytes (fd_buffers d a)"
proof -
  let ?b = "fd_buffers d a"
  let ?part = "take (lb_pos ?b) (lb_buffer ?b)"
  let ?eoj = "fst (write_record (if lb_submit_instant ?b = 0 then BufferDiscarded
                     else BufferSubmitted (lb_submit_instant ?b)) (replicate 8 0))"
  let ?f1 = "fst (raf_write None ?part off (fd_log d))"
  let ?off1 = "off + of_nat (lb_pos ?b)"
  define f where "f = (if lb_eoj_logging ?b then fst (raf_write None ?eoj ?off1 ?f1) else ?f1)"
  have bytes: "length (buffer_bytes ?b) = lb_pos ?b + (if lb_eoj_logging ?b then length ?eoj else 0)"
    using b by (simp add: buffer_bytes_def)
  have f1: "raf_file ?f1 = raf_file (fd_log d) @ ?part" using len by (rule raf_write_append)
  have "unat ?off1 = unat off + lb_pos ?b" using fits bytes by (intro unat_add_of_nat) simp
  then have "length (raf_file ?f1) = unat ?off1" using f1 len b by simp
  from raf_write_append [OF this] f1 have "raf_file f = raf_file (fd_log d) @ buffer_bytes ?b"
    by (simp add: f_def buffer_bytes_def)
  moreover have c: "chain (d\<lparr>fd_log := f\<rparr>) (lb_next (fd_buffers (d\<lparr>fd_log := f\<rparr>) a)) xs"
    using chain by (simp, subst chain_cong [of _ _ d]) auto
  have "write_body faults (d, a, off) =
      (let d' = d\<lparr>fd_log := f\<rparr>; off' = off + of_nat (length (buffer_bytes ?b))
       in if xs = [] then returns ((d', a, off'), Return ())
          else returns ((upd_buffer a (\<lambda>b. b\<lparr>lb_next := 0\<rparr>) d', hd xs, off'), Again))"
    unfolding bytes
    using take_next_chain [OF c]
    by (cases "lb_eoj_logging ?b") (simp_all add: write_body_def Let_def write_retry_eq f_def add.assoc)
  ultimately show ?thesis by (intro that)
qed

lemma write_loop:
  assumes "chain d a xs" and "xs \<noteq> []" and "length (raf_file (fd_log d)) = unat off"
    and "unat off + length (concat (map (\<lambda>x. buffer_bytes (fd_buffers d x)) xs)) < 2 ^ 64"
    and "\<forall>x \<in> set xs. lb_pos (fd_buffers d x) \<le> length (lb_buffer (fd_buffers d x))"
  shows "\<exists>f bs a'. rust_loop (write_body faults) (d, a, off) =
      returns ((d\<lparr>fd_log := f, fd_buffers := bs\<rparr>, a',
        off + of_nat (length (concat (map (\<lambda>x. buffer_bytes (fd_buffers d x)) xs)))), ()) \<and>
      raf_file f = raf_file (fd_log d) @ concat (map (\<lambda>x. buffer_bytes (fd_buffers d x)) xs) \<and>
      (\<forall>x \<in> set xs. bs x = (fd_buffers d x)\<lparr>lb_next := 0\<rparr>) \<and>
      (\<forall>x. x \<notin> set xs \<longrightarrow> bs x = fd_buffers d x)"
  using assms
proof (induction xs arbitrary: d a off)
  case (Cons x xs)
  let ?bytes = "buffer_bytes (fd_buffers d a)"
  have [simp]: "x = a" and a: "a \<notin> set xs" using Cons.prems(1) chain_distinct by fastforce+
  obtain f where body: "write_body faults (d, a, off) =
      (let d' = d\<lparr>fd_log := f\<rparr>; off' = off + of_nat (length ?bytes)
       in if xs = [] then returns ((d', a, off'), Return ())
          else returns ((upd_buffer a (\<lambda>b. b\<lparr>lb_next := 0\<rparr>) d', hd xs, off'), Again))"
    and f: "raf_file f = raf_file (fd_log d) @ ?bytes"
    using write_body_step [of d a xs off faults] Cons.prems by auto
  let ?off = "off + of_nat (length ?bytes)"
  show ?case
  proof (cases "xs = []")
    case True
    have "lb_next (fd_buffers d a) = 0" using Cons.prems(1) by (simp add: True)
    then have "(fd_buffers d a)\<lparr>lb_next := 0\<rparr> = fd_buffers d a" by (cases "fd_buffers d a") simp
    moreover have "rust_loop (write_body faults) (d, a, off) =
        returns ((d\<lparr>fd_log := f, fd_buffers := fd_buffers d\<rparr>, a, ?off), ())"
      by (subst rust_loop.simps) (simp add: body True)
    ultimately show ?thesis using f True by (intro exI [of _ f] exI [of _ "fd_buffers d"] exI [of _ a]) simp
  next
    case False
    let ?bs1 = "(fd_buffers d)(a := (fd_buffers d a)\<lparr>lb_next := 0\<rparr>)"
    let ?d = "d\<lparr>fd_log := f, fd_buffers := ?bs1\<rparr>"
    have c: "chain ?d (hd xs) xs"
      using Cons.prems(1) False a by (subst chain_cong [of _ _ d]) (cases xs; auto)+
    have same: "concat (map (\<lambda>x. buffer_bytes (fd_buffers ?d x)) xs) =
        concat (map (\<lambda>x. buffer_bytes (fd_buffers d x)) xs)"
      using a by (intro arg_cong [of _ _ concat] map_cong refl) auto
    have off: "unat ?off = unat off + length ?bytes"
      using Cons.prems(4) by (intro unat_add_of_nat) simp
    have "\<forall>x \<in> set xs. lb_pos (fd_buffers ?d x) \<le> length (lb_buffer (fd_buffers ?d x))"
      using Cons.prems(5) a by auto
    from Cons.IH [OF c False _ _ this, of ?off] off Cons.prems(3,4) f same
    obtain g bs a' where r: "rust_loop (write_body faults) (?d, hd xs, ?off) =
        returns ((?d\<lparr>fd_log := g, fd_buffers := bs\<rparr>, a',
          ?off + of_nat (length (concat (map (\<lambda>x. buffer_bytes (fd_buffers d x)) xs)))), ())"
      and g: "raf_file g = raf_file f @ concat (map (\<lambda>x. buffer_bytes (fd_buffers d x)) xs)"
      and bs: "\<forall>x \<in> set xs. bs x = (?bs1 x)\<lparr>lb_next := 0\<rparr>"
      and other: "\<forall>x. x \<notin> set xs \<longrightarrow> bs x = ?bs1 x"
      by (auto simp del: fun_upd_apply)
    have "rust_loop (write_body faults) (d, a, off) = rust_loop (write_body faults) (?d, hd xs, ?off)"
      by (subst rust_loop.simps) (simp add: body False Let_def upd_buffer_def)
    with r have "rust_loop (write_body faults) (d, a, off) =
        returns ((d\<lparr>fd_log := g, fd_buffers := bs\<rparr>, a',
          off + of_nat (length (concat (map (\<lambda>x. buffer_bytes (fd_buffers d x)) (x # xs))))), ())"
      by (simp add: add.assoc)
    moreover have "raf_file g =
        raf_file (fd_log d) @ concat (map (\<lambda>x. buffer_bytes (fd_buffers d x)) (x # xs))"
      using g f by simp
    moreover have "\<forall>y \<in> set (x # xs). bs y = (fd_buffers d y)\<lparr>lb_next := 0\<rparr>"
      using bs other a by auto
    moreover have "\<forall>y. y \<notin> set (x # xs) \<longrightarrow> bs y = fd_buffers d y" using other by auto
    ultimately show ?thesis by blast
  qed
qed simp

lemma pop_all_loop:
  assumes laws: "scc_bag_laws B"
  shows "\<exists>b ws. rust_loop (pop_all_body B) d =
      returns (d\<lparr>fd_waker_bag := b, fd_woken := fd_woken d @ ws\<rparr>, ()) \<and>
      mset ws = bag_content B (fd_waker_bag d) \<and> bag_content B b = {#}"
proof (induction "size (bag_content B (fd_waker_bag d))" arbitrary: d rule: less_induct)
  case less
  obtain b w where pop: "bag_pop B (fd_waker_bag d) = (b, w)" by force
  note law = bag_pop_law [OF laws pop]
  show ?case
  proof (cases w)
    case None
    have "rust_loop (pop_all_body B) d = returns (d\<lparr>fd_waker_bag := b, fd_woken := fd_woken d @ []\<rparr>, ())"
      by (subst rust_loop.simps) (simp add: pop_all_body_def pop None)
    with law None show ?thesis by (intro exI [of _ b] exI [of _ "[]"]) simp
  next
    case (Some v)
    let ?d = "d\<lparr>fd_waker_bag := b, fd_woken := fd_woken d @ [v]\<rparr>"
    have "rust_loop (pop_all_body B) d = rust_loop (pop_all_body B) ?d"
      by (subst rust_loop.simps) (simp add: pop_all_body_def pop Some)
    with less [of ?d] law Some show ?thesis
      by (auto intro!: exI [of _ "v # _"])
  qed
qed

end
