(* ===== verification/Recovery.thy ===== *)
theory Recovery
  imports Playback File_Io
begin

text \<open>
  The recovery of a database from its log (\<^verbatim>\<open>src/src/persistence_layer/file_io/recovery.rs\<close>): the
  log is read in pieces of 32 bytes, the records in a piece are applied to the database, and the
  result is handed to the future that awaits it (\<^verbatim>\<open>AwaitRecovery\<close> in
  \<^verbatim>\<open>src/src/persistence_layer.rs\<close>).
\<close>

section \<open>Definitions\<close>

subsection \<open>Applying a record\<close>

record most_recent_journal =
  mr_transaction_id :: transaction_id
  mr_journal_id :: journal_id

text \<open>The database, the playbacks by transaction identifier and the most recently used journal.\<close>

record ('q, 'b, 't, 'u) recovery =
  rv_database :: "('q, 'b, 't) recovered"
  rv_playbacks :: "'u"
  rv_last_journal :: "most_recent_journal option"

text \<open>\<^verbatim>\<open>entry(transaction_id).or_insert_with(Playback::new)\<close>\<close>

definition playback_entry ::
  "('u, playback) scc_map \<Rightarrow> 'b scc_bag \<Rightarrow> transaction_id \<Rightarrow> ('q, 'b, 't, 'u) recovery \<Rightarrow>
     (('q, 'b, 't, 'u) recovery \<times> playback) outcome" where
  "playback_entry C B t s =
     (case m_get C t (rv_playbacks s) of
        Some pb \<Rightarrow> Done (s, pb)
      | None \<Rightarrow>
          (case playback_new B (rv_database s) of
             Panic \<Rightarrow> Panic
           | Done (k, pb) \<Rightarrow> Done (s\<lparr>rv_database := k, rv_playbacks := m_put C t pb (rv_playbacks s)\<rparr>, pb)))"

text \<open>The records of created and deleted objects; \<open>play\<close> is the operation of the access controller.\<close>

definition play_objects ::
  "('u, playback) scc_map \<Rightarrow> 'b scc_bag \<Rightarrow> (object_id \<Rightarrow> journal_id \<Rightarrow> 'b heap \<times> 't \<Rightarrow> 'b heap \<times> 't) \<Rightarrow>
     transaction_id \<Rightarrow> journal_id \<Rightarrow> object_id list \<Rightarrow> ('q, 'b, 't, 'u) recovery \<Rightarrow>
     ('q, 'b, 't, 'u) recovery outcome" where
  "play_objects C B play t j ids s =
     (case playback_entry C B t s of
        Panic \<Rightarrow> Panic
      | Done (s, pb) \<Rightarrow>
          (case get_or_create_journal_anchor j (rv_database s, pb) of
             Panic \<Rightarrow> Panic
           | Done ((k, pb), a) \<Rightarrow>
               (case foldl (\<lambda>x oid. play oid a x) (rk_heap k, rk_table k) ids of
                  (h, tbl) \<Rightarrow>
                    Done \<lparr>rv_database = k\<lparr>rk_heap := h, rk_table := tbl\<rparr>,
                          rv_playbacks = m_put C t pb (rv_playbacks s),
                          rv_last_journal = Some \<lparr>mr_transaction_id = t, mr_journal_id = j\<rparr>\<rparr>)))"

definition object_range :: "object_id \<Rightarrow> u32 \<Rightarrow> u32 \<Rightarrow> object_id list" where
  "object_range start interval num_objects =
     map (\<lambda>i. start + of_nat i * ucast interval) [0..<unat num_objects]"

text \<open>Submitting and discarding a journal: the playback has to be there.\<close>

definition play_submit ::
  "('u, playback) scc_map \<Rightarrow> transaction_id \<Rightarrow> journal_id \<Rightarrow> u32 \<Rightarrow> ('q, 'b, 't, 'u) recovery \<Rightarrow>
     ('q, 'b, 't, 'u) recovery outcome" where
  "play_submit C t j instant s =
     (case m_get C t (rv_playbacks s) of
        None \<Rightarrow> Panic
      | Some pb \<Rightarrow>
          (case submit_journal_anchor j instant (rk_heap (rv_database s), pb) of
             (h, pb) \<Rightarrow> Done (s\<lparr>rv_database := (rv_database s)\<lparr>rk_heap := h\<rparr>,
                                rv_playbacks := m_put C t pb (rv_playbacks s)\<rparr>)))"

definition play_discard ::
  "('u, playback) scc_map \<Rightarrow> transaction_id \<Rightarrow> journal_id \<Rightarrow> ('q, 'b, 't, 'u) recovery \<Rightarrow>
     ('q, 'b, 't, 'u) recovery outcome" where
  "play_discard C t j s =
     (case m_get C t (rv_playbacks s) of
        None \<Rightarrow> Panic
      | Some pb \<Rightarrow> Done (s\<lparr>rv_playbacks := m_put C t (discard_journal_anchor j pb) (rv_playbacks s)\<rparr>))"

definition lift_run :: "'a outcome \<Rightarrow> 'a run" where
  "lift_run x = Some x"

definition with_database ::
  "(('q, 'b, 't) recovered \<Rightarrow> ('q, 'b, 't) recovered run) \<Rightarrow> ('q, 'b, 't, 'u) recovery \<Rightarrow>
     ('q, 'b, 't, 'u) recovery run" where
  "with_database f s = bind_run (f (rv_database s)) (\<lambda>k. returns (s\<lparr>rv_database := k\<rparr>))"

text \<open>The match on a record, apart from the end of the log.\<close>

fun apply_record ::
  "'t object_map \<Rightarrow> ('u, playback) scc_map \<Rightarrow> 'b scc_bag \<Rightarrow> log_record \<Rightarrow> ('q, 'b, 't, 'u) recovery \<Rightarrow>
     ('q, 'b, 't, 'u) recovery run" where
  "apply_record T C B EndOfLog s = returns s"
| "apply_record T C B (BufferSubmitted instant) s =
     (case rv_last_journal s of
        None \<Rightarrow> panics
      | Some l \<Rightarrow> lift_run (play_submit C (mr_transaction_id l) (mr_journal_id l) instant (s\<lparr>rv_last_journal := None\<rparr>)))"
| "apply_record T C B BufferDiscarded s =
     (case rv_last_journal s of
        None \<Rightarrow> panics
      | Some l \<Rightarrow> lift_run (play_discard C (mr_transaction_id l) (mr_journal_id l) (s\<lparr>rv_last_journal := None\<rparr>)))"
| "apply_record T C B (JournalCreatedObjectSingle t j oid) s =
     lift_run (play_objects C B (playback_create_sync T) t j [oid] s)"
| "apply_record T C B (JournalCreatedObjectRange t j start interval num_objects) s =
     lift_run (play_objects C B (playback_create_sync T) t j (object_range start interval num_objects) s)"
| "apply_record T C B (JournalDeletedObjectSingle t j oid) s =
     lift_run (play_objects C B (playback_delete_sync T) t j [oid] s)"
| "apply_record T C B (JournalDeletedObjectRange t j start interval num_objects) s =
     lift_run (play_objects C B (playback_delete_sync T) t j (object_range start interval num_objects) s)"
| "apply_record T C B (JournalSubmitted t j instant) s = lift_run (play_submit C t j instant s)"
| "apply_record T C B (JournalDiscarded t j) s = lift_run (play_discard C t j s)"
| "apply_record T C B (TransactionPrepared t instant) s =
     bind_run (lift_run (playback_entry C B t s)) (\<lambda>(s, pb). with_database (playback_prepare instant pb) s)"
| "apply_record T C B (TransactionCommitted t instant) s =
     bind_run (lift_run (playback_entry C B t s)) (\<lambda>(s, pb).
       with_database (playback_commit B instant pb) (s\<lparr>rv_playbacks := m_remove C t (rv_playbacks s)\<rparr>))"
| "apply_record T C B (TransactionRolledBack t rollback_to) s =
     (case m_get C t (rv_playbacks s) of
        None \<Rightarrow> returns s
      | Some pb \<Rightarrow>
          if rollback_to = 0 then
            with_database (playback_rollback B pb) (s\<lparr>rv_playbacks := m_remove C t (rv_playbacks s)\<rparr>)
          else
            (case playback_rewind (nonzero rollback_to) (rk_heap (rv_database s), pb) of
               (h, pb) \<Rightarrow> returns (s\<lparr>rv_database := (rv_database s)\<lparr>rk_heap := h\<rparr>,
                                     rv_playbacks := m_put C t pb (rv_playbacks s)\<rparr>)))"

subsection \<open>Reading the log\<close>

lemma from_raw_data_shorter:
  assumes "from_raw_data buffer = Done (Some (r, remaining))"
  shows "length remaining < length buffer"
  using from_raw_data_consumes [OF assms] record_size_pos [of r] by linarith

text \<open>
  The loop of \<^verbatim>\<open>apply_to_database\<close>: the bytes left when it needs more data, or nothing when it
  found the end of the log.
\<close>

function apply_records ::
  "'t object_map \<Rightarrow> ('u, playback) scc_map \<Rightarrow> 'b scc_bag \<Rightarrow> u8 list \<Rightarrow> ('q, 'b, 't, 'u) recovery \<Rightarrow>
     (('q, 'b, 't, 'u) recovery \<times> u8 list option) run" where
  "apply_records T C B buffer s =
     (if buffer = [] then returns (s, Some [])
      else
        (case from_raw_data buffer of
           Panic \<Rightarrow> panics
         | Done None \<Rightarrow> returns (s, Some buffer)
         | Done (Some (log_record, remaining)) \<Rightarrow>
             if log_record = EndOfLog then returns (s, None)
             else bind_run (apply_record T C B log_record s) (apply_records T C B remaining)))"
  by pat_completeness auto
termination
  by (relation "measure (\<lambda>(T, C, B, buffer, s). length buffer)") (auto dest: from_raw_data_shorter)

declare apply_records.simps [simp del]

definition apply_to_database ::
  "'t object_map \<Rightarrow> ('u, playback) scc_map \<Rightarrow> 'b scc_bag \<Rightarrow> u8 list \<Rightarrow> ('q, 'b, 't, 'u) recovery \<Rightarrow>
     (('q, 'b, 't, 'u) recovery \<times> u64 option) run" where
  "apply_to_database T C B buffer s =
     bind_run (apply_records T C B buffer s) (\<lambda>(s, rest).
       returns (s, map_option (\<lambda>rest. of_nat (length buffer - length rest)) rest))"

text \<open>
  \<^verbatim>\<open>recover_database\<close> reads 32 bytes at a time, then what is left. \<open>fault\<close> is the error of reading
  that many bytes at an offset, \<open>cancelled\<close> whether the recovery is seen to be cancelled after it.
  The value of the loops says whether they were left because of that.
\<close>

definition BUFFER_SIZE :: nat where
  "BUFFER_SIZE = 32"

definition recover_body ::
  "'t object_map \<Rightarrow> ('u, playback) scc_map \<Rightarrow> 'b scc_bag \<Rightarrow> (u64 \<Rightarrow> nat \<Rightarrow> error option) \<Rightarrow>
     (u64 \<Rightarrow> nat \<Rightarrow> bool) \<Rightarrow> random_access_file \<Rightarrow> ('q, 'b, 't, 'u) recovery \<times> u64 \<Rightarrow>
     ((('q, 'b, 't, 'u) recovery \<times> u64) \<times> bool flow) run" where
  "recover_body T C B fault cancelled log = (\<lambda>(s, read_offset).
     case raf_read (fault read_offset BUFFER_SIZE) BUFFER_SIZE read_offset log of
       Inl _ \<Rightarrow> returns ((s, read_offset), Return False)
     | Inr buffer \<Rightarrow>
         if cancelled read_offset BUFFER_SIZE then returns ((s, read_offset), Return True)
         else bind_run (apply_to_database T C B buffer s) (\<lambda>(s, bytes_read).
           case bytes_read of
             Some n \<Rightarrow> returns ((s, read_offset + n), Again)
           | None \<Rightarrow> returns ((s, raf_len log), Return False)))"

definition recover_piece ::
  "'t object_map \<Rightarrow> ('u, playback) scc_map \<Rightarrow> 'b scc_bag \<Rightarrow> (u64 \<Rightarrow> nat \<Rightarrow> error option) \<Rightarrow>
     (u64 \<Rightarrow> nat \<Rightarrow> bool) \<Rightarrow> random_access_file \<Rightarrow> ('q, 'b, 't, 'u) recovery \<times> u64 \<Rightarrow>
     ((('q, 'b, 't, 'u) recovery \<times> u64) \<times> bool) run" where
  "recover_piece T C B fault cancelled log = (\<lambda>(s, read_offset).
     let file_len = raf_len log; piece = unat (file_len - read_offset) in
     if read_offset < file_len \<and> piece < BUFFER_SIZE then
       (case raf_read (fault read_offset piece) piece read_offset log of
          Inl _ \<Rightarrow> returns ((s, read_offset), False)
        | Inr buffer \<Rightarrow>
            if cancelled read_offset piece then returns ((s, read_offset), True)
            else bind_run (apply_to_database T C B buffer s) (\<lambda>(s, bytes_read).
              returns ((s, case bytes_read of Some n \<Rightarrow> read_offset + n | None \<Rightarrow> file_len), False)))
     else returns ((s, read_offset), False))"

definition recover_log ::
  "'t object_map \<Rightarrow> ('u, playback) scc_map \<Rightarrow> 'b scc_bag \<Rightarrow> (u64 \<Rightarrow> nat \<Rightarrow> error option) \<Rightarrow>
     (u64 \<Rightarrow> nat \<Rightarrow> bool) \<Rightarrow> random_access_file \<Rightarrow> ('q, 'b, 't, 'u) recovery \<Rightarrow>
     ((('q, 'b, 't, 'u) recovery \<times> u64) \<times> bool) run" where
  "recover_log T C B fault cancelled log s =
     bind_run (rust_loop (recover_body T C B fault cancelled log) (s, 0)) (\<lambda>(s, stopped).
       if stopped then returns (s, True) else recover_piece T C B fault cancelled log s)"

subsection \<open>Requesting and awaiting a recovery\<close>

record 'd recovery_data =
  rd_database :: "'d option"
  rd_until :: "u64 option"
  rd_waker :: "waker option"
  rd_result :: "'d result option"

definition recovery_data_new :: "'d \<Rightarrow> u64 option \<Rightarrow> 'd recovery_data" where
  "recovery_data_new database until =
     \<lparr>rd_database = Some database, rd_until = until, rd_waker = None, rd_result = None\<rparr>"

definition get_result :: "'d recovery_data \<Rightarrow> 'd recovery_data \<times> 'd result option" where
  "get_result d = (d\<lparr>rd_result := None\<rparr>, rd_result d)"

definition set_waker :: "waker \<Rightarrow> 'd recovery_data \<Rightarrow> 'd recovery_data" where
  "set_waker w d = d\<lparr>rd_waker := Some w\<rparr>"

definition cancel :: "'d recovery_data \<Rightarrow> 'd recovery_data" where
  "cancel d = d\<lparr>rd_result := Some (Err Timeout)\<rparr>"

definition invalid_data :: error where
  "invalid_data = IO 1"

text \<open>
  The recovery as the I/O thread runs it on the shared recovery data: \<open>meanwhile\<close> is what the other
  threads did to the data while it was not locked. The result is the data and the waker invoked.
\<close>

definition recover_database ::
  "'t object_map \<Rightarrow> ('u, playback) scc_map \<Rightarrow> 'b scc_bag \<Rightarrow> 'u \<Rightarrow> (u64 \<Rightarrow> nat \<Rightarrow> error option) \<Rightarrow>
     (u64 \<Rightarrow> nat \<Rightarrow> bool) \<Rightarrow>
     (('q, 'b, 't) recovered recovery_data option \<Rightarrow> ('q, 'b, 't) recovered recovery_data option) \<Rightarrow>
     random_access_file \<Rightarrow> ('q, 'b, 't) recovered recovery_data option \<Rightarrow>
     (('q, 'b, 't) recovered recovery_data option \<times> waker option) run" where
  "recover_database T C B no_playbacks fault cancelled meanwhile log data =
     (case data of
        None \<Rightarrow> panics
      | Some d \<Rightarrow>
          (case rd_database d of
             None \<Rightarrow> panics
           | Some k \<Rightarrow>
               bind_run (recover_log T C B fault cancelled log
                   \<lparr>rv_database = k, rv_playbacks = no_playbacks, rv_last_journal = None\<rparr>)
                 (\<lambda>((s, read_offset), stopped).
                    let data = meanwhile (Some (d\<lparr>rd_database := None\<rparr>)) in
                    if stopped then returns (data, None)
                    else
                      (case data of
                         None \<Rightarrow> panics
                       | Some d \<Rightarrow>
                           if rd_result d \<noteq> None then returns (Some d, None)
                           else
                             returns (Some (d\<lparr>rd_result := Some (if read_offset = raf_len log
                                                                then Ok (rv_database s) else Err invalid_data),
                                              rd_waker := None\<rparr>), rd_waker d)))))"

text \<open>\<^verbatim>\<open>FileIO::recover\<close>, \<^verbatim>\<open>check_recovery\<close> and \<^verbatim>\<open>cancel_recovery\<close>; \<open>lock\<close> says whether the mutex could be locked.\<close>

record await_recovery =
  aw_deadline :: "time option"

definition file_recover ::
  "bool \<Rightarrow> 'd \<Rightarrow> u64 option \<Rightarrow> time option \<Rightarrow> 'b file_io_data \<times> 'd recovery_data option \<Rightarrow>
     ('b file_io_data \<times> 'd recovery_data option) \<times> await_recovery result" where
  "file_recover lock database until deadline = (\<lambda>(d, data).
     if \<not> lock then ((d, data), Err UnexpectedState)
     else
       (case io_try_send Recover d of
          (d, sent) \<Rightarrow>
            ((d, Some (recovery_data_new database until)),
             if sent then Ok \<lparr>aw_deadline = deadline\<rparr> else Err UnexpectedState)))"

datatype 'd recovery_result = UnknownResult | InProgress | Recovered 'd

definition file_check_recovery ::
  "bool \<Rightarrow> waker \<Rightarrow> 'd recovery_data option \<Rightarrow> 'd recovery_data option \<times> 'd recovery_result result" where
  "file_check_recovery lock w data =
     (if \<not> lock then (data, Ok UnknownResult)
      else
        (case data of
           None \<Rightarrow> (None, Ok UnknownResult)
         | Some d \<Rightarrow>
             (case get_result d of
                (_, Some (Inr database)) \<Rightarrow> (None, Ok (Recovered database))
              | (_, Some (Inl e)) \<Rightarrow> (None, Err e)
              | (d, None) \<Rightarrow> (Some (set_waker w d), Ok InProgress))))"

definition file_cancel_recovery ::
  "bool \<Rightarrow> bool \<times> 'd recovery_data option \<Rightarrow> (bool \<times> 'd recovery_data option) outcome" where
  "file_cancel_recovery lock = (\<lambda>(_, data).
     if lock then (case data of None \<Rightarrow> Panic | Some d \<Rightarrow> Done (True, Some (cancel d)))
     else Done (True, data))"

text \<open>
  \<^verbatim>\<open>AwaitRecovery::poll\<close>: the recovery data with the flag that cancels the recovery, whether the
  poll wakes itself up, and the answer. The two locks are taken one after the other.
\<close>

definition await_recovery_poll ::
  "bool \<Rightarrow> bool \<Rightarrow> time \<Rightarrow> waker \<Rightarrow> await_recovery \<Rightarrow> bool \<times> 'd recovery_data option \<Rightarrow>
     ((bool \<times> 'd recovery_data option) \<times> bool \<times> 'd result poll) outcome" where
  "await_recovery_poll lock lock' now w a = (\<lambda>(flag, data).
     case file_check_recovery lock w data of
       (data, Inl e) \<Rightarrow> Done ((flag, data), False, Ready (Err e))
     | (data, Inr (Recovered database)) \<Rightarrow> Done ((flag, data), False, Ready (Ok database))
     | (data, Inr r) \<Rightarrow>
         let awake = (case r of UnknownResult \<Rightarrow> True | _ \<Rightarrow> False) in
         if (case aw_deadline a of None \<Rightarrow> False | Some d \<Rightarrow> d < now) then
           (case file_cancel_recovery lock' (flag, data) of
              Panic \<Rightarrow> Panic
            | Done s \<Rightarrow> Done (s, awake, Ready (Err Timeout)))
         else Done ((flag, data), awake, Pending))"

section \<open>Reference definition\<close>

text \<open>
  Replaying a log of which the whole content is at hand, record after record. The value says
  whether the log ended where it should: with its last byte, or with an end-of-log record.
\<close>

function replay ::
  "'t object_map \<Rightarrow> ('u, playback) scc_map \<Rightarrow> 'b scc_bag \<Rightarrow> u8 list \<Rightarrow> ('q, 'b, 't, 'u) recovery \<Rightarrow>
     (('q, 'b, 't, 'u) recovery \<times> bool) run" where
  "replay T C B bytes s =
     (if bytes = [] then returns (s, True)
      else
        (case from_raw_data bytes of
           Panic \<Rightarrow> panics
         | Done None \<Rightarrow> returns (s, False)
         | Done (Some (EndOfLog, _)) \<Rightarrow> returns (s, True)
         | Done (Some (r, rest)) \<Rightarrow> bind_run (apply_record T C B r s) (replay T C B rest)))"
  by pat_completeness auto
termination
  by (relation "measure (\<lambda>(T, C, B, bytes, s). length bytes)") (auto dest: from_raw_data_shorter)

declare replay.simps [simp del]

primrec apply_all ::
  "'t object_map \<Rightarrow> ('u, playback) scc_map \<Rightarrow> 'b scc_bag \<Rightarrow> log_record list \<Rightarrow> ('q, 'b, 't, 'u) recovery \<Rightarrow>
     ('q, 'b, 't, 'u) recovery run" where
  "apply_all T C B [] s = returns s"
| "apply_all T C B (r # rs) s = bind_run (apply_record T C B r s) (apply_all T C B rs)"

end
