(* ===== verification/Log_Replay.thy ===== *)
theory Log_Replay
  imports Recovery
begin

text \<open>
  The recovery reads the log in pieces of 32 bytes. It is shown to apply exactly the records of the
  log in their order, wherever the boundaries of the pieces fall.
\<close>

section \<open>Parsing a piece of the log\<close>

lemma read_or_return_append:
  assumes "size_of TYPE('a::len) \<le> length v"
  shows "read_or_return (v @ xs) k =
    k (from_le_bytes (take (size_of TYPE('a)) v) :: 'a word) (drop (size_of TYPE('a)) v @ xs)"
  using assms by (simp add: read_or_return_enough)

lemma read_or_return_cases:
  obtains (short) "length v < size_of TYPE('a::len)" and "read_or_return v k = Done None"
  | (enough) "size_of TYPE('a) \<le> length v"
    and "read_or_return v k = k (from_le_bytes (take (size_of TYPE('a)) v) :: 'a word) (drop (size_of TYPE('a)) v)"
  by (cases "length v < size_of TYPE('a)") (auto simp: read_or_return_def read_part_def)

text \<open>What follows the bytes a parser looked at does not change what it finds.\<close>

definition extends ::
  "(log_record \<times> u8 list) option outcome \<Rightarrow> u8 list \<Rightarrow> (log_record \<times> u8 list) option outcome \<Rightarrow> bool" where
  "extends short xs long \<longleftrightarrow>
     short = Done None \<or> (short = Panic \<and> long = Panic) \<or>
     (\<exists>r rest. short = Done (Some (r, rest)) \<and> long = Done (Some (r, rest @ xs)))"

lemma extends_simps [simp]:
  "extends (Done None) xs y" "extends Panic xs Panic"
  "extends (Done (Some (r, rest))) xs (Done (Some (r', rest'))) \<longleftrightarrow> r = r' \<and> rest' = rest @ xs"
  by (auto simp: extends_def)

lemma extends_read:
  fixes k :: "'a::len word \<Rightarrow> u8 list \<Rightarrow> (log_record \<times> u8 list) option outcome"
  assumes "\<And>w rest. extends (k w rest) xs (k w (rest @ xs))"
  shows "extends (read_or_return v k) xs (read_or_return (v @ xs) k)"
  by (rule read_or_return_cases [of v k]) (simp_all add: assms read_or_return_append)

lemma extends_journal_record: "extends (journal_record t v) xs (journal_record t (v @ xs))"
  unfolding journal_record_def by (intro extends_read) (simp add: Let_def extends_read)

lemma extends_from_raw_data: "extends (from_raw_data v) xs (from_raw_data (v @ xs))"
  unfolding from_raw_data_def
  by (intro extends_read) (simp add: Let_def extends_read extends_journal_record)

lemma from_raw_data_append:
  "from_raw_data v = Done (Some (r, rest)) \<Longrightarrow> from_raw_data (v @ xs) = Done (Some (r, rest @ xs))"
  "from_raw_data v = Panic \<Longrightarrow> from_raw_data (v @ xs) = Panic"
  using extends_from_raw_data [of v xs] by (auto simp: extends_def)

section \<open>Applying a piece of the log\<close>

lemma replay_step:
  assumes "bytes \<noteq> []"
  shows "replay T C B bytes s =
     (case from_raw_data bytes of
        Panic \<Rightarrow> panics
      | Done None \<Rightarrow> returns (s, False)
      | Done (Some (r, rest)) \<Rightarrow>
          if r = EndOfLog then returns (s, True) else bind_run (apply_record T C B r s) (replay T C B rest))"
  using assms by (subst replay.simps) (auto split: outcome.split option.split log_record.split)

text \<open>
  Replaying a log that starts with a piece is applying the piece and replaying what it left and
  what follows.
\<close>

lemma replay_append:
  "replay T C B (piece @ xs) s =
     bind_run (apply_records T C B piece s) (\<lambda>(s, rest).
       case rest of None \<Rightarrow> returns (s, True) | Some rest \<Rightarrow> replay T C B (rest @ xs) s)"
proof (induction "length piece" arbitrary: piece s rule: less_induct)
  case less
  show ?case
  proof (cases "piece = []")
    case True
    then show ?thesis by (simp add: apply_records.simps)
  next
    case ne: False
    show ?thesis
    proof (cases "from_raw_data piece")
      case Panic
      with ne show ?thesis
        by (simp add: apply_records.simps [of _ _ _ piece] replay_step from_raw_data_append(2))
    next
      case (Done y)
      show ?thesis
      proof (cases y)
        case None
        with Done ne show ?thesis by (simp add: apply_records.simps [of _ _ _ piece])
      next
        case (Some z)
        then obtain r rest where p: "from_raw_data piece = Done (Some (r, rest))"
          using Done by (cases z) auto
        from less [OF from_raw_data_shorter [OF p]] show ?thesis
          using ne p from_raw_data_append(1) [OF p, of xs]
          by (simp add: apply_records.simps [of _ _ _ piece] replay_step bind_run_def
              split: option.splits outcome.splits)
      qed
    qed
  qed
qed

lemma apply_records_progress:
  assumes "apply_records T C B buffer s = returns (s', Some rest)"
  shows "\<exists>n \<le> length buffer. rest = drop n buffer \<and> (rest = [] \<or> from_raw_data rest = Done None)"
  using assms
proof (induction "length buffer" arbitrary: buffer s rule: less_induct)
  case less
  show ?case
  proof (cases "buffer = [] \<or> from_raw_data buffer = Done None")
    case True
    with less.prems show ?thesis
      by (auto simp: apply_records.simps [of _ _ _ buffer] intro!: exI [of _ 0] split: if_splits)
  next
    case False
    with less.prems obtain r remaining s1
      where p: "from_raw_data buffer = Done (Some (r, remaining))"
        and a: "apply_records T C B remaining s1 = returns (s', Some rest)"
      by (auto simp: apply_records.simps [of _ _ _ buffer] split: outcome.splits option.splits if_splits)
    have b: "length buffer = record_size r + length remaining" "remaining = drop (record_size r) buffer"
      using from_raw_data_consumes [OF p] by blast+
    from less.hyps [OF from_raw_data_shorter [OF p] a] obtain n
      where "n \<le> length remaining" "rest = drop n remaining" "rest = [] \<or> from_raw_data rest = Done None"
      by blast
    with b show ?thesis by (intro exI [of _ "record_size r + n"]) (auto simp: add.commute)
  qed
qed

text \<open>A full piece always holds at least one record, so the loop over the log moves on.\<close>

lemma apply_to_database_cases:
  assumes "apply_to_database T C B buffer s = returns (s', bytes_read)"
  obtains (end_of_log) "apply_records T C B buffer s = returns (s', None)" and "bytes_read = None"
  | (more) n where "apply_records T C B buffer s = returns (s', Some (drop n buffer))"
    and "bytes_read = Some (of_nat n)" and "n \<le> length buffer"
    and "drop n buffer = [] \<or> from_raw_data (drop n buffer) = Done None"
proof -
  from assms obtain rest where a: "apply_records T C B buffer s = returns (s', rest)"
    and b: "bytes_read = map_option (\<lambda>rest. of_nat (length buffer - length rest)) rest"
    by (auto simp: apply_to_database_def)
  show thesis
  proof (cases rest)
    case None
    with a b end_of_log show ?thesis by simp
  next
    case (Some r)
    with apply_records_progress [of T C B buffer s s' r] a obtain n
      where "n \<le> length buffer" "r = drop n buffer" "r = [] \<or> from_raw_data r = Done None"
      by auto
    with more [of n] a b Some show ?thesis by simp
  qed
qed

lemma full_piece_moves:
  assumes "length buffer = BUFFER_SIZE" and "drop n buffer = [] \<or> from_raw_data (drop n buffer) = Done None"
  shows "0 < n"
  using assms from_raw_data_enough [of buffer] by (cases n) (auto simp: BUFFER_SIZE_def)

section \<open>The loop over the log\<close>

text \<open>The length the library keeps for the log file is the length of its content.\<close>

definition log_intact :: "random_access_file \<Rightarrow> bool" where
  "log_intact log \<longleftrightarrow> raf_len log = of_nat (length (raf_file log)) \<and> length (raf_file log) < 2 ^ 64"

lemma log_intact_len: "log_intact log \<Longrightarrow> unat (raf_len log) = length (raf_file log)"
  by (simp add: log_intact_def unat_of_nat take_bit_nat_eq_self)

lemma offset_plus:
  assumes "unat (off :: u64) + n < 2 ^ 64"
  shows "unat (off + of_nat n) = unat off + n"
  using assms by (simp add: unat_word_ariths unat_of_nat)

lemma take_drop_append: "take n (drop k xs) @ drop (k + n) xs = drop k xs"
  by (metis add.commute append_take_drop_id drop_drop)

text \<open>What is left of the log behind an offset.\<close>

abbreviation log_from :: "random_access_file \<Rightarrow> u64 \<Rightarrow> u8 list" where
  "log_from log off \<equiv> drop (unat off) (raf_file log)"

lemma replay_full_piece:
  assumes log: "log_intact log" and read: "raf_read f BUFFER_SIZE off log = Inr buffer"
    and step: "apply_to_database T C B buffer s = returns (s', Some bytes_read)"
  shows "unat off < unat (off + bytes_read) \<and> unat (off + bytes_read) \<le> length (raf_file log) \<and>
    replay T C B (log_from log off) s = replay T C B (log_from log (off + bytes_read)) s'"
proof -
  from read have fits: "unat off + 32 \<le> length (raf_file log)"
    and buffer: "buffer = take 32 (log_from log off)"
    by (auto simp: raf_read_def BUFFER_SIZE_def split: option.splits if_splits)
  then have len: "length buffer = BUFFER_SIZE" by (simp add: BUFFER_SIZE_def)
  from step obtain n where n: "apply_records T C B buffer s = returns (s', Some (drop n buffer))"
      "bytes_read = of_nat n" "n \<le> length buffer" "drop n buffer = [] \<or> from_raw_data (drop n buffer) = Done None"
    by (cases rule: apply_to_database_cases) auto
  have off: "unat (off + bytes_read) = unat off + n"
    using n(2,3) fits len log by (simp add: offset_plus log_intact_def BUFFER_SIZE_def)
  have "log_from log off = buffer @ drop (unat off + 32) (raf_file log)"
    by (simp add: buffer take_drop_append)
  then have "replay T C B (log_from log off) s =
      replay T C B (drop n buffer @ drop (unat off + 32) (raf_file log)) s'"
    by (simp add: replay_append [of T C B buffer] n(1))
  also have "drop n buffer @ drop (unat off + 32) (raf_file log) = log_from log (off + bytes_read)"
    using n(3) len take_drop_append [of "32 - n" "unat off + n" "raf_file log"]
    unfolding off buffer by (simp add: drop_take BUFFER_SIZE_def add.commute)
  finally show ?thesis
    using full_piece_moves [OF len n(4)] n(3) fits len off by (simp add: BUFFER_SIZE_def)
qed

lemma replay_last_piece:
  assumes log: "log_intact log" and off: "unat off \<le> length (raf_file log)"
    and piece: "buffer = log_from log off"
    and step: "apply_to_database T C B buffer s = returns (s', bytes_read)"
  shows "replay T C B (log_from log off) s =
    returns (s', (case bytes_read of Some n \<Rightarrow> off + n | None \<Rightarrow> raf_len log) = raf_len log)"
  using step
proof (cases rule: apply_to_database_cases)
  case end_of_log
  with replay_append [of T C B buffer "[]" s] piece show ?thesis by simp
next
  case (more n)
  have n: "n \<le> length (raf_file log) - unat off" using more(3) piece by simp
  have "unat (off + of_nat n) = unat off + n"
    using n off log by (intro offset_plus) (auto simp: log_intact_def)
  then have "off + of_nat n = raf_len log \<longleftrightarrow> drop n buffer = []"
    using n off log_intact_len [OF log] piece by (auto simp: word_unat_eq_iff)
  moreover have "replay T C B (drop n buffer) s' = returns (s', drop n buffer = [])"
    using more(4) by (subst replay.simps) auto
  ultimately show ?thesis
    using replay_append [of T C B buffer "[]" s] piece more(1,2) by simp
qed

section \<open>Recovering is replaying\<close>

lemma replay_piece:
  "apply_to_database T C B piece s = None \<Longrightarrow> replay T C B (piece @ xs) s = None"
  "apply_to_database T C B piece s = panics \<Longrightarrow> replay T C B (piece @ xs) s = panics"
  "apply_to_database T C B piece s = returns (s', None) \<Longrightarrow> replay T C B (piece @ xs) s = returns (s', True)"
  unfolding apply_to_database_def replay_append [of T C B piece]
  by (auto simp: bind_run_def split: option.splits outcome.splits)

text \<open>The recovery of what is behind an offset.\<close>

definition recover_from ::
  "'t object_map \<Rightarrow> ('u, playback) scc_map \<Rightarrow> 'b scc_bag \<Rightarrow> (u64 \<Rightarrow> nat \<Rightarrow> error option) \<Rightarrow>
     (u64 \<Rightarrow> nat \<Rightarrow> bool) \<Rightarrow> random_access_file \<Rightarrow> ('q, 'b, 't, 'u) recovery \<times> u64 \<Rightarrow>
     ((('q, 'b, 't, 'u) recovery \<times> u64) \<times> bool) run" where
  "recover_from T C B fault cancelled log s =
     bind_run (rust_loop (recover_body T C B fault cancelled log) s) (\<lambda>(s, stopped).
       if stopped then returns (s, True) else recover_piece T C B fault cancelled log s)"

lemma recover_from_step:
  "recover_from T C B fault cancelled log s =
     bind_run (recover_body T C B fault cancelled log s) (\<lambda>(s, fl).
       case fl of
         Again \<Rightarrow> recover_from T C B fault cancelled log s
       | Return stopped \<Rightarrow>
           if stopped then returns (s, True) else recover_piece T C B fault cancelled log s)"
  unfolding recover_from_def
  by (subst rust_loop.simps) (auto simp: bind_run_def split: option.split outcome.split flow.split)

text \<open>Without read errors and cancellation: a run, and whether it ended at the end of the log.\<close>

definition finished ::
  "random_access_file \<Rightarrow> ((('q, 'b, 't, 'u) recovery \<times> u64) \<times> bool) run \<Rightarrow> (('q, 'b, 't, 'u) recovery \<times> bool) run" where
  "finished log r = bind_run r (\<lambda>((s, read_offset), _). returns (s, read_offset = raf_len log))"

lemma finished_simps [simp]:
  "finished log None = None" "finished log panics = panics"
  "finished log (returns ((s, off), stopped)) = returns (s, off = raf_len log)"
  by (simp_all add: finished_def)

lemma recover_piece_exact:
  assumes log: "log_intact log" and off: "unat off \<le> length (raf_file log)"
    and short: "length (raf_file log) < unat off + 32"
    and ok: "\<And>off n. fault off n = None" "\<And>off n. \<not> cancelled off n"
  shows "finished log (recover_piece T C B fault cancelled log (s, off)) = replay T C B (log_from log off) s"
proof (cases "unat off < length (raf_file log)")
  case True
  have len: "unat (raf_len log) = length (raf_file log)" by (rule log_intact_len [OF log])
  have lt: "off < raf_len log" using True len by (simp add: word_less_nat_alt)
  then have piece: "unat (raf_len log - off) = length (raf_file log) - unat off"
    using len by (simp add: unat_sub order_less_imp_le)
  have "length (raf_file log) - unat off < 32" using True short by linarith
  then have eq: "recover_piece T C B fault cancelled log (s, off) =
      bind_run (apply_to_database T C B (log_from log off) s) (\<lambda>(s, bytes_read).
        returns ((s, case bytes_read of Some n \<Rightarrow> off + n | None \<Rightarrow> raf_len log), False))"
    using lt True by (simp add: recover_piece_def Let_def piece raf_read_def ok BUFFER_SIZE_def)
  show ?thesis
  proof (cases "apply_to_database T C B (log_from log off) s")
    case None
    with replay_piece(1) [of T C B "log_from log off" s "[]"] show ?thesis by (simp add: eq)
  next
    case (Some y)
    show ?thesis
    proof (cases y)
      case Panic
      with Some replay_piece(2) [of T C B "log_from log off" s "[]"] show ?thesis by (simp add: eq)
    next
      case (Done z)
      obtain s' n where z: "z = (s', n)" by (cases z)
      have "apply_to_database T C B (log_from log off) s = returns (s', n)" by (simp add: Some Done z)
      from replay_last_piece [OF log off refl this] show ?thesis by (simp add: eq Some Done z)
    qed
  qed
next
  case False
  with off log_intact_len [OF log] have "off = raf_len log" by (simp add: word_unat_eq_iff)
  with False show ?thesis
    using off by (simp add: recover_piece_def replay.simps [of T C B "[]"])
qed

lemma recover_from_exact:
  assumes log: "log_intact log"
    and ok: "\<And>off n. fault off n = None" "\<And>off n. \<not> cancelled off n"
  shows "unat off \<le> length (raf_file log) \<Longrightarrow>
    finished log (recover_from T C B fault cancelled log (s, off)) = replay T C B (log_from log off) s"
proof (induction "length (raf_file log) - unat off" arbitrary: s off rule: less_induct)
  case less
  let ?buffer = "take 32 (log_from log off)" and ?rest = "drop (unat off + 32) (raf_file log)"
  show ?case
  proof (cases "unat off + 32 \<le> length (raf_file log)")
    case False
    then have "recover_body T C B fault cancelled log (s, off) = returns ((s, off), Return False)"
      by (simp add: recover_body_def raf_read_def ok BUFFER_SIZE_def)
    with recover_piece_exact [OF log less.prems _ ok] False show ?thesis
      by (subst recover_from_step) simp
  next
    case True
    have read: "raf_read (fault off BUFFER_SIZE) BUFFER_SIZE off log = Inr ?buffer"
      using True by (simp add: raf_read_def ok BUFFER_SIZE_def)
    then have body: "recover_body T C B fault cancelled log (s, off) =
        bind_run (apply_to_database T C B ?buffer s) (\<lambda>(s, bytes_read).
          case bytes_read of
            Some n \<Rightarrow> returns ((s, off + n), Again) | None \<Rightarrow> returns ((s, raf_len log), Return False))"
      by (simp add: recover_body_def ok(2))
    have split: "log_from log off = ?buffer @ ?rest" by (simp add: take_drop_append)
    show ?thesis
    proof (cases "apply_to_database T C B ?buffer s")
      case None
      with replay_piece(1) [of T C B ?buffer s ?rest] show ?thesis
        by (subst recover_from_step) (simp add: body split [symmetric])
    next
      case (Some y)
      show ?thesis
      proof (cases y)
        case Panic
        with Some replay_piece(2) [of T C B ?buffer s ?rest] show ?thesis
          by (subst recover_from_step) (simp add: body split [symmetric])
      next
        case (Done z)
        obtain s' bytes_read where z: "z = (s', bytes_read)" by (cases z)
        have a: "apply_to_database T C B ?buffer s = returns (s', bytes_read)" by (simp add: Some Done z)
        show ?thesis
        proof (cases bytes_read)
          case None
          with a replay_piece(3) [of T C B ?buffer s s' ?rest] show ?thesis
            by (subst recover_from_step) (simp add: body split [symmetric] recover_piece_def)
        next
          case (Some n)
          with replay_full_piece [OF log read, of T C B s s' n] a
          have n: "unat off < unat (off + n)" "unat (off + n) \<le> length (raf_file log)"
            "replay T C B (log_from log off) s = replay T C B (log_from log (off + n)) s'"
            by auto
          have "finished log (recover_from T C B fault cancelled log (s', off + n)) =
              replay T C B (log_from log (off + n)) s'"
            using n(1,2) by (intro less.hyps) simp_all
          then show ?thesis using a Some n(3) by (subst recover_from_step) (simp add: body)
        qed
      qed
    qed
  qed
qed

text \<open>Whatever reads fail and whenever it is cancelled, a recovery that ends at the end of the log replayed it.\<close>

lemma recover_log_sound:
  assumes log: "log_intact log" and r: "recover_log T C B fault cancelled log s = returns ((s', raf_len log), False)"
  shows "replay T C B (raf_file log) s = returns (s', True)"
proof -
  from r obtain s1 off where loop: "rust_loop (recover_body T C B fault cancelled log) (s, 0) = returns ((s1, off), False)"
    and piece: "recover_piece T C B fault cancelled log (s1, off) = returns ((s', raf_len log), False)"
    by (auto simp: recover_log_def split: if_splits)
  let ?I = "\<lambda>(s1, off). unat off \<le> length (raf_file log) \<and>
    replay T C B (raf_file log) s = replay T C B (log_from log off) s1"
  let ?Q = "\<lambda>(s1, off) stopped. stopped \<or> (unat off \<le> length (raf_file log) \<and>
    replay T C B (raf_file log) s = replay T C B (log_from log off) s1) \<or>
    (off = raf_len log \<and> replay T C B (raf_file log) s = returns (s1, True))"
  have "?Q (s1, off) False"
  proof (rule rust_loop_rule [OF loop, where I = ?I and Q = ?Q])
    show "?I (s, 0)" by simp
  next
    fix x x' assume I: "?I x" and again: "recover_body T C B fault cancelled log x = returns (x', Again)"
    obtain s2 o2 where x: "x = (s2, o2)" by (cases x)
    from again x obtain buffer s3 n where "raf_read (fault o2 BUFFER_SIZE) BUFFER_SIZE o2 log = Inr buffer"
      and "apply_to_database T C B buffer s2 = returns (s3, Some n)" and "x' = (s3, o2 + n)"
      by (auto simp: recover_body_def split: sum.splits if_splits option.splits)
    with replay_full_piece [OF log, of "fault o2 BUFFER_SIZE" o2 buffer T C B s2 s3 n] I x show "?I x'" by auto
  next
    fix x x' stopped assume I: "?I x" and ret: "recover_body T C B fault cancelled log x = returns (x', Return stopped)"
    obtain s2 o2 where x: "x = (s2, o2)" by (cases x)
    from ret x consider "x' = x" | buffer s3 where "raf_read (fault o2 BUFFER_SIZE) BUFFER_SIZE o2 log = Inr buffer"
      "apply_to_database T C B buffer s2 = returns (s3, None)" "x' = (s3, raf_len log)"
      by (auto simp: recover_body_def split: sum.splits if_splits option.splits)
    then show "?Q x' stopped"
    proof cases
      case 1
      with I x show ?thesis by simp
    next
      case 2
      from 2(1) have "log_from log o2 = buffer @ drop (unat o2 + 32) (raf_file log)"
        by (auto simp: raf_read_def BUFFER_SIZE_def take_drop_append split: option.splits if_splits)
      with replay_piece(3) [OF 2(2)] I x 2(3) show ?thesis by simp
    qed
  qed
  then consider (left) "unat off \<le> length (raf_file log)"
      "replay T C B (raf_file log) s = replay T C B (log_from log off) s1"
    | (ended) "off = raf_len log" "replay T C B (raf_file log) s = returns (s1, True)"
    by auto
  then show ?thesis
  proof cases
    case ended
    with piece show ?thesis by (simp add: recover_piece_def)
  next
    case left
    show ?thesis
    proof (cases "off < raf_len log")
      case False
      with left(1) log_intact_len [OF log] have "off = raf_len log"
        by (simp add: word_unat_eq_iff word_less_nat_alt)
      with False piece left log_intact_len [OF log] show ?thesis
        by (simp add: recover_piece_def replay.simps [of T C B "[]"])
    next
      case True
      then have n: "unat (raf_len log - off) = length (raf_file log) - unat off"
        using log_intact_len [OF log] by (simp add: unat_sub order_less_imp_le)
      from True piece obtain bytes_read where "apply_to_database T C B (log_from log off) s1 = returns (s', bytes_read)"
        and "(case bytes_read of Some n \<Rightarrow> off + n | None \<Rightarrow> raf_len log) = raf_len log"
        by (auto simp: recover_piece_def Let_def n raf_read_def split: if_splits option.splits)
      with replay_last_piece [OF log left(1) refl, of T C B s1 s' bytes_read] left(2) show ?thesis by simp
    qed
  qed
qed

section \<open>Logs of whole records\<close>

text \<open>The log as the I/O thread writes it.\<close>

definition encode_all :: "log_record list \<Rightarrow> u8 list" where
  "encode_all rs = concat (map encode rs)"

definition log_records :: "log_record list \<Rightarrow> bool" where
  "log_records rs \<longleftrightarrow> (\<forall>r \<in> set rs. valid_record r \<and> r \<noteq> EndOfLog)"

lemma encode_nonempty [simp]: "encode r \<noteq> []"
  using record_size_pos [of r] length_encode [of r] by (metis list.size(3) not_numeral_le_zero)

lemma replay_encode:
  "valid_record r \<Longrightarrow> r \<noteq> EndOfLog \<Longrightarrow>
   replay T C B (encode r @ xs) s = bind_run (apply_record T C B r s) (replay T C B xs)"
  by (simp add: replay_step from_raw_data_encode)

lemma replay_encode_all:
  fixes s :: "('q, 'b, 't, 'u) recovery"
  shows "log_records rs \<Longrightarrow>
   replay T C B (encode_all rs @ xs) s = bind_run (apply_all T C B rs s) (replay T C B xs)"
proof (induction rs arbitrary: s)
  case Nil
  then show ?case by (simp add: encode_all_def)
next
  case (Cons r rs)
  then have "log_records rs" and r: "valid_record r" "r \<noteq> EndOfLog" by (auto simp: log_records_def)
  then have "replay T C B (encode_all rs @ xs) = (\<lambda>s :: ('q, 'b, 't, 'u) recovery. bind_run (apply_all T C B rs s) (replay T C B xs))"
    by (intro ext) (simp add: Cons.IH)
  with replay_encode [OF r, of T C B "encode_all rs @ xs" s] show ?case
    by (simp add: encode_all_def bind_run_assoc [symmetric])
qed

lemma replay_end:
  "replay T C B [] s = returns (s, True)"
  "replay T C B (encode EndOfLog @ xs) s = returns (s, True)"
  "torn \<noteq> [] \<Longrightarrow> from_raw_data torn = Done None \<Longrightarrow> replay T C B torn s = returns (s, False)"
  by (simp_all add: replay.simps [of T C B "[]"] replay_step from_raw_data_encode)

lemma recover_log_exact:
  assumes "log_intact log" and "\<And>off n. fault off n = None" and "\<And>off n. \<not> cancelled off n"
  shows "finished log (recover_log T C B fault cancelled log s) = replay T C B (raf_file log) s"
  using recover_from_exact [OF assms, where off = 0 and T = T and C = C and B = B and s = s] by (simp add: recover_log_def recover_from_def)

section \<open>Properties\<close>

definition recovery_start :: "('q, 'b, 't) recovered \<Rightarrow> 'u \<Rightarrow> ('q, 'b, 't, 'u) recovery" where
  "recovery_start k no_playbacks = \<lparr>rv_database = k, rv_playbacks = no_playbacks, rv_last_journal = None\<rparr>"

text \<open>The recovery data after a poll has left its waker, if it has, and with a result.\<close>

definition awaited :: "u64 option \<Rightarrow> waker option \<Rightarrow> 'd result option \<Rightarrow> 'd recovery_data" where
  "awaited until w r = \<lparr>rd_database = None, rd_until = until, rd_waker = w, rd_result = r\<rparr>"

lemma recover_database_finished:
  assumes "meanwhile (Some (awaited until None None)) = Some (awaited until w None)"
    and "\<And>x. recover_log T C B fault cancelled log (recovery_start k e) = returns x \<Longrightarrow> \<not> snd x"
  shows "recover_database T C B e fault cancelled meanwhile log (Some (recovery_data_new k until)) =
    bind_run (finished log (recover_log T C B fault cancelled log (recovery_start k e))) (\<lambda>(s, complete).
      returns (Some (awaited until None (Some (if complete then Ok (rv_database s) else Err invalid_data))), w))"
proof -
  let ?l = "recover_log T C B fault cancelled log (recovery_start k e)"
  consider "?l = None" | "?l = panics" | s off where "?l = returns ((s, off), False)"
    using assms(2) by (cases ?l; cases "the ?l") auto
  then show ?thesis
    using assms(1)
    by cases (auto simp: recover_database_def recovery_data_new_def awaited_def recovery_start_def [symmetric])
qed

lemma never_stopped:
  assumes "\<And>off n. \<not> cancelled off n" and "recover_log T C B fault cancelled log s = returns x"
  shows "\<not> snd x"
proof -
  from assms(2) obtain s1 stopped where loop: "rust_loop (recover_body T C B fault cancelled log) (s, 0) = returns (s1, stopped)"
    and x: "(if stopped then returns (s1, True) else recover_piece T C B fault cancelled log s1) = returns x"
    by (auto simp: recover_log_def)
  have "\<not> stopped"
    by (rule rust_loop_rule [OF loop, where I = "\<lambda>_. True" and Q = "\<lambda>_ stopped. \<not> stopped"])
      (use assms(1) in \<open>auto simp: recover_body_def split: sum.splits option.splits\<close>)
  with x assms(1) show ?thesis
    by (auto simp: recover_piece_def Let_def split: prod.splits if_splits sum.splits)
qed

lemma recover_database_exact:
  assumes "log_intact log" and "\<And>off n. fault off n = None" and "\<And>off n. \<not> cancelled off n"
    and "meanwhile (Some (awaited until None None)) = Some (awaited until w None)"
  shows "recover_database T C B e fault cancelled meanwhile log (Some (recovery_data_new k until)) =
    bind_run (replay T C B (raf_file log) (recovery_start k e)) (\<lambda>(s, complete).
      returns (Some (awaited until None (Some (if complete then Ok (rv_database s) else Err invalid_data))), w))"
proof -
  have "\<not> snd x" if "recover_log T C B fault cancelled log (recovery_start k e) = returns x" for x
    by (rule never_stopped [OF assms(3) that])
  from recover_database_finished [where log = log and fault = fault and cancelled = cancelled and meanwhile = meanwhile
        and until = until and w = w and T = T and C = C and B = B and e = e and k = k,
        OF assms(4) this] show ?thesis
    by (simp add: recover_log_exact [OF assms(1,2,3)])
qed

text \<open>A small database to recover into.\<close>

definition demo_recovered :: "(entry list, waker list, u64 \<Rightarrow> object_state option) recovered" where
  "demo_recovered = \<lparr>rk_sequencer = default_sequencer list_queue 1, rk_heap = idle_heap, rk_table = Map.empty,
     rk_free = [96, 112, 128, 144]\<rparr>"

definition demo_recovery ::
  "(entry list, waker list, u64 \<Rightarrow> object_state option, u64 \<Rightarrow> playback option) recovery" where
  "demo_recovery = recovery_start demo_recovered Map.empty"

definition demo_log :: "u8 list \<Rightarrow> random_access_file" where
  "demo_log torn = \<lparr>raf_file = encode_all [TransactionRolledBack 8 0] @ torn, raf_len = of_nat (12 + length torn)\<rparr>"

lemma demo_log_simps:
  "raf_file (demo_log torn) = encode_all [TransactionRolledBack 8 0] @ torn"
  "length torn < 16 \<Longrightarrow> log_intact (demo_log torn)"
  "log_records [TransactionRolledBack 8 0]"
  by (simp_all add: demo_log_def log_intact_def encode_all_def log_records_def)

lemma demo_apply: "apply_all fun_map fun_map list_bag [TransactionRolledBack 8 0] demo_recovery = returns demo_recovery"
  by (simp add: demo_recovery_def recovery_start_def fun_map_def)

text \<open>
  C9: A recovery that meets no read error and is not cancelled applies exactly the records of the
  log, in their order and wherever the boundaries of its 32-byte pieces fall, and hands over the
  database when they are all applied: at the end of the file, or at an end-of-log record whatever
  follows it. The poll that waits for the recovery is woken up.
\<close>

theorem recovery_applies_log:
  fixes k :: "('q, 'b, 't) recovered" and e :: "'u"
  assumes "log_intact log" and "\<And>off n. fault off n = None" and "\<And>off n. \<not> cancelled off n"
    and "meanwhile (Some (awaited until None None)) = Some (awaited until w None)"
    and "log_records rs" and "raf_file log = encode_all rs \<or> raf_file log = encode_all rs @ encode EndOfLog @ rest"
  shows "recover_database T C B e fault cancelled meanwhile log (Some (recovery_data_new k until)) =
    bind_run (apply_all T C B rs (recovery_start k e)) (\<lambda>s.
      returns (Some (awaited until None (Some (Ok (rv_database s)))), w))"
proof -
  obtain xs where "raf_file log = encode_all rs @ xs" and "replay T C B xs = (\<lambda>s :: ('q, 'b, 't, 'u) recovery. returns (s, True))"
    using assms(6) replay_end(1,2) by (metis append_Nil2 ext)
  with replay_encode_all [OF assms(5), of T C B xs "recovery_start k e"]
  have "replay T C B (raf_file log) (recovery_start k e) =
      bind_run (apply_all T C B rs (recovery_start k e)) (\<lambda>s. returns (s, True))"
    by simp
  with recover_database_exact [where log = log and fault = fault and cancelled = cancelled and meanwhile = meanwhile
        and until = until and w = w and T = T and C = C and B = B and e = e and k = k,
        OF assms(1-4)] show ?thesis
    by (simp add: bind_run_def split: option.splits outcome.splits)
qed

theorem recovery_applies_log_witness:
  "recover_database fun_map fun_map list_bag Map.empty (\<lambda>_ _. None) (\<lambda>_ _. False) (\<lambda>d. d) (demo_log [])
      (Some (recovery_data_new demo_recovered None)) =
    returns (Some (awaited None None (Some (Ok demo_recovered))), None)"
proof -
  from recovery_applies_log [where log = "demo_log []" and fault = "\<lambda>_ _. None" and cancelled = "\<lambda>_ _. False"
      and meanwhile = "\<lambda>d. d" and until = None and w = None and T = fun_map and C = fun_map and B = list_bag
      and e = Map.empty and k = demo_recovered and rs = "[TransactionRolledBack 8 0]"]
  show ?thesis using demo_apply demo_log_simps(1,2) [of "[]"] demo_log_simps(3)
    by (simp add: demo_recovery_def [symmetric] del: apply_all.simps) (simp add: demo_recovery_def recovery_start_def)
qed

text \<open>
  A log whose last record is torn, as a crash in the middle of a write leaves it, is rejected as
  a whole: the recovery applies the records before it, then drops the database and reports invalid
  data.
\<close>

theorem torn_log_rejected:
  assumes "log_intact log" and "\<And>off n. fault off n = None" and "\<And>off n. \<not> cancelled off n"
    and "meanwhile (Some (awaited until None None)) = Some (awaited until w None)"
    and "log_records rs" and "raf_file log = encode_all rs @ torn" and "torn \<noteq> []"
    and "from_raw_data torn = Done None"
    and "apply_all T C B rs (recovery_start k e) = returns s"
  shows "recover_database T C B e fault cancelled meanwhile log (Some (recovery_data_new k until)) =
    returns (Some (awaited until None (Some (Err invalid_data))), w)"
  using recover_database_exact [where log = log and fault = fault and cancelled = cancelled and meanwhile = meanwhile
        and until = until and w = w and T = T and C = C and B = B and e = e and k = k,
        OF assms(1-4)] replay_encode_all [OF assms(5), of T C B torn "recovery_start k e"]
    replay_end(3) [OF assms(7,8), of T C B s] assms(6,9)
  by simp

theorem torn_log_rejected_witness:
  "recover_database fun_map fun_map list_bag Map.empty (\<lambda>_ _. None) (\<lambda>_ _. False) (\<lambda>d. d) (demo_log [8, 0, 0])
      (Some (recovery_data_new demo_recovered None)) =
    returns (Some (awaited None None (Some (Err invalid_data))), None)"
proof -
  have "from_raw_data [8, 0, 0] = Done None"
    by (simp add: from_raw_data_def read_or_return_def read_part_def)
  with torn_log_rejected [where log = "demo_log [8, 0, 0]" and fault = "\<lambda>_ _. None" and cancelled = "\<lambda>_ _. False"
      and meanwhile = "\<lambda>d. d" and until = None and w = None and T = fun_map and C = fun_map and B = list_bag
      and e = Map.empty and k = demo_recovered and rs = "[TransactionRolledBack 8 0]" and torn = "[8, 0, 0]"
      and s = demo_recovery]
  show ?thesis using demo_apply demo_log_simps(1,2) [of "[8, 0, 0]"] demo_log_simps(3)
    by (simp add: demo_recovery_def [symmetric] del: apply_all.simps)
qed

text \<open>
  C24: Whatever reads fail and whenever the recovery is cancelled, a database is only handed over if
  the whole log was replayed on it.
\<close>

theorem recovery_all_or_nothing:
  assumes "log_intact log" and "rd_result d = None"
    and "recover_database T C B e fault cancelled (\<lambda>_. Some d) log (Some (recovery_data_new k until)) =
      returns (Some d', w)" and "rd_result d' = Some (Ok k')"
  shows "\<exists>s. replay T C B (raf_file log) (recovery_start k e) = returns (s, True) \<and> k' = rv_database s"
proof -
  from assms(2-4) obtain s where "recover_log T C B fault cancelled log (recovery_start k e) =
      returns ((s, raf_len log), False)" and "k' = rv_database s"
    by (auto simp: recover_database_def recovery_data_new_def recovery_start_def Let_def split: if_splits)
  with recover_log_sound [OF assms(1)] show ?thesis by blast
qed

theorem recovery_all_or_nothing_witness:
  "\<exists>s. replay fun_map fun_map list_bag (raf_file (demo_log [])) demo_recovery = returns (s, True) \<and>
     demo_recovered = rv_database s"
proof -
  have "replay fun_map fun_map list_bag (raf_file (demo_log [])) demo_recovery = returns (demo_recovery, True)"
    using replay_encode_all [OF demo_log_simps(3), of fun_map fun_map list_bag "[]" demo_recovery] demo_apply
    by (simp add: demo_log_simps(1) replay_end(1))
  then have "recover_database fun_map fun_map list_bag Map.empty (\<lambda>_ _. None) (\<lambda>_ _. False)
      (\<lambda>_. Some (awaited None None None)) (demo_log []) (Some (recovery_data_new demo_recovered None)) =
      returns (Some (awaited None None (Some (Ok demo_recovered))), None)"
    using recover_database_exact [where log = "demo_log []" and fault = "\<lambda>_ _. None" and cancelled = "\<lambda>_ _. False"
        and meanwhile = "\<lambda>_. Some (awaited None None None)" and until = None and w = None and T = fun_map
        and C = fun_map and B = list_bag and e = Map.empty and k = demo_recovered] demo_log_simps(2) [of "[]"]
    by (simp add: demo_recovery_def [symmetric]) (simp add: demo_recovery_def recovery_start_def)
  from recovery_all_or_nothing [OF _ _ this] demo_log_simps(2) [of "[]"] show ?thesis
    by (simp add: demo_recovery_def [symmetric] awaited_def)
qed

end
