(* ===== verification/Recovered_State.thy ===== *)
theory Recovered_State
  imports Log_Replay Ownership
begin

text \<open>
  What a recovered database looks like: its clock, the objects of committed transactions, and the
  cases where recovery does not restore the state the log stands for.
\<close>

section \<open>What playing back keeps\<close>

lemma foldl_anchor_commit [simp]:
  "jas (foldl (\<lambda>h a. anchor_commit a h) h xs) = jas h" "tas (foldl (\<lambda>h a. anchor_commit a h) h xs) = tas h"
  "jas (foldl (\<lambda>h (i, a). anchor_commit a h) h ys) = jas h" "tas (foldl (\<lambda>h (i, a). anchor_commit a h) h ys) = tas h"
  by (induction xs arbitrary: h; simp add: anchor_commit_def)+
    (induction ys arbitrary: h; auto simp: anchor_commit_def)+

text \<open>The operations of the access controller during a recovery write one ownership for each object.\<close>

definition plays :: "'t object_map \<Rightarrow> (journal_id \<Rightarrow> ownership) \<Rightarrow>
    (object_id \<Rightarrow> journal_id \<Rightarrow> 'b heap \<times> 't \<Rightarrow> 'b heap \<times> 't) \<Rightarrow> bool" where
  "plays T own play \<longleftrightarrow> (\<forall>oid a h tbl. \<exists>h'. play oid a (h, tbl) = (h', m_put T oid (Owned (own a)) tbl) \<and>
     jas h' = jas h \<and> tas h' = tas h)"

lemma plays_create: "plays T Created (playback_create_sync T)"
  by (auto simp: plays_def playback_create_sync_def split: option.split)

lemma plays_delete: "plays T Deleted (playback_delete_sync T)"
  by (auto simp: plays_def playback_delete_sync_def split: option.split)

lemma plays_all:
  assumes T: "scc_map_laws T" and play: "plays T own play"
  shows "\<exists>h' tbl'. foldl (\<lambda>x oid. play oid a x) (h, tbl) ids = (h', tbl') \<and>
    jas h' = jas h \<and> tas h' = tas h \<and>
    (\<forall>oid. m_get T oid tbl' = (if oid \<in> set ids then Some (Owned (own a)) else m_get T oid tbl))"
proof (induction ids arbitrary: h tbl)
  case Nil
  then show ?case by simp
next
  case (Cons i ids)
  from play [unfolded plays_def, rule_format, of i a h tbl] obtain h1 where h1: "play i a (h, tbl) = (h1, m_put T i (Owned (own a)) tbl)"
    "jas h1 = jas h" "tas h1 = tas h"
    by blast
  obtain h' tbl' where "foldl (\<lambda>x oid. play oid a x) (h1, m_put T i (Owned (own a)) tbl) ids = (h', tbl')"
    and "jas h' = jas h1" "tas h' = tas h1"
    and "\<forall>oid. m_get T oid tbl' =
      (if oid \<in> set ids then Some (Owned (own a)) else m_get T oid (m_put T i (Owned (own a)) tbl))"
    using Cons.IH [of h1 "m_put T i (Owned (own a)) tbl"] by blast
  with h1 T show ?case by (intro exI [of _ h'] exI [of _ tbl']) (auto simp: scc_map_laws_def)
qed

section \<open>The clock\<close>

fun record_instant :: "log_record \<Rightarrow> u64" where
  "record_instant (TransactionPrepared _ i) = i"
| "record_instant (TransactionCommitted _ i) = i"
| "record_instant _ = 0"

definition recovered_now :: "('q, 'b, 't, 'u) recovery \<Rightarrow> u64" where
  "recovered_now s = seq_now (rk_sequencer (rv_database s))"

lemma allocate_sequencer: "allocate k = Done (k', a) \<Longrightarrow> rk_sequencer k' = rk_sequencer k"
  by (auto simp: allocate_def split: list.splits)

lemma playback_entry_sequencer:
  "playback_entry C B t s = Done (s', pb) \<Longrightarrow> rk_sequencer (rv_database s') = rk_sequencer (rv_database s)"
  by (auto simp: playback_entry_def playback_new_def dest!: allocate_sequencer
      split: option.splits outcome.splits)

lemma play_objects_sequencer:
  "play_objects C B play t j ids s = Done s' \<Longrightarrow> rk_sequencer (rv_database s') = rk_sequencer (rv_database s)"
  by (auto simp: play_objects_def get_or_create_journal_anchor_def
      dest!: playback_entry_sequencer allocate_sequencer split: option.splits outcome.splits prod.splits)

lemma play_submit_sequencer:
  "play_submit C t j i s = Done s' \<Longrightarrow> rk_sequencer (rv_database s') = rk_sequencer (rv_database s)"
  "play_discard C t j s = Done s' \<Longrightarrow> rk_sequencer (rv_database s') = rk_sequencer (rv_database s)"
  by (auto simp: play_submit_def play_discard_def split: option.splits prod.splits)

lemma update_sequencer_now:
  "update_sequencer i k = returns k' \<Longrightarrow> seq_now (rk_sequencer k') = max (seq_now (rk_sequencer k)) i"
  by (auto simp: update_sequencer_def seq_update_result seq_now_def max_def split: if_splits)

lemma apply_record_clock:
  assumes "apply_record T C B r s = returns s'"
  shows "recovered_now s' = max (recovered_now s) (record_instant r)"
  using assms
  by (cases r) (auto simp: recovered_now_def lift_run_def with_database_def playback_prepare_def playback_commit_def
      playback_rollback_def play_objects_sequencer play_submit_sequencer
      dest!: update_sequencer_now playback_entry_sequencer split: option.splits if_splits prod.splits)

lemma apply_all_clock:
  "apply_all T C B rs s = returns s' \<Longrightarrow>
   recovered_now s' = foldl max (recovered_now s) (map record_instant rs)"
  by (induction rs arbitrary: s) (auto simp: apply_record_clock)

section \<open>Playing back the records of a journal\<close>

text \<open>
  The playback of transaction \<open>t\<close> has the anchor \<open>a\<close>, its journal \<open>j\<close> the anchor \<open>b\<close>, and the journal
  is the one the log mentioned last.
\<close>

definition playing ::
  "('u, playback) scc_map \<Rightarrow> transaction_id \<Rightarrow> journal_id \<Rightarrow> transaction_id \<Rightarrow> journal_id \<Rightarrow>
     ('q, 'b, 't, 'u) recovery \<Rightarrow> bool" where
  "playing C t j a b s \<longleftrightarrow>
     (\<exists>pb. m_get C t (rv_playbacks s) = Some pb \<and> pb_anchor pb = a \<and> pb_journal_anchor_map pb j = Some b) \<and>
     rv_last_journal s = Some \<lparr>mr_transaction_id = t, mr_journal_id = j\<rparr> \<and>
     ja_transaction (jas (rk_heap (rv_database s)) b) = a \<and>
     \<not> ja_rolled_back (jas (rk_heap (rv_database s)) b) \<and>
     ta_state (tas (rk_heap (rv_database s)) a) = Active \<and>
     ta_commit_instant (tas (rk_heap (rv_database s)) a) = 0"

text \<open>The table has changed at the given objects only, which the journal owns now.\<close>

definition owned_by ::
  "'t object_map \<Rightarrow> ownership \<Rightarrow> object_id list \<Rightarrow> ('q, 'b, 't, 'u) recovery \<Rightarrow> ('q, 'b, 't, 'u) recovery \<Rightarrow> bool" where
  "owned_by T own ids s s' \<longleftrightarrow> (\<forall>oid. m_get T oid (rk_table (rv_database s')) =
     (if oid \<in> set ids then Some (Owned own) else m_get T oid (rk_table (rv_database s))))"

lemma owned_by_trans:
  "owned_by T own ids s s1 \<Longrightarrow> owned_by T own ids' s1 s2 \<Longrightarrow> owned_by T own (ids @ ids') s s2"
  by (simp add: owned_by_def)

lemma play_objects_next:
  assumes "scc_map_laws T" "scc_map_laws C" "plays T own play" and p: "playing C t j a b s"
  shows "\<exists>s'. play_objects C B play t j ids s = Done s' \<and> playing C t j a b s' \<and> owned_by T (own b) ids s s'"
proof -
  from p obtain pb where "m_get C t (rv_playbacks s) = Some pb" "pb_anchor pb = a" "pb_journal_anchor_map pb j = Some b"
    by (auto simp: playing_def)
  moreover obtain h' tbl' where "foldl (\<lambda>x oid. play oid b x)
      (rk_heap (rv_database s), rk_table (rv_database s)) ids = (h', tbl')"
    "jas h' = jas (rk_heap (rv_database s))" "tas h' = tas (rk_heap (rv_database s))"
    "\<forall>oid. m_get T oid tbl' = (if oid \<in> set ids then Some (Owned (own b)) else m_get T oid (rk_table (rv_database s)))"
    using plays_all [OF assms(1,3)] by blast
  ultimately show ?thesis
    using p assms(2)
    by (simp add: play_objects_def playback_entry_def get_or_create_journal_anchor_def playing_def owned_by_def
        scc_map_laws_def)
qed

lemma play_objects_first:
  assumes "scc_map_laws T" "scc_map_laws C" "plays T own play"
    and new: "m_get C t (rv_playbacks s) = None" and free: "rk_free (rv_database s) = a # b # free"
  shows "\<exists>s'. play_objects C B play t j ids s = Done s' \<and> playing C t j a b s' \<and> owned_by T (own b) ids s s'"
proof -
  let ?h = "upd_ja b (\<lambda>_. anchor_new a None) (upd_ta a (\<lambda>_. tx_anchor_new B) (rk_heap (rv_database s)))"
  obtain h' tbl' where "foldl (\<lambda>x oid. play oid b x) (?h, rk_table (rv_database s)) ids = (h', tbl')"
    "jas h' = jas ?h" "tas h' = tas ?h"
    "\<forall>oid. m_get T oid tbl' = (if oid \<in> set ids then Some (Owned (own b)) else m_get T oid (rk_table (rv_database s)))"
    using plays_all [OF assms(1,3)] by blast
  with new free assms(2) show ?thesis
    by (simp add: play_objects_def playback_entry_def playback_new_def allocate_def get_or_create_journal_anchor_def
        playback_now_def playing_def owned_by_def scc_map_laws_def anchor_new_def tx_anchor_new_def)
qed

text \<open>The records of the objects a journal has created, and of those it has deleted.\<close>

fun journal_of :: "log_record \<Rightarrow> (bool \<times> transaction_id \<times> journal_id) option" where
  "journal_of (JournalCreatedObjectSingle t j _) = Some (True, t, j)"
| "journal_of (JournalCreatedObjectRange t j _ _ _) = Some (True, t, j)"
| "journal_of (JournalDeletedObjectSingle t j _) = Some (False, t, j)"
| "journal_of (JournalDeletedObjectRange t j _ _ _) = Some (False, t, j)"
| "journal_of _ = None"

definition ownership_of :: "bool \<Rightarrow> journal_id \<Rightarrow> ownership" where
  "ownership_of created j = (if created then Created j else Deleted j)"

lemma apply_record_journal:
  assumes "journal_of r = Some (created, t, j)"
  shows "\<exists>play. plays T (ownership_of created) play \<and> apply_record T C B r s = Some (play_objects C B play t j (expand r) s)"
  using assms plays_create [of T] plays_delete [of T]
  by (cases r) (auto simp: lift_run_def object_range_def ownership_of_def [abs_def] cong: if_cong)

lemma journal_plays_on:
  assumes "scc_map_laws T" "scc_map_laws C" and "playing C t j a b s"
    and "list_all (\<lambda>r. journal_of r = Some (created, t, j)) rs"
  shows "\<exists>s'. apply_all T C B rs s = returns s' \<and> playing C t j a b s' \<and>
    owned_by T (ownership_of created b) (concat (map expand rs)) s s'"
  using assms(3,4)
proof (induction rs arbitrary: s)
  case Nil
  then show ?case by (simp add: owned_by_def)
next
  case (Cons r rs)
  then obtain play where "plays T (ownership_of created) play"
    and r: "apply_record T C B r s = Some (play_objects C B play t j (expand r) s)"
    using apply_record_journal [of r created t j T C B s] by auto
  with play_objects_next [OF assms(1,2) _ Cons.prems(1)] obtain s1
    where s1: "play_objects C B play t j (expand r) s = Done s1" "playing C t j a b s1"
      "owned_by T (ownership_of created b) (expand r) s s1"
    by blast
  from Cons.IH [OF s1(2)] Cons.prems(2) obtain s2 where "apply_all T C B rs s1 = returns s2" "playing C t j a b s2"
    "owned_by T (ownership_of created b) (concat (map expand rs)) s1 s2"
    by auto
  with r s1 owned_by_trans show ?case by fastforce
qed

lemma journal_plays:
  assumes "scc_map_laws T" "scc_map_laws C" and "rs \<noteq> []"
    and "list_all (\<lambda>r. journal_of r = Some (created, t, j)) rs"
    and "m_get C t (rv_playbacks s) = None" and "rk_free (rv_database s) = a # b # free"
  shows "\<exists>s'. apply_all T C B rs s = returns s' \<and> playing C t j a b s' \<and>
    owned_by T (ownership_of created b) (concat (map expand rs)) s s'"
proof -
  obtain r rs' where rs: "rs = r # rs'" using assms(3) by (cases rs) auto
  then obtain play where "plays T (ownership_of created) play"
    and r: "apply_record T C B r s = Some (play_objects C B play t j (expand r) s)"
    using apply_record_journal [of r created t j T C B s] assms(4) by auto
  with play_objects_first [OF assms(1,2) _ assms(5,6)] obtain s1
    where s1: "play_objects C B play t j (expand r) s = Done s1" "playing C t j a b s1"
      "owned_by T (ownership_of created b) (expand r) s s1"
    by blast
  from journal_plays_on [OF assms(1,2) s1(2)] assms(4) rs obtain s2
    where "apply_all T C B rs' s1 = returns s2" "playing C t j a b s2"
      "owned_by T (ownership_of created b) (concat (map expand rs')) s1 s2"
    by fastforce
  with r s1 rs owned_by_trans show ?thesis by fastforce
qed

section \<open>The end of a journal and of its transaction\<close>

text \<open>The journal's anchor is not rolled back and its transaction ended at the given instant.\<close>

definition ended_at :: "transaction_id \<Rightarrow> journal_id \<Rightarrow> u64 \<Rightarrow> ('q, 'b, 't, 'u) recovery \<Rightarrow> bool" where
  "ended_at a b c s \<longleftrightarrow> ja_transaction (jas (rk_heap (rv_database s)) b) = a \<and>
     \<not> ja_rolled_back (jas (rk_heap (rv_database s)) b) \<and> eot_instant (tas (rk_heap (rv_database s)) a) = Some c"

lemma ended_reads:
  assumes "ended_at a b c s" and "is_database_snapshot snapshot"
  shows "read_object (rk_heap (rv_database s)) (Owned (ownership_of created b)) snapshot deadline =
    Inr ((c \<noteq> 0 \<and> c \<le> database_snapshot snapshot) = created)"
  using assms
  by (auto simp: read_object_def ownership_of_def map_negate_def grant_read_access_database Let_def ended_at_def
      committed_by_def ja_eot_instant_def is_rolled_back_def)

text \<open>A journal that was submitted and one that was discarded are left in the same state.\<close>

definition left_open :: "('u, playback) scc_map \<Rightarrow> transaction_id \<Rightarrow> transaction_id \<Rightarrow> journal_id \<Rightarrow> ('q, 'b, 't, 'u) recovery \<Rightarrow> bool" where
  "left_open C t a b s \<longleftrightarrow> (\<exists>pb. m_get C t (rv_playbacks s) = Some pb \<and> pb_anchor pb = a) \<and>
     ja_transaction (jas (rk_heap (rv_database s)) b) = a \<and>
     \<not> ja_rolled_back (jas (rk_heap (rv_database s)) b) \<and>
     ta_state (tas (rk_heap (rv_database s)) a) = Active"

lemma journal_ends:
  assumes "scc_map_laws C" and "playing C t j a b s" and "r = BufferSubmitted i \<or> r = BufferDiscarded"
  shows "\<exists>s'. apply_record T C B r s = returns s' \<and> left_open C t a b s' \<and>
    rk_table (rv_database s') = rk_table (rv_database s)"
  using assms
  by (auto simp: playing_def left_open_def lift_run_def play_submit_def play_discard_def submit_journal_anchor_def
      discard_journal_anchor_def scc_map_laws_def Let_def)

lemma playback_commit_ends:
  assumes "scc_bag_laws B"
  shows "\<exists>k'. playback_commit B c pb k = returns k' \<and> rk_table k' = rk_table k \<and>
    jas (rk_heap k') = jas (rk_heap k) \<and> eot_instant (tas (rk_heap k') (pb_anchor pb)) = Some c"
proof -
  obtain s1 v where u: "seq_update (rk_sequencer k) c = Some (s1, v)"
    using seq_update_result [of "rk_sequencer k" c] by (metis surj_pair)
  let ?h = "upd_ta (pb_anchor pb) (\<lambda>a. a\<lparr>ta_commit_instant := c, ta_state := Committed\<rparr>) (rk_heap k)"
  obtain ws q where "wake_up B (pb_anchor pb) ?h =
      returns (upd_ta (pb_anchor pb) (\<lambda>a. a\<lparr>waiting_readers := q\<rparr>) ?h\<lparr>woken := woken ?h @ ws\<rparr>)"
    using wake_up_returns [OF assms] by blast
  then show ?thesis
    by (simp add: playback_commit_def update_sequencer_def u eot_instant_def)
qed

lemma transaction_commits:
  assumes "scc_map_laws C" "scc_bag_laws B" and "left_open C t a b s"
  shows "\<exists>s'. apply_record T C B (TransactionCommitted t c) s = returns s' \<and> ended_at a b c s' \<and>
    rk_table (rv_database s') = rk_table (rv_database s)"
proof -
  from assms(3) obtain pb where pb: "m_get C t (rv_playbacks s) = Some pb" "pb_anchor pb = a" by (auto simp: left_open_def)
  from playback_commit_ends [OF assms(2), of c pb "rv_database s"] obtain k'
    where "playback_commit B c pb (rv_database s) = returns k'" "rk_table k' = rk_table (rv_database s)"
      "jas (rk_heap k') = jas (rk_heap (rv_database s))" "eot_instant (tas (rk_heap k') a) = Some c"
    using pb(2) by blast
  with pb assms(3) show ?thesis
    by (simp add: playback_entry_def lift_run_def with_database_def ended_at_def left_open_def)
qed

lemma apply_all_append: "apply_all T C B (rs @ rs') s = bind_run (apply_all T C B rs s) (apply_all T C B rs')"
  by (induction rs arbitrary: s) (simp_all add: bind_run_def split: option.splits outcome.splits)

lemma journal_recovered:
  assumes "scc_map_laws T" "scc_map_laws C" "scc_bag_laws B" and "rs \<noteq> []"
    and "list_all (\<lambda>r. journal_of r = Some (created, t, j)) rs"
    and "m_get C t (rv_playbacks s) = None" and "rk_free (rv_database s) = a # b # free"
    and "r = BufferSubmitted i \<or> r = BufferDiscarded"
  shows "\<exists>s'. apply_all T C B (rs @ [r, TransactionCommitted t c]) s = returns s' \<and> ended_at a b c s' \<and>
    owned_by T (ownership_of created b) (concat (map expand rs)) s s'"
proof -
  from journal_plays [OF assms(1,2,4-7)] obtain s1 where "apply_all T C B rs s = returns s1" "playing C t j a b s1"
    "owned_by T (ownership_of created b) (concat (map expand rs)) s s1"
    by blast
  moreover from journal_ends [OF assms(2) this(2) assms(8)] obtain s2
    where "apply_record T C B r s1 = returns s2" "left_open C t a b s2" "rk_table (rv_database s2) = rk_table (rv_database s1)"
    by blast
  moreover from transaction_commits [OF assms(2,3) this(2)] obtain s3
    where "apply_record T C B (TransactionCommitted t c) s2 = returns s3" "ended_at a b c s3"
      "rk_table (rv_database s3) = rk_table (rv_database s2)"
    by blast
  ultimately show ?thesis
    by (intro exI [of _ s3]) (simp add: apply_all_append owned_by_def del: apply_record.simps)
qed

section \<open>Properties\<close>

text \<open>
  C10: Replaying the records of a journal, in whatever records its objects were logged, and the
  commit of its transaction restores the transaction: the table changes at exactly the objects of
  the journal, a database snapshot sees the created ones from the commit instant on and the deleted
  ones until then, and the clock is not behind the commit instant.
\<close>

theorem committed_journal_recovered:
  assumes "scc_map_laws T" "scc_map_laws C" "scc_bag_laws B" and "rs \<noteq> []"
    and "list_all (\<lambda>r. journal_of r = Some (created, t, j)) rs"
    and "m_get C t (rv_playbacks s) = None" and "rk_free (rv_database s) = a # b # free" and "c \<noteq> 0"
  shows "\<exists>s'. apply_all T C B (rs @ [BufferSubmitted i, TransactionCommitted t c]) s = returns s' \<and>
    c \<le> recovered_now s' \<and>
    (\<forall>oid. m_get T oid (rk_table (rv_database s')) =
      (if oid \<in> set (concat (map expand rs)) then Some (Owned (ownership_of created b))
       else m_get T oid (rk_table (rv_database s)))) \<and>
    (\<forall>snapshot deadline. is_database_snapshot snapshot \<longrightarrow>
      read_object (rk_heap (rv_database s')) (Owned (ownership_of created b)) snapshot deadline =
        Inr ((c \<le> database_snapshot snapshot) = created))"
proof -
  from journal_recovered [OF assms(1-7), of "BufferSubmitted i" i c] obtain s'
    where s': "apply_all T C B (rs @ [BufferSubmitted i, TransactionCommitted t c]) s = returns s'" "ended_at a b c s'"
      "owned_by T (ownership_of created b) (concat (map expand rs)) s s'"
    by blast
  from apply_all_clock [OF s'(1)] have "c \<le> recovered_now s'" by simp
  with s' ended_reads [OF s'(2)] assms(8) show ?thesis by (auto simp: owned_by_def)
qed

lemma demo_recovery_simps:
  "m_get fun_map t (rv_playbacks demo_recovery) = None" "rk_free (rv_database demo_recovery) = [96, 112, 128, 144]"
  "rk_table (rv_database demo_recovery) = Map.empty" "rk_heap (rv_database demo_recovery) = idle_heap"
  "rv_database demo_recovery = demo_recovered" "recovered_now demo_recovery = 1"
  by (simp_all add: demo_recovery_def demo_recovered_def recovery_start_def fun_map_def recovered_now_def seq_now_def
      default_sequencer_def)

theorem committed_journal_recovered_witness:
  "\<exists>s'. apply_all fun_map fun_map list_bag
      ([JournalCreatedObjectRange 8 16 3 1 2] @ [BufferSubmitted 1, TransactionCommitted 8 5]) demo_recovery = returns s' \<and>
     5 \<le> recovered_now s' \<and> rk_table (rv_database s') 4 = Some (Owned (Created 112)) \<and>
     read_object (rk_heap (rv_database s')) (Owned (Created 112))
       \<lparr>snap_tracker = Some \<lparr>e_addr = 0, e_instant = 5\<rparr>, snap_transaction = None, snap_journal = None,
        snap_task_processor = 0\<rparr> None = Inr True"
proof -
  let ?snapshot = "\<lparr>snap_tracker = Some \<lparr>e_addr = 0, e_instant = 5\<rparr>, snap_transaction = None, snap_journal = None,
        snap_task_processor = 0\<rparr>"
  have "list_all (\<lambda>r. journal_of r = Some (True, 8, 16)) [JournalCreatedObjectRange 8 16 3 1 2]" by simp
  from committed_journal_recovered [OF fun_map_laws fun_map_laws list_bag_laws _ this demo_recovery_simps(1,2), of 5 1]
  obtain s' where s': "apply_all fun_map fun_map list_bag
      ([JournalCreatedObjectRange 8 16 3 1 2] @ [BufferSubmitted 1, TransactionCommitted 8 5]) demo_recovery = returns s'"
    "5 \<le> recovered_now s'"
    "\<forall>oid. m_get fun_map oid (rk_table (rv_database s')) =
      (if oid \<in> set (concat (map expand [JournalCreatedObjectRange 8 16 3 1 2])) then Some (Owned (ownership_of True 112))
       else m_get fun_map oid (rk_table (rv_database demo_recovery)))"
    "\<forall>snapshot deadline. is_database_snapshot snapshot \<longrightarrow>
      read_object (rk_heap (rv_database s')) (Owned (ownership_of True 112)) snapshot deadline =
        Inr ((5 \<le> database_snapshot snapshot) = True)"
    by auto
  have "is_database_snapshot ?snapshot" "database_snapshot ?snapshot = 5"
    by (simp_all add: is_database_snapshot_def database_snapshot_def to_instant_def)
  with s'(4) have "read_object (rk_heap (rv_database s')) (Owned (Created 112)) ?snapshot None = Inr True"
    by (simp add: ownership_of_def)
  moreover have "rk_table (rv_database s') 4 = Some (Owned (Created 112))"
    using s'(3) [rule_format, of 4] by (simp add: fun_map_def ownership_of_def upt_rec)
  ultimately show ?thesis using s'(1,2) by blast
qed

text \<open>
  C25: The clock of the recovered database is the latest of the instants in the log, or what it was
  before if that is later; so a transaction that commits after the recovery gets a later instant
  than every one in the log.
\<close>

theorem recovered_clock:
  assumes "apply_all T C B rs s = returns s'"
  shows "recovered_now s' = foldl max (recovered_now s) (map record_instant rs)"
  using assms by (rule apply_all_clock)

theorem recovered_clock_witness:
  "\<exists>s'. apply_all fun_map fun_map list_bag [TransactionPrepared 8 4, TransactionCommitted 8 7] demo_recovery = returns s' \<and>
     recovered_now s' = 7"
proof -
  let ?rs = "[TransactionPrepared 8 4, TransactionCommitted 8 7]"
  have "\<exists>s1 pb. apply_record fun_map fun_map list_bag (TransactionPrepared 8 4) demo_recovery = returns s1 \<and>
      m_get fun_map 8 (rv_playbacks s1) = Some pb"
    by (simp add: playback_entry_def playback_new_def allocate_def demo_recovery_def recovery_start_def
        demo_recovered_def lift_run_def with_database_def playback_prepare_def update_sequencer_def seq_update_result
        fun_map_def default_sequencer_def)
  then obtain s1 pb where s1: "apply_record fun_map fun_map list_bag (TransactionPrepared 8 4) demo_recovery = returns s1"
    "m_get fun_map 8 (rv_playbacks s1) = Some pb"
    by blast
  obtain k where "playback_commit list_bag 7 pb (rv_database s1) = returns k"
    using playback_commit_ends [OF list_bag_laws] by blast
  with s1(2) have "\<exists>s'. apply_record fun_map fun_map list_bag (TransactionCommitted 8 7) s1 = returns s'"
    by (simp add: playback_entry_def lift_run_def with_database_def)
  with s1(1) obtain s' where s': "apply_all fun_map fun_map list_bag ?rs demo_recovery = returns s'"
    by (auto simp del: apply_record.simps)
  from recovered_clock [OF this] have "recovered_now s' = 7" by (simp add: demo_recovery_simps)
  with s' show ?thesis by blast
qed

text \<open>
  A journal that was dropped without being submitted is rolled back, but its record in the log
  does not roll it back in a recovery: after the commit of its transaction is replayed, the objects
  it created are visible and those it deleted are not.
\<close>

theorem discarded_journal_recovered:
  assumes "scc_map_laws T" "scc_map_laws C" "scc_bag_laws B" and "rs \<noteq> []"
    and "list_all (\<lambda>r. journal_of r = Some (created, t, j)) rs"
    and "m_get C t (rv_playbacks s) = None" and "rk_free (rv_database s) = a # b # free" and "c \<noteq> 0"
    and "is_database_snapshot snapshot" and "c \<le> database_snapshot snapshot" and "oid \<in> set (concat (map expand rs))"
  shows "\<exists>s' st. apply_all T C B (rs @ [BufferDiscarded, TransactionCommitted t c]) s = returns s' \<and>
    m_get T oid (rk_table (rv_database s')) = Some st \<and>
    read_object (rk_heap (rv_database s')) st snapshot deadline = Inr created"
proof -
  from journal_recovered [OF assms(1-7), of BufferDiscarded 0 c] obtain s'
    where "apply_all T C B (rs @ [BufferDiscarded, TransactionCommitted t c]) s = returns s'" "ended_at a b c s'"
      "owned_by T (ownership_of created b) (concat (map expand rs)) s s'"
    by blast
  with ended_reads [OF _ assms(9), of a b c s' created deadline] assms(8,10,11) show ?thesis
    by (intro exI [of _ s'] exI [of _ "Owned (ownership_of created b)"]) (auto simp: owned_by_def)
qed

text \<open>
  A transaction that has not ended in the log is dropped by the recovery without being rolled
  back: its objects stay owned by a transaction that never ends, so no journal of another
  transaction can lock them.
\<close>

theorem open_transaction_blocks:
  assumes "scc_map_laws T" "scc_map_laws C" and "rs \<noteq> []"
    and "list_all (\<lambda>r. journal_of r = Some (created, t, j)) rs"
    and "m_get C t (rv_playbacks s) = None" and "rk_free (rv_database s) = a # b # free"
    and "oid \<in> set (concat (map expand rs))"
  shows "\<exists>s' st. apply_all T C B rs s = returns s' \<and> m_get T oid (rk_table (rv_database s')) = Some st \<and>
    (\<forall>h new_owner. jas h b = jas (rk_heap (rv_database s')) b \<longrightarrow> tas h a = tas (rk_heap (rv_database s')) a \<longrightarrow>
      ja_transaction (jas h new_owner) \<noteq> a \<longrightarrow>
      try_lock h st new_owner None = returns ((h, st), Err SerializationFailure))"
proof -
  from journal_plays [OF assms(1-6)] obtain s1 where s1: "apply_all T C B rs s = returns s1" "playing C t j a b s1"
    "owned_by T (ownership_of created b) (concat (map expand rs)) s s1"
    by blast
  have "try_lock h (Owned (ownership_of created b)) new_owner None =
      returns ((h, Owned (ownership_of created b)), Err SerializationFailure)"
    if "jas h b = jas (rk_heap (rv_database s1)) b" "tas h a = tas (rk_heap (rv_database s1)) a"
      "ja_transaction (jas h new_owner) \<noteq> a" for h new_owner
  proof -
    from s1(2) that(1,2) have a: "ja_transaction (jas h b) = a" "\<not> is_rolled_back h b" "ja_eot_instant h b = None"
      by (auto simp: playing_def is_rolled_back_def ja_eot_instant_def eot_instant_def)
    with that(3) have "grant_write_access h b new_owner = Unknown" by (auto simp: grant_write_access_def)
    moreover have "prepare_ownership_transfer h (Owned (ownership_of created b)) = Done (h, Owned (ownership_of created b))"
      by (simp add: prepare_ownership_transfer_def revoke_promotion.simps settle_ownership_def ownership_of_def a(3))
    ultimately have "try_lock_body new_owner None (h, Owned (ownership_of created b)) =
        returns ((h, Owned (ownership_of created b)), Return (Err SerializationFailure))"
      by (simp add: try_lock_body_def exclusive_flow_def try_lock_exclusively_owned_def exclusive_owner_details_def
          ownership_of_def)
    then show ?thesis unfolding try_lock_def by (subst rust_loop.simps) simp
  qed
  with s1 assms(7) show ?thesis
    by (intro exI [of _ s1] exI [of _ "Owned (ownership_of created b)"]) (auto simp: owned_by_def)
qed

theorem discarded_journal_recovered_witness:
  "\<exists>s' st. apply_all fun_map fun_map list_bag
      ([JournalCreatedObjectSingle 8 16 3] @ [BufferDiscarded, TransactionCommitted 8 5]) demo_recovery = returns s' \<and>
     m_get fun_map 3 (rk_table (rv_database s')) = Some st \<and>
     read_object (rk_heap (rv_database s')) st
       \<lparr>snap_tracker = Some \<lparr>e_addr = 0, e_instant = 5\<rparr>, snap_transaction = None, snap_journal = None,
        snap_task_processor = 0\<rparr> None = Inr True"
proof -
  have "list_all (\<lambda>r. journal_of r = Some (True, 8, 16)) [JournalCreatedObjectSingle 8 16 3]" by simp
  from discarded_journal_recovered [OF fun_map_laws fun_map_laws list_bag_laws _ this demo_recovery_simps(1,2)]
  show ?thesis by (simp add: is_database_snapshot_def database_snapshot_def to_instant_def del: apply_all.simps)
qed

theorem open_transaction_blocks_witness:
  "\<exists>s' st. apply_all fun_map fun_map list_bag [JournalDeletedObjectSingle 8 16 3] demo_recovery = returns s' \<and>
     m_get fun_map 3 (rk_table (rv_database s')) = Some st \<and>
     try_lock (upd_ja 5 (\<lambda>_. anchor_new 6 None) (rk_heap (rv_database s'))) st 5 None =
       returns ((upd_ja 5 (\<lambda>_. anchor_new 6 None) (rk_heap (rv_database s')), st), Err SerializationFailure)"
proof -
  have "list_all (\<lambda>r. journal_of r = Some (False, 8, 16)) [JournalDeletedObjectSingle 8 16 3]" by simp
  from open_transaction_blocks [OF fun_map_laws fun_map_laws _ this demo_recovery_simps(1,2), of 3 list_bag]
  obtain s' st where s': "apply_all fun_map fun_map list_bag [JournalDeletedObjectSingle 8 16 3] demo_recovery = returns s'"
    "m_get fun_map 3 (rk_table (rv_database s')) = Some st"
    and lock: "\<forall>h new_owner. jas h 112 = jas (rk_heap (rv_database s')) 112 \<longrightarrow>
      tas h 96 = tas (rk_heap (rv_database s')) 96 \<longrightarrow> ja_transaction (jas h new_owner) \<noteq> 96 \<longrightarrow>
      try_lock h st new_owner None = returns ((h, st), Err SerializationFailure)"
    by auto
  show ?thesis
    using s' lock [rule_format, of "upd_ja 5 (\<lambda>_. anchor_new 6 None) (rk_heap (rv_database s'))" 5]
    by (intro exI [of _ s'] exI [of _ st] conjI) (simp_all add: anchor_new_def)
qed

text \<open>
  C26: A poll that left its waker while the recovery was running is woken up when the recovery ends,
  and the next poll that gets hold of the recovery data is ready, with the database or the error.
\<close>

theorem recovery_is_awaited:
  assumes "recover_database T C B e fault cancelled (\<lambda>d. fst (file_check_recovery True w d)) log
      (Some (recovery_data_new k until)) = returns (data, invoked)"
    and "\<And>off n. \<not> cancelled off n"
  shows "invoked = Some w \<and>
    (\<exists>r. await_recovery_poll True lock now w' a (flag, data) = Done ((flag, None), False, Ready r))"
proof -
  have start: "fst (file_check_recovery True w (Some (awaited until None None))) = Some (awaited until (Some w) None)"
    by (simp add: file_check_recovery_def get_result_def set_waker_def awaited_def)
  have "\<not> snd x" if "recover_log T C B fault cancelled log (recovery_start k e) = returns x" for x
    by (rule never_stopped [OF assms(2) that])
  from recover_database_finished [where log = log and fault = fault and cancelled = cancelled
      and meanwhile = "\<lambda>d. fst (file_check_recovery True w d)" and until = until and w = "Some w"
      and T = T and C = C and B = B and e = e and k = k, OF start this]
  have "bind_run (finished log (recover_log T C B fault cancelled log (recovery_start k e))) (\<lambda>(s, complete).
      returns (Some (awaited until None (Some (if complete then Ok (rv_database s) else Err invalid_data))), Some w)) =
      returns (data, invoked)"
    unfolding assms(1) by (rule sym)
  then obtain r where "data = Some (awaited until None (Some r))" and "invoked = Some w" by auto
  then show ?thesis
    by (cases r) (auto simp: await_recovery_poll_def file_check_recovery_def get_result_def awaited_def)
qed

theorem recovery_is_awaited_witness:
  "\<exists>data. recover_database fun_map fun_map list_bag (Map.empty :: u64 \<Rightarrow> playback option) (\<lambda>_ _. None) (\<lambda>_ _. False)
      (\<lambda>d. fst (file_check_recovery True 7 d)) \<lparr>raf_file = [], raf_len = 0\<rparr>
      (Some (recovery_data_new demo_recovered None)) = returns (data, Some 7) \<and>
    (\<exists>r. await_recovery_poll True True 0 8 \<lparr>aw_deadline = None\<rparr> (False, data) = Done ((False, None), False, Ready r))"
proof -
  let ?log = "\<lparr>raf_file = [], raf_len = 0\<rparr>"
  have log: "log_intact ?log" by (simp add: log_intact_def)
  have m: "(\<lambda>d :: (entry list, waker list, u64 \<Rightarrow> object_state option) recovered recovery_data option.
      fst (file_check_recovery True 7 d)) (Some (awaited None None None)) = Some (awaited None (Some 7) None)"
    by (simp add: file_check_recovery_def get_result_def set_waker_def awaited_def)
  obtain data x where "recover_database fun_map fun_map list_bag (Map.empty :: u64 \<Rightarrow> playback option) (\<lambda>_ _. None) (\<lambda>_ _. False)
      (\<lambda>d. fst (file_check_recovery True 7 d)) ?log (Some (recovery_data_new demo_recovered None)) = returns (data, x)"
    using recover_database_exact [where log = ?log and fault = "\<lambda>_ _. None" and cancelled = "\<lambda>_ _. False"
        and meanwhile = "\<lambda>d. fst (file_check_recovery True 7 d)" and until = None and w = "Some 7"
        and T = fun_map and C = fun_map and B = list_bag and e = Map.empty and k = demo_recovered, OF log _ _ m]
    by (simp add: replay_end(1))
  from this recovery_is_awaited [OF this, of True 0 8 "\<lparr>aw_deadline = None\<rparr>" False] show ?thesis by blast
qed

end
