(* ===== verification/Log_Durability.thy ===== *)
theory Log_Durability
  imports File_Io
begin

text \<open>
  What the file persistence layer promises: the records a journal asked for are in its buffers,
  in order; the I/O thread appends the buffers to the log in the order they were flushed; and an
  I/O completion is reported only for buffers whose bytes are in the log file.
\<close>

section \<open>Definitions\<close>

text \<open>
  Steps of the layer, on its data, the offset of the I/O thread, the buffers \<open>owned\<close> by journals and
  transactions, and what the I/O thread is about to do. An operation that takes an
  \<^verbatim>\<open>Arc<FileLogBuffer>\<close> is called with an owned one. Any number of operations and polls happen between
  two steps of a batch. The guard of a step of the I/O thread excludes the overflow of the flush epoch
  and of the log offset, 64-bit integers both.
\<close>

definition batch_guard :: "batch_pc \<Rightarrow> 'b file_io_data \<Rightarrow> u64 \<Rightarrow> bool" where
  "batch_guard pc d off =
     (case pc of
        Waiting \<Rightarrow> fd_flush_epoch d \<noteq> - 1
      | Writing _ a \<Rightarrow> unat off + length (buffer_bytes (fd_buffers d a)) < 2 ^ 64
      | _ \<Rightarrow> True)"

type_synonym 'b layer_state = "'b file_io_data \<times> u64 \<times> nat set \<times> batch_pc"

inductive layer_step :: "'b scc_bag \<Rightarrow> 'b layer_state \<Rightarrow> 'b layer_state \<Rightarrow> bool" for B where
  new_buffer: "new_log_buffer d = (d', a) \<Longrightarrow> layer_step B (d, off, owned, pc) (d', off, insert a owned, pc)"
| create: "a \<in> owned \<Longrightarrow> file_create a t j ids d = Done (d', Ok a') \<Longrightarrow>
    layer_step B (d, off, owned, pc) (d', off, insert a' (owned - {a}), pc)"
| delete: "a \<in> owned \<Longrightarrow> file_delete a t j ids d = Done (d', Ok a') \<Longrightarrow>
    layer_step B (d, off, owned, pc) (d', off, insert a' (owned - {a}), pc)"
| submit: "a \<in> owned \<Longrightarrow> file_submit a t j i d = Done d' \<Longrightarrow>
    layer_step B (d, off, owned, pc) (d', off, owned - {a}, pc)"
| discard: "a \<in> owned \<Longrightarrow> file_discard a t j d = Done d' \<Longrightarrow>
    layer_step B (d, off, owned, pc) (d', off, owned - {a}, pc)"
| rewind: "a \<in> owned \<Longrightarrow> file_rewind a t i d = Done d' \<Longrightarrow>
    layer_step B (d, off, owned, pc) (d', off, owned - {a}, pc)"
| prepare: "a \<in> owned \<Longrightarrow> file_prepare a t instant d = Done d' \<Longrightarrow>
    layer_step B (d, off, owned, pc) (d', off, owned - {a}, pc)"
| commit: "a \<in> owned \<Longrightarrow> file_commit a t instant d = Done d' \<Longrightarrow>
    layer_step B (d, off, owned, pc) (d', off, owned - {a}, pc)"
| check: "file_check_io_completion B e w d = (d', r) \<Longrightarrow>
    layer_step B (d, off, owned, pc) (d', off, owned, pc)"
| batch: "batch_guard pc d off \<Longrightarrow> batch_step B faults (pc, d, off) = returns (pc', d', off') \<Longrightarrow>
    layer_step B (d, off, owned, pc) (d', off', owned, pc')"

inductive_cases layer_stepE: "layer_step B (d, off, owned, pc) (d', off', owned', pc')"

text \<open>The states reached from a layer that was just opened.\<close>

inductive layer_run :: "'b scc_bag \<Rightarrow> 'b layer_state \<Rightarrow> bool" for B where
  start: "with_path B False None content capacity = Ok d \<Longrightarrow> length content < 2 ^ 64 \<Longrightarrow>
    layer_run B (d, raf_len (fd_log d), {}, Waiting)"
| run: "layer_run B s \<Longrightarrow> layer_step B s s' \<Longrightarrow> layer_run B s'"

text \<open>A layer just created on an empty log.\<close>

definition fresh_layer :: "waker list file_io_data" where
  "fresh_layer = projr (with_path list_bag False None [] 8)"

text \<open>The same layer with a commit record for transaction \<open>8\<close> at instant \<open>5\<close> flushed.\<close>

definition commit_buffer :: file_log_buffer where
  "commit_buffer = set_buffer_position 16 (default_log_buffer\<lparr>lb_buffer :=
     encode (TransactionCommitted 8 5) @ drop 16 (lb_buffer default_log_buffer)\<rparr>)"

definition committing_layer :: "waker list file_io_data" where
  "committing_layer = flush 1 (upd_buffer 1 (\<lambda>_. commit_buffer) (fst (new_log_buffer fresh_layer)))"

section \<open>Lemmas\<close>

subsection \<open>Operations keep the invariant\<close>

lemma write_and_flush_ok:
  assumes inv: "io_inv_taken d off owned xs ts" and a: "a \<in> owned" and "write_and_flush r a d = Done d'"
  shows "io_inv_taken d' off (owned - {a}) (a # xs) ts"
proof -
  let ?b = "fd_buffers d a"
  have o: "open_buffer d a" using io_takenD(2) [OF inv a] .
  obtain b n where w: "write_to_buffer r ?b = (b, Some n)"
    and d': "d' = flush a (upd_buffer a (\<lambda>_. set_buffer_position n b) d)"
    using assms(3) by (auto simp: write_and_flush_def split: prod.splits option.splits)
  have fits: "lb_pos ?b + record_size r \<le> 32"
  proof (rule ccontr)
    assume "\<not> ?thesis"
    with o w write_to_buffer_full [of ?b r] show False by (auto simp: open_buffer_def)
  qed
  with o w have "length (lb_buffer b) = 32" and "n = record_size r" and "lb_durable_flush_epoch b = 0"
    using write_to_buffer_fits [of ?b r] by (auto simp: open_buffer_def)
  moreover have "n \<le> 32" using calculation(2) record_size_le by simp
  ultimately have "closed_buffer (upd_buffer a (\<lambda>_. set_buffer_position n b) d) a"
    using o by (simp add: closed_buffer_def open_buffer_def)
  with inv a show ?thesis unfolding d' by (rule io_inv_flush)
qed

lemma flush_open_ok:
  assumes inv: "io_inv_taken d off owned xs ts" and a: "a \<in> owned"
    and "\<And>b. lb_buffer (f b) = lb_buffer b" and "\<And>b. lb_bytes_written (f b) = lb_bytes_written b"
    and "\<And>b. lb_durable_flush_epoch (f b) = lb_durable_flush_epoch b"
  shows "io_inv_taken (flush a (upd_buffer a f d)) off (owned - {a}) (a # xs) ts"
proof (rule io_inv_flush [OF inv a])
  show "closed_buffer (upd_buffer a f d) a"
    using open_closed [OF io_takenD(2) [OF inv a]] assms(3-) by (simp add: closed_buffer_def lb_pos_def)
qed

lemma upd_buffer_id [simp]: "upd_buffer a (\<lambda>b. b) d = d"
  by (simp add: upd_buffer_def)

lemma file_submit_ok:
  assumes "io_inv_taken d off owned xs ts" and "a \<in> owned" and "file_submit a t j i d = Done d'"
  shows "io_inv_taken d' off (owned - {a}) (a # xs) ts"
  using assms(3) write_and_flush_ok [OF assms(1,2), of _ d']
    flush_open_ok [OF assms(1,2), of "\<lambda>b. b"]
    flush_open_ok [OF assms(1,2), of "\<lambda>b. b\<lparr>lb_submit_instant := the i, lb_eoj_logging := True\<rparr>"]
  by (auto simp: file_submit_def split: option.splits if_splits)

lemma file_discard_ok:
  assumes "io_inv_taken d off owned xs ts" and "a \<in> owned" and "file_discard a t j d = Done d'"
  shows "io_inv_taken d' off (owned - {a}) (a # xs) ts"
  using assms(3) write_and_flush_ok [OF assms(1,2), of _ d']
    flush_open_ok [OF assms(1,2), of "\<lambda>b. b\<lparr>lb_eoj_logging := True\<rparr>"]
  by (auto simp: file_discard_def split: if_splits)

lemma io_inv_frame:
  assumes "io_inv_taken d off owned xs ts" and "fd_buffers d' = fd_buffers d" and "fd_next_buffer d' = fd_next_buffer d"
    and "fd_log_buffer_link d' = fd_log_buffer_link d" and "fd_log d' = fd_log d"
    and "fd_flush_epoch d' = fd_flush_epoch d"
  shows "io_inv_taken d' off owned xs ts"
proof -
  have "chain d' a xs = chain d a xs" for a using assms(2) by (intro chain_cong) simp
  with assms show ?thesis
    by (simp add: io_inv_taken_def open_buffer_def closed_buffer_def durable_buffer_def)
qed

lemma check_ok:
  assumes "io_inv_taken d off owned xs ts" and "file_check_io_completion B e w d = (d', r)"
  shows "io_inv_taken d' off owned xs ts"
  by (rule io_inv_frame [OF assms(1)])
    (use assms(2) in \<open>auto simp: file_check_io_completion_def Let_def split: if_splits\<close>)

subsection \<open>A batch of the I/O thread\<close>

lemma batch_empty:
  assumes "chain d (fd_log_buffer_link d) []"
  shows "process_log_buffer_batch B faults (d, off) = returns (d, off)"
  using assms by (simp add: process_log_buffer_batch_def take_log_buffer_link_def Let_def)

lemma batch_ok:
  assumes laws: "scc_bag_laws B" and chain: "chain d (fd_log_buffer_link d) xs" and ne: "xs \<noteq> []"
    and len: "length (raf_file (fd_log d)) = unat off"
    and room: "unat off + length (concat (map (\<lambda>x. buffer_bytes (fd_buffers d x)) (rev xs))) < 2 ^ 64"
    and pos: "\<forall>x \<in> set xs. lb_pos (fd_buffers d x) \<le> length (lb_buffer (fd_buffers d x))"
  obtains d' ws where "process_log_buffer_batch B faults (d, off) =
      returns (d', off + of_nat (length (concat (map (\<lambda>x. buffer_bytes (fd_buffers d x)) (rev xs)))))"
    and "raf_file (fd_log d') = raf_file (fd_log d) @ concat (map (\<lambda>x. buffer_bytes (fd_buffers d x)) (rev xs))"
    and "fd_flush_epoch d' = fd_flush_epoch d + 1" and "fd_log_buffer_link d' = 0"
    and "fd_next_buffer d' = fd_next_buffer d"
    and "\<forall>x \<in> set xs. fd_buffers d' x =
      (fd_buffers d x)\<lparr>lb_next := 0, lb_durable_flush_epoch := fd_flush_epoch d + 1\<rparr>"
    and "\<forall>x. x \<notin> set xs \<longrightarrow> fd_buffers d' x = fd_buffers d x"
    and "fd_woken d' = fd_woken d @ ws" and "mset ws = bag_content B (fd_waker_bag d)"
    and "bag_content B (fd_waker_bag d') = {#}"
proof -
  let ?e = "fd_flush_epoch d + 1"
  obtain bs where t: "take_log_buffer_link ?e d =
      returns (d\<lparr>fd_log_buffer_link := 0, fd_buffers := bs\<rparr>, Some (last xs))"
    and c: "chain (d\<lparr>fd_log_buffer_link := 0, fd_buffers := bs\<rparr>) (last xs) (rev xs)"
    and bs: "\<forall>x \<in> set xs. bs x = (fd_buffers d x)\<lparr>lb_next := lb_next (bs x), lb_durable_flush_epoch := ?e\<rparr>"
    and other: "\<forall>x. x \<notin> set xs \<longrightarrow> bs x = fd_buffers d x"
    using take_log_buffer_link_ok [OF chain, of ?e] ne by auto
  let ?d1 = "d\<lparr>fd_log_buffer_link := 0, fd_buffers := bs\<rparr>"
  have bytes: "buffer_bytes (bs x) = buffer_bytes (fd_buffers d x)"
    and pos1: "lb_pos (bs x) \<le> length (lb_buffer (bs x))" if "x \<in> set xs" for x
  proof -
    show "buffer_bytes (bs x) = buffer_bytes (fd_buffers d x)"
      by (rule same_bytes) (subst bs [rule_format, OF that], simp)
    show "lb_pos (bs x) \<le> length (lb_buffer (bs x))"
      using pos that by (subst (1 2) bs [rule_format, OF that]) simp
  qed
  have total: "concat (map (\<lambda>x. buffer_bytes (fd_buffers ?d1 x)) (rev xs)) =
      concat (map (\<lambda>x. buffer_bytes (fd_buffers d x)) (rev xs))"
    by (intro arg_cong [of _ _ concat] map_cong refl) (simp add: bytes)
  obtain f bs2 a' where w: "rust_loop (write_body faults) (?d1, last xs, off) =
      returns ((?d1\<lparr>fd_log := f, fd_buffers := bs2\<rparr>, a',
        off + of_nat (length (concat (map (\<lambda>x. buffer_bytes (fd_buffers d x)) (rev xs))))), ())"
    and f: "raf_file f = raf_file (fd_log d) @ concat (map (\<lambda>x. buffer_bytes (fd_buffers d x)) (rev xs))"
    and bs2: "\<forall>x \<in> set xs. bs2 x = (bs x)\<lparr>lb_next := 0\<rparr>"
    and other2: "\<forall>x. x \<notin> set xs \<longrightarrow> bs2 x = bs x"
    using write_loop [OF c, of off faults] ne len room pos1 unfolding total by auto
  let ?d2 = "?d1\<lparr>fd_log := f, fd_buffers := bs2\<rparr>\<lparr>fd_flush_epoch := ?e\<rparr>"
  obtain b ws where p: "rust_loop (pop_all_body B) ?d2 =
      returns (?d2\<lparr>fd_waker_bag := b, fd_woken := fd_woken d @ ws\<rparr>, ())"
    and ws: "mset ws = bag_content B (fd_waker_bag d)" and b: "bag_content B b = {#}"
    using pop_all_loop [OF laws, of ?d2] by auto
  let ?d3 = "?d2\<lparr>fd_waker_bag := b, fd_woken := fd_woken d @ ws\<rparr>"
  have "process_log_buffer_batch B faults (d, off) =
      returns (?d3, off + of_nat (length (concat (map (\<lambda>x. buffer_bytes (fd_buffers d x)) (rev xs)))))"
    unfolding process_log_buffer_batch_def Let_def using t w p by simp
  moreover have "\<forall>x \<in> set xs. bs2 x = (fd_buffers d x)\<lparr>lb_next := 0, lb_durable_flush_epoch := ?e\<rparr>"
  proof
    fix x assume x: "x \<in> set xs"
    have "bs2 x = (bs x)\<lparr>lb_next := 0\<rparr>" using bs2 x by blast
    also have "\<dots> = (fd_buffers d x)\<lparr>lb_next := 0, lb_durable_flush_epoch := ?e\<rparr>"
      by (subst bs [rule_format, OF x]) (simp add: update_commute)
    finally show "bs2 x = \<dots>" .
  qed
  ultimately show thesis
    using f other other2 ws b by (intro that [of ?d3 ws]) simp_all
qed

lemma sublist_concat_member:
  "x \<in> set xs \<Longrightarrow> sublist (f x) (ys @ concat (map f xs))"
proof -
  assume "x \<in> set xs"
  then obtain us vs where "xs = us @ x # vs" by (auto simp: in_set_conv_decomp)
  then have "ys @ concat (map f xs) = (ys @ concat (map f us)) @ f x @ concat (map f vs)" by simp
  then show ?thesis unfolding sublist_def by blast
qed

text \<open>
  Every step keeps the invariant, and what a buffer holds that its owner gave away.
\<close>

lemma log_objects_step:
  assumes "io_inv_taken d off owned xs ts" and "a \<in> owned"
    and "log_objects ext single None ids (d, a) = Done (d', a')"
  shows "\<exists>ys. io_inv_taken d' off (insert a' (owned - {a})) ys ts"
    and "fd_next_buffer d \<le> fd_next_buffer d'"
    and "x \<notin> owned \<Longrightarrow> x < fd_next_buffer d \<Longrightarrow> fd_buffers d' x = fd_buffers d x \<and> x \<notin> insert a' (owned - {a})"
proof -
  let ?rs = "compress ext single None ids"
  obtain d1 a1 ys where "emit_all ?rs (d, a) = Done (d1, a1)"
    and "io_inv_taken d1 off (insert a1 (owned - {a})) (ys @ xs) ts"
    and "\<forall>x. x < fd_next_buffer d \<longrightarrow> x \<noteq> a \<longrightarrow> fd_buffers d1 x = fd_buffers d x"
    and "a1 \<in> insert a {fd_next_buffer d ..}" and "fd_next_buffer d \<le> fd_next_buffer d1"
    by (rule emit_all_ok [OF assms(1,2), of ?rs])
  moreover from calculation(1) assms(3) have "d1 = d'" and "a1 = a'" by (simp_all add: log_objects_compress)
  ultimately show "\<exists>ys. io_inv_taken d' off (insert a' (owned - {a})) ys ts"
    and "fd_next_buffer d \<le> fd_next_buffer d'"
    and "x \<notin> owned \<Longrightarrow> x < fd_next_buffer d \<Longrightarrow> fd_buffers d' x = fd_buffers d x \<and> x \<notin> insert a' (owned - {a})"
    using assms(2) by auto
qed

lemma write_and_flush_frame:
  "write_and_flush r a d = Done d' \<Longrightarrow>
     (x \<noteq> a \<longrightarrow> fd_buffers d' x = fd_buffers d x) \<and> fd_next_buffer d' = fd_next_buffer d"
  by (auto simp: write_and_flush_def split: prod.splits option.splits)

lemma file_submit_frame:
  "file_submit a t j i d = Done d' \<Longrightarrow>
     (x \<noteq> a \<longrightarrow> fd_buffers d' x = fd_buffers d x) \<and> fd_next_buffer d' = fd_next_buffer d"
  using write_and_flush_frame [of _ a d d' x]
  by (auto simp: file_submit_def split: option.splits if_splits)

lemma file_discard_frame:
  "file_discard a t j d = Done d' \<Longrightarrow>
     (x \<noteq> a \<longrightarrow> fd_buffers d' x = fd_buffers d x) \<and> fd_next_buffer d' = fd_next_buffer d"
  using write_and_flush_frame [of _ a d d' x] by (auto simp: file_discard_def split: if_splits)

lemma log_objects_frame:
  assumes "io_inv_taken d off owned xs ts" and "a \<in> owned" and "log_objects ext single None ids (d, a) = Done (d', a')"
  shows "fd_log d' = fd_log d \<and> fd_flush_epoch d' = fd_flush_epoch d"
proof -
  have one: "fd_log d' = fd_log d \<and> fd_flush_epoch d' = fd_flush_epoch d" if "emit_record r (d, a) = Done (d', a')"
    for r :: log_record and d d' :: "'a file_io_data" and a a'
    using that by (auto simp: emit_record_def new_log_buffer_def Let_def split: prod.splits option.splits if_splits)
  have "fd_log d' = fd_log d \<and> fd_flush_epoch d' = fd_flush_epoch d" if "emit_all rs (d, a) = Done (d', a')" for rs
    using that
  proof (induction rs arbitrary: d a)
    case (Cons r rs)
    then obtain d1 a1 where "emit_record r (d, a) = Done (d1, a1)" "emit_all rs (d1, a1) = Done (d', a')"
      by (auto split: outcome.splits)
    with Cons.IH one show ?case by metis
  qed simp
  with assms(3) show ?thesis by (simp add: log_objects_compress)
qed

subsection \<open>The I/O thread in the middle of a batch\<close>

text \<open>
  What holds of the buffers the I/O thread has taken, by what it does next: their epoch is not set or
  is the next one, those not yet written are reached through the links, and the bytes of the others
  are in the log.
\<close>

definition in_log :: "'b file_io_data \<Rightarrow> nat \<Rightarrow> bool" where
  "in_log d a \<longleftrightarrow> sublist (buffer_bytes (fd_buffers d a)) (raf_file (fd_log d))"

definition epoch_of :: "'b file_io_data \<Rightarrow> nat \<Rightarrow> u64" where
  "epoch_of d a = lb_durable_flush_epoch (fd_buffers d a)"

definition inverting :: "'b file_io_data \<Rightarrow> u64 \<Rightarrow> nat \<Rightarrow> nat list \<Rightarrow> nat list \<Rightarrow> nat set \<Rightarrow> bool" where
  "inverting d e current acc rem ts \<longleftrightarrow> chain d current acc \<and> acc \<noteq> [] \<and> distinct (rem @ acc) \<and>
     ts = set rem \<union> set acc \<and> (\<forall>x \<in> set acc. epoch_of d x = e) \<and> (\<forall>x \<in> set rem. epoch_of d x = 0)"

definition pc_inv :: "'b file_io_data \<Rightarrow> batch_pc \<Rightarrow> nat set \<Rightarrow> bool" where
  "pc_inv d pc ts \<longleftrightarrow>
     (\<forall>x \<in> ts. lb_pos (fd_buffers d x) \<le> length (lb_buffer (fd_buffers d x))) \<and>
     (case pc of
        Waiting \<Rightarrow> ts = {}
      | Taking e \<Rightarrow> ts = {} \<and> e = fd_flush_epoch d + 1 \<and> e \<noteq> 0
      | Marking e head \<Rightarrow> e = fd_flush_epoch d + 1 \<and> e \<noteq> 0 \<and>
          (\<exists>us. chain d head us \<and> us \<noteq> [] \<and> ts = set us \<and> (\<forall>x \<in> ts. epoch_of d x = 0))
      | Inverting e current nxt \<Rightarrow> e = fd_flush_epoch d + 1 \<and> e \<noteq> 0 \<and>
          (\<exists>acc rem. inverting d e current acc rem ts \<and>
             (case nxt of None \<Rightarrow> rem = [] | Some n \<Rightarrow> rem \<noteq> [] \<and> chain d n rem))
      | Writing e a \<Rightarrow> e = fd_flush_epoch d + 1 \<and> e \<noteq> 0 \<and> (\<forall>x \<in> ts. epoch_of d x = e) \<and>
          (\<exists>rem. chain d a rem \<and> rem \<noteq> [] \<and> set rem \<subseteq> ts \<and> (\<forall>x \<in> ts - set rem. in_log d x))
      | Storing e \<Rightarrow> e = fd_flush_epoch d + 1 \<and> e \<noteq> 0 \<and> (\<forall>x \<in> ts. epoch_of d x = e \<and> in_log d x)
      | Waking \<Rightarrow> ts = {})"

text \<open>The other threads leave the taken buffers, the log and the epoch alone.\<close>

lemma pc_inv_cong:
  assumes "pc_inv d pc ts" and "\<forall>x \<in> ts. fd_buffers d' x = fd_buffers d x"
    and "fd_log d' = fd_log d" and "fd_flush_epoch d' = fd_flush_epoch d"
  shows "pc_inv d' pc ts"
proof -
  have ch: "chain d' a us = chain d a us" if "set us \<subseteq> ts" for a us
    using that assms(2) by (intro chain_cong) auto
  have il: "in_log d' x = in_log d x" if "x \<in> ts" for x using that assms by (simp add: in_log_def)
  have ep: "epoch_of d' x = epoch_of d x" if "x \<in> ts" for x using that assms by (simp add: epoch_of_def)
  have iv: "inverting d' e c acc rem ts = inverting d e c acc rem ts" for e c acc rem
    unfolding inverting_def using ch [of acc c] ep by auto
  show ?thesis
  proof (cases pc)
    case (Marking e head)
    with assms(1) obtain us where us: "chain d head us" "us \<noteq> []" "ts = set us" by (auto simp: pc_inv_def)
    with Marking assms ep ch [of us head] show ?thesis by (auto simp: pc_inv_def)
  next
    case (Inverting e current nxt)
    with assms(1) obtain acc rem where us: "inverting d e current acc rem ts"
      "case nxt of None \<Rightarrow> rem = [] | Some n \<Rightarrow> rem \<noteq> [] \<and> chain d n rem" by (auto simp: pc_inv_def)
    then have "set rem \<subseteq> ts" by (auto simp: inverting_def)
    with us ch [of rem] have "case nxt of None \<Rightarrow> rem = [] | Some n \<Rightarrow> rem \<noteq> [] \<and> chain d' n rem"
      by (simp split: option.splits)
    with us(1) Inverting assms iv show ?thesis by (auto simp: pc_inv_def)
  next
    case (Writing e a)
    with assms(1) obtain rem where us: "chain d a rem" "rem \<noteq> []" "set rem \<subseteq> ts" "\<forall>x \<in> ts - set rem. in_log d x"
      by (auto simp: pc_inv_def)
    with ch [of rem a] il have "chain d' a rem" "\<forall>x \<in> ts - set rem. in_log d' x" by auto
    with us(2,3) Writing assms ep show ?thesis by (auto simp: pc_inv_def)
  qed (use assms il ep in \<open>auto simp: pc_inv_def\<close>)
qed

definition batch_inv :: "'b layer_state \<Rightarrow> nat list \<Rightarrow> nat set \<Rightarrow> bool" where
  "batch_inv = (\<lambda>(d, off, owned, pc) xs ts. io_inv_taken d off owned xs ts \<and> pc_inv d pc ts)"

lemma sublist_append_left: "sublist xs ys \<Longrightarrow> sublist xs (ys @ zs)"
  unfolding sublist_def by (metis append.assoc)

text \<open>A step of the I/O thread that changes taken buffers only, and appends to the log.\<close>

lemma io_taken_frame:
  assumes inv: "io_inv_taken d off owned xs ts" and same: "\<forall>x. x \<notin> ts \<longrightarrow> fd_buffers d' x = fd_buffers d x"
    and f: "fd_next_buffer d' = fd_next_buffer d" "fd_log_buffer_link d' = fd_log_buffer_link d"
      "fd_flush_epoch d' = fd_flush_epoch d" "raf_file (fd_log d') = raf_file (fd_log d) @ bytes"
      "length (raf_file (fd_log d')) = unat off'"
  shows "io_inv_taken d' off' owned xs ts"
proof -
  note I = io_takenD [OF inv]
  have "chain d' (fd_log_buffer_link d') xs"
  proof -
    have "lb_next (fd_buffers d' x) = lb_next (fd_buffers d x)" if "x \<in> set xs" for x
      using I(11) [of x] that same by metis
    with I(3) f(2) chain_cong [of xs d' d] show ?thesis by simp
  qed
  moreover have "open_buffer d' a" if "a \<in> owned" for a
    using I(2) [OF that] I(10) [of a] that same f(1) unfolding open_buffer_def by metis
  moreover have "closed_buffer d' a" if "a \<in> set xs" for a
    using I(5) [OF that] I(11) [of a] that same f(1) unfolding closed_buffer_def by metis
  moreover have "durable_buffer d' a" if "durable_buffer d a" "a \<notin> ts" for a
    using that same f(3,4) by (simp add: durable_buffer_def sublist_append_left)
  ultimately show ?thesis using I(1) f(1,5) I(4,6,8-11) by (auto simp: io_inv_taken_def)
qed

text \<open>What a step of the I/O thread keeps of every buffer.\<close>

definition buffer_kept :: "'b file_io_data \<Rightarrow> 'b file_io_data \<Rightarrow> nat \<Rightarrow> bool" where
  "buffer_kept d d' x \<longleftrightarrow> buffer_bytes (fd_buffers d' x) = buffer_bytes (fd_buffers d x) \<and>
     (epoch_of d x \<noteq> 0 \<longrightarrow> epoch_of d' x = epoch_of d x)"

lemma buffer_kept_same: "fd_buffers d' x = fd_buffers d x \<Longrightarrow> buffer_kept d d' x"
  by (simp add: buffer_kept_def epoch_of_def)

lemma buffer_kept_links:
  "fd_buffers d' x = (fd_buffers d x)\<lparr>lb_next := n\<rparr> \<Longrightarrow> buffer_kept d d' x"
  "fd_buffers d' x = (fd_buffers d x)\<lparr>lb_next := n, lb_durable_flush_epoch := e\<rparr> \<Longrightarrow> epoch_of d x = 0 \<Longrightarrow> buffer_kept d d' x"
  by (auto simp: buffer_kept_def epoch_of_def intro!: same_bytes)

definition batch_stepped :: "nat set \<Rightarrow> 'b layer_state \<Rightarrow> 'b layer_state \<Rightarrow> bool" where
  "batch_stepped owned = (\<lambda>(d, off, _, pc) (d', off', _, pc').
     (\<exists>xs' ts'. batch_inv (d', off', owned, pc') xs' ts') \<and> fd_next_buffer d' = fd_next_buffer d \<and> (\<forall>x. buffer_kept d d' x))"

lemma batch_steppedI:
  "io_inv_taken d' off' owned xs ts \<Longrightarrow> pc_inv d' pc' ts \<Longrightarrow> fd_next_buffer d' = fd_next_buffer d \<Longrightarrow>
     (\<And>x. buffer_kept d d' x) \<Longrightarrow> batch_stepped owned (d, off, owned', pc) (d', off', owned'', pc')"
  unfolding batch_stepped_def batch_inv_def by auto

lemma pc_inv_writing:
  "\<forall>x \<in> ts. lb_pos (fd_buffers d x) \<le> length (lb_buffer (fd_buffers d x)) \<Longrightarrow> e = fd_flush_epoch d + 1 \<Longrightarrow> e \<noteq> 0 \<Longrightarrow>
     \<forall>x \<in> ts. epoch_of d x = e \<Longrightarrow> chain d a rem \<Longrightarrow> rem \<noteq> [] \<Longrightarrow> set rem \<subseteq> ts \<Longrightarrow> \<forall>x \<in> ts - set rem. in_log d x \<Longrightarrow>
     pc_inv d (Writing e a) ts"
  unfolding pc_inv_def by auto

lemma pc_inv_inverting:
  "\<forall>x \<in> ts. lb_pos (fd_buffers d x) \<le> length (lb_buffer (fd_buffers d x)) \<Longrightarrow> e = fd_flush_epoch d + 1 \<Longrightarrow> e \<noteq> 0 \<Longrightarrow>
     inverting d e current acc rem ts \<Longrightarrow> (case nxt of None \<Rightarrow> rem = [] | Some n \<Rightarrow> rem \<noteq> [] \<and> chain d n rem) \<Longrightarrow>
     pc_inv d (Inverting e current nxt) ts"
  unfolding pc_inv_def by auto

lemma marking_step:
  assumes inv: "batch_inv (d, off, owned, Marking e head) xs ts"
    and step: "batch_step B faults (Marking e head, d, off) = returns (pc', d', off')"
  shows "batch_stepped owned (d, off, owned, Marking e head) (d', off', owned, pc')"
proof -
  from inv have I: "io_inv_taken d off owned xs ts" and e: "e = fd_flush_epoch d + 1" "e \<noteq> 0"
    and size: "\<forall>x \<in> ts. lb_pos (fd_buffers d x) \<le> length (lb_buffer (fd_buffers d x))"
    unfolding batch_inv_def pc_inv_def by auto
  from inv obtain us where us: "chain d head us" "us \<noteq> []" "ts = set us" "\<forall>x \<in> ts. epoch_of d x = 0"
    by (auto simp: batch_inv_def pc_inv_def)
  then obtain rest where rest: "us = head # rest" and h: "head \<noteq> 0" "chain d (lb_next (fd_buffers d head)) rest"
    "head \<notin> set rest" "distinct rest" using chain_distinct [of d head us] by (cases us) auto
  let ?b = "(fd_buffers d head)\<lparr>lb_next := 0, lb_durable_flush_epoch := e\<rparr>"
  let ?d = "d\<lparr>fd_buffers := (fd_buffers d)(head := ?b)\<rparr>"
  let ?e = "set_durable_flush_epoch head e d"
  have c: "chain ?e (lb_next (fd_buffers ?e head)) rest" using h by (simp add: set_durable_flush_epoch_def)
  have "take_next head ?e = (?d, if rest = [] then None else Some (hd rest))"
  proof (cases "rest = []")
    case True
    with h have "lb_next (fd_buffers d head) = 0" by simp
    then have "(fd_buffers d head)\<lparr>lb_next := 0\<rparr> = fd_buffers d head" by (cases "fd_buffers d head") simp
    with True show ?thesis using take_next_chain [OF c] by (simp add: set_durable_flush_epoch_def upd_buffer_def)
  next
    case False
    then show ?thesis
      using take_next_chain [OF c] by (simp add: set_durable_flush_epoch_def upd_buffer_def update_commute)
  qed
  with step have d': "d' = ?d" and pc': "pc' = Inverting e head (if rest = [] then None else Some (hd rest))" and off: "off' = off"
    by (auto simp: batch_step_def)
  have "io_inv_taken ?d off owned xs ts"
    by (rule io_taken_frame [OF I, of _ "[]"]) (use io_takenD(7) [OF I] us(3) rest in auto)
  moreover have "chain ?d (hd rest) rest" if "rest \<noteq> []"
    using h that by (subst chain_cong [of _ _ d]) (cases rest; auto)+
  then have "inverting ?d e head [head] rest ts \<and> (rest \<noteq> [] \<longrightarrow> chain ?d (hd rest) rest)"
    using us h rest by (auto simp: inverting_def epoch_of_def)
  then have "pc_inv ?d pc' ts"
    unfolding pc' by (intro pc_inv_inverting [where acc = "[head]" and rem = rest]) (use e size rest in auto)
  moreover have "buffer_kept d ?d x" for x
    using us(3,4) rest by (cases "x = head") (auto intro: buffer_kept_same buffer_kept_links(2))
  ultimately show ?thesis unfolding d' off by (intro batch_steppedI) simp_all
qed

lemma inverting_step:
  assumes inv: "batch_inv (d, off, owned, Inverting e current nxt) xs ts"
    and step: "batch_step B faults (Inverting e current nxt, d, off) = returns (pc', d', off')"
  shows "batch_stepped owned (d, off, owned, Inverting e current nxt) (d', off', owned, pc')"
proof -
  from inv have I: "io_inv_taken d off owned xs ts" and e: "e = fd_flush_epoch d + 1" "e \<noteq> 0"
    and size: "\<forall>x \<in> ts. lb_pos (fd_buffers d x) \<le> length (lb_buffer (fd_buffers d x))"
    unfolding batch_inv_def pc_inv_def by auto
  from inv obtain acc rem where iv: "inverting d e current acc rem ts"
    and rem: "case nxt of None \<Rightarrow> rem = [] | Some n \<Rightarrow> rem \<noteq> [] \<and> chain d n rem"
    by (auto simp: batch_inv_def pc_inv_def)
  show ?thesis
  proof (cases nxt)
    case None
    with step have "d' = d" "pc' = Writing e current" "off' = off" by (auto simp: batch_step_def invert_body_def)
    moreover have "pc_inv d (Writing e current) ts"
      using iv rem None e size by (auto simp: pc_inv_def inverting_def intro!: exI [of _ acc])
    ultimately show ?thesis using I by (auto intro: batch_steppedI buffer_kept_same)
  next
    case (Some n)
    with rem obtain rest where rest: "rem = n # rest" and c: "chain d n (n # rest)" by (cases rem) auto
    let ?b = "(fd_buffers d n)\<lparr>lb_next := current, lb_durable_flush_epoch := e\<rparr>"
    let ?d = "d\<lparr>fd_buffers := (fd_buffers d)(n := ?b)\<rparr>"
    have n: "n \<notin> set rest" "n \<notin> set acc" "n \<in> ts" "n \<noteq> 0" using iv rest c by (auto simp: inverting_def)
    have d': "d' = ?d" "off' = off" and pc': "pc' = (if rest = [] then Writing e n else Inverting e n (Some (hd rest)))"
      using step Some invert_body_step [OF c, of e current] by (auto simp: batch_step_def Let_def split: if_splits)
    have "io_inv_taken ?d off owned xs ts"
      by (rule io_taken_frame [OF I, of _ "[]"]) (use io_takenD(7) [OF I] n in auto)
    moreover have acc: "chain ?d n (n # acc)"
      using iv n c by (simp add: inverting_def) (subst chain_cong [of _ _ d], auto)
    moreover have iv': "inverting ?d e n (n # acc) rest ts"
      using iv rest n acc by (auto simp: inverting_def epoch_of_def)
    moreover have "chain ?d (hd rest) rest" if "rest \<noteq> []"
      using c n that by (subst chain_cong [of _ _ d]) (cases rest; auto)+
    moreover have sizes: "\<forall>x \<in> ts. lb_pos (fd_buffers ?d x) \<le> length (lb_buffer (fd_buffers ?d x))"
      using size by auto
    moreover have "pc_inv ?d pc' ts"
    proof (cases "rest = []")
      case True
      with iv' have "\<forall>x \<in> ts. epoch_of ?d x = e" "set (n # acc) \<subseteq> ts" "\<forall>x \<in> ts - set (n # acc). in_log ?d x"
        by (auto simp: inverting_def)
      with True acc show ?thesis
        unfolding pc' using pc_inv_writing [OF sizes, of e n "n # acc"] e by simp
    next
      case False
      with calculation(4) show ?thesis
        unfolding pc' using pc_inv_inverting [OF sizes _ _ iv', of "Some (hd rest)"] e by simp
    qed
    ultimately have "io_inv_taken ?d off owned xs ts" "pc_inv ?d pc' ts" by blast+
    moreover have "buffer_kept d ?d x" for x
      using iv rest by (cases "x = n") (auto simp: inverting_def intro: buffer_kept_same buffer_kept_links(2))
    ultimately show ?thesis unfolding d' by (intro batch_steppedI) simp_all
  qed
qed

lemma writing_step:
  assumes inv: "batch_inv (d, off, owned, Writing e a) xs ts" and guard: "batch_guard (Writing e a) d off"
    and step: "batch_step B faults (Writing e a, d, off) = returns (pc', d', off')"
  shows "batch_stepped owned (d, off, owned, Writing e a) (d', off', owned, pc')"
proof -
  from inv have I: "io_inv_taken d off owned xs ts" and e: "e = fd_flush_epoch d + 1" "e \<noteq> 0"
    and size: "\<forall>x \<in> ts. lb_pos (fd_buffers d x) \<le> length (lb_buffer (fd_buffers d x))"
    and ep: "\<forall>x \<in> ts. epoch_of d x = e"
    unfolding batch_inv_def pc_inv_def by auto
  from inv obtain rem where "chain d a rem" "rem \<noteq> []" and ts: "set rem \<subseteq> ts" and il: "\<forall>x \<in> ts - set rem. in_log d x"
    by (auto simp: batch_inv_def pc_inv_def)
  then obtain rest where rest: "rem = a # rest" and c: "chain d a (a # rest)" by (cases rem) auto
  have a: "a \<in> ts" "a \<notin> set rest" using ts rest chain_distinct [OF c] by auto
  let ?bytes = "buffer_bytes (fd_buffers d a)"
  obtain f where w: "write_body faults (d, a, off) =
      (let d' = d\<lparr>fd_log := f\<rparr>; off' = off + of_nat (length ?bytes)
       in if rest = [] then returns ((d', a, off'), Return ())
          else returns ((upd_buffer a (\<lambda>b. b\<lparr>lb_next := 0\<rparr>) d', hd rest, off'), Again))"
    and f: "raf_file f = raf_file (fd_log d) @ ?bytes"
    using write_body_step [OF c io_takenD(7) [OF I], of faults] guard size a by (auto simp: batch_guard_def)
  let ?d = "if rest = [] then d\<lparr>fd_log := f\<rparr> else upd_buffer a (\<lambda>b. b\<lparr>lb_next := 0\<rparr>) (d\<lparr>fd_log := f\<rparr>)"
  have d': "d' = ?d" and off': "off' = off + of_nat (length ?bytes)"
    and pc': "pc' = (if rest = [] then Storing e else Writing e (hd rest))"
    using step w by (auto simp: batch_step_def Let_def split: if_splits)
  have same: "fd_buffers ?d x = fd_buffers d x \<or> (\<exists>n. fd_buffers ?d x = (fd_buffers d x)\<lparr>lb_next := n\<rparr>)" for x by auto
  have kept: "buffer_kept d ?d x" for x using same [of x] buffer_kept_same buffer_kept_links(1) by blast
  have "length (raf_file f) = unat off'"
    using f io_takenD(7) [OF I] guard unat_add_of_nat [of off "length ?bytes"] by (simp add: off' batch_guard_def)
  then have "io_inv_taken ?d off' owned xs ts"
    by (intro io_taken_frame [OF I, of _ ?bytes]) (use f a in auto)
  moreover have il': "in_log ?d x" if "x \<in> ts" "x \<notin> set rest" for x
  proof -
    have "sublist (buffer_bytes (fd_buffers d x)) (raf_file f)"
      using il that rest f by (cases "x = a") (auto simp: in_log_def sublist_append_left)
    with kept [of x] show ?thesis by (simp add: in_log_def buffer_kept_def)
  qed
  moreover have ch: "chain ?d (hd rest) rest" if "rest \<noteq> []"
    using c a that by (subst chain_cong [of _ _ d]) (cases rest; auto)+
  moreover have "\<forall>x \<in> ts. epoch_of ?d x = e" using ep kept e(2) by (simp add: buffer_kept_def)
  moreover have "\<forall>x \<in> ts. lb_pos (fd_buffers ?d x) \<le> length (lb_buffer (fd_buffers ?d x))"
    using size a by (auto simp: lb_pos_def)
  moreover note facts = calculation
  have "pc_inv ?d pc' ts"
  proof (cases "rest = []")
    case True
    with facts e show ?thesis by (simp add: pc_inv_def pc')
  next
    case False
    then have "pc_inv ?d (Writing e (hd rest)) ts"
      by (intro pc_inv_writing [of ts ?d e "hd rest" rest]) (use facts e ts rest in simp_all)
    with False show ?thesis by (simp add: pc')
  qed
  ultimately show ?thesis unfolding d' by (intro batch_steppedI) (use kept in simp_all)
qed

lemma taking_step:
  assumes inv: "batch_inv (d, off, owned, Taking e) xs ts"
    and step: "batch_step B faults (Taking e, d, off) = returns (pc', d', off')"
  shows "batch_stepped owned (d, off, owned, Taking e) (d', off', owned, pc')"
proof -
  from inv have I: "io_inv d off owned xs" and e: "e = fd_flush_epoch d + 1" "e \<noteq> 0"
    unfolding batch_inv_def pc_inv_def by auto
  note D = io_invD [OF I]
  let ?d = "d\<lparr>fd_log_buffer_link := 0\<rparr>"
  have d': "d' = ?d" "off' = off" and pc': "pc' = (if xs = [] then Waiting else Marking e (fd_log_buffer_link d))"
    using step D(3) by (cases xs; auto simp: batch_step_def Let_def)+
  have "chain ?d a us = chain d a us" for a us by (rule chain_cong) simp
  moreover have "0 < a" if "a \<in> set xs" for a using chain_nonzero [OF D(3)] that by (cases a) auto
  ultimately have "io_inv_taken ?d off owned [] (set xs)" "pc_inv ?d pc' (set xs)"
    using D e by (auto simp: io_inv_taken_def pc_inv_def pc' open_buffer_def closed_buffer_def durable_buffer_def epoch_of_def)
  then show ?thesis unfolding d' by (rule batch_steppedI) (auto intro: buffer_kept_same)
qed

lemma storing_step:
  assumes inv: "batch_inv (d, off, owned, Storing e) xs ts"
    and step: "batch_step B faults (Storing e, d, off) = returns (pc', d', off')"
  shows "batch_stepped owned (d, off, owned, Storing e) (d', off', owned, pc')"
proof -
  from inv have I: "io_inv_taken d off owned xs ts" and e: "e = fd_flush_epoch d + 1" "e \<noteq> 0"
    and ts: "\<forall>x \<in> ts. epoch_of d x = e \<and> in_log d x"
    unfolding batch_inv_def pc_inv_def by auto
  let ?d = "d\<lparr>fd_flush_epoch := e\<rparr>"
  have d': "d' = ?d" "off' = off" "pc' = Waking" using step by (auto simp: batch_step_def)
  have "fd_flush_epoch d \<noteq> - 1" using e by auto
  then have le: "fd_flush_epoch d \<le> e" using unat_succ [of "fd_flush_epoch d"] by (simp add: e(1) word_le_nat_alt)
  have "chain ?d a us = chain d a us" for a us by (rule chain_cong) simp
  moreover have "durable_buffer ?d x" if "x \<in> ts \<or> durable_buffer d x" for x
    using ts that e(2) le by (auto simp: durable_buffer_def epoch_of_def in_log_def)
  then have "durable_buffer ?d a" if "0 < a" "a < fd_next_buffer d" "a \<notin> owned" "a \<notin> set xs" for a
    using io_takenD(6) [OF I that] by blast
  ultimately have "io_inv ?d off owned xs"
    using io_takenD [OF I] by (auto simp: io_inv_taken_def open_buffer_def closed_buffer_def)
  then show ?thesis unfolding d' by (rule batch_steppedI) (auto simp: pc_inv_def intro: buffer_kept_same)
qed

lemma batch_step_ok:
  assumes inv: "batch_inv (d, off, owned, pc) xs ts" and guard: "batch_guard pc d off"
    and step: "batch_step B faults (pc, d, off) = returns (pc', d', off')"
  shows "batch_stepped owned (d, off, owned, pc) (d', off', owned, pc')"
proof (cases pc)
  case Waiting
  with inv step have "io_inv d off owned xs" "d' = d" "off' = off" "pc' = Taking (fd_flush_epoch d + 1)"
    by (auto simp: batch_inv_def pc_inv_def batch_step_def)
  moreover have "fd_flush_epoch d + 1 \<noteq> 0"
    using guard Waiting unat_succ [of "fd_flush_epoch d"] by (auto simp: batch_guard_def)
  ultimately show ?thesis by (auto simp: pc_inv_def intro: batch_steppedI buffer_kept_same)
next
  case Waking
  with inv have I: "io_inv d off owned xs" by (auto simp: batch_inv_def pc_inv_def)
  have same: "fd_buffers d' = fd_buffers d" "fd_next_buffer d' = fd_next_buffer d"
    "fd_log_buffer_link d' = fd_log_buffer_link d" "fd_log d' = fd_log d" "fd_flush_epoch d' = fd_flush_epoch d" "off' = off"
    and pc': "pc' = Waking \<or> pc' = Waiting"
    using step Waking by (auto simp: batch_step_def pop_all_body_def split: prod.splits option.splits)
  have "io_inv d' off' owned xs" unfolding same(6) by (rule io_inv_frame [OF I same(1-5)])
  moreover have "pc_inv d' pc' {}" using pc' by (auto simp: pc_inv_def)
  ultimately show ?thesis by (rule batch_steppedI) (use same in \<open>auto intro: buffer_kept_same\<close>)
next
  case (Taking e)
  with inv step show ?thesis by (auto intro: taking_step)
next
  case (Marking e head)
  with inv step show ?thesis by (auto intro: marking_step)
next
  case (Inverting e current nxt)
  with inv step show ?thesis by (auto intro: inverting_step)
next
  case (Writing e a)
  with inv guard step show ?thesis by (auto intro: writing_step)
next
  case (Storing e)
  with inv step show ?thesis by (auto intro: storing_step)
qed

subsection \<open>Runs\<close>

lemma layer_step_inv:
  assumes step: "layer_step B (d, off, owned, pc) (d', off', owned', pc')" and inv: "batch_inv (d, off, owned, pc) xs ts"
  shows "(\<exists>xs' ts'. batch_inv (d', off', owned', pc') xs' ts') \<and>
    (\<forall>x. x \<notin> owned \<longrightarrow> x < fd_next_buffer d \<longrightarrow> buffer_kept d d' x \<and> x \<notin> owned' \<and> x < fd_next_buffer d')"
proof -
  from inv have I: "io_inv_taken d off owned xs ts" and pi: "pc_inv d pc ts" by (simp_all add: batch_inv_def)
  have keep: ?thesis
    if "pc' = pc" "off' = off" "\<exists>xs'. io_inv_taken d' off owned' xs' ts" "fd_log d' = fd_log d" "fd_flush_epoch d' = fd_flush_epoch d"
      and frame: "\<And>x. x \<notin> owned \<Longrightarrow> x < fd_next_buffer d \<Longrightarrow> fd_buffers d' x = fd_buffers d x \<and> x \<notin> owned' \<and> x < fd_next_buffer d'"
  proof -
    have "\<forall>x \<in> ts. fd_buffers d' x = fd_buffers d x" using frame io_takenD(9,10) [OF I] by blast
    with pc_inv_cong [OF pi _ that(4,5)] that frame show ?thesis by (auto simp: batch_inv_def intro: buffer_kept_same)
  qed
  have wf: ?thesis if w: "write_and_flush r a d = Done d'" and a: "a \<in> owned" "owned' = owned - {a}" "off' = off" "pc' = pc" for r a
  proof (rule keep [OF a(4,3)])
    show "\<exists>xs'. io_inv_taken d' off owned' xs' ts" using write_and_flush_ok [OF I a(1) w] a(2) by blast
    show "fd_log d' = fd_log d" "fd_flush_epoch d' = fd_flush_epoch d"
      using w by (auto simp: write_and_flush_def split: prod.splits option.splits)
    show "fd_buffers d' x = fd_buffers d x \<and> x \<notin> owned' \<and> x < fd_next_buffer d'"
      if "x \<notin> owned" "x < fd_next_buffer d" for x
      using that write_and_flush_frame [OF w, of x] a by auto
  qed
  have lo: ?thesis if w: "log_objects ext single None ids (d, a) = Done (d', a')" and a: "a \<in> owned"
    "owned' = insert a' (owned - {a})" "off' = off" "pc' = pc" for ext single ids a a'
  proof (rule keep [OF a(4,3)])
    show "\<exists>xs'. io_inv_taken d' off owned' xs' ts" using log_objects_step(1) [OF I a(1) w] a(2) by blast
    show "fd_log d' = fd_log d" "fd_flush_epoch d' = fd_flush_epoch d" using log_objects_frame [OF I a(1) w] by auto
    show "fd_buffers d' x = fd_buffers d x \<and> x \<notin> owned' \<and> x < fd_next_buffer d'"
      if "x \<notin> owned" "x < fd_next_buffer d" for x
      using that log_objects_step(2,3) [OF I a(1) w] a(2) by (meson order_less_le_trans)
  qed
  show ?thesis
    using step
  proof (rule layer_stepE)
    fix a assume new: "new_log_buffer d = (d', a)" "off' = off" "owned' = insert a owned" "pc' = pc"
    then have a: "d' = fst (new_log_buffer d)" "a = fd_next_buffer d" by (auto simp: new_log_buffer_def)
    show ?thesis
    proof (rule keep [OF new(4,2)])
      show "\<exists>xs'. io_inv_taken d' off owned' xs' ts" using io_inv_new [OF I] a new(3) by blast
    qed (use a new(3) in auto)
  next
    fix a t j ids a' assume "file_create a t j ids d = Done (d', Ok a')" "a \<in> owned" "off' = off"
      "owned' = insert a' (owned - {a})" "pc' = pc"
    moreover from this(1) obtain ext single where "log_objects ext single None ids (d, a) = Done (d', a')"
      by (auto simp: file_create_def split: outcome.splits)
    ultimately show ?thesis by (intro lo)
  next
    fix a t j ids a' assume "file_delete a t j ids d = Done (d', Ok a')" "a \<in> owned" "off' = off"
      "owned' = insert a' (owned - {a})" "pc' = pc"
    moreover from this(1) obtain ext single where "log_objects ext single None ids (d, a) = Done (d', a')"
      by (auto simp: file_delete_def split: outcome.splits)
    ultimately show ?thesis by (intro lo)
  next
    fix faults assume "batch_guard pc d off" "batch_step B faults (pc, d, off) = returns (pc', d', off')" "owned' = owned"
    with batch_step_ok [OF inv] show ?thesis by (auto simp: batch_stepped_def)
  next
    fix e w r assume c: "file_check_io_completion B e w d = (d', r)" "off' = off" "owned' = owned" "pc' = pc"
    from check_ok [OF I c(1)] c show ?thesis
      by (intro keep) (auto simp: file_check_io_completion_def Let_def split: if_splits)
  next
    fix a t j i assume c: "file_submit a t j i d = Done d'" "a \<in> owned" "owned' = owned - {a}" "off' = off" "pc' = pc"
    have "fd_log d' = fd_log d \<and> fd_flush_epoch d' = fd_flush_epoch d"
      using c(1) by (auto simp: file_submit_def write_and_flush_def split: option.splits if_splits prod.splits)
    moreover have "fd_buffers d' x = fd_buffers d x \<and> x \<notin> owned' \<and> x < fd_next_buffer d'"
      if "x \<notin> owned" "x < fd_next_buffer d" for x
      using that c(2,3) file_submit_frame [OF c(1), of x] by auto
    ultimately show ?thesis using file_submit_ok [OF I c(2,1)] c(3-5) by (intro keep) auto
  next
    fix a t j assume c: "file_discard a t j d = Done d'" "a \<in> owned" "owned' = owned - {a}" "off' = off" "pc' = pc"
    have "fd_log d' = fd_log d \<and> fd_flush_epoch d' = fd_flush_epoch d"
      using c(1) by (auto simp: file_discard_def write_and_flush_def split: option.splits if_splits prod.splits)
    moreover have "fd_buffers d' x = fd_buffers d x \<and> x \<notin> owned' \<and> x < fd_next_buffer d'"
      if "x \<notin> owned" "x < fd_next_buffer d" for x
      using that c(2,3) file_discard_frame [OF c(1), of x] by auto
    ultimately show ?thesis using file_discard_ok [OF I c(2,1)] c(3-5) by (intro keep) auto
  next
    fix a t i assume "file_rewind a t i d = Done d'" "a \<in> owned" "off' = off" "owned' = owned - {a}" "pc' = pc"
    then show ?thesis by (intro wf) (simp_all add: file_rewind_def)
  next
    fix a t i assume "file_prepare a t i d = Done d'" "a \<in> owned" "off' = off" "owned' = owned - {a}" "pc' = pc"
    then show ?thesis by (intro wf) (simp_all add: file_prepare_def)
  next
    fix a t i assume "file_commit a t i d = Done d'" "a \<in> owned" "off' = off" "owned' = owned - {a}" "pc' = pc"
    then show ?thesis by (intro wf) (simp_all add: file_commit_def)
  qed
qed

lemma layer_step_next:
  assumes "layer_step B s s'" and "batch_inv s xs ts"
  shows "fd_next_buffer (fst s) \<le> fd_next_buffer (fst s')"
proof -
  obtain d off owned pc where s: "s = (d, off, owned, pc)" by (cases s)
  obtain d' off' owned' pc' where s': "s' = (d', off', owned', pc')" by (cases s')
  from assms(2) have I: "io_inv_taken d off owned xs ts" by (simp add: s batch_inv_def)
  have lo: "fd_next_buffer d \<le> fd_next_buffer d'" if "a \<in> owned" "log_objects ext single None ids (d, a) = Done (d', a')"
    for ext single ids a a' using log_objects_step(2) [OF I that] .
  have "layer_step B (d, off, owned, pc) (d', off', owned', pc')" using assms(1) s s' by simp
  then have "fd_next_buffer d \<le> fd_next_buffer d'"
  proof (rule layer_stepE)
    fix faults assume "batch_guard pc d off" "batch_step B faults (pc, d, off) = returns (pc', d', off')"
    with batch_step_ok assms(2) show ?thesis unfolding s by (fastforce simp: batch_stepped_def)
  qed (auto simp: new_log_buffer_def file_check_io_completion_def Let_def file_create_def file_delete_def
      file_rewind_def file_prepare_def file_commit_def split: if_splits outcome.splits
      dest: lo write_and_flush_frame file_submit_frame file_discard_frame)
  then show ?thesis by (simp add: s s')
qed

lemma layer_run_inv:
  assumes "layer_run B s"
  shows "\<exists>xs ts. batch_inv s xs ts"
  using assms
proof induction
  case (start content capacity d)
  then have "batch_inv (d, raf_len (fd_log d), {}, Waiting) [] {}"
    by (auto simp: batch_inv_def pc_inv_def io_inv_taken_def with_path_def raf_open_def unat_of_nat)
  then show ?case by blast
next
  case (run s s')
  then show ?case by (cases s, cases s') (use layer_step_inv in blast)
qed

lemma layer_steps_keep:
  assumes "(layer_step B)\<^sup>*\<^sup>* (d, off, owned, pc) (d', off', owned', pc')" and "layer_run B (d, off, owned, pc)"
    and "x \<notin> owned" and "x < fd_next_buffer d"
  shows "layer_run B (d', off', owned', pc') \<and> buffer_kept d d' x \<and> x \<notin> owned' \<and> x < fd_next_buffer d'"
  using assms(1)
proof (induction "(d', off', owned', pc')" arbitrary: d' off' owned' pc' rule: rtranclp_induct)
  case base
  with assms show ?case by (auto intro: buffer_kept_same)
next
  case (step s)
  obtain d1 off1 owned1 pc1 where s: "s = (d1, off1, owned1, pc1)" by (cases s)
  with step(3) have 1: "layer_run B (d1, off1, owned1, pc1)" "buffer_kept d d1 x" "x \<notin> owned1" "x < fd_next_buffer d1"
    by blast+
  then obtain xs ts where "batch_inv (d1, off1, owned1, pc1) xs ts" using layer_run_inv by blast
  with layer_step_inv [of B d1 off1 owned1 pc1 d' off' owned' pc'] step(2) s 1
  have "buffer_kept d1 d' x \<and> x \<notin> owned' \<and> x < fd_next_buffer d'" by blast
  moreover from this 1(2) have "buffer_kept d d' x" by (auto simp: buffer_kept_def)
  ultimately show ?case using step(2) s 1(1) layer_run.run by blast
qed

lemma layer_steps_run: "(layer_step B)\<^sup>*\<^sup>* s s' \<Longrightarrow> layer_run B s \<Longrightarrow> layer_run B s'"
  by (induction rule: rtranclp_induct) (auto intro: layer_run.run)

lemma layer_steps_next:
  assumes "(layer_step B)\<^sup>*\<^sup>* (d, off, owned, pc) (d', off', owned', pc')" and "layer_run B (d, off, owned, pc)"
  shows "fd_next_buffer d \<le> fd_next_buffer d'"
proof (rule ccontr)
  assume lt: "\<not> ?thesis"
  have "(layer_step B)\<^sup>*\<^sup>* s s' \<Longrightarrow> layer_run B s \<Longrightarrow> fd_next_buffer (fst s) \<le> fd_next_buffer (fst s')" for s s'
  proof (induction rule: rtranclp_induct)
    case (step y z)
    then have "layer_run B y" by (auto intro: layer_steps_run)
    then obtain xs ts where "batch_inv y xs ts" using layer_run_inv by blast
    with step(2) have "fd_next_buffer (fst y) \<le> fd_next_buffer (fst z)" by (rule layer_step_next)
    with step show ?case by simp
  qed simp
  from this [OF assms] lt show False by simp
qed

text \<open>A buffer whose epoch is set and not newer than the flush epoch is in the log.\<close>

lemma reported_in_log:
  assumes inv: "batch_inv (d, off, owned, pc) xs ts" and a: "0 < a" "a < fd_next_buffer d"
    and e: "epoch_of d a \<noteq> 0" "epoch_of d a \<le> fd_flush_epoch d"
  shows "sublist (buffer_bytes (fd_buffers d a)) (raf_file (fd_log d)) \<and> a \<notin> owned"
proof -
  from inv have I: "io_inv_taken d off owned xs ts" and pi: "pc_inv d pc ts" by (simp_all add: batch_inv_def)
  have no: "a \<notin> owned" "a \<notin> set xs"
    using io_takenD(2) [OF I, of a] io_takenD(5) [OF I, of a] e(1)
    by (auto simp: epoch_of_def open_buffer_def closed_buffer_def)
  have "a \<notin> ts"
  proof
    assume a: "a \<in> ts"
    have next_epoch: "epoch_of d a \<noteq> fd_flush_epoch d + 1" if "fd_flush_epoch d + 1 \<noteq> 0"
    proof -
      have "fd_flush_epoch d \<noteq> - 1" using that by auto
      then have "\<not> fd_flush_epoch d + 1 \<le> fd_flush_epoch d"
        using unat_succ [of "fd_flush_epoch d"] by (simp add: word_le_nat_alt)
      with e(2) show ?thesis by auto
    qed
    from pi a e(1) next_epoch show False
      by (cases pc) (auto simp: pc_inv_def inverting_def split: option.splits)
  qed
  with no io_takenD(6) [OF I a] show ?thesis by (simp add: durable_buffer_def)
qed

lemma check_epoch:
  "file_check_io_completion B (get_durable_flush_epoch a d0) w d = (d', True) \<Longrightarrow>
     epoch_of d0 a \<noteq> 0 \<and> epoch_of d0 a \<le> fd_flush_epoch d"
  by (auto simp: file_check_io_completion_def get_durable_flush_epoch_def epoch_of_def Let_def nonzero_def split: if_splits)

subsection \<open>A batch that is not interrupted\<close>

text \<open>The iterations of a loop are the steps of the thread.\<close>

lemma rust_loop_iterations:
  assumes "rust_loop body s = returns (s', r)"
  shows "\<exists>s1. (\<lambda>s s'. body s = returns (s', Again))\<^sup>*\<^sup>* s s1 \<and> body s1 = returns (s', Return r)"
  by (rule rust_loop_rule [OF assms, where I = "\<lambda>t. (\<lambda>s s'. body s = returns (s', Again))\<^sup>*\<^sup>* s t"])
    (auto intro: rtranclp.rtrancl_into_rtrancl)

lemma loop_as_steps:
  assumes "rust_loop body s = returns (s', r)"
    and "\<And>s s'. body s = returns (s', Again) \<Longrightarrow> R (f s) (f s')"
    and "\<And>s. body s = returns (s', Return r) \<Longrightarrow> R (f s) t"
  shows "R\<^sup>*\<^sup>* (f s) t"
proof -
  obtain s1 where steps: "(\<lambda>s s'. body s = returns (s', Again))\<^sup>*\<^sup>* s s1" and last: "body s1 = returns (s', Return r)"
    using rust_loop_iterations [OF assms(1)] by blast
  from steps have "R\<^sup>*\<^sup>* (f s) (f s1)"
    by (induction rule: rtranclp_induct) (auto intro: assms(2) rtranclp.rtrancl_into_rtrancl)
  then show ?thesis using assms(3) [OF last] by (rule rtranclp.rtrancl_into_rtrancl)
qed

definition batch_alone ::
  "'b scc_bag \<Rightarrow> (u64 \<Rightarrow> error list) \<Rightarrow> batch_pc \<times> 'b file_io_data \<times> u64 \<Rightarrow> batch_pc \<times> 'b file_io_data \<times> u64 \<Rightarrow> bool" where
  "batch_alone B faults s s' \<longleftrightarrow> batch_step B faults s = returns s'"

lemma batch_steps:
  assumes "process_log_buffer_batch B faults (d, off) = returns (d', off')"
  shows "(batch_alone B faults)\<^sup>*\<^sup>* (Waiting, d, off) (Waiting, d', off')"
proof -
  let ?R = "batch_alone B faults" and ?e = "fd_flush_epoch d + 1"
  let ?d0 = "d\<lparr>fd_log_buffer_link := 0\<rparr>" and ?head = "fd_log_buffer_link d"
  have s1: "?R (Waiting, d, off) (Taking ?e, d, off)" by (simp add: batch_alone_def batch_step_def)
  have s2: "?R (Taking ?e, d, off) (if ?head \<noteq> 0 then Marking ?e ?head else Waiting, ?d0, off)"
    by (simp add: batch_alone_def batch_step_def Let_def)
  show ?thesis
  proof (cases "?head = 0")
    case True
    with assms have "d' = ?d0" "off' = off" by (auto simp: process_log_buffer_batch_def take_log_buffer_link_def Let_def)
    with True s2 have "?R (Taking ?e, d, off) (Waiting, d', off')" by simp
    with s1 show ?thesis by (rule converse_rtranclp_into_rtranclp [OF _ r_into_rtranclp])
  next
    case False
    obtain d1 nxt where m: "take_next ?head (set_durable_flush_epoch ?head ?e ?d0) = (d1, nxt)" by force
    from assms False m obtain d2 c2 n2 first where inv: "rust_loop (invert_body ?e) (d1, ?head, nxt) = returns ((d2, c2, n2), first)"
      and rest: "bind_run (rust_loop (write_body faults) (d2, first, off)) (\<lambda>((d, _, log_offset), _).
             bind_run (rust_loop (pop_all_body B) (d\<lparr>fd_flush_epoch := ?e\<rparr>)) (\<lambda>(d, _).
               returns (d, log_offset))) = returns (d', off')"
      by (auto simp: process_log_buffer_batch_def take_log_buffer_link_def Let_def bind_run_def split: option.splits outcome.splits)
    from rest obtain d3 a3 where wr: "rust_loop (write_body faults) (d2, first, off) = returns ((d3, a3, off'), ())"
      and wk: "rust_loop (pop_all_body B) (d3\<lparr>fd_flush_epoch := ?e\<rparr>) = returns (d', ())"
      by (auto simp: bind_run_def split: option.splits outcome.splits)
    have "?R (Marking ?e ?head, ?d0, off) (Inverting ?e ?head nxt, d1, off)"
      by (simp add: batch_alone_def batch_step_def m)
    moreover have "?R\<^sup>*\<^sup>* ((\<lambda>(d, c, n). (Inverting ?e c n, d, off)) (d1, ?head, nxt)) (Writing ?e first, d2, off)"
      by (rule loop_as_steps [OF inv]) (auto simp: batch_alone_def batch_step_def)
    moreover have "?R\<^sup>*\<^sup>* ((\<lambda>(d, a, off). (Writing ?e a, d, off)) (d2, first, off)) (Storing ?e, d3, off')"
      by (rule loop_as_steps [OF wr]) (auto simp: batch_alone_def batch_step_def)
    moreover have "?R (Storing ?e, d3, off') (Waking, d3\<lparr>fd_flush_epoch := ?e\<rparr>, off')"
      by (simp add: batch_alone_def batch_step_def)
    moreover have "?R\<^sup>*\<^sup>* ((\<lambda>d. (Waking, d, off')) (d3\<lparr>fd_flush_epoch := ?e\<rparr>)) (Waiting, d', off')"
      by (rule loop_as_steps [OF wk]) (auto simp: batch_alone_def batch_step_def)
    ultimately have "?R\<^sup>*\<^sup>* (Marking ?e ?head, ?d0, off) (Waiting, d', off')"
      by (simp only: prod.case)
    moreover have "?R (Taking ?e, d, off) (Marking ?e ?head, ?d0, off)" using s2 False by simp
    ultimately have "?R\<^sup>*\<^sup>* (Taking ?e, d, off) (Waiting, d', off')" by (rule converse_rtranclp_into_rtranclp [rotated])
    with s1 show ?thesis by (rule converse_rtranclp_into_rtranclp)
  qed
qed

subsection \<open>The layer implements the interface\<close>

definition layer_inv :: "'b file_io_data \<Rightarrow> nat set \<Rightarrow> nat set \<Rightarrow> bool" where
  "layer_inv d W E \<longleftrightarrow>
     W \<inter> E = {} \<and> (\<forall>a \<in> E. lb_pos (fd_buffers d a) = 0) \<and> (\<exists>off xs. io_inv d off (W \<union> E) xs)"

lemma write_and_flush_done:
  assumes "io_inv d off owned xs" and "a \<in> owned" and "lb_pos (fd_buffers d a) = 0"
  obtains d' where "write_and_flush r a d = Done d'" and "io_inv d' off (owned - {a}) (a # xs)"
    and "\<And>x. x \<noteq> a \<Longrightarrow> fd_buffers d' x = fd_buffers d x"
proof -
  have "length (lb_buffer (fd_buffers d a)) = 32"
    using io_invD(2) [OF assms(1,2)] by (simp add: open_buffer_def)
  with write_to_buffer_fits [of "fd_buffers d a" r] assms(3) record_size_le [of r]
  have "\<exists>b. write_to_buffer r (fd_buffers d a) = (b, Some (record_size r))" by auto
  then obtain d' where d': "write_and_flush r a d = Done d'" "\<And>x. x \<noteq> a \<Longrightarrow> fd_buffers d' x = fd_buffers d x"
    by (auto simp: write_and_flush_def)
  with write_and_flush_ok [OF assms(1,2)] show thesis by (intro that)
qed

lemma file_submit_done:
  assumes inv: "io_inv d off owned xs" and a: "a \<in> owned"
  shows "\<exists>d'. file_submit a t j i d = Done d' \<and> io_inv d' off (owned - {a}) (a # xs) \<and>
    (\<forall>x. x \<noteq> a \<longrightarrow> fd_buffers d' x = fd_buffers d x)"
proof -
  have "\<exists>d'. file_submit a t j i d = Done d' \<and> (\<forall>x. x \<noteq> a \<longrightarrow> fd_buffers d' x = fd_buffers d x)"
  proof (cases "lb_bytes_written (fd_buffers d a) = 0")
    case True
    then have "lb_pos (fd_buffers d a) = 0" by (simp add: lb_pos_def)
    then have "\<exists>d'. write_and_flush r a d = Done d' \<and> (\<forall>x. x \<noteq> a \<longrightarrow> fd_buffers d' x = fd_buffers d x)" for r
      using write_and_flush_done [OF inv a] by metis
    then show ?thesis by (auto simp: file_submit_def True split: option.splits)
  qed (auto simp: file_submit_def split: option.splits)
  with file_submit_ok [OF assms] show ?thesis by blast
qed

lemma file_discard_done:
  assumes inv: "io_inv d off owned xs" and a: "a \<in> owned"
  shows "\<exists>d'. file_discard a t j d = Done d' \<and> io_inv d' off (owned - {a}) (a # xs) \<and>
    (\<forall>x. x \<noteq> a \<longrightarrow> fd_buffers d' x = fd_buffers d x)"
proof -
  have "\<exists>d'. file_discard a t j d = Done d' \<and> (\<forall>x. x \<noteq> a \<longrightarrow> fd_buffers d' x = fd_buffers d x)"
  proof (cases "lb_bytes_written (fd_buffers d a) = 0")
    case True
    then have "lb_pos (fd_buffers d a) = 0" by (simp add: lb_pos_def)
    then have "\<exists>d'. write_and_flush r a d = Done d' \<and> (\<forall>x. x \<noteq> a \<longrightarrow> fd_buffers d' x = fd_buffers d x)" for r
      using write_and_flush_done [OF inv a] by metis
    then show ?thesis by (auto simp: file_discard_def True)
  qed (auto simp: file_discard_def)
  with file_discard_ok [OF assms] show ?thesis by blast
qed

lemma layer_inv_objects:
  assumes inv: "layer_inv d W E" and a: "a \<in> W"
  shows "\<exists>d' a'. log_objects ext single None ids (d, a) = Done (d', a') \<and>
    layer_inv d' (insert a' (W - {a})) E"
proof -
  obtain off xs where I: "io_inv d off (W \<union> E) xs" and WE: "W \<inter> E = {}"
    and E: "\<forall>a \<in> E. lb_pos (fd_buffers d a) = 0"
    using inv by (auto simp: layer_inv_def)
  obtain d' a' ys where e: "emit_all (compress ext single None ids) (d, a) = Done (d', a')"
    and I': "io_inv d' off (insert a' (W \<union> E - {a})) (ys @ xs)"
    and same: "\<forall>x. x < fd_next_buffer d \<longrightarrow> x \<noteq> a \<longrightarrow> fd_buffers d' x = fd_buffers d x"
    and a': "a' \<in> insert a {fd_next_buffer d ..}"
    using emit_all_ok [OF I UnI1 [OF a], of "compress ext single None ids"] .
  have lt: "x < fd_next_buffer d" if "x \<in> E" for x
    using io_invD(2) [OF I, of x] that by (simp add: open_buffer_def)
  have "insert a' (W - {a}) \<union> E = insert a' (W \<union> E - {a})" using WE a by auto
  moreover have "insert a' (W - {a}) \<inter> E = {}" using WE a a' lt by force
  moreover have "\<forall>x \<in> E. lb_pos (fd_buffers d' x) = 0"
  proof
    fix x assume x: "x \<in> E"
    with WE a have "x \<noteq> a" by auto
    with same lt [OF x] E x show "lb_pos (fd_buffers d' x) = 0" by simp
  qed
  ultimately show ?thesis using e I' by (auto simp: log_objects_compress layer_inv_def)
qed

lemma layer_inv_flushed:
  assumes "layer_inv d W E" and "io_inv d' off (W \<union> E - {a}) ys"
    and "\<And>x. x \<noteq> a \<Longrightarrow> fd_buffers d' x = fd_buffers d x"
  shows "a \<in> W \<Longrightarrow> layer_inv d' (W - {a}) E" and "a \<in> E \<Longrightarrow> layer_inv d' W (E - {a})"
proof -
  assume a: "a \<in> W"
  then have "W - {a} \<union> E = W \<union> E - {a}" using assms(1) by (auto simp: layer_inv_def)
  with a assms show "layer_inv d' (W - {a}) E" unfolding layer_inv_def by (metis Diff_iff Int_iff empty_iff equals0I insertI1)
next
  assume a: "a \<in> E"
  then have "W \<union> (E - {a}) = W \<union> E - {a}" using assms(1) by (auto simp: layer_inv_def)
  with a assms show "layer_inv d' W (E - {a})" unfolding layer_inv_def by (metis Diff_iff Int_iff empty_iff equals0I insertI1)
qed

interpretation file_layer: log_layer "file_io B" layer_inv for B :: "'b scc_bag"
proof
  fix p p' :: "'b file_io_data" and W E a
  assume inv: "layer_inv p W E" and new: "pl_new_buffer (file_io B) p = (p', a)"
  then obtain off xs where I: "io_inv p off (W \<union> E) xs" by (auto simp: layer_inv_def)
  have p': "p' = fst (new_log_buffer p)" and a: "a = fd_next_buffer p"
    using new by (auto simp: file_io_def new_log_buffer_def)
  have lt: "x \<noteq> a" if "x \<in> W \<union> E" for x
    using io_invD(2) [OF I that] by (auto simp: open_buffer_def a)
  with io_inv_new [OF I] inv show "layer_inv p' W (insert a E) \<and> a \<notin> W \<union> E"
    by (auto simp: layer_inv_def p' a)
next
  fix p :: "'b file_io_data" and W E a
  assume "layer_inv p W E" and "a \<in> E"
  moreover from \<open>a \<in> E\<close> have "insert a W \<union> (E - {a}) = W \<union> E" by auto
  ultimately show "layer_inv p (insert a W) (E - {a})" unfolding layer_inv_def by auto
next
  fix p :: "'b file_io_data" and W E a t j ids
  assume "layer_inv p W E" and "a \<in> W"
  from layer_inv_objects [OF this, of "extend_created t j" "JournalCreatedObjectSingle t j" ids]
  obtain d' a' where "log_objects (extend_created t j) (JournalCreatedObjectSingle t j) None ids (p, a) = Done (d', a')"
    and "layer_inv d' (insert a' (W - {a})) E"
    by (elim exE conjE)
  then show "\<exists>p' a'. pl_create (file_io B) a t j ids p = Done (p', Ok a') \<and> layer_inv p' (insert a' (W - {a})) E"
    by (intro exI [of _ d'] exI [of _ a']) (simp add: file_io_def file_create_def)
next
  fix p :: "'b file_io_data" and W E a t j ids
  assume "layer_inv p W E" and "a \<in> W"
  from layer_inv_objects [OF this, of "extend_deleted t j" "JournalDeletedObjectSingle t j" ids]
  obtain d' a' where "log_objects (extend_deleted t j) (JournalDeletedObjectSingle t j) None ids (p, a) = Done (d', a')"
    and "layer_inv d' (insert a' (W - {a})) E"
    by (elim exE conjE)
  then show "\<exists>p' a'. pl_delete (file_io B) a t j ids p = Done (p', Ok a') \<and> layer_inv p' (insert a' (W - {a})) E"
    by (intro exI [of _ d'] exI [of _ a']) (simp add: file_io_def file_delete_def)
next
  fix p :: "'b file_io_data" and W E a t j i
  assume inv: "layer_inv p W E" and a: "a \<in> W"
  then obtain off xs where I: "io_inv p off (W \<union> E) xs" by (auto simp: layer_inv_def)
  show "\<exists>p'. pl_submit (file_io B) a t j i p = Done p' \<and> layer_inv p' (W - {a}) E"
    using file_submit_done [OF I, of a t j i] layer_inv_flushed(1) [OF inv] a
    by (auto simp: file_io_def) blast
next
  fix p :: "'b file_io_data" and W E a t j
  assume inv: "layer_inv p W E" and a: "a \<in> W"
  then obtain off xs where I: "io_inv p off (W \<union> E) xs" by (auto simp: layer_inv_def)
  show "\<exists>p'. pl_discard (file_io B) a t j p = Done p' \<and> layer_inv p' (W - {a}) E"
    using file_discard_done [OF I, of a t j] layer_inv_flushed(1) [OF inv] a
    by (auto simp: file_io_def) blast
next
  fix p :: "'b file_io_data" and W E a
  assume inv: "layer_inv p W E" and a: "a \<in> E"
  then obtain off xs where I: "io_inv p off (W \<union> E) xs" and pos: "lb_pos (fd_buffers p a) = 0"
    by (auto simp: layer_inv_def)
  have "\<exists>p'. write_and_flush r a p = Done p' \<and> layer_inv p' W (E - {a})" for r
    using write_and_flush_done [OF I _ pos] layer_inv_flushed(2) [OF inv] a by (metis UnI2)
  then show "\<exists>p'. pl_rewind (file_io B) a t i p = Done p' \<and> layer_inv p' W (E - {a})"
    and "\<exists>p'. pl_prepare (file_io B) a t c p = Done p' \<and> layer_inv p' W (E - {a})"
    and "\<exists>p'. pl_commit (file_io B) a t c p = Done p' \<and> layer_inv p' W (E - {a})" for t i c
    by (simp_all add: file_io_def file_rewind_def file_prepare_def file_commit_def)
next
  fix p p' :: "'b file_io_data" and W E e w r
  assume inv: "layer_inv p W E" and c: "pl_check_io_completion (file_io B) e w p = (p', r)"
  then have "fd_buffers p' = fd_buffers p"
    by (auto simp: file_io_def file_check_io_completion_def Let_def split: if_splits)
  with inv c check_ok [of p _ "W \<union> E"] show "layer_inv p' W E"
    by (auto simp: layer_inv_def file_io_def) blast
qed

text \<open>What \<^verbatim>\<open>create\<close> and \<^verbatim>\<open>delete\<close> write for a list of objects; \<open>Q\<close> holds of the records they make.\<close>

lemma log_objects_stream:
  assumes inv: "io_inv d off owned xs" and a: "a \<in> owned"
    and single: "\<And>oid. expand (single oid) = [oid]" "\<And>oid. Q (single oid)"
    and ext: "\<And>oid log log'. ext oid log = Some log' \<Longrightarrow> expand log' = expand log @ [oid]"
      "\<And>oid log log'. ext oid log = Some log' \<Longrightarrow> Q log'"
  shows "\<exists>d' a' ys rs. log_objects ext single None object_ids (d, a) = Done (d', a') \<and>
    io_inv d' off (insert a' (owned - {a})) (ys @ xs) \<and>
    stream d' ys a' = written d a @ concat (map encode rs) \<and> concat (map expand rs) = object_ids \<and> list_all Q rs \<and>
    (\<forall>x. x < fd_next_buffer d \<longrightarrow> x \<noteq> a \<longrightarrow> fd_buffers d' x = fd_buffers d x)"
proof -
  let ?rs = "compress ext single None object_ids"
  obtain d' a' ys where e: "emit_all ?rs (d, a) = Done (d', a')"
    and r: "io_inv d' off (insert a' (owned - {a})) (ys @ xs)"
      "stream d' ys a' = written d a @ concat (map encode ?rs)"
      "\<forall>x. x < fd_next_buffer d \<longrightarrow> x \<noteq> a \<longrightarrow> fd_buffers d' x = fd_buffers d x"
    using emit_all_ok [OF inv a, of ?rs] .
  have "concat (map expand ?rs) = object_ids" using compress_expand [of ext single None object_ids] ext(1) single(1) by simp
  moreover have "Q x" if "x \<in> set ?rs" for x
    by (rule compress_all [OF _ _ _ that]) (use single(2) ext(2) in auto)
  ultimately show ?thesis using e r by (auto simp: log_objects_compress list_all_iff)
qed

section \<open>Properties\<close>

text \<open>
  Creating objects returns with a buffer that can still be written to, and what the journal's
  buffers hold, the flushed ones first, has grown by the encodings of a list of well-formed
  records that stand for exactly the given objects, in the given order; no other buffer changed.
\<close>

theorem create_logs_objects:
  assumes inv: "io_inv d off owned xs" and a: "a \<in> owned"
    and ids: "t AND OPCODE_MASK = 0" "j AND OPCODE_MASK = 0"
  shows "\<exists>d' a' ys rs. file_create a t j object_ids d = Done (d', Ok a') \<and>
    io_inv d' off (insert a' (owned - {a})) (ys @ xs) \<and>
    stream d' ys a' = written d a @ concat (map encode rs) \<and>
    concat (map expand rs) = object_ids \<and> list_all valid_record rs \<and>
    (\<forall>x. x < fd_next_buffer d \<longrightarrow> x \<noteq> a \<longrightarrow> fd_buffers d' x = fd_buffers d x)"
proof -
  have "\<exists>d' a' ys rs. log_objects (extend_created t j) (JournalCreatedObjectSingle t j) None object_ids (d, a) = Done (d', a') \<and>
    io_inv d' off (insert a' (owned - {a})) (ys @ xs) \<and>
    stream d' ys a' = written d a @ concat (map encode rs) \<and> concat (map expand rs) = object_ids \<and> list_all valid_record rs \<and>
    (\<forall>x. x < fd_next_buffer d \<longrightarrow> x \<noteq> a \<longrightarrow> fd_buffers d' x = fd_buffers d x)"
    by (rule log_objects_stream [OF inv a])
      (auto simp: ids extend_created_def extend_created_expand split: log_record.splits option.splits if_splits)
  then show ?thesis by (auto simp: file_create_def) blast
qed

lemma fresh_layer_owned: "io_inv (fst (new_log_buffer fresh_layer)) 0 {1} []"
proof -
  have "io_inv fresh_layer 0 {} []" by (auto simp: io_inv_taken_def fresh_layer_def with_path_def raf_open_def)
  from io_inv_new [OF this] show ?thesis by (simp add: fresh_layer_def with_path_def raf_open_def)
qed

theorem create_logs_objects_witness:
  "\<exists>d' a' rs. file_create 1 8 16 [3, 4, 5, 10] (fst (new_log_buffer fresh_layer)) = Done (d', Ok a') \<and>
     concat (map expand rs) = [3, 4, 5, 10]"
proof -
  have "(8 :: u64) AND OPCODE_MASK = 0" and "(16 :: u64) AND OPCODE_MASK = 0"
    by simp_all
  from create_logs_objects [OF fresh_layer_owned _ this, of 1 "[3, 4, 5, 10]"] show ?thesis by blast
qed

text \<open>
  C15: A batch of the I/O thread returns, whatever writes fail before they succeed: the bytes of
  the flushed buffers are appended to the log in the order the buffers were flushed, the offset
  moves behind them, the epoch advances by one and every buffer gets it as its durable epoch, and
  all the registered wakers are invoked.
\<close>

theorem batch_appends_in_order:
  assumes "scc_bag_laws B" and "io_inv d off owned xs" and "xs \<noteq> []"
    and "unat off + length (concat (map (\<lambda>x. buffer_bytes (fd_buffers d x)) (rev xs))) < 2 ^ 64"
  shows "\<exists>d' ws. process_log_buffer_batch B faults (d, off) =
      returns (d', off + of_nat (length (concat (map (\<lambda>x. buffer_bytes (fd_buffers d x)) (rev xs))))) \<and>
    raf_file (fd_log d') = raf_file (fd_log d) @ concat (map (\<lambda>x. buffer_bytes (fd_buffers d x)) (rev xs)) \<and>
    fd_log_buffer_link d' = 0 \<and> fd_flush_epoch d' = fd_flush_epoch d + 1 \<and>
    list_all (\<lambda>x. lb_durable_flush_epoch (fd_buffers d' x) = fd_flush_epoch d + 1) xs \<and>
    fd_woken d' = fd_woken d @ ws \<and> mset ws = bag_content B (fd_waker_bag d)"
proof -
  note I = io_invD [OF assms(2)]
  have "\<forall>x \<in> set xs. lb_pos (fd_buffers d x) \<le> length (lb_buffer (fd_buffers d x))"
    using I(5) by (simp add: closed_buffer_def)
  from batch_ok [OF assms(1) I(3) assms(3) I(7) assms(4) this, of faults] show ?thesis
    unfolding list_all_iff by (metis (no_types, lifting) file_log_buffer.select_convs(5) file_log_buffer.surjective
        file_log_buffer.update_convs(5,6))
qed

lemma file_commit_committing_layer:
  "file_commit 1 8 5 (fst (new_log_buffer fresh_layer)) = Done committing_layer"
proof -
  have b: "fd_next_buffer fresh_layer = 1"
    by (simp add: fresh_layer_def with_path_def raf_open_def)
  have "write_to_buffer (TransactionCommitted 8 5) default_log_buffer =
      (default_log_buffer\<lparr>lb_buffer :=
         encode (TransactionCommitted 8 5) @ drop 16 (lb_buffer default_log_buffer)\<rparr>, Some 16)"
    using write_to_buffer_fits [of default_log_buffer "TransactionCommitted 8 5"] by simp
  then show ?thesis
    by (simp add: file_commit_def write_and_flush_def b committing_layer_def commit_buffer_def)
qed

lemma committing_layer_inv: "io_inv committing_layer 0 {} [1]"
  using write_and_flush_ok [OF fresh_layer_owned] file_commit_committing_layer
  by (auto simp: file_commit_def)

lemma committing_layer_bytes:
  "buffer_bytes (fd_buffers committing_layer (Suc 0)) = encode (TransactionCommitted 8 5)"
  by (simp add: committing_layer_def commit_buffer_def buffer_bytes_def)

lemma committing_layer_fields:
  "fd_flush_epoch committing_layer = 0" "raf_file (fd_log committing_layer) = []"
  "fd_next_buffer committing_layer = 2" "fd_log_buffer_link committing_layer = 1"
  by (simp_all add: committing_layer_def fresh_layer_def with_path_def raf_open_def)

theorem batch_appends_in_order_witness:
  "\<exists>d' off'. process_log_buffer_batch list_bag (\<lambda>_. [IO 1]) (committing_layer, 0) = returns (d', off') \<and>
     raf_file (fd_log d') = encode (TransactionCommitted 8 5)"
proof -
  have "[1] \<noteq> ([] :: nat list)"
    and "unat (0 :: u64) + length (concat (map (\<lambda>x. buffer_bytes (fd_buffers committing_layer x)) (rev [1]))) < 2 ^ 64"
    by (simp_all add: committing_layer_bytes)
  from batch_appends_in_order [OF list_bag_laws committing_layer_inv this, of "\<lambda>_. [IO 1]"]
  obtain d' where "process_log_buffer_batch list_bag (\<lambda>_. [IO 1]) (committing_layer, 0) = returns (d', 0 +
      of_nat (length (concat (map (\<lambda>x. buffer_bytes (fd_buffers committing_layer x)) (rev [1])))))"
    and "raf_file (fd_log d') = raf_file (fd_log committing_layer) @
      concat (map (\<lambda>x. buffer_bytes (fd_buffers committing_layer x)) (rev [1]))"
    by blast
  then show ?thesis
    by (intro exI conjI) (assumption, simp add: committing_layer_bytes committing_layer_fields)
qed

text \<open>
  C7: A reported completion is durable, whatever is going on in between. In every run of the layer, at
  every point of a batch of the I/O thread: when a task read the durable epoch of a buffer, and at that
  or any later point of the run \<^verbatim>\<open>check_io_completion\<close> says that this epoch is complete, then nobody
  owns the buffer any more and its bytes, including the end-of-journal record, are in the log file.
  In particular this holds of a poll of the future that reports success. And the steps of a batch
  that nobody interrupts are those of \<^verbatim>\<open>process_log_buffer_batch\<close>.
\<close>

theorem completion_implies_durable:
  assumes "layer_run B (d0, off0, owned0, pc0)" and "0 < a" and "a < fd_next_buffer d0"
    and "(layer_step B)\<^sup>*\<^sup>* (d0, off0, owned0, pc0) (d, off, owned, pc)"
  shows "(file_check_io_completion B (get_durable_flush_epoch a d0) w d = (d', True) \<longrightarrow>
      sublist (buffer_bytes (fd_buffers d a)) (raf_file (fd_log d)) \<and> a \<notin> owned) \<and>
    (await_io_poll (file_io B) now w reread \<lparr>io_log_buffer = a, io_deadline = dl\<rparr> (d, h) = ((d', h'), Ready (Ok ())) \<longrightarrow>
      sublist (buffer_bytes (fd_buffers d a)) (raf_file (fd_log d)) \<and> a \<notin> owned) \<and>
    (process_log_buffer_batch B faults (d, off) = returns (d2, off2) \<longrightarrow>
      (\<lambda>s s'. batch_step B faults s = returns s')\<^sup>*\<^sup>* (Waiting, d, off) (Waiting, d2, off2))"
proof -
  have run: "layer_run B (d, off, owned, pc)" using layer_steps_run [OF assms(4,1)] .
  obtain xs ts where inv: "batch_inv (d, off, owned, pc) xs ts" using layer_run_inv [OF run] by blast
  obtain ys us where inv0: "batch_inv (d0, off0, owned0, pc0) ys us" using layer_run_inv [OF assms(1)] by blast
  have lt: "a < fd_next_buffer d" using layer_steps_next [OF assms(4,1)] assms(3) by simp
  have durable: "sublist (buffer_bytes (fd_buffers d a)) (raf_file (fd_log d)) \<and> a \<notin> owned"
    if "epoch_of d a \<noteq> 0" "epoch_of d a \<le> fd_flush_epoch d"
    using reported_in_log [OF inv assms(2) lt that] .
  have later: "epoch_of d a = epoch_of d0 a" if "epoch_of d0 a \<noteq> 0"
  proof -
    have "a \<notin> owned0" using that io_takenD(2) [of d0 off0 owned0 ys us a] inv0
      by (auto simp: batch_inv_def open_buffer_def epoch_of_def)
    with layer_steps_keep [OF assms(4,1) _ assms(3)] that show ?thesis by (simp add: buffer_kept_def)
  qed
  have "sublist (buffer_bytes (fd_buffers d a)) (raf_file (fd_log d)) \<and> a \<notin> owned"
    if "file_check_io_completion B (get_durable_flush_epoch a d0) w d = (d', True)"
    using check_epoch [OF that] later durable by (auto simp: epoch_of_def)
  moreover have "sublist (buffer_bytes (fd_buffers d a)) (raf_file (fd_log d)) \<and> a \<notin> owned"
    if "await_io_poll (file_io B) now w reread \<lparr>io_log_buffer = a, io_deadline = dl\<rparr> (d, h) = ((d', h'), Ready (Ok ()))"
  proof -
    have "file_check_io_completion B (get_durable_flush_epoch a d) w d = (d', True)"
      using that by (simp add: await_io_poll_ok file_io_def)
    from check_epoch [OF this] durable show ?thesis by (auto simp: epoch_of_def)
  qed
  moreover have "batch_alone B faults = (\<lambda>s s'. batch_step B faults s = returns s')"
    by (simp add: fun_eq_iff batch_alone_def)
  ultimately show ?thesis using batch_steps [of B faults d off d2 off2] by simp
qed

lemma committing_layer_run: "layer_run list_bag (committing_layer, 0, {}, Waiting)"
proof -
  have "with_path list_bag False None [] 8 = Ok fresh_layer" and "raf_len (fd_log fresh_layer) = 0"
    by (simp_all add: fresh_layer_def with_path_def raf_open_def)
  with layer_run.start [of list_bag "[]" 8 fresh_layer] have "layer_run list_bag (fresh_layer, 0, {}, Waiting)" by simp
  moreover have "new_log_buffer fresh_layer = (fst (new_log_buffer fresh_layer), 1)"
    by (simp add: new_log_buffer_def fresh_layer_def with_path_def raf_open_def)
  from layer_step.new_buffer [OF this]
  have "layer_step list_bag (fresh_layer, 0, {}, Waiting) (fst (new_log_buffer fresh_layer), 0, {1}, Waiting)" by simp
  ultimately have "layer_run list_bag (fst (new_log_buffer fresh_layer), 0, {1}, Waiting)" by (rule layer_run.run)
  from layer_run.run [OF this layer_step.commit [OF _ file_commit_committing_layer]] show ?thesis by simp
qed

text \<open>One buffer in the list: the batch step by step.\<close>

lemma single_batch:
  assumes "chain d (fd_log_buffer_link d) [a]" and "fd_flush_epoch d \<noteq> - 1" and "length (raf_file (fd_log d)) = unat off"
    and room: "unat off + length (buffer_bytes (fd_buffers d a)) < 2 ^ 64"
    and "lb_pos (fd_buffers d a) \<le> length (lb_buffer (fd_buffers d a))"
  shows "\<exists>d' off'. (layer_step B)\<^sup>*\<^sup>* (d, off, owned, Waiting) (d', off', owned, Waking) \<and>
    fd_flush_epoch d' = fd_flush_epoch d + 1 \<and> raf_file (fd_log d') = raf_file (fd_log d) @ buffer_bytes (fd_buffers d a) \<and>
    fd_buffers d' a = (fd_buffers d a)\<lparr>lb_durable_flush_epoch := fd_flush_epoch d + 1\<rparr>"
proof -
  let ?e = "fd_flush_epoch d + 1" and ?R = "layer_step B"
  have a: "fd_log_buffer_link d = a" "a \<noteq> 0" "lb_next (fd_buffers d a) = 0" using assms(1) by auto
  let ?d1 = "d\<lparr>fd_log_buffer_link := 0\<rparr>" and ?d2 = "set_durable_flush_epoch a ?e (d\<lparr>fd_log_buffer_link := 0\<rparr>)"
  have b: "fd_buffers ?d2 a = (fd_buffers d a)\<lparr>lb_durable_flush_epoch := ?e\<rparr>" by (simp add: set_durable_flush_epoch_def)
  then have bytes: "buffer_bytes (fd_buffers ?d2 a) = buffer_bytes (fd_buffers d a)" by (intro same_bytes) simp_all
  have c: "chain ?d2 a [a]" using a b by simp
  have s1: "?R (d, off, owned, Waiting) (d, off, owned, Taking ?e)"
    by (rule layer_step.batch) (use assms(2) in \<open>simp_all add: batch_guard_def batch_step_def\<close>)
  have s2: "?R (d, off, owned, Taking ?e) (?d1, off, owned, Marking ?e a)"
    by (rule layer_step.batch) (use a in \<open>simp_all add: batch_guard_def batch_step_def Let_def\<close>)
  have "take_next a ?d2 = (?d2, None)" using take_next_chain [of ?d2 a "[]"] a b by simp
  then have s3: "?R (?d1, off, owned, Marking ?e a) (?d2, off, owned, Inverting ?e a None)"
    by (intro layer_step.batch) (simp_all add: batch_guard_def batch_step_def)
  have s4: "?R (?d2, off, owned, Inverting ?e a None) (?d2, off, owned, Writing ?e a)"
    by (rule layer_step.batch) (simp_all add: batch_guard_def batch_step_def invert_body_def)
  obtain f where w: "write_body (\<lambda>_. []) (?d2, a, off) =
      returns ((?d2\<lparr>fd_log := f\<rparr>, a, off + of_nat (length (buffer_bytes (fd_buffers ?d2 a)))), Return ())"
    and f: "raf_file f = raf_file (fd_log ?d2) @ buffer_bytes (fd_buffers ?d2 a)"
    using write_body_step [OF c, of off "\<lambda>_. []"] assms(3,5) room bytes by (auto simp: b lb_pos_def set_durable_flush_epoch_def)
  let ?off = "off + of_nat (length (buffer_bytes (fd_buffers ?d2 a)))"
  have s5: "?R (?d2, off, owned, Writing ?e a) (?d2\<lparr>fd_log := f\<rparr>, ?off, owned, Storing ?e)"
    by (rule layer_step.batch [where faults = "\<lambda>_. []"]) (use room bytes w in \<open>simp_all add: batch_guard_def batch_step_def\<close>)
  have s6: "?R (?d2\<lparr>fd_log := f\<rparr>, ?off, owned, Storing ?e) (?d2\<lparr>fd_log := f, fd_flush_epoch := ?e\<rparr>, ?off, owned, Waking)"
    by (rule layer_step.batch) (simp_all add: batch_guard_def batch_step_def)
  have "?R\<^sup>*\<^sup>* (d, off, owned, Waiting) (?d2\<lparr>fd_log := f, fd_flush_epoch := ?e\<rparr>, ?off, owned, Waking)"
    using s1 s2 s3 s4 s5 s6 by (blast intro: converse_rtranclp_into_rtranclp)
  with f bytes b show ?thesis
    by (intro exI conjI) (assumption, simp_all add: set_durable_flush_epoch_def)
qed

theorem completion_implies_durable_witness:
  "\<exists>d off. (layer_step list_bag)\<^sup>*\<^sup>* (committing_layer, 0, {}, Waiting) (d, off, {}, Waking) \<and>
     (\<exists>d'. await_io_poll (file_io list_bag) 0 0 None \<lparr>io_log_buffer = 1, io_deadline = None\<rparr> (d, idle_heap) =
        ((d', idle_heap), Ready (Ok ()))) \<and>
     sublist (encode (TransactionCommitted 8 5)) (raf_file (fd_log d))"
proof -
  note I = io_invD [OF committing_layer_inv]
  have "closed_buffer committing_layer 1" using I(5) by simp
  then obtain d off where steps: "(layer_step list_bag)\<^sup>*\<^sup>* (committing_layer, 0, {}, Waiting) (d, off, {}, Waking)"
    and e: "fd_flush_epoch d = 1"
    and b: "fd_buffers d 1 = (fd_buffers committing_layer 1)\<lparr>lb_durable_flush_epoch := 1\<rparr>"
    using single_batch [OF I(3) _ I(7), of list_bag "{}"]
    by (auto simp: committing_layer_fields committing_layer_bytes closed_buffer_def)
  have "get_durable_flush_epoch 1 d = Some 1" using b by (simp add: get_durable_flush_epoch_def)
  then have poll: "await_io_poll (file_io list_bag) 0 0 None \<lparr>io_log_buffer = 1, io_deadline = None\<rparr> (d, idle_heap) =
      ((d, idle_heap), Ready (Ok ()))"
    by (simp add: await_io_poll_ok file_io_def file_check_io_completion_def Let_def e)
  have "buffer_bytes (fd_buffers d 1) = buffer_bytes (fd_buffers committing_layer 1)"
    using b by (intro same_bytes) simp
  with completion_implies_durable [OF committing_layer_run _ _ steps, of 1 0 d 0 None None idle_heap idle_heap] poll steps
  show ?thesis by (auto simp: committing_layer_fields committing_layer_bytes)
qed

text \<open>
  C34: Once a batch has been processed, every buffer that was waiting for it is reported as
  complete to whoever polls for it, with or without a deadline.
\<close>

theorem flushed_completes:
  assumes "scc_bag_laws B" and "io_inv d off owned xs" and "a \<in> set xs" and "fd_flush_epoch d \<noteq> - 1"
    and "unat off + length (concat (map (\<lambda>x. buffer_bytes (fd_buffers d x)) (rev xs))) < 2 ^ 64"
    and "process_log_buffer_batch B faults (d, off) = returns (d', off')"
  shows "await_io_poll (file_io B) now w reread \<lparr>io_log_buffer = a, io_deadline = dl\<rparr> (d', h) =
    ((d', h), Ready (Ok ()))"
proof -
  note I = io_invD [OF assms(2)]
  have "\<forall>x \<in> set xs. lb_pos (fd_buffers d x) \<le> length (lb_buffer (fd_buffers d x))"
    using I(5) by (simp add: closed_buffer_def)
  moreover have "xs \<noteq> []" using assms(3) by auto
  ultimately obtain d1 off1 where "process_log_buffer_batch B faults (d, off) = returns (d1, off1)"
    and "fd_flush_epoch d1 = fd_flush_epoch d + 1"
    and "fd_buffers d1 a = (fd_buffers d a)\<lparr>lb_next := 0, lb_durable_flush_epoch := fd_flush_epoch d + 1\<rparr>"
    using batch_ok [OF assms(1) I(3) _ I(7) assms(5), of faults] assms(3) by metis
  moreover have "fd_flush_epoch d + 1 \<noteq> 0"
    using unat_succ [OF assms(4)] by (metis nat.distinct(1) unat_0)
  ultimately show ?thesis
    using assms(6)
    by (simp add: await_io_poll_ok file_io_def file_check_io_completion_def Let_def
        get_durable_flush_epoch_def nonzero_def)
qed

theorem flushed_completes_witness:
  "\<exists>d' off'. process_log_buffer_batch list_bag (\<lambda>_. []) (committing_layer, 0) = returns (d', off') \<and>
     await_io_poll (file_io list_bag) 0 0 None \<lparr>io_log_buffer = 1, io_deadline = None\<rparr> (d', idle_heap) =
       ((d', idle_heap), Ready (Ok ()))"
proof -
  have "1 \<in> set [1 :: nat]" and "fd_flush_epoch committing_layer \<noteq> - 1"
    and "unat (0 :: u64) + length (concat (map (\<lambda>x. buffer_bytes (fd_buffers committing_layer x)) (rev [1]))) < 2 ^ 64"
    by (simp_all add: committing_layer_bytes committing_layer_fields)
  note C = flushed_completes [OF list_bag_laws committing_layer_inv this]
  note I = io_invD [OF committing_layer_inv]
  have "\<forall>x \<in> set [1]. lb_pos (fd_buffers committing_layer x) \<le> length (lb_buffer (fd_buffers committing_layer x))"
    using I(5) by (simp add: closed_buffer_def)
  then obtain d' off' where "process_log_buffer_batch list_bag (\<lambda>_. []) (committing_layer, 0) = returns (d', off')"
    by (rule batch_ok [OF list_bag_laws I(3) _ I(7), rotated 2]) (simp_all add: committing_layer_bytes)
  with C [OF this] show ?thesis by blast
qed

end
