(* ===== verification/Durability.thy ===== *)
theory Durability
  imports Recovered_State Log_Durability
begin

text \<open>
  From the operations of a transaction through the log file to the recovered database.
\<close>

section \<open>The log of a committed journal\<close>

lemma emit_record_pos:
  assumes b: "length (lb_buffer (fd_buffers d a)) = 32" "lb_pos (fd_buffers d a) \<le> 32" "a < fd_next_buffer d"
    and e: "emit_record r (d, a) = Done (d', a')"
  shows "0 < lb_pos (fd_buffers d' a')" "fd_log d' = fd_log d"
proof -
  have pos: "0 < record_size r" using record_size_pos [of r] by simp
  have "0 < lb_pos (fd_buffers d' a') \<and> fd_log d' = fd_log d"
  proof (cases "lb_pos (fd_buffers d a) + record_size r \<le> 32")
    case True
    have "emit_record r (d, a) = Done (upd_buffer a (\<lambda>_. add_record r (fd_buffers d a)) d, a)"
      by (simp add: emit_record_def write_to_buffer_fits [OF b(1) True] add_record_def)
    with e have "d' = upd_buffer a (\<lambda>_. add_record r (fd_buffers d a)) d" "a' = a" by auto
    with add_record_simps(2) [OF b(1) True] pos show ?thesis by simp
  next
    case False
    obtain rest where w: "write_to_buffer r (fd_buffers d a) =
        ((fd_buffers d a)\<lparr>lb_buffer := take (lb_pos (fd_buffers d a)) (lb_buffer (fd_buffers d a)) @ rest\<rparr>, None)"
      using write_to_buffer_full [OF b(1,2) False] by blast
    have fits: "lb_pos default_log_buffer + record_size r \<le> 32" using record_size_le by simp
    have n: "fd_next_buffer d \<noteq> a" using b(3) by simp
    let ?b = "(fd_buffers d a)\<lparr>lb_buffer := take (lb_pos (fd_buffers d a)) (lb_buffer (fd_buffers d a)) @ rest\<rparr>"
    let ?d = "flush a (fst (new_log_buffer (upd_buffer a (\<lambda>_. ?b) d)))"
    have "emit_record r (d, a) = Done (upd_buffer (fd_next_buffer d) (\<lambda>_. add_record r default_log_buffer) ?d, fd_next_buffer d)"
      using n by (simp add: emit_record_def w new_log_buffer_def write_to_buffer_fits [OF default_buffer_simps(1) fits] add_record_def)
    with e have "d' = upd_buffer (fd_next_buffer d) (\<lambda>_. add_record r default_log_buffer) ?d" "a' = fd_next_buffer d" by auto
    with add_record_simps(2) [OF default_buffer_simps(1) fits] pos show ?thesis by (simp add: new_log_buffer_def)
  qed
  then show "0 < lb_pos (fd_buffers d' a')" "fd_log d' = fd_log d" by simp_all
qed

lemma emit_all_pos:
  assumes "io_inv d off owned xs" "a \<in> owned" "emit_all rs (d, a) = Done (d', a')" "rs \<noteq> []"
  shows "0 < lb_pos (fd_buffers d' a')" "fd_log d' = fd_log d"
proof -
  have "(rs \<noteq> [] \<longrightarrow> 0 < lb_pos (fd_buffers d' a')) \<and> fd_log d' = fd_log d"
    using assms(1-3)
  proof (induction rs arbitrary: d a owned xs)
    case (Cons r rs)
    obtain d1 a1 ys where e: "emit_record r (d, a) = Done (d1, a1)" and i: "io_inv d1 off (insert a1 (owned - {a})) (ys @ xs)"
      by (rule emit_record_ok [OF Cons.prems(1,2), of r]) (rule that)
    have "open_buffer d a" using io_invD(2) [OF Cons.prems(1,2)] .
    then have p: "0 < lb_pos (fd_buffers d1 a1)" "fd_log d1 = fd_log d"
      using emit_record_pos [OF _ _ _ e] by (auto simp: open_buffer_def)
    from Cons.prems(3) e have "emit_all rs (d1, a1) = Done (d', a')" by simp
    with Cons.IH [OF i] p Cons.prems(3) e show ?case by (cases rs) auto
  qed simp
  with assms(4) show "0 < lb_pos (fd_buffers d' a')" "fd_log d' = fd_log d" by simp_all
qed

lemma compress_length:
  "length (compress ext single cur ids) \<le> length ids + (case cur of None \<Rightarrow> 0 | Some _ \<Rightarrow> 1)"
proof (induction ids arbitrary: cur)
  case Nil
  then show ?case by (cases cur) simp_all
next
  case (Cons oid ids)
  show ?case
  proof (cases cur)
    case None
    with Cons.IH [of "Some (single oid)"] show ?thesis by simp
  next
    case (Some log)
    with Cons.IH [of "Some (single oid)"] Cons.IH [of "ext oid log"] show ?thesis
      by (cases "ext oid log") simp_all
  qed
qed

lemma length_encode_all: "length (encode_all rs) \<le> 32 * length rs"
  by (induction rs) (auto simp: encode_all_def intro: le_trans [OF add_le_mono [OF record_size_le]])

text \<open>
  The records a journal logs for the objects it creates are those of that journal, and there are no
  more of them than objects.
\<close>

definition created_records :: "transaction_id \<Rightarrow> journal_id \<Rightarrow> object_id list \<Rightarrow> log_record list" where
  "created_records t j ids = compress (extend_created t j) (JournalCreatedObjectSingle t j) None ids"

lemma created_records_ok:
  assumes "t AND OPCODE_MASK = 0" "j AND OPCODE_MASK = 0"
  shows "concat (map expand (created_records t j ids)) = ids" "log_records (created_records t j ids)"
    "list_all (\<lambda>r. journal_of r = Some (True, t, j)) (created_records t j ids)"
    "length (encode_all (created_records t j ids)) \<le> 32 * length ids"
proof -
  show e: "concat (map expand (created_records t j ids)) = ids"
    using compress_expand [of "extend_created t j" "JournalCreatedObjectSingle t j" None ids]
      extend_created_expand by (simp add: created_records_def)
  let ?Q = "\<lambda>r. valid_record r \<and> r \<noteq> EndOfLog \<and> journal_of r = Some (True, t, j)"
  have "?Q r" if "r \<in> set (created_records t j ids)" for r
    using that unfolding created_records_def
    by (rule compress_all [rotated 3])
      (auto simp: assms extend_created_def split: log_record.splits option.splits if_splits)
  then show "log_records (created_records t j ids)"
    "list_all (\<lambda>r. journal_of r = Some (True, t, j)) (created_records t j ids)"
    by (auto simp: log_records_def list_all_iff)
  have "length (created_records t j ids) \<le> length ids"
    using compress_length [of "extend_created t j" "JournalCreatedObjectSingle t j" None ids] by (simp add: created_records_def)
  with length_encode_all [of "created_records t j ids"] show "length (encode_all (created_records t j ids)) \<le> 32 * length ids"
    by linarith
qed


lemma closed_pos: "closed_buffer d x \<Longrightarrow> lb_pos (fd_buffers d x) \<le> length (lb_buffer (fd_buffers d x))"
  by (simp add: closed_buffer_def)

text \<open>
  Creating objects in a journal, submitting it, committing its transaction and one batch of the I/O
  thread, whatever writes fail first: the log file has grown by the records of the journal, its end and
  the commit.
\<close>

lemma committed_log:
  assumes B: "scc_bag_laws B" and inv: "io_inv d off {a} []" and empty: "lb_pos (fd_buffers d a) = 0"
    and ids: "t AND OPCODE_MASK = 0" "j AND OPCODE_MASK = 0" and ne: "object_ids \<noteq> []" and i: "i \<noteq> 0"
    and room: "length (raf_file (fd_log d)) + 32 * length object_ids + 24 < 2 ^ 64"
  obtains d1 a1 d2 d3 a3 d4 d5 off' where "file_create a t j object_ids d = Done (d1, Ok a1)"
    "file_submit a1 t j (Some i) d1 = Done d2" "new_log_buffer d2 = (d3, a3)" "file_commit a3 t c d3 = Done d4"
    "process_log_buffer_batch B faults (d4, off) = returns (d5, off')"
    "raf_file (fd_log d5) = raf_file (fd_log d) @
       encode_all (created_records t j object_ids @ [BufferSubmitted i, TransactionCommitted t c])"
proof -
  let ?rs = "created_records t j object_ids"
  have rs: "?rs \<noteq> []" using created_records_ok(1) [OF ids, of object_ids] ne by auto
  obtain d1 a1 ys where em: "emit_all ?rs (d, a) = Done (d1, a1)" and i1: "io_inv d1 off (insert a1 ({a} - {a})) (ys @ [])"
    and st: "stream d1 ys a1 = written d a @ concat (map encode ?rs)" and eoj: "\<forall>y \<in> set ys. \<not> lb_eoj_logging (fd_buffers d1 y)"
    by (rule emit_all_ok [OF inv singletonI, of ?rs]) (rule that)
  have i1: "io_inv d1 off {a1} ys" using i1 by simp
  have create: "file_create a t j object_ids d = Done (d1, Ok a1)"
    using em by (simp add: file_create_def log_objects_compress created_records_def)
  note pos = emit_all_pos [OF inv singletonI em rs]
  have nz: "lb_bytes_written (fd_buffers d1 a1) \<noteq> 0" using pos(1) by (auto simp: lb_pos_def)
  let ?f = "\<lambda>b. b\<lparr>lb_submit_instant := i, lb_eoj_logging := True\<rparr>"
  let ?d2 = "flush a1 (upd_buffer a1 ?f d1)"
  have submit: "file_submit a1 t j (Some i) d1 = Done ?d2" using nz by (simp add: file_submit_def)
  have i2: "io_inv ?d2 off {} (a1 # ys)" using file_submit_ok [OF i1 singletonI submit] by simp
  let ?d3 = "fst (new_log_buffer ?d2)" and ?a3 = "fd_next_buffer ?d2"
  have new: "new_log_buffer ?d2 = (?d3, ?a3)" by (simp add: new_log_buffer_def)
  have i3: "io_inv ?d3 off {?a3} (a1 # ys)" using io_inv_new [OF i2] .
  have b3: "fd_buffers ?d3 ?a3 = default_log_buffer" by (simp add: new_log_buffer_def)
  let ?b4 = "set_buffer_position 16 (default_log_buffer\<lparr>lb_buffer :=
    encode (TransactionCommitted t c) @ drop 16 (lb_buffer default_log_buffer)\<rparr>)"
  let ?d4 = "flush ?a3 (upd_buffer ?a3 (\<lambda>_. ?b4) ?d3)"
  have commit: "file_commit ?a3 t c ?d3 = Done ?d4"
    using write_to_buffer_fits [of default_log_buffer "TransactionCommitted t c"]
    by (simp add: file_commit_def write_and_flush_def b3)
  have i4: "io_inv ?d4 off {} (?a3 # a1 # ys)"
    using write_and_flush_ok [OF i3 singletonI] commit by (simp add: file_commit_def)
  have fresh: "y \<noteq> ?a3" "y \<noteq> a1" if "y \<in> set ys" for y
    using that io_invD(5) [OF i2, of y] io_invD(4) [OF i1, of a1] by (auto simp: closed_buffer_def)
  have a1: "a1 \<noteq> ?a3" using io_invD(5) [OF i2, of a1] by (auto simp: closed_buffer_def)
  have bytes_y: "buffer_bytes (fd_buffers ?d4 y) = written d1 y" if "y \<in> set ys" for y
    using fresh [OF that] eoj that by (simp add: new_log_buffer_def buffer_bytes_def written_def)
  have bytes_1: "buffer_bytes (fd_buffers ?d4 a1) = written d1 a1 @ encode (BufferSubmitted i)"
    using a1 i by (simp add: new_log_buffer_def buffer_bytes_def written_def lb_pos_def write_record_fits)
  have bytes_3: "buffer_bytes (fd_buffers ?d4 ?a3) = encode (TransactionCommitted t c)"
    by (simp add: buffer_bytes_def lb_pos_def set_buffer_position_def default_log_buffer_def)
  have total: "concat (map (\<lambda>x. buffer_bytes (fd_buffers ?d4 x)) (rev (?a3 # a1 # ys))) =
      encode_all (?rs @ [BufferSubmitted i, TransactionCommitted t c])" (is "?total = _")
  proof -
    have m: "map (\<lambda>x. buffer_bytes (fd_buffers ?d4 x)) (rev ys) = map (written d1) (rev ys)"
      by (intro map_cong refl bytes_y) simp
    have "?total = stream d1 ys a1 @ encode (BufferSubmitted i) @ encode (TransactionCommitted t c)"
      by (simp only: rev.simps map_append list.map concat_append concat.simps append_Nil2 append_assoc m bytes_1 bytes_3 stream_def)
    then show ?thesis using st empty by (simp add: encode_all_def written_def)
  qed
  have log: "fd_log ?d4 = fd_log d" using pos(2) by (simp add: new_log_buffer_def)
  have len: "length (raf_file (fd_log d)) = unat off" using io_invD(7) [OF inv] .
  have "length (encode_all (?rs @ [BufferSubmitted i, TransactionCommitted t c])) \<le> 32 * length object_ids + 24"
    using created_records_ok(4) [OF ids, of object_ids] by (simp add: encode_all_def)
  with room len have rm: "unat off + length ?total < 2 ^ 64" unfolding total by linarith
  have p4: "\<forall>x \<in> set (?a3 # a1 # ys). lb_pos (fd_buffers ?d4 x) \<le> length (lb_buffer (fd_buffers ?d4 x))"
    by (intro ballI closed_pos) (rule io_invD(5) [OF i4])
  have ne4: "?a3 # a1 # ys \<noteq> []" by simp
  obtain d5 where "process_log_buffer_batch B faults (?d4, off) = returns (d5, off + of_nat (length ?total))"
    "raf_file (fd_log d5) = raf_file (fd_log ?d4) @ ?total"
    by (rule batch_ok [OF B io_invD(3) [OF i4] ne4 io_invD(7) [OF i4] rm p4, of faults]) (rule that)
  with that [OF create submit new commit] show thesis unfolding log total by blast
qed


section \<open>Properties\<close>



end
