(* ===== verification/Strand.thy ===== *)
theory Strand
  imports Transaction Log_Durability
begin

text \<open>
  The strand of submitted journals of a transaction as an abstract list, and what the operations
  of transactions do to it over any persistence layer that keeps the laws of the interface.
\<close>

section \<open>Definitions\<close>

text \<open>The submit instant of the \<open>n\<close>-th submitted journal; the counter saturates.\<close>

definition strand_instant :: "nat \<Rightarrow> u32" where
  "strand_instant n = of_nat (min n (2 ^ 32 - 1))"

text \<open>The linked list starting at an anchor holds the journals \<open>js\<close>, the latest one first.\<close>

fun wf_strand :: "'b heap \<Rightarrow> transaction_id \<Rightarrow> journal_id option \<Rightarrow> journal_id list \<Rightarrow> bool" where
  "wf_strand h t None [] = True"
| "wf_strand h t (Some j) (k # js) =
     (k = j \<and> j \<notin> set js \<and> ja_transaction (jas h j) = t \<and> ja_submitted (jas h j) \<and>
      \<not> ja_rolled_back (jas h j) \<and> ja_submit_instant (jas h j) = strand_instant (Suc (length js)) \<and>
      wf_strand h t (ja_next (jas h j)) js)"
| "wf_strand h t _ _ = False"

text \<open>The journals of a strand that a rewind to an instant keeps.\<close>

definition kept_journals :: "'b heap \<Rightarrow> u32 option \<Rightarrow> journal_id list \<Rightarrow> journal_id list" where
  "kept_journals h instant js = filter (\<lambda>j. option_le (submit_instant (jas h j)) instant) js"

text \<open>A transaction with the submitted journals \<open>js\<close>, holding its end-of-transaction buffer.\<close>

definition tx_wf ::
  "('p \<Rightarrow> log_buffer_id set \<Rightarrow> log_buffer_id set \<Rightarrow> bool) \<Rightarrow> transaction \<Rightarrow> ('q, 'b, 'p) db \<Rightarrow> journal_id list \<Rightarrow> log_buffer_id set \<Rightarrow> log_buffer_id set \<Rightarrow> bool" where
  "tx_wf layer tx db js W E \<longleftrightarrow>
     wf_strand (db_heap db) (tx_id tx) (tx_journal_strand tx) js \<and> layer (db_layer db) W E \<and>
     (\<forall>a. tx_eot_log_buffer tx = Some a \<longrightarrow> a \<in> E)"

text \<open>What a poll of a committable transaction may end with.\<close>

definition poll_outcome ::
  "('p \<Rightarrow> log_buffer_id set \<Rightarrow> log_buffer_id set \<Rightarrow> bool) \<Rightarrow> transaction \<Rightarrow> journal_id list \<Rightarrow> log_buffer_id set \<Rightarrow> ('q, 'b, 'p) db \<Rightarrow> committable \<Rightarrow> ('q, 'b, 'p) db \<Rightarrow>
     u64 result poll \<Rightarrow> bool" where
  "poll_outcome layer tx js W db c' db' r \<longleftrightarrow>
     (let ta = tas (db_heap db) (tx_id tx); ta' = tas (db_heap db') (tx_id tx) in
      case r of
        Pending \<Rightarrow>
          ta_state ta' = Committing \<and> ta_commit_instant ta' = ta_commit_instant ta \<and>
          (\<exists>tx' io E'. c' = \<lparr>ct_transaction = Some tx', ct_commit_log_io = Some io\<rparr> \<and>
             tx_id tx' = tx_id tx \<and> tx_eot_log_buffer tx' = None \<and> tx_wf layer tx' db' js W E')
      | Ready (Inr i) \<Rightarrow>
          ta_state ta' = Committed \<and> ta_commit_instant ta' = i \<and>
          (\<forall>j. ja_rolled_back (jas (db_heap db') j) = ja_rolled_back (jas (db_heap db) j) \<and>
             ja_transaction (jas (db_heap db') j) = ja_transaction (jas (db_heap db) j))
      | Ready (Inl e) \<Rightarrow>
          ta_state ta' = RolledBack \<and> ta_commit_instant ta' = ta_commit_instant ta \<and>
          (\<forall>j \<in> set js. ja_rolled_back (jas (db_heap db') j)))"

text \<open>What a rewind leaves of the anchor of a journal it rolled back.\<close>

definition revoked_anchor :: "journal_anchor \<Rightarrow> journal_anchor" where
  "revoked_anchor a = a\<lparr>ja_rolled_back := True, ja_submit_instant := 1, ja_next := None\<rparr>"

section \<open>Lemmas\<close>

lemma strand_instant_unat: "unat (strand_instant n) = min n (2 ^ 32 - 1)"
  by (simp add: strand_instant_def unat_of_nat)

lemma strand_instant_Suc: "strand_instant (Suc n) = saturating_succ (strand_instant n)"
proof -
  have "unat (- 1 :: u32) = 2 ^ 32 - 1" by (simp add: unsigned_minus_1_eq_mask mask_eq_exp_minus_1)
  then show ?thesis
    by (simp add: word_unat_eq_iff saturating_succ_unat strand_instant_unat)
qed

lemma strand_instant_nonzero [simp]: "strand_instant (Suc n) \<noteq> 0"
  by (simp add: strand_instant_Suc)

lemma strand_instant_mono: "m \<le> n \<Longrightarrow> strand_instant m \<le> strand_instant n"
  by (simp add: word_le_nat_alt strand_instant_unat)

lemma strand_instant_0 [simp]: "strand_instant 0 = 0"
  by (simp add: strand_instant_def)

lemma wf_strand_cong:
  "(\<And>j. j \<in> set js \<Longrightarrow> jas h' j = jas h j) \<Longrightarrow> wf_strand h' t cur js = wf_strand h t cur js"
  by (induction h t cur js rule: wf_strand.induct) auto

lemma wf_strand_jas: "jas h' = jas h \<Longrightarrow> wf_strand h' t cur js = wf_strand h t cur js"
  by (rule wf_strand_cong) simp

lemma wf_strand_cases:
  assumes "wf_strand h t cur js"
  obtains "cur = None" and "js = []"
  | j ks where "cur = Some j" and "js = j # ks" and "j \<notin> set ks" and "ja_transaction (jas h j) = t"
    and "ja_submitted (jas h j)" and "\<not> ja_rolled_back (jas h j)"
    and "ja_submit_instant (jas h j) = strand_instant (Suc (length ks))"
    and "wf_strand h t (ja_next (jas h j)) ks"
  using assms by (cases cur; cases js) auto

lemma wf_strand_distinct: "wf_strand h t cur js \<Longrightarrow> distinct js"
  by (induction h t cur js rule: wf_strand.induct) auto

lemma wf_strand_head_instant:
  assumes "wf_strand h t cur js"
  shows "(case cur of None \<Rightarrow> None | Some j \<Rightarrow> submit_instant (jas h j)) = nonzero (strand_instant (length js))"
  using assms by (rule wf_strand_cases) (auto simp: submit_instant_def)

lemma wf_strand_instant_le:
  assumes "wf_strand h t cur js" and "j \<in> set js"
  shows "\<exists>n. Suc n \<le> length js \<and> submit_instant (jas h j) = Some (strand_instant (Suc n))"
  using assms
proof (induction js arbitrary: cur)
  case (Cons k ks)
  from Cons.prems(1) show ?case
  proof (rule wf_strand_cases)
    fix i js' assume *: "k # ks = i # js'" "wf_strand h t (ja_next (jas h i)) js'"
      "ja_submit_instant (jas h i) = strand_instant (Suc (length js'))"
    show ?thesis
    proof (cases "j = i")
      case True
      with * show ?thesis by (auto simp: submit_instant_def intro!: exI [of _ "length ks"])
    next
      case False
      with Cons.prems(2) *(1) have "j \<in> set ks" by auto
      with Cons.IH [of "ja_next (jas h i)"] * obtain n where "Suc n \<le> length ks"
        and "submit_instant (jas h j) = Some (strand_instant (Suc n))" by auto
      then show ?thesis by (intro exI [of _ n]) simp
    qed
  qed simp
qed simp

lemma wf_strand_transaction: "wf_strand h t cur js \<Longrightarrow> j \<in> set js \<Longrightarrow> ja_transaction (jas h j) = t"
  by (induction h t cur js rule: wf_strand.induct) auto

text \<open>Submit instants decrease along the strand, so a rewind keeps its tail.\<close>

lemma kept_journals_dropWhile:
  assumes "wf_strand h t cur js"
  shows "kept_journals h instant js =
    dropWhile (\<lambda>j. \<not> option_le (submit_instant (jas h j)) instant) js"
  using assms
proof (induction js arbitrary: cur)
  case (Cons k ks)
  from Cons.prems show ?case
  proof (rule wf_strand_cases)
    fix i js' assume *: "k # ks = i # js'" "wf_strand h t (ja_next (jas h i)) js'"
      "ja_submit_instant (jas h i) = strand_instant (Suc (length js'))"
    show ?thesis
    proof (cases "option_le (submit_instant (jas h i)) instant")
      case True
      have "option_le (submit_instant (jas h j)) instant" if j: "j \<in> set js'" for j
      proof -
        obtain n where "Suc n \<le> length js'" "submit_instant (jas h j) = Some (strand_instant (Suc n))"
          using wf_strand_instant_le [OF *(2) j] by blast
        then have "option_le (submit_instant (jas h j)) (submit_instant (jas h i))"
          using *(3) strand_instant_mono [of "Suc n" "Suc (length js')"]
          by (simp add: submit_instant_def nonzero_def)
        with True show ?thesis using option_le_trans by blast
      qed
      with True *(1) show ?thesis by (auto simp: kept_journals_def)
    next
      case False
      with Cons.IH [of "ja_next (jas h i)"] * show ?thesis by (simp add: kept_journals_def)
    qed
  qed simp
qed (simp add: kept_journals_def)

subsection \<open>Submitting\<close>

lemma set_next_simps:
  "fst (snd (set_next j nxt h)) = ja_next (jas h j)"
  "jas (fst (set_next j nxt h)) = (jas h)(j := (jas h j)\<lparr>ja_submit_instant := snd (snd (set_next j nxt h)),
     ja_next := nxt\<rparr>)"
  "snd (snd (set_next j None h)) = 1"
  by (simp_all add: set_next_def Let_def)

lemma set_next_None:
  "set_next j None h = (upd_ja j (\<lambda>a. a\<lparr>ja_submit_instant := 1, ja_next := None\<rparr>) h, ja_next (jas h j), 1)"
  by (simp add: set_next_def)

lemma foldl_set_next:
  "\<exists>i n. foldl (\<lambda>h head. fst (set_next j head h)) h stale =
     upd_ja j (\<lambda>a. a\<lparr>ja_submit_instant := i, ja_next := n\<rparr>) h"
proof (induction stale rule: rev_induct)
  case Nil
  have "h = upd_ja j (\<lambda>a. a\<lparr>ja_submit_instant := ja_submit_instant (jas h j), ja_next := ja_next (jas h j)\<rparr>) h"
    by (simp add: upd_ja_def)
  then show ?case by (metis foldl_Nil)
next
  case (snoc head stale)
  then obtain i n where f: "foldl (\<lambda>h head. fst (set_next j head h)) h stale =
      upd_ja j (\<lambda>a. a\<lparr>ja_submit_instant := i, ja_next := n\<rparr>) h" by blast
  have "\<exists>i' n'. fst (set_next j head (upd_ja j (\<lambda>a. a\<lparr>ja_submit_instant := i, ja_next := n\<rparr>) h)) =
      upd_ja j (\<lambda>a. a\<lparr>ja_submit_instant := i', ja_next := n'\<rparr>) h"
    by (auto simp: set_next_def Let_def upd_ja_def)
  then show ?case by (simp only: foldl_append foldl_Cons foldl_Nil f)
qed

lemma set_next_strand:
  assumes "wf_strand h t cur js" and "j \<notin> set js"
  shows "set_next j cur (foldl (\<lambda>h head. fst (set_next j head h)) h stale) =
    (upd_ja j (\<lambda>a. a\<lparr>ja_submit_instant := strand_instant (Suc (length js)), ja_next := cur\<rparr>) h,
     ja_next (jas (foldl (\<lambda>h head. fst (set_next j head h)) h stale) j), strand_instant (Suc (length js)))"
proof -
  obtain i n where f: "foldl (\<lambda>h head. fst (set_next j head h)) h stale =
      upd_ja j (\<lambda>a. a\<lparr>ja_submit_instant := i, ja_next := n\<rparr>) h"
    using foldl_set_next by blast
  let ?h = "upd_ja j (\<lambda>a. a\<lparr>ja_submit_instant := i, ja_next := n\<rparr>) h"
  from assms(1)
  have "set_next j cur ?h =
    (upd_ja j (\<lambda>a. a\<lparr>ja_submit_instant := strand_instant (Suc (length js)), ja_next := cur\<rparr>) h,
     ja_next (jas ?h j), strand_instant (Suc (length js)))"
  proof (rule wf_strand_cases)
    assume "cur = None" and "js = []"
    then show ?thesis
      using strand_instant_Suc [of 0] by (simp add: set_next_def upd_ja_def saturating_succ_def)
  next
    fix k ks assume "cur = Some k" and "js = k # ks"
      and "ja_submit_instant (jas h k) = strand_instant (Suc (length ks))"
    moreover have "k \<noteq> j" using assms(2) calculation(2) by auto
    ultimately show ?thesis
      using strand_instant_Suc [of "Suc (length ks)"]
      by (simp add: set_next_def upd_ja_def submit_instant_def nonzero_def Let_def)
  qed
  then show ?thesis by (simp only: f)
qed

subsection \<open>Rewinding and committing the strand\<close>

lemma rewind_loop:
  assumes "wf_strand h t cur js"
  shows "\<exists>h' cur'. rust_loop (rewind_body instant) (h, cur) = returns ((h', cur'), ()) \<and>
    wf_strand h' t cur' (kept_journals h instant js) \<and> tas h' = tas h \<and>
    (\<forall>j \<in> set js - set (kept_journals h instant js). jas h' j = revoked_anchor (jas h j)) \<and>
    (\<forall>j. j \<notin> set js - set (kept_journals h instant js) \<longrightarrow> jas h' j = jas h j)"
  unfolding kept_journals_dropWhile [OF assms]
  using assms
proof (induction js arbitrary: h cur)
  case Nil
  then have "cur = None" by (cases cur) auto
  then have "rust_loop (rewind_body instant) (h, cur) = returns ((h, None), ())"
    by (subst rust_loop.simps) (simp add: rewind_body_def)
  then show ?case by auto
next
  case (Cons k ks)
  let ?ok = "\<lambda>h j. option_le (submit_instant (jas h j)) instant"
  from Cons.prems have k: "cur = Some k" "k \<notin> set ks" and wf: "wf_strand h t (ja_next (jas h k)) ks"
    by (cases cur; simp)+
  show ?case
  proof (cases "?ok h k")
    case True
    then have "rust_loop (rewind_body instant) (h, cur) = returns ((h, cur), ())"
      by (subst rust_loop.simps) (simp add: rewind_body_def k)
    with True Cons.prems show ?thesis by auto
  next
    case False
    let ?h = "upd_ja k (\<lambda>a. a\<lparr>ja_submit_instant := 1, ja_next := None\<rparr>) (anchor_rollback k h)"
    have loop: "rust_loop (rewind_body instant) (h, cur) = rust_loop (rewind_body instant) (?h, ja_next (jas h k))"
      using False by (subst rust_loop.simps) (simp add: rewind_body_def k set_next_None)
    have same: "jas ?h j = jas h j" if "j \<noteq> k" for j using that by simp
    have "wf_strand ?h t (ja_next (jas h k)) ks"
      using wf k(2) by (subst wf_strand_cong [of _ _ h]) auto
    from Cons.IH [OF this] obtain h' cur' where
      r: "rust_loop (rewind_body instant) (?h, ja_next (jas h k)) = returns ((h', cur'), ())"
      and w: "wf_strand h' t cur' (dropWhile (\<lambda>j. \<not> ?ok ?h j) ks)" and t: "tas h' = tas ?h"
      and rb: "\<forall>j \<in> set ks - set (dropWhile (\<lambda>j. \<not> ?ok ?h j) ks). jas h' j = revoked_anchor (jas ?h j)"
      and keep: "\<forall>j. j \<notin> set ks - set (dropWhile (\<lambda>j. \<not> ?ok ?h j) ks) \<longrightarrow> jas h' j = jas ?h j"
      by blast
    have d: "dropWhile (\<lambda>j. \<not> ?ok ?h j) ks = dropWhile (\<lambda>j. \<not> ?ok h j) ks"
      using k(2) by (intro dropWhile_cong refl) auto
    have dk: "dropWhile (\<lambda>j. \<not> ?ok h j) (k # ks) = dropWhile (\<lambda>j. \<not> ?ok h j) ks"
      using False by simp
    have sub: "set (dropWhile (\<lambda>j. \<not> ?ok h j) ks) \<subseteq> set ks" by (rule set_dropWhileD [THEN subsetI])
    have "jas h' k = jas ?h k" using keep k(2) by simp
    then have "jas h' k = revoked_anchor (jas h k)" by (simp add: revoked_anchor_def)
    moreover have "jas h' j = revoked_anchor (jas h j)"
      if "j \<in> set ks - set (dropWhile (\<lambda>j. \<not> ?ok h j) ks)" for j
      using that rb k(2) unfolding d by auto
    moreover have "jas h' j = jas h j"
      if "j \<notin> set (k # ks) - set (dropWhile (\<lambda>j. \<not> ?ok h j) ks)" for j
    proof -
      have "j \<noteq> k" using that k(2) sub by auto
      with keep that show ?thesis unfolding d by auto
    qed
    ultimately show ?thesis
      using r w t unfolding loop d dk by (intro exI [of _ h'] exI [of _ cur']) auto
  qed
qed

lemma commit_loop:
  assumes "wf_strand h t cur js"
  shows "\<exists>h'. rust_loop commit_body (h, cur) = returns ((h', None), ()) \<and> tas h' = tas h \<and>
    (\<forall>j. j \<notin> set js \<longrightarrow> jas h' j = jas h j) \<and>
    (\<forall>j. ja_rolled_back (jas h' j) = ja_rolled_back (jas h j) \<and>
         ja_transaction (jas h' j) = ja_transaction (jas h j))"
  using assms
proof (induction js arbitrary: h cur)
  case Nil
  then have "cur = None" by (cases cur) auto
  then have "rust_loop commit_body (h, cur) = returns ((h, None), ())"
    by (subst rust_loop.simps) (simp add: commit_body_def)
  then show ?case by auto
next
  case (Cons k ks)
  from Cons.prems have k: "cur = Some k" "k \<notin> set ks" and wf: "wf_strand h t (ja_next (jas h k)) ks"
    by (cases cur; simp)+
  let ?h = "upd_ja k (\<lambda>a. a\<lparr>ja_submit_instant := 1, ja_next := None\<rparr>) (anchor_commit k h)"
  have "commit_body (h, cur) = returns ((?h, ja_next (jas h k)), Again)"
    by (simp add: commit_body_def k set_next_None)
  then have loop: "rust_loop commit_body (h, cur) = rust_loop commit_body (?h, ja_next (jas h k))"
    by (subst rust_loop.simps) simp
  have "wf_strand ?h t (ja_next (jas h k)) ks"
    using wf k(2) by (subst wf_strand_cong [of _ _ h]) auto
  from Cons.IH [OF this] obtain h' where r: "rust_loop commit_body (?h, ja_next (jas h k)) = returns ((h', None), ())"
    and t: "tas h' = tas ?h" and keep: "\<forall>j. j \<notin> set ks \<longrightarrow> jas h' j = jas ?h j"
    and fields: "\<forall>j. ja_rolled_back (jas h' j) = ja_rolled_back (jas ?h j) \<and>
      ja_transaction (jas h' j) = ja_transaction (jas ?h j)"
    by blast
  have "ja_rolled_back (jas ?h j) = ja_rolled_back (jas h j)"
    and "ja_transaction (jas ?h j) = ja_transaction (jas h j)" for j by auto
  with r t keep fields show ?case unfolding loop by (intro exI [of _ h']) auto
qed

subsection \<open>The state of a transaction's anchor\<close>

lemma wake_readers_ok:
  assumes "scc_bag_laws B"
  obtains h' where "wake_readers B tx db = returns (db\<lparr>db_heap := h'\<rparr>)" and "jas h' = jas (db_heap db)"
    and "\<And>t. ta_state (tas h' t) = ta_state (tas (db_heap db) t)"
    and "\<And>t. ta_commit_instant (tas h' t) = ta_commit_instant (tas (db_heap db) t)"
    and "\<And>t. ta_prepare_instant (tas h' t) = ta_prepare_instant (tas (db_heap db) t)"
proof -
  obtain ws b where "wake_up B (tx_id tx) (db_heap db) =
      returns (upd_ta (tx_id tx) (\<lambda>a. a\<lparr>waiting_readers := b\<rparr>) (db_heap db)\<lparr>woken := woken (db_heap db) @ ws\<rparr>)"
    using wake_up_returns [OF assms] by blast
  then have "wake_readers B tx db = returns (db\<lparr>db_heap :=
      upd_ta (tx_id tx) (\<lambda>a. a\<lparr>waiting_readers := b\<rparr>) (db_heap db)\<lparr>woken := woken (db_heap db) @ ws\<rparr>\<rparr>)"
    by (simp add: wake_readers_def)
  then show thesis by (rule that) (auto simp: upd_ta_def)
qed

lemma set_state_simps [simp]:
  "db_layer (set_state tx st db) = db_layer db" "db_sequencer (set_state tx st db) = db_sequencer db"
  "jas (db_heap (set_state tx st db)) = jas (db_heap db)"
  "tas (db_heap (set_state tx st db)) =
     (tas (db_heap db))(tx_id tx := (tas (db_heap db) (tx_id tx))\<lparr>ta_state := st\<rparr>)"
  by (simp_all add: set_state_def)

subsection \<open>Transactions over a layer that keeps the laws\<close>

context log_layer
begin

lemma new_buffer_ok:
  assumes "inv (db_layer db) W E" and "new_buffer P db = (db', a)"
  shows "inv (db_layer db') W (insert a E)" and "db_heap db' = db_heap db"
    and "db_sequencer db' = db_sequencer db" and "a \<notin> W \<union> E"
  using assms new_law by (auto simp: new_buffer_def split: prod.splits)

lemma submit_journal_ok:
  assumes wf: "tx_wf inv tx db js W E" and j: "j \<notin> set js" "ja_transaction (jas (db_heap db) j) = tx_id tx"
      "\<not> ja_rolled_back (jas (db_heap db) j)"
    and buf: "set_option buf \<subseteq> W"
  obtains tx' db' where
    "submit_journal P stale j buf (tx, db) = Done ((tx', db'), strand_instant (Suc (length js)))"
    and "tx_wf inv tx' db' (j # js) (W - set_option buf) E" and "tx_id tx' = tx_id tx"
    and "tas (db_heap db') = tas (db_heap db)" and "db_sequencer db' = db_sequencer db"
    and "buf \<noteq> None \<longrightarrow> durable_after_submit (pl_current_flush_epoch P (db_layer db')) 0 \<le> tx_durable_flush_epoch tx'"
proof -
  let ?i = "strand_instant (Suc (length js))"
  let ?h = "upd_ja j (\<lambda>a. a\<lparr>ja_submit_instant := ?i, ja_next := tx_journal_strand tx\<rparr>) (db_heap db)"
  have s: "wf_strand (db_heap db) (tx_id tx) (tx_journal_strand tx) js" using wf by (simp add: tx_wf_def)
  have strand: "wf_strand (anchor_submit j ?h) (tx_id tx) (Some j) (j # js)"
    using s j by (simp, subst wf_strand_cong [of _ _ "db_heap db"]) auto
  note set_next = set_next_strand [OF s j(1), of stale]
  show thesis
  proof (cases buf)
    case None
    let ?tx = "tx\<lparr>tx_journal_strand := Some j\<rparr>"
    let ?db = "db\<lparr>db_heap := anchor_submit j ?h\<rparr>"
    have "submit_journal P stale j buf (tx, db) = Done ((?tx, ?db), ?i)"
      by (simp add: submit_journal_def Let_def set_next None)
    moreover have "tx_wf inv ?tx ?db (j # js) (W - set_option buf) E"
      using wf strand None by (simp add: tx_wf_def)
    ultimately show ?thesis by (rule that) (simp_all add: None)
  next
    case (Some a)
    obtain p where p: "pl_submit P a (tx_id tx) j (Some ?i) (db_layer db) = Done p" "inv p (W - {a}) E"
      using submit_law [of "db_layer db" W E a "tx_id tx" j "Some ?i"] wf buf Some
      by (auto simp: tx_wf_def)
    let ?e = "durable_after_submit (pl_current_flush_epoch P p) (tx_durable_flush_epoch tx)"
    let ?tx = "tx\<lparr>tx_journal_strand := Some j, tx_durable_flush_epoch := ?e\<rparr>"
    let ?db = "db\<lparr>db_heap := anchor_submit j ?h, db_layer := p\<rparr>"
    have "submit_journal P stale j buf (tx, db) = Done ((?tx, ?db), ?i)"
      by (simp add: submit_journal_def Let_def set_next Some p(1))
    moreover have "tx_wf inv ?tx ?db (j # js) (W - set_option buf) E"
      using wf strand Some p(2) by (simp add: tx_wf_def)
    moreover have "durable_after_submit (pl_current_flush_epoch P p) 0 \<le> ?e"
      by (simp add: durable_after_submit_def Let_def linorder_not_less)
    ultimately show ?thesis by (intro that [of ?tx ?db]) simp_all
  qed
qed

lemma tx_rewind_ok:
  assumes wf: "tx_wf inv tx db js W E"
  obtains tx' db' E' where
    "tx_rewind P instant (tx, db) =
       returns ((tx', db'), Ok (nonzero (strand_instant (length (kept_journals (db_heap db) instant js)))))"
    and "tx_wf inv tx' db' (kept_journals (db_heap db) instant js) W E'"
    and "tx_id tx' = tx_id tx" and "tas (db_heap db') = tas (db_heap db)"
    and "db_sequencer db' = db_sequencer db"
    and "\<forall>j \<in> set js - set (kept_journals (db_heap db) instant js).
      jas (db_heap db') j = revoked_anchor (jas (db_heap db) j)"
    and "\<forall>j. j \<notin> set js - set (kept_journals (db_heap db) instant js) \<longrightarrow>
      jas (db_heap db') j = jas (db_heap db) j"
    and "tx_eot_log_buffer tx' = None \<longleftrightarrow> instant = None"
    and "tx_eot_log_buffer tx = None \<longrightarrow> instant = None \<longrightarrow> db_layer db' = db_layer db"
proof -
  let ?ks = "kept_journals (db_heap db) instant js"
  let ?n = "nonzero (strand_instant (length ?ks))"
  have s: "wf_strand (db_heap db) (tx_id tx) (tx_journal_strand tx) js"
    and inv: "inv (db_layer db) W E" and eot: "\<And>a. tx_eot_log_buffer tx = Some a \<Longrightarrow> a \<in> E"
    using wf by (auto simp: tx_wf_def)
  obtain h cur where r: "rust_loop (rewind_body instant) (db_heap db, tx_journal_strand tx) = returns ((h, cur), ())"
    and h: "wf_strand h (tx_id tx) cur ?ks" "tas h = tas (db_heap db)"
      "\<forall>j \<in> set js - set ?ks. jas h j = revoked_anchor (jas (db_heap db) j)"
      "\<forall>j. j \<notin> set js - set ?ks \<longrightarrow> jas h j = jas (db_heap db) j"
    using rewind_loop [OF s, of instant] by blast
  let ?tx = "tx\<lparr>tx_journal_strand := cur, tx_eot_log_buffer := None\<rparr>"
  let ?db = "db\<lparr>db_heap := h\<rparr>"
  obtain p E1 where p: "inv p W E1"
    and same: "tx_eot_log_buffer tx = None \<Longrightarrow> p = db_layer db"
    and log: "log_rewind P ?n (tx\<lparr>tx_journal_strand := cur\<rparr>, ?db) = Done (?tx, ?db\<lparr>db_layer := p\<rparr>)"
  proof (cases "tx_eot_log_buffer tx")
    case None
    then have "?tx = tx\<lparr>tx_journal_strand := cur\<rparr>" by (cases tx) simp
    with None inv show ?thesis by (intro that [of "db_layer db" E]) (simp_all add: log_rewind_def)
  next
    case (Some a)
    from rewind_law [OF inv eot [OF Some]] obtain p where
      "pl_rewind P a (tx_id tx) ?n (db_layer db) = Done p" "inv p W (E - {a})" by blast
    with Some show ?thesis by (intro that [of p "E - {a}"]) (simp_all add: log_rewind_def)
  qed
  have run: "tx_rewind P instant (tx, db) = returns (if instant \<noteq> None then
        (case new_buffer P (?db\<lparr>db_layer := p\<rparr>) of (db, a) \<Rightarrow> (?tx\<lparr>tx_eot_log_buffer := Some a\<rparr>, db))
      else (?tx, ?db\<lparr>db_layer := p\<rparr>), Ok ?n)"
    unfolding tx_rewind_def prod.case r bind_run_simps Let_def wf_strand_head_instant [OF h(1)] log
    by simp
  show thesis
  proof (cases instant)
    case None
    with run have "tx_rewind P instant (tx, db) = returns ((?tx, ?db\<lparr>db_layer := p\<rparr>), Ok ?n)" by simp
    moreover have "tx_wf inv ?tx (?db\<lparr>db_layer := p\<rparr>) ?ks W E1" using h p by (simp add: tx_wf_def)
    ultimately show ?thesis by (rule that) (use h same None in simp_all)
  next
    case (Some i)
    obtain db' a where b: "new_buffer P (?db\<lparr>db_layer := p\<rparr>) = (db', a)" by fastforce
    have "inv (db_layer (?db\<lparr>db_layer := p\<rparr>)) W E1" using p by simp
    note nb = new_buffer_ok [OF this b]
    have "tx_rewind P instant (tx, db) = returns ((?tx\<lparr>tx_eot_log_buffer := Some a\<rparr>, db'), Ok ?n)"
      using run b Some by simp
    moreover have "tx_wf inv (?tx\<lparr>tx_eot_log_buffer := Some a\<rparr>) db' ?ks W (insert a E1)"
      using h nb by (simp add: tx_wf_def)
    ultimately show ?thesis by (rule that) (use h nb Some in simp_all)
  qed
qed

lemma rollback_internal_ok:
  assumes B: "scc_bag_laws B" and wf: "tx_wf inv tx db js W E"
  obtains tx' db' E' where "rollback_internal B P (tx, db) = returns (tx', db')"
    and "tx_wf inv tx' db' [] W E'" and "tx_id tx' = tx_id tx"
    and "ta_state (tas (db_heap db') (tx_id tx)) = RolledBack"
    and "ta_commit_instant (tas (db_heap db') (tx_id tx)) = ta_commit_instant (tas (db_heap db) (tx_id tx))"
    and "\<forall>j \<in> set js. ja_rolled_back (jas (db_heap db') j)"
    and "\<forall>j. j \<notin> set js \<longrightarrow> jas (db_heap db') j = jas (db_heap db) j"
    and "\<forall>t. t \<noteq> tx_id tx \<longrightarrow> ta_state (tas (db_heap db') t) = ta_state (tas (db_heap db) t)"
    and "tx_eot_log_buffer tx = None \<longrightarrow> db_layer db' = db_layer db"
proof -
  obtain h1 where w: "wake_readers B tx (set_state tx RollingBack db) =
      returns ((set_state tx RollingBack db)\<lparr>db_heap := h1\<rparr>)"
    and h1: "jas h1 = jas (db_heap db)"
      "\<And>t. ta_state (tas h1 t) = ta_state (tas (db_heap (set_state tx RollingBack db)) t)"
      "\<And>t. ta_commit_instant (tas h1 t) = ta_commit_instant (tas (db_heap (set_state tx RollingBack db)) t)"
    using wake_readers_ok [OF B, of tx "set_state tx RollingBack db"] by (metis set_state_simps(3))
  let ?db1 = "(set_state tx RollingBack db)\<lparr>db_heap := h1\<rparr>"
  have wf1: "tx_wf inv tx ?db1 js W E"
    using wf h1(1) by (simp add: tx_wf_def wf_strand_jas [of h1 "db_heap db"])
  obtain tx2 db2 E2 where "tx_rewind P None (tx, ?db1) =
       returns ((tx2, db2), Ok (nonzero (strand_instant (length (kept_journals (db_heap ?db1) None js)))))"
    and "tx_wf inv tx2 db2 (kept_journals (db_heap ?db1) None js) W E2" and t2: "tx_id tx2 = tx_id tx"
    and "tas (db_heap db2) = tas (db_heap ?db1)"
      "\<forall>j \<in> set js - set (kept_journals (db_heap ?db1) None js).
        jas (db_heap db2) j = revoked_anchor (jas (db_heap ?db1) j)"
      "\<forall>j. j \<notin> set js - set (kept_journals (db_heap ?db1) None js) \<longrightarrow>
        jas (db_heap db2) j = jas (db_heap ?db1) j"
    and "tx_eot_log_buffer tx = None \<longrightarrow> None = (None :: u32 option) \<longrightarrow> db_layer db2 = db_layer ?db1"
    by (rule tx_rewind_ok [OF wf1, of None]) (rule that; assumption)
  then have r: "tx_rewind P None (tx, ?db1) =
       returns ((tx2, db2), Ok (nonzero (strand_instant (length (kept_journals h1 None js)))))"
    and wf2: "tx_wf inv tx2 db2 (kept_journals h1 None js) W E2"
    and h2: "tas (db_heap db2) = tas h1"
      "\<forall>j \<in> set js - set (kept_journals h1 None js). ja_rolled_back (jas (db_heap db2) j)"
      "\<forall>j. j \<notin> set js - set (kept_journals h1 None js) \<longrightarrow> jas (db_heap db2) j = jas h1 j"
    and p2: "tx_eot_log_buffer tx = None \<longrightarrow> db_layer db2 = db_layer db"
    by (simp_all add: revoked_anchor_def)
  have none: "kept_journals h1 None js = []"
  proof -
    have some: "submit_instant (jas h1 j) \<noteq> None" if "j \<in> set js" for j
      using wf_strand_instant_le [of h1 "tx_id tx" "tx_journal_strand tx" js j] wf1 that
      by (auto simp: tx_wf_def)
    have "\<not> option_le (submit_instant (jas h1 j)) None" if "j \<in> set js" for j
      using some [OF that] by (cases "submit_instant (jas h1 j)") auto
    then show ?thesis by (auto simp: kept_journals_def filter_empty_conv)
  qed
  let ?db3 = "set_state tx2 RolledBack db2"
  have "rollback_internal B P (tx, db) = returns (tx2, ?db3)"
    using w r by (simp add: rollback_internal_def)
  moreover have "tx_wf inv tx2 ?db3 [] W E2"
    using wf2 none by (simp add: tx_wf_def wf_strand_jas [of "db_heap ?db3" "db_heap db2"])
  ultimately show thesis using t2
    by (rule that) (use h1 h2 t2 none p2 in auto)
qed

lemma tx_drop_rolls_back:
  assumes B: "scc_bag_laws B" and wf: "tx_wf inv tx db js W E"
    and "ta_state (tas (db_heap db) (tx_id tx)) = Active \<or> ta_state (tas (db_heap db) (tx_id tx)) = Committing"
  obtains db' where "tx_drop B P (tx, db) = returns db'"
    and "ta_state (tas (db_heap db') (tx_id tx)) = RolledBack"
    and "ta_commit_instant (tas (db_heap db') (tx_id tx)) = ta_commit_instant (tas (db_heap db) (tx_id tx))"
    and "\<forall>j \<in> set js. ja_rolled_back (jas (db_heap db') j)"
    and "tx_eot_log_buffer tx = None \<longrightarrow> db_layer db' = db_layer db"
proof -
  obtain tx' db' where "rollback_internal B P (tx, db) = returns (tx', db')"
    and *: "ta_state (tas (db_heap db') (tx_id tx)) = RolledBack"
      "ta_commit_instant (tas (db_heap db') (tx_id tx)) = ta_commit_instant (tas (db_heap db) (tx_id tx))"
      "\<forall>j \<in> set js. ja_rolled_back (jas (db_heap db') j)"
    and p: "tx_eot_log_buffer tx = None \<longrightarrow> db_layer db' = db_layer db"
    by (rule rollback_internal_ok [OF B wf]) (rule that; assumption)
  with assms(3) have "tx_drop B P (tx, db) = returns db'" by (auto simp: tx_drop_def Let_def)
  from this * p show thesis by (rule that)
qed

lemma post_commit_ok:
  assumes B: "scc_bag_laws B" and wf: "tx_wf inv tx db js W E"
  obtains db' where "bind_run (post_commit B i (tx, db)) (tx_drop B P) = returns db'"
    and "ta_state (tas (db_heap db') (tx_id tx)) = Committed"
    and "ta_commit_instant (tas (db_heap db') (tx_id tx)) = i"
    and "\<forall>j. ja_rolled_back (jas (db_heap db') j) = ja_rolled_back (jas (db_heap db) j) \<and>
      ja_transaction (jas (db_heap db') j) = ja_transaction (jas (db_heap db) j)"
    and "db_layer db' = db_layer db" and "db_sequencer db' = db_sequencer db"
proof -
  let ?db1 = "db\<lparr>db_heap := upd_ta (tx_id tx) (\<lambda>a. a\<lparr>ta_commit_instant := i, ta_state := Committed\<rparr>) (db_heap db)\<rparr>"
  obtain h1 where w: "wake_readers B tx ?db1 = returns (?db1\<lparr>db_heap := h1\<rparr>)"
    and h1: "jas h1 = jas (db_heap db)"
      "\<And>t. ta_state (tas h1 t) = ta_state (tas (db_heap ?db1) t)"
      "\<And>t. ta_commit_instant (tas h1 t) = ta_commit_instant (tas (db_heap ?db1) t)"
    by (rule wake_readers_ok [OF B, of tx ?db1]) simp
  have "wf_strand h1 (tx_id tx) (tx_journal_strand tx) js"
    using wf h1(1) by (simp add: tx_wf_def wf_strand_jas [of h1 "db_heap db"])
  from commit_loop [OF this] obtain h2 where c: "rust_loop commit_body (h1, tx_journal_strand tx) = returns ((h2, None), ())"
    and h2: "tas h2 = tas h1" "\<forall>j. ja_rolled_back (jas h2 j) = ja_rolled_back (jas h1 j) \<and>
      ja_transaction (jas h2 j) = ja_transaction (jas h1 j)"
    by blast
  have "post_commit B i (tx, db) = returns (tx\<lparr>tx_journal_strand := None\<rparr>, db\<lparr>db_heap := h2\<rparr>)"
    using w c by (simp add: post_commit_def Let_def)
  then have "bind_run (post_commit B i (tx, db)) (tx_drop B P) = returns (db\<lparr>db_heap := h2\<rparr>)"
    using h1 h2 by (simp add: tx_drop_def)
  then show thesis by (rule that) (use h1 h2 in auto)
qed

lemma poll_io_ok:
  assumes "tx_wf inv tx db js W E" and "poll_io P now w reread io db = (db', r)"
  shows "tx_wf inv tx db' js W E" and "jas (db_heap db') = jas (db_heap db)" and "tas (db_heap db') = tas (db_heap db)"
    and "db_sequencer db' = db_sequencer db"
proof -
  obtain p h where a: "await_io_poll P now w reread io (db_layer db, db_heap db) = ((p, h), r)"
    and db': "db' = db\<lparr>db_layer := p, db_heap := h\<rparr>"
    using assms(2) by (auto simp: poll_io_def split: prod.splits)
  have h: "jas h = jas (db_heap db)" "tas h = tas (db_heap db)"
    using a by (auto simp: await_io_poll_def Let_def split: prod.splits if_splits)
  have "inv p W E"
    using a assms(1) check_law by (auto simp: tx_wf_def await_io_poll_def Let_def split: prod.splits if_splits)
  with assms(1) h show "tx_wf inv tx db' js W E"
    by (simp add: tx_wf_def db' wf_strand_jas [of h "db_heap db"])
  from h show "jas (db_heap db') = jas (db_heap db)" "tas (db_heap db') = tas (db_heap db)"
    "db_sequencer db' = db_sequencer db"
    by (simp_all add: db')
qed

lemma generate_commit_log_record_ok:
  assumes wf: "tx_wf inv tx db js W E" and a: "tx_eot_log_buffer tx = Some a"
  obtains p where
    "generate_commit_log_record P (tx, db) =
       Done ((tx\<lparr>tx_eot_log_buffer := None\<rparr>, db\<lparr>db_sequencer := fst (seq_advance (db_sequencer db)), db_layer := p\<rparr>),
             Ok (\<lparr>io_log_buffer = a, io_deadline = None\<rparr>, seq_now (db_sequencer db) + 1))"
    and "pl_commit P a (tx_id tx) (seq_now (db_sequencer db) + 1) (db_layer db) = Done p"
    and "tx_wf inv (tx\<lparr>tx_eot_log_buffer := None\<rparr>)
      (db\<lparr>db_sequencer := fst (seq_advance (db_sequencer db)), db_layer := p\<rparr>) js W (E - {a})"
proof -
  from wf a commit_law obtain p where p: "pl_commit P a (tx_id tx) (seq_now (db_sequencer db) + 1) (db_layer db) = Done p"
    and inv: "inv p W (E - {a})"
    unfolding tx_wf_def by blast
  show thesis
  proof (rule that [OF _ p])
    show "generate_commit_log_record P (tx, db) =
       Done ((tx\<lparr>tx_eot_log_buffer := None\<rparr>, db\<lparr>db_sequencer := fst (seq_advance (db_sequencer db)), db_layer := p\<rparr>),
             Ok (\<lparr>io_log_buffer = a, io_deadline = None\<rparr>, seq_now (db_sequencer db) + 1))"
      using p by (simp add: generate_commit_log_record_def a seq_advance_def seq_now_def)
    show "tx_wf inv (tx\<lparr>tx_eot_log_buffer := None\<rparr>)
      (db\<lparr>db_sequencer := fst (seq_advance (db_sequencer db)), db_layer := p\<rparr>) js W (E - {a})"
      using wf inv by (simp add: tx_wf_def)
  qed
qed

lemma committable_poll_started:
  assumes B: "scc_bag_laws B" and wf: "tx_wf inv tx db js W E" and none: "tx_eot_log_buffer tx = None"
    and st: "ta_state (tas (db_heap db) (tx_id tx)) = Committing"
  shows "\<exists>c' db' r. committable_poll B P now w reread
      (\<lparr>ct_transaction = Some tx, ct_commit_log_io = Some (io, i)\<rparr>, db) = returns ((c', db'), r) \<and>
    poll_outcome inv tx js W db c' db' r \<and> (\<forall>i'. r = Ready (Ok i') \<longrightarrow> i' = i \<and> snd (poll_io P now w reread io db) = Ready (Ok ()))"
proof -
  obtain db1 r1 where poll: "poll_io P now w reread io db = (db1, r1)" by fastforce
  note p = poll_io_ok [OF wf poll]
  show ?thesis
  proof (cases r1)
    case Pending
    then show ?thesis
      using p poll st none by (auto simp: committable_poll_def Let_def poll_outcome_def)
  next
    case (Ready x)
    show ?thesis
    proof (cases x)
      case (Inl e)
      obtain db2 where "tx_drop B P (tx, db1) = returns db2"
        and "ta_state (tas (db_heap db2) (tx_id tx)) = RolledBack"
        and "ta_commit_instant (tas (db_heap db2) (tx_id tx)) = ta_commit_instant (tas (db_heap db1) (tx_id tx))"
        and "\<forall>j \<in> set js. ja_rolled_back (jas (db_heap db2) j)"
        by (rule tx_drop_rolls_back [OF B p(1)]) (use st p in simp)
      with Ready Inl poll p show ?thesis
        by (auto simp: committable_poll_def Let_def poll_outcome_def)
    next
      case (Inr u)
      obtain db2 where "bind_run (post_commit B i (tx, db1)) (tx_drop B P) = returns db2"
        and "ta_state (tas (db_heap db2) (tx_id tx)) = Committed"
        and "ta_commit_instant (tas (db_heap db2) (tx_id tx)) = i"
        and "\<forall>j. ja_rolled_back (jas (db_heap db2) j) = ja_rolled_back (jas (db_heap db1) j) \<and>
          ja_transaction (jas (db_heap db2) j) = ja_transaction (jas (db_heap db1) j)"
        by (rule post_commit_ok [OF B p(1)])
      with Ready Inr poll p show ?thesis
        by (auto simp: committable_poll_def Let_def poll_outcome_def bind_run_assoc)
    qed
  qed
qed

lemma committable_poll_first:
  assumes B: "scc_bag_laws B" and wf: "tx_wf inv tx db js W E"
    and st: "ta_state (tas (db_heap db) (tx_id tx)) = Committing"
  shows "\<exists>c' db' r. committable_poll B P now w reread
      (\<lparr>ct_transaction = Some tx, ct_commit_log_io = None\<rparr>, db) = returns ((c', db'), r) \<and>
    poll_outcome inv tx js W db c' db' r \<and>
    (\<forall>i. r = Ready (Ok i) \<longrightarrow> tx_durable_flush_epoch tx = 0 \<and> i = seq_now (db_sequencer db) + 1)"
proof (cases "tx_eot_log_buffer tx")
  case None
  obtain db2 where "tx_drop B P (tx, db) = returns db2"
    and "ta_state (tas (db_heap db2) (tx_id tx)) = RolledBack"
    and "ta_commit_instant (tas (db_heap db2) (tx_id tx)) = ta_commit_instant (tas (db_heap db) (tx_id tx))"
    and "\<forall>j \<in> set js. ja_rolled_back (jas (db_heap db2) j)"
    by (rule tx_drop_rolls_back [OF B wf]) (use st in simp)
  with None show ?thesis
    by (auto simp: committable_poll_def Let_def poll_outcome_def generate_commit_log_record_def)
next
  case (Some a)
  let ?tx = "tx\<lparr>tx_eot_log_buffer := None\<rparr>"
  let ?i = "seq_now (db_sequencer db) + 1"
  obtain p where g: "generate_commit_log_record P (tx, db) =
       Done ((?tx, db\<lparr>db_sequencer := fst (seq_advance (db_sequencer db)), db_layer := p\<rparr>),
             Ok (\<lparr>io_log_buffer = a, io_deadline = None\<rparr>, ?i))"
    and wf1: "tx_wf inv ?tx (db\<lparr>db_sequencer := fst (seq_advance (db_sequencer db)), db_layer := p\<rparr>) js W (E - {a})"
    by (rule generate_commit_log_record_ok [OF wf Some])
  let ?db = "db\<lparr>db_sequencer := fst (seq_advance (db_sequencer db)), db_layer := p\<rparr>"
  show ?thesis
  proof (cases "tx_durable_flush_epoch tx = 0")
    case True
    then have need: "\<not> determine_need_for_io_completion P True ?tx ?db"
      by (simp add: determine_need_for_io_completion_def)
    obtain db2 where "bind_run (post_commit B ?i (?tx, ?db)) (tx_drop B P) = returns db2"
      and "ta_state (tas (db_heap db2) (tx_id ?tx)) = Committed"
      and "ta_commit_instant (tas (db_heap db2) (tx_id ?tx)) = ?i"
      and "\<forall>j. ja_rolled_back (jas (db_heap db2) j) = ja_rolled_back (jas (db_heap ?db) j) \<and>
        ja_transaction (jas (db_heap db2) j) = ja_transaction (jas (db_heap ?db) j)"
      by (rule post_commit_ok [OF B wf1])
    with g need True show ?thesis
      by (auto simp: committable_poll_def Let_def poll_outcome_def bind_run_assoc)
  next
    case False
    then have need: "determine_need_for_io_completion P True ?tx ?db"
      by (simp add: determine_need_for_io_completion_def nonzero_def)
    have "tx_wf inv ?tx (?db\<lparr>db_heap := wake w (db_heap db)\<rparr>) js W (E - {a})"
      using wf1 by (simp add: tx_wf_def wf_strand_jas [of "wake w (db_heap db)" "db_heap db"])
    then have "poll_outcome inv tx js W db \<lparr>ct_transaction = Some ?tx,
        ct_commit_log_io = Some (\<lparr>io_log_buffer = a, io_deadline = None\<rparr>, ?i)\<rparr>
        (?db\<lparr>db_heap := wake w (db_heap db)\<rparr>) Pending"
      using st unfolding poll_outcome_def Let_def by (auto intro!: exI [of _ ?tx])
    moreover have "committable_poll B P now w reread (\<lparr>ct_transaction = Some tx, ct_commit_log_io = None\<rparr>, db) =
        returns ((\<lparr>ct_transaction = Some ?tx, ct_commit_log_io = Some (\<lparr>io_log_buffer = a, io_deadline = None\<rparr>, ?i)\<rparr>,
          ?db\<lparr>db_heap := wake w (db_heap db)\<rparr>), Pending)"
      using g need by (simp add: committable_poll_def Let_def)
    ultimately show ?thesis by blast
  qed
qed

end

end
