(* ===== verification/Transaction_Protocol.thy ===== *)
theory Transaction_Protocol
  imports Strand
begin

text \<open>
  Properties of transactions and journals over the file persistence layer: the strand of
  journals, rewinding, the outcome of a commit, what a rolled back transaction leaves behind, and
  the places where the code does less than it means to.
\<close>

section \<open>Definitions\<close>

text \<open>A database for evaluating the model, and a transaction at address \<open>16\<close> in it.\<close>

definition demo_db :: "(entry list, waker list, waker list file_io_data) db" where
  "demo_db = \<lparr>db_sequencer = default_sequencer list_queue 1, db_heap = idle_heap, db_layer = fresh_layer\<rparr>"

definition demo_tx :: transaction where
  "demo_tx = snd (transaction_new list_bag (file_io list_bag) 16 demo_db)"

definition demo :: "(entry list, waker list, waker list file_io_data) db" where
  "demo = fst (transaction_new list_bag (file_io list_bag) 16 demo_db)"

text \<open>The same with a journal at address \<open>32\<close>, and with the transaction being committed.\<close>

definition demo_journal :: "(entry list, waker list, waker list file_io_data) db" where
  "demo_journal = fst (journal_new 32 demo_tx demo)"

definition committing :: "transaction \<Rightarrow> u64 \<Rightarrow> ('q, 'b, 'p) db \<Rightarrow> ('q, 'b, 'p) db" where
  "committing tx i db = db\<lparr>db_heap := upd_ta (tx_id tx)
     (\<lambda>a. a\<lparr>ta_prepare_instant := i, ta_state := Committing\<rparr>) (db_heap db)\<rparr>"

section \<open>Lemmas\<close>

lemma demo_simps:
  "tx_id demo_tx = 16" "tx_eot_log_buffer demo_tx = Some 1" "tx_journal_strand demo_tx = None"
  "tx_durable_flush_epoch demo_tx = 0"
  "db_layer demo = fst (new_log_buffer fresh_layer)" "jas (db_heap demo) = jas idle_heap"
  "tas (db_heap demo) 16 = tx_anchor_new list_bag" "clock (db_sequencer demo) = 1"
  by (simp_all add: demo_def demo_tx_def transaction_new_def new_buffer_def file_io_def new_log_buffer_def
      demo_db_def fresh_layer_def with_path_def raf_open_def default_sequencer_def)

lemma demo_layer: "layer_inv (db_layer demo) {} {1}"
proof -
  have "lb_pos (fd_buffers (fst (new_log_buffer fresh_layer)) 1) = 0"
    by (simp add: fresh_layer_def with_path_def raf_open_def)
  then show ?thesis using fresh_layer_owned by (auto simp: layer_inv_def demo_simps)
qed

lemma demo_wf: "tx_wf layer_inv demo_tx demo [] {} {1}"
  using demo_layer by (simp add: tx_wf_def demo_simps)

lemma tx_wf_cong:
  assumes "tx_wf layer tx db js W E" and "jas (db_heap db') = jas (db_heap db)" and "db_layer db' = db_layer db"
    and "tx_id tx' = tx_id tx" and "tx_journal_strand tx' = tx_journal_strand tx"
    and "tx_eot_log_buffer tx' = tx_eot_log_buffer tx"
  shows "tx_wf layer tx' db' js W E"
  using assms by (simp add: tx_wf_def wf_strand_jas [of "db_heap db'" "db_heap db"])

lemma committing_simps [simp]:
  "jas (db_heap (committing tx i db)) = jas (db_heap db)" "db_layer (committing tx i db) = db_layer db"
  "db_sequencer (committing tx i db) = db_sequencer db"
  "tas (db_heap (committing tx i db)) = (tas (db_heap db))(tx_id tx :=
     (tas (db_heap db) (tx_id tx))\<lparr>ta_prepare_instant := i, ta_state := Committing\<rparr>)"
  by (simp_all add: committing_def)

lemma demo_committing_wf: "tx_wf layer_inv (demo_tx\<lparr>tx_durable_flush_epoch := e\<rparr>) (committing demo_tx 1 demo) [] {} {1}"
  by (rule tx_wf_cong [OF demo_wf]) simp_all

lemma commit_bytes:
  assumes "layer_inv d W E" and "a \<in> E" and "file_commit a t i d = Done d'"
  shows "buffer_bytes (fd_buffers d' a) = encode (TransactionCommitted t i)"
proof -
  from assms(1,2) have pos: "lb_pos (fd_buffers d a) = 0"
    and o: "open_buffer d a" by (auto simp: layer_inv_def dest: io_invD(2))
  then have len: "length (lb_buffer (fd_buffers d a)) = 32" and eoj: "\<not> lb_eoj_logging (fd_buffers d a)"
    by (auto simp: open_buffer_def)
  have "write_to_buffer (TransactionCommitted t i) (fd_buffers d a) =
      ((fd_buffers d a)\<lparr>lb_buffer := encode (TransactionCommitted t i) @ drop 16 (lb_buffer (fd_buffers d a))\<rparr>, Some 16)"
    using write_to_buffer_fits [of "fd_buffers d a" "TransactionCommitted t i"] len pos by simp
  with assms(3) eoj show ?thesis
    by (auto simp: file_commit_def write_and_flush_def buffer_bytes_def)
qed

section \<open>Properties\<close>

text \<open>
  C23: Submitting a journal, however often other threads change the head of the strand before it
  succeeds, returns the number of submitted journals as its instant, saturating at the largest
  32-bit number, puts it in front of the strand, and the transaction's clock is that number
  bounded by \<^verbatim>\<open>MAX_TRANSACTION_INSTANT\<close>.
\<close>

theorem submit_extends_strand:
  assumes "tx_wf layer_inv tx db js W E" and "j \<notin> set js" and "ja_transaction (jas (db_heap db) j) = tx_id tx"
    and "\<not> ja_rolled_back (jas (db_heap db) j)" and "set_option log_buffer \<subseteq> W"
  shows "\<exists>tx' db'. submit_journal (file_io B) stale_heads j log_buffer (tx, db) =
      Done ((tx', db'), of_nat (min (Suc (length js)) (2 ^ 32 - 1))) \<and>
    tx_wf layer_inv tx' db' (j # js) (W - set_option log_buffer) E \<and>
    tx_now (db_heap db') tx' = Some (min (of_nat (min (Suc (length js)) (2 ^ 32 - 1))) MAX_TRANSACTION_INSTANT)"
proof -
  obtain tx' db' where s: "submit_journal (file_io B) stale_heads j log_buffer (tx, db) =
      Done ((tx', db'), strand_instant (Suc (length js)))"
    and wf: "tx_wf layer_inv tx' db' (j # js) (W - set_option log_buffer) E"
    by (rule file_layer.submit_journal_ok [OF assms, of B stale_heads])
  from wf have "wf_strand (db_heap db') (tx_id tx') (tx_journal_strand tx') (j # js)"
    by (simp add: tx_wf_def)
  then have "tx_journal_strand tx' = Some j" and "submit_instant (jas (db_heap db') j) = Some (strand_instant (Suc (length js)))"
    by (cases "tx_journal_strand tx'"; auto simp: submit_instant_def)+
  then have "tx_now (db_heap db') tx' = Some (min (strand_instant (Suc (length js))) MAX_TRANSACTION_INSTANT)"
    by (simp add: tx_now_def)
  with s wf show ?thesis unfolding strand_instant_def by blast
qed

lemma demo_journal_wf: "tx_wf layer_inv demo_tx demo_journal [] {} {1}"
  using demo_wf by (simp add: tx_wf_def demo_simps demo_journal_def journal_new_def)

theorem submit_extends_strand_witness:
  "\<exists>tx' db'. submit_journal (file_io list_bag) [Some 7, None] 32 None (demo_tx, demo_journal) = Done ((tx', db'), 1) \<and>
     tx_now (db_heap db') tx' = Some 1"
proof -
  have "ja_transaction (jas (db_heap demo_journal) 32) = tx_id demo_tx"
    and "\<not> ja_rolled_back (jas (db_heap demo_journal) 32)"
    by (simp_all add: demo_journal_def journal_new_def anchor_new_def)
  from submit_extends_strand [OF demo_journal_wf _ this, of None list_bag "[Some 7, None]"] show ?thesis
    by (auto simp: MAX_TRANSACTION_INSTANT_def min_def)
qed

text \<open>
  C21: Rewinding a transaction terminates and keeps exactly the journals submitted no later than
  the given instant, untouched and in order; every other one is marked rolled back and taken off
  the strand; the number of journals left is returned, no transaction anchor changes, and the
  transaction can still write an end-of-transaction record unless it was rewound to the start.
\<close>

theorem rewind_exact:
  assumes "tx_wf layer_inv tx db js W E"
  shows "\<exists>tx' db' E'. tx_rewind (file_io B) instant (tx, db) =
      returns ((tx', db'), Ok (nonzero (strand_instant (length (kept_journals (db_heap db) instant js))))) \<and>
    tx_wf layer_inv tx' db' (kept_journals (db_heap db) instant js) W E' \<and>
    tas (db_heap db') = tas (db_heap db) \<and> (tx_eot_log_buffer tx' = None \<longleftrightarrow> instant = None) \<and>
    list_all (\<lambda>j. if option_le (submit_instant (jas (db_heap db) j)) instant
                  then jas (db_heap db') j = jas (db_heap db) j else is_rolled_back (db_heap db') j) js"
proof -
  let ?ks = "kept_journals (db_heap db) instant js"
  obtain tx' db' E' where "tx_rewind (file_io B) instant (tx, db) =
      returns ((tx', db'), Ok (nonzero (strand_instant (length ?ks))))"
    and "tx_wf layer_inv tx' db' ?ks W E'" and "tas (db_heap db') = tas (db_heap db)"
    and rb: "\<forall>j \<in> set js - set ?ks. jas (db_heap db') j = revoked_anchor (jas (db_heap db) j)"
    and keep: "\<forall>j. j \<notin> set js - set ?ks \<longrightarrow> jas (db_heap db') j = jas (db_heap db) j"
    and "tx_eot_log_buffer tx' = None \<longleftrightarrow> instant = None"
    by (rule file_layer.tx_rewind_ok [OF assms, of B instant])
  moreover have "list_all (\<lambda>j. if option_le (submit_instant (jas (db_heap db) j)) instant
                  then jas (db_heap db') j = jas (db_heap db) j else is_rolled_back (db_heap db') j) js"
    using rb keep by (auto simp: list_all_iff kept_journals_def is_rolled_back_def revoked_anchor_def)
  ultimately show ?thesis by (intro exI conjI)
qed

lemma demo_submitted:
  obtains tx and db :: "(entry list, waker list, waker list file_io_data) db"
  where "tx_wf layer_inv tx db [32] {} {1}" and "tx_id tx = 16"
    and "tas (db_heap db) = tas (db_heap demo)" and "tx_eot_log_buffer tx = Some 1" and "clock (db_sequencer db) = 1"
proof -
  have "ja_transaction (jas (db_heap demo_journal) 32) = tx_id demo_tx"
    and "\<not> ja_rolled_back (jas (db_heap demo_journal) 32)"
    by (simp_all add: demo_journal_def journal_new_def anchor_new_def)
  note j = this
  obtain tx and db :: "(entry list, waker list, waker list file_io_data) db"
    where "tx_wf layer_inv tx db [32] ({} - set_option (None :: nat option)) {1}" and "tx_id tx = tx_id demo_tx"
    and "tas (db_heap db) = tas (db_heap demo_journal)" and "db_sequencer db = db_sequencer demo_journal"
    and s: "submit_journal (file_io list_bag) [] 32 None (demo_tx, demo_journal) = Done ((tx, db), strand_instant (Suc (length ([] :: journal_id list))))"
    by (rule file_layer.submit_journal_ok [OF demo_journal_wf _ j, of None list_bag "[]"])
      (simp, simp, (rule that; assumption))
  moreover from s have "tx_eot_log_buffer tx = tx_eot_log_buffer demo_tx"
    by (auto simp: submit_journal_def Let_def split: prod.splits)
  ultimately show thesis by (intro that [of tx db]) (simp_all add: demo_simps demo_journal_def journal_new_def)
qed

theorem rewind_exact_witness:
  "\<exists>tx (db :: (entry list, waker list, waker list file_io_data) db) tx' db'.
     tx_wf layer_inv tx db [32] {} {1} \<and>
     tx_rewind (file_io list_bag) None (tx, db) = returns ((tx', db'), Ok None) \<and> is_rolled_back (db_heap db') 32"
proof -
  obtain tx and db :: "(entry list, waker list, waker list file_io_data) db"
    where wf: "tx_wf layer_inv tx db [32] {} {1}"
    using demo_submitted .
  then have i: "submit_instant (jas (db_heap db) 32) = Some (strand_instant 1)"
    by (cases "tx_journal_strand tx") (auto simp: tx_wf_def submit_instant_def nonzero_def)
  then have none: "kept_journals (db_heap db) None [32] = []" by (simp add: kept_journals_def)
  obtain tx' db' where "tx_rewind (file_io list_bag) None (tx, db) = returns ((tx', db'), Ok None)"
    and "is_rolled_back (db_heap db') 32"
    using rewind_exact [OF wf, of list_bag None] unfolding none by (auto simp: i)
  with wf show ?thesis by blast
qed

text \<open>
  C19: Polling a prepared transaction returns in every case: either it is committed at the
  returned instant and none of its journals is rolled back by it; or it failed, is rolled back
  and so are all its journals; or its commit record was handed to the persistence layer and the
  transaction stays as it is. A transaction that modified the database is never committed by the
  first poll, and later only if the persistence layer reported the completion of that record.
\<close>

theorem commit_poll_outcome:
  assumes "scc_bag_laws B" and "tx_wf layer_inv tx db js W E"
    and "ta_state (tas (db_heap db) (tx_id tx)) = Committing"
    and "commit_log_io \<noteq> None \<longrightarrow> tx_eot_log_buffer tx = None"
  shows "\<exists>c' db' r. committable_poll B (file_io B') now w reread
      (\<lparr>ct_transaction = Some tx, ct_commit_log_io = commit_log_io\<rparr>, db) = returns ((c', db'), r) \<and>
    poll_outcome layer_inv tx js W db c' db' r \<and>
    (\<forall>i. r = Ready (Ok i) \<longrightarrow>
       (case commit_log_io of
          None \<Rightarrow> tx_durable_flush_epoch tx = 0 \<and> i = seq_now (db_sequencer db) + 1
        | Some (io, instant) \<Rightarrow> i = instant \<and> snd (poll_io (file_io B') now w reread io db) = Ready (Ok ())))"
proof (cases commit_log_io)
  case None
  with file_layer.committable_poll_first [OF assms(1-3)] show ?thesis by simp
next
  case (Some x)
  obtain io i where x: "x = (io, i)" by fastforce
  with Some assms(4) have "tx_eot_log_buffer tx = None" by simp
  from file_layer.committable_poll_started [OF assms(1,2) this assms(3)] Some x show ?thesis by simp
qed

theorem commit_poll_outcome_witness:
  "\<exists>c' db' r. committable_poll list_bag (file_io list_bag) 0 9 None
      (\<lparr>ct_transaction = Some (demo_tx\<lparr>tx_durable_flush_epoch := 0\<rparr>), ct_commit_log_io = None\<rparr>, committing demo_tx 1 demo) =
      returns ((c', db'), r) \<and>
    poll_outcome layer_inv (demo_tx\<lparr>tx_durable_flush_epoch := 0\<rparr>) [] {} (committing demo_tx 1 demo) c' db' r"
proof -
  have "ta_state (tas (db_heap (committing demo_tx 1 demo)) (tx_id (demo_tx\<lparr>tx_durable_flush_epoch := 0\<rparr>))) = Committing"
    by simp
  from commit_poll_outcome [OF list_bag_laws demo_committing_wf this, of None] show ?thesis by blast
qed

text \<open>
  C22: Dropping a transaction that was not committed, prepared or not, returns, leaves it rolled
  back with all its journals, and no database snapshot sees a change of any of them.
\<close>

theorem drop_rolls_back:
  assumes "scc_bag_laws B" and "tx_wf layer_inv tx db js W E"
    and "ta_state (tas (db_heap db) (tx_id tx)) = Active \<or> ta_state (tas (db_heap db) (tx_id tx)) = Committing"
  shows "\<exists>db'. tx_drop B (file_io B') (tx, db) = returns db' \<and>
    ta_state (tas (db_heap db') (tx_id tx)) = RolledBack \<and>
    list_all (\<lambda>j. is_rolled_back (db_heap db') j \<and> (\<forall>i. \<not> committed_by (db_heap db') j i)) js"
proof -
  obtain db' where "tx_drop B (file_io B') (tx, db) = returns db'"
    and "ta_state (tas (db_heap db') (tx_id tx)) = RolledBack"
    and "\<forall>j \<in> set js. ja_rolled_back (jas (db_heap db') j)"
    by (rule file_layer.tx_drop_rolls_back [OF assms, of B'])
  then show ?thesis by (auto simp: list_all_iff is_rolled_back_def committed_by_def)
qed

theorem drop_rolls_back_witness:
  "\<exists>tx (db :: (entry list, waker list, waker list file_io_data) db) db'.
     tx_wf layer_inv tx db [32] {} {1} \<and> tx_drop list_bag (file_io list_bag) (tx, db) = returns db' \<and>
     is_rolled_back (db_heap db') 32"
proof -
  obtain tx and db :: "(entry list, waker list, waker list file_io_data) db"
    where wf: "tx_wf layer_inv tx db [32] {} {1}" and "tx_id tx = 16"
    and "tas (db_heap db) = tas (db_heap demo)"
    using demo_submitted .
  then have "ta_state (tas (db_heap db) (tx_id tx)) = Active \<or> ta_state (tas (db_heap db) (tx_id tx)) = Committing"
    by (simp add: demo_simps tx_anchor_new_def)
  from drop_rolls_back [OF list_bag_laws wf this, of list_bag] wf show ?thesis by auto
qed

lemma strand_members:
  "wf_strand h t head js \<Longrightarrow> j \<in> set js \<Longrightarrow> ja_transaction (jas h j) = t \<and> \<not> is_rolled_back h j"
  by (induction h t head js rule: wf_strand.induct) (auto simp: is_rolled_back_def)

text \<open>
  C20: Once a transaction was committed at an instant, a database snapshot sees the changes of every
  submitted journal exactly if it is not older than that instant, and it learns so without waiting.
  The changes of a journal of the transaction that was not submitted are seen on the same terms,
  unless the journal had been rolled back before the commit; the commit rolls back none.
\<close>

theorem commit_visibility:
  assumes "scc_bag_laws B" and "tx_wf layer_inv tx db js W E"
    and "ta_state (tas (db_heap db) (tx_id tx)) = Committing"
    and "commit_log_io \<noteq> None \<longrightarrow> tx_eot_log_buffer tx = None"
    and poll: "committable_poll B (file_io B') now w reread
      (\<lparr>ct_transaction = Some tx, ct_commit_log_io = commit_log_io\<rparr>, db) = returns ((c', db'), Ready (Ok i))"
    and "i \<noteq> 0" and "is_database_snapshot snapshot"
  shows "list_all (\<lambda>j. grant_read_access (db_heap db') j snapshot deadline = Inr (i \<le> database_snapshot snapshot)) js \<and>
    (ja_transaction (jas (db_heap db) k) = tx_id tx \<longrightarrow>
       grant_read_access (db_heap db') k snapshot deadline =
         Inr (i \<le> database_snapshot snapshot \<and> \<not> is_rolled_back (db_heap db) k))"
proof -
  have out: "poll_outcome layer_inv tx js W db c' db' (Ready (Ok i))"
  proof (cases commit_log_io)
    case None
    with file_layer.committable_poll_first [OF assms(1-3), of B' now w reread] poll show ?thesis by auto
  next
    case (Some x)
    obtain io k where x: "x = (io, k)" by fastforce
    with Some assms(4) have "tx_eot_log_buffer tx = None" by simp
    from file_layer.committable_poll_started [OF assms(1,2) this assms(3), of B' now w reread io k] Some x poll
    show ?thesis by auto
  qed
  have read: "grant_read_access (db_heap db') j snapshot deadline =
      Inr (i \<le> database_snapshot snapshot \<and> \<not> is_rolled_back (db_heap db) j)"
    if j: "ja_transaction (jas (db_heap db) j) = tx_id tx" for j
  proof -
    from out j have "eot_instant (tas (db_heap db') (ja_transaction (jas (db_heap db') j))) = Some i"
      and "is_rolled_back (db_heap db') j = is_rolled_back (db_heap db) j"
      by (simp_all add: poll_outcome_def Let_def eot_instant_cases is_rolled_back_def)
    with assms(6) show ?thesis
      by (auto simp: grant_read_access_database [OF assms(7)] committed_by_def ja_eot_instant_def)
  qed
  have "grant_read_access (db_heap db') j snapshot deadline = Inr (i \<le> database_snapshot snapshot)" if "j \<in> set js" for j
    using read [of j] strand_members [of "db_heap db" "tx_id tx" "tx_journal_strand tx" js j] that assms(2)
    by (simp add: tx_wf_def)
  with read show ?thesis by (simp add: list_all_iff)
qed

lemma first_poll_commits:
  assumes B: "scc_bag_laws B" and wf: "tx_wf layer_inv tx db js W E" and a: "tx_eot_log_buffer tx = Some a"
    and e: "tx_durable_flush_epoch tx = 0"
  shows "\<exists>c' db'. committable_poll B (file_io B') now w reread (\<lparr>ct_transaction = Some tx, ct_commit_log_io = None\<rparr>, db) =
      returns ((c', db'), Ready (Ok (seq_now (db_sequencer db) + 1)))"
proof -
  let ?tx = "tx\<lparr>tx_eot_log_buffer := None\<rparr>" and ?i = "seq_now (db_sequencer db) + 1"
  obtain p where g: "generate_commit_log_record (file_io B') (tx, db) =
       Done ((?tx, db\<lparr>db_sequencer := fst (seq_advance (db_sequencer db)), db_layer := p\<rparr>),
             Ok (\<lparr>io_log_buffer = a, io_deadline = None\<rparr>, ?i))"
    and wf1: "tx_wf layer_inv ?tx (db\<lparr>db_sequencer := fst (seq_advance (db_sequencer db)), db_layer := p\<rparr>) js W (E - {a})"
    by (rule file_layer.generate_commit_log_record_ok [OF wf a, of B'])
  obtain db2 where "bind_run (post_commit B ?i (?tx, db\<lparr>db_sequencer := fst (seq_advance (db_sequencer db)), db_layer := p\<rparr>))
      (tx_drop B (file_io B')) = returns db2"
    by (rule file_layer.post_commit_ok [OF B wf1])
  with g e have "committable_poll B (file_io B') now w reread (\<lparr>ct_transaction = Some tx, ct_commit_log_io = None\<rparr>, db) =
      returns ((\<lparr>ct_transaction = None, ct_commit_log_io = None\<rparr>, db2), Ready (Ok ?i))"
    by (simp add: committable_poll_def Let_def determine_need_for_io_completion_def bind_run_assoc)
  then show ?thesis by blast
qed

definition snapshot_nine :: snapshot where
  "snapshot_nine = \<lparr>snap_tracker = Some \<lparr>e_addr = 0, e_instant = 9\<rparr>, snap_transaction = None, snap_journal = None,
     snap_task_processor = 0\<rparr>"

text \<open>A transaction with a submitted journal is committed, and the journal becomes visible.\<close>

theorem commit_visibility_witness:
  "\<exists>tx (db :: (entry list, waker list, waker list file_io_data) db) c' db'.
     tx_wf layer_inv tx db [32] {} {1} \<and>
     committable_poll list_bag (file_io list_bag) 0 9 None (\<lparr>ct_transaction = Some tx, ct_commit_log_io = None\<rparr>, db) =
       returns ((c', db'), Ready (Ok 2)) \<and>
     grant_read_access (db_heap db') 32 snapshot_nine None = Inr True"
proof -
  obtain tx and db :: "(entry list, waker list, waker list file_io_data) db"
    where wf: "tx_wf layer_inv tx db [32] {} {1}" and "tx_eot_log_buffer tx = Some 1" "clock (db_sequencer db) = 1"
    using demo_submitted .
  let ?tx = "tx\<lparr>tx_durable_flush_epoch := 0\<rparr>" and ?db = "committing tx 1 db"
  have wf': "tx_wf layer_inv ?tx ?db [32] {} {1}" by (rule tx_wf_cong [OF wf]) simp_all
  obtain c' db' where p: "committable_poll list_bag (file_io list_bag) 0 9 None
      (\<lparr>ct_transaction = Some ?tx, ct_commit_log_io = None\<rparr>, ?db) = returns ((c', db'), Ready (Ok 2))"
    using first_poll_commits [OF list_bag_laws wf', of 1 list_bag 0 9 None] \<open>tx_eot_log_buffer tx = Some 1\<close>
      \<open>clock (db_sequencer db) = 1\<close> by (auto simp: seq_now_def)
  have "is_database_snapshot snapshot_nine" "database_snapshot snapshot_nine = 9"
    by (simp_all add: snapshot_nine_def is_database_snapshot_def database_snapshot_def to_instant_def)
  with commit_visibility [OF list_bag_laws wf' _ _ p, of snapshot_nine None 32]
  have "grant_read_access (db_heap db') 32 snapshot_nine None = Inr True" by (simp add: word_le_nat_alt)
  with wf' p show ?thesis by blast
qed

section \<open>Where the code falls short\<close>

text \<open>
  Rewinding resets the submit instant of the journals it rolls back to one, so a snapshot of
  the rewound transaction sees their changes as soon as one journal is left or submitted again.
\<close>

theorem rewound_journal_visible:
  assumes "tx_wf layer_inv tx db js W E" and "j \<in> set js" and "\<not> option_le (submit_instant (jas (db_heap db) j)) instant"
    and "kept_journals (db_heap db) instant js \<noteq> []"
    and "tx_rewind (file_io B) instant (tx, db) = returns ((tx', db'), r)"
  shows "is_rolled_back (db_heap db') j \<and>
    grant_read_access (db_heap db') j (tx_snapshot tp (db_heap db') tx') deadline = Inr True"
proof -
  let ?ks = "kept_journals (db_heap db) instant js"
  obtain tx1 db1 E1 where "tx_rewind (file_io B) instant (tx, db) =
      returns ((tx1, db1), Ok (nonzero (strand_instant (length ?ks))))"
    and "tx_wf layer_inv tx1 db1 ?ks W E1" and "tx_id tx1 = tx_id tx"
    and "\<forall>j \<in> set js - set ?ks. jas (db_heap db1) j = revoked_anchor (jas (db_heap db) j)"
    by (rule file_layer.tx_rewind_ok [OF assms(1), of B instant])
  with assms(5) have wf: "tx_wf layer_inv tx' db' ?ks W E1" and t: "tx_id tx' = tx_id tx"
    and rb: "\<forall>j \<in> set js - set ?ks. jas (db_heap db') j = revoked_anchor (jas (db_heap db) j)"
    by auto
  have "jas (db_heap db') j = revoked_anchor (jas (db_heap db) j)"
    using rb assms(2,3) by (simp add: kept_journals_def)
  moreover have "ja_transaction (jas (db_heap db) j) = tx_id tx"
    using wf_strand_transaction assms(1,2) by (auto simp: tx_wf_def)
  ultimately have j: "is_rolled_back (db_heap db') j" "ja_submit_instant (jas (db_heap db') j) = 1"
    "ja_transaction (jas (db_heap db') j) = tx_id tx"
    by (simp_all add: is_rolled_back_def revoked_anchor_def)
  obtain k ks where ks: "?ks = k # ks" using assms(4) by (cases ?ks) auto
  with wf have "tx_now (db_heap db') tx' = Some (min (strand_instant (Suc (length ks))) MAX_TRANSACTION_INSTANT)"
    by (cases "tx_journal_strand tx'") (auto simp: tx_wf_def tx_now_def submit_instant_def)
  moreover have "1 \<le> strand_instant (Suc (length ks))"
    using strand_instant_mono [of 1 "Suc (length ks)"] by (simp add: strand_instant_def)
  ultimately have "option_le (Some 1) (tx_now (db_heap db') tx')"
    by (simp add: MAX_TRANSACTION_INSTANT_def)
  then show ?thesis
    using j t by (simp add: grant_read_access_def Let_def tx_snapshot_def from_transaction_def
        submit_instant_def transaction_snapshot_le_def nonzero_def)
qed

lemma demo_two_journals:
  obtains tx and db :: "(entry list, waker list, waker list file_io_data) db"
  where "tx_wf layer_inv tx db [48, 32] {} {1}"
proof -
  obtain tx and db :: "(entry list, waker list, waker list file_io_data) db"
    where wf: "tx_wf layer_inv tx db [32] {} {1}" using demo_submitted .
  let ?db = "fst (journal_new 48 tx db)"
  have "tx_wf layer_inv tx ?db [32] {} {1}"
    using wf unfolding tx_wf_def journal_new_def by (simp, subst wf_strand_cong [of _ _ "db_heap db"]) auto
  moreover have "ja_transaction (jas (db_heap ?db) 48) = tx_id tx" and "\<not> ja_rolled_back (jas (db_heap ?db) 48)"
    by (simp_all add: journal_new_def anchor_new_def)
  ultimately obtain tx' and db' :: "(entry list, waker list, waker list file_io_data) db"
    where "tx_wf layer_inv tx' db' [48, 32] ({} - set_option (None :: nat option)) {1}"
    using file_layer.submit_journal_ok [of tx ?db "[32]" "{}" "{1}" 48 None list_bag "[]" thesis] by simp
  then show thesis by (intro that [of tx' db']) simp
qed

theorem rewound_journal_visible_witness:
  "\<exists>tx (db :: (entry list, waker list, waker list file_io_data) db) tx' db' r.
     tx_rewind (file_io list_bag) (Some 1) (tx, db) = returns ((tx', db'), r) \<and>
     is_rolled_back (db_heap db') 48 \<and>
     grant_read_access (db_heap db') 48 (tx_snapshot 0 (db_heap db') tx') None = Inr True"
proof -
  obtain tx and db :: "(entry list, waker list, waker list file_io_data) db"
    where wf: "tx_wf layer_inv tx db [48, 32] {} {1}" using demo_two_journals .
  then have i: "submit_instant (jas (db_heap db) 48) = Some 2" "submit_instant (jas (db_heap db) 32) = Some 1"
    by (cases "tx_journal_strand tx"; cases "ja_next (jas (db_heap db) 48)";
        auto simp: tx_wf_def submit_instant_def strand_instant_def)+
  have kept: "kept_journals (db_heap db) (Some 1) [48, 32] = [32]"
    by (simp add: kept_journals_def i word_le_nat_alt)
  obtain tx' db' r where r: "tx_rewind (file_io list_bag) (Some 1) (tx, db) = returns ((tx', db'), r)"
    using file_layer.tx_rewind_ok [OF wf, of list_bag "Some 1"] by metis
  have "is_rolled_back (db_heap db') 48 \<and>
      grant_read_access (db_heap db') 48 (tx_snapshot 0 (db_heap db') tx') None = Inr True"
    by (rule rewound_journal_visible [OF wf _ _ _ r]) (simp_all add: kept i word_le_nat_alt)
  with r show ?thesis by blast
qed

text \<open>
  C38: A committable transaction that modified the database (its durable epoch is set) and is dropped
  after its first poll is rolled back in memory although its commit record is on its way to the log:
  the buffer that holds the record, and nothing else, is the latest one in the list the I/O thread
  will write, and dropping the transaction changes nothing in the layer: no other record follows.
\<close>

theorem dropped_commit_stays_logged:
  assumes "scc_bag_laws B" and wf: "tx_wf layer_inv tx db js W E" and a: "tx_eot_log_buffer tx = Some a"
    and st: "ta_state (tas (db_heap db) (tx_id tx)) = Committing" and mod: "tx_durable_flush_epoch tx \<noteq> 0"
  shows "\<exists>c db1 db2. committable_poll B (file_io B') now w reread
      (\<lparr>ct_transaction = Some tx, ct_commit_log_io = None\<rparr>, db) = returns ((c, db1), Pending) \<and>
    committable_drop B (file_io B') (c, db1) = returns db2 \<and>
    ta_state (tas (db_heap db2) (tx_id tx)) = RolledBack \<and> db_layer db2 = db_layer db1 \<and>
    (\<exists>off xs. io_inv (db_layer db2) off (W \<union> E - {a}) (a # xs)) \<and>
    buffer_bytes (fd_buffers (db_layer db2) a) =
      encode (TransactionCommitted (tx_id tx) (seq_now (db_sequencer db) + 1))"
proof -
  let ?i = "seq_now (db_sequencer db) + 1"
  let ?tx = "tx\<lparr>tx_eot_log_buffer := None\<rparr>"
  obtain p where g: "generate_commit_log_record (file_io B') (tx, db) =
       Done ((?tx, db\<lparr>db_sequencer := fst (seq_advance (db_sequencer db)), db_layer := p\<rparr>),
             Ok (\<lparr>io_log_buffer = a, io_deadline = None\<rparr>, ?i))"
    and p: "pl_commit (file_io B') a (tx_id tx) ?i (db_layer db) = Done p"
    and wf1: "tx_wf layer_inv ?tx (db\<lparr>db_sequencer := fst (seq_advance (db_sequencer db)), db_layer := p\<rparr>) js W (E - {a})"
    by (rule file_layer.generate_commit_log_record_ok [OF wf a, of B'])
  let ?db = "db\<lparr>db_sequencer := fst (seq_advance (db_sequencer db)), db_layer := p\<rparr>"
  let ?db1 = "?db\<lparr>db_heap := wake w (db_heap db)\<rparr>"
  let ?c = "\<lparr>ct_transaction = Some ?tx, ct_commit_log_io = Some (\<lparr>io_log_buffer = a, io_deadline = None\<rparr>, ?i)\<rparr>"
  have "determine_need_for_io_completion (file_io B') True ?tx ?db"
    using mod by (simp add: determine_need_for_io_completion_def nonzero_def)
  with g have 1: "committable_poll B (file_io B') now w reread (\<lparr>ct_transaction = Some tx, ct_commit_log_io = None\<rparr>, db) =
      returns ((?c, ?db1), Pending)"
    by (simp add: committable_poll_def Let_def)
  have wf2: "tx_wf layer_inv ?tx ?db1 js W (E - {a})" by (rule tx_wf_cong [OF wf1]) simp_all
  have st2: "ta_state (tas (db_heap ?db1) (tx_id ?tx)) = Active \<or> ta_state (tas (db_heap ?db1) (tx_id ?tx)) = Committing"
    using st by simp
  obtain db2 where "tx_drop B (file_io B') (?tx, ?db1) = returns db2"
    and "ta_state (tas (db_heap db2) (tx_id ?tx)) = RolledBack"
    and "tx_eot_log_buffer ?tx = None \<longrightarrow> db_layer db2 = db_layer ?db1"
    by (rule file_layer.tx_drop_rolls_back [OF assms(1) wf2 st2])
  moreover have "buffer_bytes (fd_buffers p a) = encode (TransactionCommitted (tx_id tx) ?i)"
    using commit_bytes [of "db_layer db" W E a "tx_id tx" ?i p] wf a p by (auto simp: tx_wf_def file_io_def)
  moreover have "\<exists>off xs. io_inv p off (W \<union> E - {a}) (a # xs)"
  proof -
    obtain off xs where "io_inv (db_layer db) off (W \<union> E) xs" "a \<in> W \<union> E"
      using wf a by (auto simp: tx_wf_def layer_inv_def)
    from write_and_flush_ok [OF this] p show ?thesis by (auto simp: file_io_def file_commit_def)
  qed
  ultimately show ?thesis
    using 1 by (intro exI [of _ ?c] exI [of _ ?db1] exI [of _ db2]) (simp add: committable_drop_def)
qed

theorem dropped_commit_stays_logged_witness:
  "\<exists>c db1 db2. committable_poll list_bag (file_io list_bag) 0 9 None
      (\<lparr>ct_transaction = Some (demo_tx\<lparr>tx_durable_flush_epoch := 2\<rparr>), ct_commit_log_io = None\<rparr>,
       committing demo_tx 1 demo) = returns ((c, db1), Pending) \<and>
    committable_drop list_bag (file_io list_bag) (c, db1) = returns db2 \<and>
    ta_state (tas (db_heap db2) 16) = RolledBack \<and> fd_log_buffer_link (db_layer db2) = 1 \<and>
    buffer_bytes (fd_buffers (db_layer db2) 1) = encode (TransactionCommitted 16 2)"
proof -
  let ?tx = "demo_tx\<lparr>tx_durable_flush_epoch := 2\<rparr>"
  have "tx_eot_log_buffer ?tx = Some 1" and "tx_durable_flush_epoch ?tx \<noteq> 0"
    and "ta_state (tas (db_heap (committing demo_tx 1 demo)) (tx_id ?tx)) = Committing"
    by (simp_all add: demo_simps)
  from dropped_commit_stays_logged [OF list_bag_laws demo_committing_wf this(1,3,2), of list_bag 0 9 None]
  show ?thesis by (auto simp: demo_simps seq_now_def dest: io_invD(3))
qed

text \<open>
  A reader that starts to wait for a transaction between the moment its rollback woke up the
  readers and the moment the rollback is complete is left in the bag of waiting readers after the
  transaction has ended: the rollback does not wake it up.
\<close>

theorem rollback_strands_reader:
  assumes "scc_bag_laws B" and wf: "tx_wf layer_inv tx db js W E"
    and w: "wake_readers B tx (set_state tx RollingBack db) = returns db1"
    and r: "await_eot_poll B now reader a (db_heap db1) = returns (h, Pending)" and "ae_transaction a = tx_id tx"
  shows "\<exists>tx' db2 result. tx_rewind (file_io B') None (tx, db1\<lparr>db_heap := h\<rparr>) = returns ((tx', db2), result) \<and>
    eot_instant (tas (db_heap (set_state tx' RolledBack db2)) (tx_id tx)) \<noteq> None \<and>
    reader \<in># bag_content B (waiting_readers (tas (db_heap (set_state tx' RolledBack db2)) (tx_id tx)))"
proof -
  obtain h1 where h1: "wake_readers B tx (set_state tx RollingBack db) = returns ((set_state tx RollingBack db)\<lparr>db_heap := h1\<rparr>)"
    "jas h1 = jas (db_heap (set_state tx RollingBack db))"
    by (rule wake_readers_ok [OF assms(1), of tx "set_state tx RollingBack db"]) (rule that; assumption)
  with w have db1: "db1 = (set_state tx RollingBack db)\<lparr>db_heap := h1\<rparr>" by simp
  have h: "jas h = jas h1" "reader \<in># bag_content B (waiting_readers (tas h (tx_id tx)))"
    using r assms(1,5) by (auto simp: db1 await_eot_poll_def wait_eot_def Let_def scc_bag_laws_def send_task_def
        split: if_splits option.splits)
  have "tx_wf layer_inv tx (db1\<lparr>db_heap := h\<rparr>) js W E"
    by (rule tx_wf_cong [OF wf]) (simp_all add: h(1) h1(2) db1)
  then obtain tx' db2 E' res where "tx_rewind (file_io B') None (tx, db1\<lparr>db_heap := h\<rparr>) = returns ((tx', db2), res)"
    and "tx_id tx' = tx_id tx" and "tas (db_heap db2) = tas h"
    using file_layer.tx_rewind_ok [of tx "db1\<lparr>db_heap := h\<rparr>" js W E B' None thesis] by auto
  with h(2) show ?thesis by (auto simp: eot_instant_cases intro!: exI [of _ tx'] exI [of _ db2])
qed

lemma demo_rolling_back:
  obtains db1 h where "wake_readers list_bag demo_tx (set_state demo_tx RollingBack demo) = returns db1"
    and "await_eot_poll list_bag 0 7 \<lparr>ae_transaction = 16, ae_task_processor = 0, ae_deadline = 5\<rparr> (db_heap db1) =
      returns (h, Pending)"
proof -
  obtain h1 where w: "wake_readers list_bag demo_tx (set_state demo_tx RollingBack demo) =
      returns ((set_state demo_tx RollingBack demo)\<lparr>db_heap := h1\<rparr>)"
    and "\<And>t. ta_state (tas h1 t) = ta_state (tas (db_heap (set_state demo_tx RollingBack demo)) t)"
    by (rule wake_readers_ok [OF list_bag_laws, of demo_tx "set_state demo_tx RollingBack demo"])
      (rule that; assumption)
  then have "ta_state (tas h1 16) = RollingBack" by (simp add: demo_simps)
  then have "eot_instant (tas h1 16) = None" by (simp add: eot_instant_cases)
  then have "\<exists>h. await_eot_poll list_bag 0 7 \<lparr>ae_transaction = 16, ae_task_processor = 0, ae_deadline = 5\<rparr> h1 =
      returns (h, Pending)"
    by (cases "length (channel h1) < channel_capacity h1")
      (auto simp: await_eot_poll_def wait_eot_def Let_def eot_instant_def send_task_def split: if_splits)
  then obtain h where "await_eot_poll list_bag 0 7 \<lparr>ae_transaction = 16, ae_task_processor = 0, ae_deadline = 5\<rparr> h1 =
      returns (h, Pending)" ..
  with w show thesis by (intro that [of "(set_state demo_tx RollingBack demo)\<lparr>db_heap := h1\<rparr>" h]) simp_all
qed

theorem rollback_strands_reader_witness:
  "\<exists>db1 h tx' db2 result.
     wake_readers list_bag demo_tx (set_state demo_tx RollingBack demo) = returns db1 \<and>
     await_eot_poll list_bag 0 7 \<lparr>ae_transaction = 16, ae_task_processor = 0, ae_deadline = 5\<rparr> (db_heap db1) =
       returns (h, Pending) \<and>
     tx_rewind (file_io list_bag) None (demo_tx, db1\<lparr>db_heap := h\<rparr>) = returns ((tx', db2), result) \<and>
     7 \<in># bag_content list_bag (waiting_readers (tas (db_heap (set_state tx' RolledBack db2)) 16))"
proof -
  obtain db1 h where w: "wake_readers list_bag demo_tx (set_state demo_tx RollingBack demo) = returns db1"
    and r: "await_eot_poll list_bag 0 7 \<lparr>ae_transaction = 16, ae_task_processor = 0, ae_deadline = 5\<rparr> (db_heap db1) =
      returns (h, Pending)"
    by (rule demo_rolling_back)
  have "ae_transaction \<lparr>ae_transaction = 16, ae_task_processor = 0, ae_deadline = 5\<rparr> = tx_id demo_tx"
    by (simp add: demo_simps)
  from rollback_strands_reader [OF list_bag_laws demo_wf w r this, of list_bag] w r show ?thesis
    unfolding demo_simps by blast
qed

text \<open>
  While a commit whose instant is already taken waits for its record to be written, a
  database snapshot of that instant reads an object of the transaction without a deadline as not
  changed; after the commit the same snapshot reads it as changed.
\<close>

theorem late_commit_unrepeatable:
  assumes "ta_state (tas h (ja_transaction (jas h j))) = Committing" and "is_database_snapshot snapshot"
    and "i \<noteq> 0" and "i \<le> database_snapshot snapshot" and "\<not> is_rolled_back h j"
    and "h' = upd_ta (ja_transaction (jas h j)) (\<lambda>a. a\<lparr>ta_commit_instant := i, ta_state := Committed\<rparr>) h"
  shows "grant_read_access h j snapshot None = Inr False \<and> grant_read_access h' j snapshot None = Inr True"
  using assms
  by (auto simp: grant_read_access_database [OF assms(2)] eot_instant_cases committed_by_def
      ja_eot_instant_def is_rolled_back_def Let_def)

theorem late_commit_unrepeatable_witness:
  "grant_read_access (upd_ta 1 (\<lambda>a. a\<lparr>ta_prepare_instant := 1, ta_state := Committing\<rparr>) idle_heap) 1
      \<lparr>snap_tracker = Some \<lparr>e_addr = 0, e_instant = 2\<rparr>, snap_transaction = None, snap_journal = None,
       snap_task_processor = 0\<rparr> None = Inr False"
  using late_commit_unrepeatable [of "upd_ta 1 (\<lambda>a. a\<lparr>ta_prepare_instant := 1, ta_state := Committing\<rparr>) idle_heap" 1
      "\<lparr>snap_tracker = Some \<lparr>e_addr = 0, e_instant = 2\<rparr>, snap_transaction = None, snap_journal = None,
       snap_task_processor = 0\<rparr>" 2]
  by (simp add: is_database_snapshot_def database_snapshot_def to_instant_def idle_heap_def anchor_new_def is_rolled_back_def)

end
