(* ===== verification/Journal_Access.thy ===== *)
theory Journal_Access
  imports Access_Awaits Durability Transaction_Protocol
begin

text \<open>
  Journals on top of the access controller and the file persistence layer: what a poll of
  \<^verbatim>\<open>Journal::create\<close> or \<^verbatim>\<open>Journal::delete\<close> (\<^verbatim>\<open>src/src/journal.rs\<close>) does to both.
\<close>

section \<open>Logging what was acquired\<close>

text \<open>
  From buffer \<open>a\<close> on, the journal has logged exactly \<open>object_ids\<close>, in this order, as created or
  deleted by it; buffers of others did not change.
\<close>

definition logged ::
  "bool \<Rightarrow> transaction_id \<Rightarrow> journal_id \<Rightarrow> object_id list \<Rightarrow> u64 \<Rightarrow> nat set \<Rightarrow> nat list \<Rightarrow>
     'c file_io_data \<times> nat \<Rightarrow> 'c file_io_data \<times> nat \<Rightarrow> bool" where
  "logged created t j object_ids off owned xs = (\<lambda>(d, a) (d', a'). \<exists>ys rs.
     io_inv d' off (insert a' (owned - {a})) (ys @ xs) \<and>
     stream d' ys a' = written d a @ concat (map encode rs) \<and>
     concat (map expand rs) = object_ids \<and> list_all valid_record rs \<and>
     list_all (\<lambda>r. journal_of r = Some (created, t, j)) rs \<and>
     (\<forall>x. x < fd_next_buffer d \<longrightarrow> x \<noteq> a \<longrightarrow> fd_buffers d' x = fd_buffers d x))"

lemma log_objects_logged:
  assumes "io_inv d off owned xs" "a \<in> owned" "\<And>oid. expand (single oid) = [oid]"
    and "\<And>oid. valid_record (single oid) \<and> journal_of (single oid) = Some (created, t, j)"
    and "\<And>oid log log'. ext oid log = Some log' \<Longrightarrow> expand log' = expand log @ [oid]"
    and "\<And>oid log log'. ext oid log = Some log' \<Longrightarrow> valid_record log' \<and> journal_of log' = Some (created, t, j)"
  shows "\<exists>d' a'. log_objects ext single None object_ids (d, a) = Done (d', a') \<and>
    logged created t j object_ids off owned xs (d, a) (d', a')"
proof -
  let ?Q = "\<lambda>r. valid_record r \<and> journal_of r = Some (created, t, j)"
  have Q: "list_all ?Q rs \<longleftrightarrow> list_all valid_record rs \<and> list_all (\<lambda>r. journal_of r = Some (created, t, j)) rs" for rs
    by (auto simp: list_all_iff)
  have "\<exists>d' a' ys rs. log_objects ext single None object_ids (d, a) = Done (d', a') \<and>
    io_inv d' off (insert a' (owned - {a})) (ys @ xs) \<and>
    stream d' ys a' = written d a @ concat (map encode rs) \<and> concat (map expand rs) = object_ids \<and> list_all ?Q rs \<and>
    (\<forall>x. x < fd_next_buffer d \<longrightarrow> x \<noteq> a \<longrightarrow> fd_buffers d' x = fd_buffers d x)"
    by (rule log_objects_stream) (rule assms; assumption?)+
  then show ?thesis unfolding logged_def prod.case Q by blast
qed

lemma file_create_logged:
  assumes "io_inv d off owned xs" "a \<in> owned" "t AND OPCODE_MASK = 0" "j AND OPCODE_MASK = 0"
  shows "\<exists>d' a'. file_create a t j object_ids d = Done (d', Ok a') \<and> logged True t j object_ids off owned xs (d, a) (d', a')"
proof -
  have "\<exists>d' a'. log_objects (extend_created t j) (JournalCreatedObjectSingle t j) None object_ids (d, a) = Done (d', a') \<and>
      logged True t j object_ids off owned xs (d, a) (d', a')"
    using assms(3,4) by (intro log_objects_logged [OF assms(1,2)] extend_created_expand)
      (auto simp: extend_created_def split: log_record.splits option.splits if_splits)
  then show ?thesis by (auto simp: file_create_def)
qed

lemma file_delete_logged:
  assumes "io_inv d off owned xs" "a \<in> owned" "t AND OPCODE_MASK = 0" "j AND OPCODE_MASK = 0"
  shows "\<exists>d' a'. file_delete a t j object_ids d = Done (d', Ok a') \<and> logged False t j object_ids off owned xs (d, a) (d', a')"
proof -
  have "\<exists>d' a'. log_objects (extend_deleted t j) (JournalDeletedObjectSingle t j) None object_ids (d, a) = Done (d', a') \<and>
      logged False t j object_ids off owned xs (d, a) (d', a')"
    using assms(3,4) by (intro log_objects_logged [OF assms(1,2)] extend_deleted_expand)
      (auto simp: extend_deleted_def split: log_record.splits option.splits if_splits)
  then show ?thesis by (auto simp: file_delete_def)
qed

section \<open>Polling an operation of a journal\<close>

text \<open>
  The invariant of the future: the journal belongs to the running transaction, the objects before
  those still pending are held, and a response is awaited for the first one pending.
\<close>

definition op_inv ::
  "'t object_map \<Rightarrow> journal_id set \<Rightarrow> transaction \<Rightarrow> object_id list \<Rightarrow> ('q, 'b, 'p, 't) journal_op \<Rightarrow> bool" where
  "op_inv T A tx object_ids s \<longleftrightarrow>
     (let h = db_heap (op_db s); tbl = op_table s; j = jn_id (op_journal s) in
      ac_inv T (A, h, tbl) \<and> bounded_cells T (h, tbl) \<and> j \<in> A \<and> ja_transaction (jas h j) = tx_id tx \<and>
      running A h (tx_id tx) \<and>
      (\<exists>got. object_ids = got @ op_pending s \<and> (\<forall>i \<in> set got. holds_at T i (tx_id tx) True (A, h, tbl))) \<and>
      (\<forall>a. op_awaiting s = Some a \<longrightarrow> op_pending s \<noteq> [] \<and> awaits T (hd (op_pending s)) j (ar_result a) (A, h, tbl)))"

text \<open>
  No object that is still to be requested is stuck: a creation under a rolled-back deletion with
  requests waiting.
\<close>

definition free_of :: "'t object_map \<Rightarrow> 'b heap \<times> 't \<Rightarrow> object_id list \<Rightarrow> bool" where
  "free_of T = (\<lambda>(h, tbl) is. \<forall>i \<in> set is. \<forall>st. m_get T i tbl = Some st \<longrightarrow> \<not> stuck_state h st)"

definition op_ready ::
  "'t object_map \<Rightarrow> journal_id set \<Rightarrow> transaction \<Rightarrow> object_id list \<Rightarrow> ('q, 'b, 'p, 't) journal_op \<Rightarrow> bool" where
  "op_ready T A tx object_ids s \<longleftrightarrow> op_inv T A tx object_ids s \<and>
     (let h = db_heap (op_db s) in case op_awaiting s of
        None \<Rightarrow> free_of T (h, op_table s) (op_pending s)
      | Some a \<Rightarrow> (\<forall>b. rc_result (cells h (ar_result a)) = Some (Ok b) \<longrightarrow> free_of T (h, op_table s) (tl (op_pending s))))"

text \<open>None of this depends on the wait cells and the tasks sent.\<close>

lemma same_owners_view:
  assumes so: "same_owners h h'"
  shows "running A h' t = running A h t" "holds_at T i t x (A, h', tbl) = holds_at T i t x (A, h, tbl)"
    "free_of T (h', tbl) is = free_of T (h, tbl) is"
  by (simp_all add: running_def holds_at_def held_in_def free_of_def same_owners_rules [OF so] same_owners_fields [OF so]
      stuck_state_same_owners [OF so])

lemma step_keeps_inv: "ac_inv T (A, h, tbl) \<Longrightarrow> step_keeps T A h tbl h' tbl' \<Longrightarrow> ac_inv T (A, h', tbl')"
  using rollback_complete_same_owners wf_state_same_owners by (fastforce simp: ac_inv_def step_keeps_def entry_inv_def)

lemma step_keeps_refl: "ac_inv T (A, h, tbl) \<Longrightarrow> same_owners h h' \<Longrightarrow> step_keeps T A h tbl h' tbl"
  by (auto simp: ac_inv_def step_keeps_def)

lemma same_owners_send_task: "send_task t h = (h', sent) \<Longrightarrow> same_owners h h' \<and> cells h' = cells h \<and> next_cell h' = next_cell h"
  by (auto simp: send_task_def same_owners_def split: if_splits)

text \<open>A poll of the response changes no answer to a positive one.\<close>

lemma await_response_poll_ok:
  assumes "await_response_poll contended now w a h = (h', a', p)"
  shows "same_owners h h' \<and> quiet h h' \<and> next_cell h' = next_cell h \<and> ar_result a' = ar_result a \<and>
    (\<forall>b. p = Ready (Ok b) \<longrightarrow> h' = h \<and> rc_result (cells h (ar_result a)) = Some (Ok b))"
proof -
  have cell: "same_owners h (upd_cell c f h)" "same_owners h (set_result c r h)" for c f r
    by (simp_all add: same_owners_def upd_cell_def set_result_def)
  let ?h = "upd_cell (ar_result a) (\<lambda>rc. rc\<lparr>rc_waker := Some w\<rparr>) h"
  obtain h1 b1 h2 b2 where send: "send_task (MonitorObject (ar_object_id a)) ?h = (h1, b1)"
    "send_task (WakeUp (ar_deadline a) w) ?h = (h2, b2)" by fastforce
  note sent = same_owners_send_task [OF send(1)] same_owners_send_task [OF send(2)]
  have so: "same_owners h h1" "same_owners h h2" using sent cell same_owners_trans by blast+
  have quiet: "quiet h h1" "quiet h h2" "next_cell h1 = next_cell h" "next_cell h2 = next_cell h"
    using sent by (simp_all add: upd_cell_def quiet_def)
  have wake: "quiet h (wake w h')" "next_cell (wake w h') = next_cell h'" if "quiet h h'" for h'
    using that by (simp_all add: wake_def quiet_def)
  have timeout: "quiet h (set_result (ar_result a) (Err Timeout) h)" by (simp add: quiet_def)
  show ?thesis
  proof (cases "rc_result (cells h (ar_result a))")
    case None
    with assms so quiet cell wake timeout show ?thesis
      by (auto simp: await_response_poll_def Let_def send split: if_splits intro: same_owners_trans)
  qed (use assms wake in \<open>auto simp: await_response_poll_def Let_def split: if_splits\<close>)
qed

text \<open>Such a change of the heap keeps what a journal waits for.\<close>

lemma quiet_awaits:
  assumes so: "same_owners h h'" and "quiet h h'" "next_cell h' = next_cell h" "awaits T i j c (A, h, tbl)"
  shows "awaits T i j c (A, h', tbl)"
  using assms(2-) unfolding awaits_def prod.case quiet_def same_owners_view [OF so] same_owners_fields [OF so] by auto

subsection \<open>One round\<close>

definition op_measure :: "('q, 'b, 'p, 't) journal_op \<Rightarrow> nat" where
  "op_measure s = 2 * length (op_pending s) + (if op_awaiting s = None then 1 else 0)"

text \<open>A round that acquires an object, or waits for one, leaves the log and the journal alone.\<close>

definition round_ok ::
  "'t object_map \<Rightarrow> journal_id set \<Rightarrow> transaction \<Rightarrow> object_id list \<Rightarrow> ('q, 'b, 'p, 't) journal_op \<Rightarrow>
     ('q, 'b, 'p, 't) journal_op \<Rightarrow> unit result poll flow \<Rightarrow> bool" where
  "round_ok T A tx object_ids s s' f \<longleftrightarrow>
     ac_inv T (A, db_heap (op_db s'), op_table s') \<and>
     db_layer (op_db s') = db_layer (op_db s) \<and> op_journal s' = op_journal s \<and>
     (f = Again \<longrightarrow> op_ready T A tx object_ids s' \<and> op_measure s' < op_measure s) \<and>
     (f = Return Pending \<longrightarrow> op_inv T A tx object_ids s') \<and> (\<forall>u. f \<noteq> Return (Ready (Ok u)))"

lemma op_invE:
  assumes "op_inv T A tx object_ids s"
  obtains got where "ac_inv T (A, db_heap (op_db s), op_table s)" "bounded_cells T (db_heap (op_db s), op_table s)"
    "jn_id (op_journal s) \<in> A" "ja_transaction (jas (db_heap (op_db s)) (jn_id (op_journal s))) = tx_id tx"
    "running A (db_heap (op_db s)) (tx_id tx)" "object_ids = got @ op_pending s"
    "\<forall>i \<in> set got. holds_at T i (tx_id tx) True (A, db_heap (op_db s), op_table s)"
    "\<forall>a. op_awaiting s = Some a \<longrightarrow> op_pending s \<noteq> [] \<and>
       awaits T (hd (op_pending s)) (jn_id (op_journal s)) (ar_result a) (A, db_heap (op_db s), op_table s)"
  using assms unfolding op_inv_def Let_def by blast

lemma bounded_same_cells: "bounded_cells T (h, tbl) \<Longrightarrow> next_cell h' = next_cell h \<Longrightarrow> bounded_cells T (h', tbl)"
  by (simp add: bounded_cells_def)

lemma await_round:
  assumes ready: "op_ready T A tx object_ids s" and aw: "op_awaiting s = Some a"
  shows "\<exists>s' f. journal_op_body P request log tx object_ids deadline now w contended s = returns (s', f) \<and>
    round_ok T A tx object_ids s s' f"
proof -
  let ?h = "db_heap (op_db s)" and ?j = "jn_id (op_journal s)"
  obtain h' a' p where p: "await_response_poll contended now w a ?h = (h', a', p)" by (metis prod_cases3)
  have so: "same_owners ?h h'" and quiet: "quiet ?h h'" "next_cell h' = next_cell ?h" and a': "ar_result a' = ar_result a"
    and positive: "\<And>b. p = Ready (Ok b) \<Longrightarrow> h' = ?h \<and> rc_result (cells ?h (ar_result a)) = Some (Ok b)"
    using await_response_poll_ok [OF p] by simp_all
  have "op_inv T A tx object_ids s" using ready by (simp add: op_ready_def)
  then obtain got where inv: "ac_inv T (A, ?h, op_table s)" "bounded_cells T (?h, op_table s)"
    "?j \<in> A" "ja_transaction (jas ?h ?j) = tx_id tx" "running A ?h (tx_id tx)" "object_ids = got @ op_pending s"
    "\<forall>i \<in> set got. holds_at T i (tx_id tx) True (A, ?h, op_table s)"
    and pending: "op_pending s \<noteq> []" "awaits T (hd (op_pending s)) ?j (ar_result a) (A, ?h, op_table s)"
    by (rule op_invE) (use aw in blast)
  note ac = step_keeps_inv [OF inv(1) step_keeps_refl [OF inv(1) so]]
  note view = same_owners_view [OF so] same_owners_fields [OF so]
  show ?thesis
  proof (cases p)
    case Pending
    let ?s = "s\<lparr>op_db := (op_db s)\<lparr>db_heap := h'\<rparr>, op_awaiting := Some a'\<rparr>"
    have "op_inv T A tx object_ids ?s"
      unfolding op_inv_def Let_def
      using ac inv pending(1) quiet_awaits [OF so quiet pending(2)] bounded_same_cells [OF inv(2) quiet(2)] by (simp add: view a')
    with ac aw p Pending show ?thesis by (simp add: journal_op_body_def round_ok_def)
  next
    case (Ready r)
    show ?thesis
    proof (cases r)
      case (Inl e)
      with ac aw p Ready show ?thesis by (simp add: journal_op_body_def round_ok_def)
    next
      case (Inr b)
      note positive = positive [OF Ready [unfolded Inr]]
      obtain i rest where i: "op_pending s = i # rest" using pending(1) by (cases "op_pending s") auto
      let ?s = "s\<lparr>op_db := (op_db s)\<lparr>db_heap := h'\<rparr>, op_awaiting := None, op_pending := rest\<rparr>"
      have "holds_at T i (tx_id tx) True (A, ?h, op_table s)" using pending(2) positive inv(4) by (simp add: awaits_def i)
      moreover have "free_of T (?h, op_table s) rest" using ready positive by (simp add: op_ready_def Let_def aw i)
      ultimately have "op_ready T A tx object_ids ?s"
        unfolding op_ready_def op_inv_def Let_def using inv positive by (simp add: i)
      with ac aw p Ready Inr i show ?thesis by (simp add: journal_op_body_def round_ok_def op_measure_def)
    qed
  qed
qed

text \<open>A request that has to wait waits for the object.\<close>

lemma request_awaits:
  assumes ok: "request_ok T A i j (h, tbl) (h', tbl') (Await aw)" and bounded: "bounded_cells T (h, tbl)"
  shows "awaits T i j (ar_result aw) (A, h', tbl')"
proof -
  from ok obtain st st' where c: "ar_result aw = next_cell h" "next_cell h < next_cell h'" "rc_result (cells h' (next_cell h)) = None"
    and st: "m_get T i tbl = Some st" "m_get T i tbl' = Some st'"
      "\<forall>r \<in> set (state_queue st'). r \<in> set (state_queue st) \<or> request_owner r = j \<and> asks_exclusive r"
    and others: "\<And>k. k \<noteq> i \<Longrightarrow> m_get T k tbl' = m_get T k tbl"
    by (auto simp: request_ok_def)
  have b: "request_cell r \<noteq> next_cell h" if "m_get T k tbl = Some st" "r \<in> set (state_queue st)" for k st r
    using bounded that unfolding bounded_cells_def prod.case by (metis less_irrefl)
  have "k = i \<and> request_owner r = j \<and> asks_exclusive r"
    if "m_get T k tbl' = Some st1" "r \<in> set (state_queue st1)" "request_cell r = next_cell h" for k st1 r
    using that b [of k] b [OF st(1)] st others [of k] by (cases "k = i") auto
  with c show ?thesis by (simp add: awaits_def)
qed

context journal_request
begin

lemma request_round:
  assumes T: "scc_map_laws T" and ready: "op_ready T A tx object_ids s" and aw: "op_awaiting s = None" and pending: "op_pending s = i # rest"
  shows "\<exists>s' f. journal_op_body P (request T) log tx object_ids deadline now w contended s = returns (s', f) \<and>
    round_ok T A tx object_ids s s' f"
proof -
  let ?h = "db_heap (op_db s)" and ?j = "jn_id (op_journal s)"
  have free: "free_of T (?h, op_table s) (i # rest)" and "op_inv T A tx object_ids s"
    using ready by (simp_all add: op_ready_def Let_def aw pending)
  then obtain got where inv: "ac_inv T (A, ?h, op_table s)" "bounded_cells T (?h, op_table s)"
    "?j \<in> A" "ja_transaction (jas ?h ?j) = tx_id tx" "running A ?h (tx_id tx)" "object_ids = got @ i # rest"
    "\<forall>i \<in> set got. holds_at T i (tx_id tx) True (A, ?h, op_table s)"
    unfolding pending [symmetric] by (elim op_invE) blast
  obtain h' tbl' a where ret: "request T i ?j deadline now (?h, op_table s) = returns ((h', tbl'), a)"
    and ok: "request_ok T A i ?j (?h, op_table s) (h', tbl') a"
    using request_law [OF T inv(1,3), of i deadline now] free by (auto simp: free_of_def)
  have bounded: "bounded_cells T (h', tbl')" by (rule op_bounded [OF T inv(1) request_op [OF inv(3) ret] inv(2)])
  have keeps: "step_keeps T A ?h (op_table s) h' tbl'" and others: "\<And>k. k \<noteq> i \<Longrightarrow> m_get T k tbl' = m_get T k (op_table s)"
    using ok by (simp_all add: request_ok_def)
  then have so: "same_owners ?h h'" by (simp add: step_keeps_def)
  note view = same_owners_view [OF so] same_owners_fields [OF so]
  note ac = step_keeps_inv [OF inv(1) keeps]
  have held: "\<forall>i \<in> set got. holds_at T i (tx_id tx) True (A, h', tbl')"
    using inv(5,7) keeps unfolding view by (fastforce simp: holds_at_def step_keeps_def)
  show ?thesis
  proof (cases a)
    case (Await aw')
    let ?s = "s\<lparr>op_db := (op_db s)\<lparr>db_heap := h'\<rparr>, op_table := tbl', op_awaiting := Some aw'\<rparr>"
    have "rc_result (cells h' (ar_result aw')) = None" using ok Await by (simp add: request_ok_def)
    then have "op_ready T A tx object_ids ?s"
      unfolding op_ready_def op_inv_def Let_def
      using ac bounded inv(3-6) held request_awaits [OF ok [unfolded Await] inv(2)] by (simp add: view pending)
    with ac aw ret pending Await show ?thesis by (simp add: journal_op_body_def round_ok_def op_measure_def)
  next
    case (Answer r)
    show ?thesis
    proof (cases r)
      case (Inl e)
      with ac aw ret pending Answer show ?thesis by (simp add: journal_op_body_def round_ok_def)
    next
      case (Inr b)
      let ?s = "s\<lparr>op_db := (op_db s)\<lparr>db_heap := h'\<rparr>, op_table := tbl', op_pending := rest\<rparr>"
      obtain st where st: "m_get T i tbl' = Some st" "\<not> stuck_state ?h st" "held_in A ?h (tx_id tx) True st"
        using ok Answer Inr inv(4) by (auto simp: request_ok_def)
      have "holds_at T i (tx_id tx) True (A, h', tbl')" unfolding view using st by (simp add: holds_at_def)
      moreover have "\<not> stuck_state ?h st'" if "k \<in> set rest" "m_get T k tbl' = Some st'" for k st'
        using that free st others [of k] by (cases "k = i") (auto simp: free_of_def)
      then have "free_of T (h', tbl') rest" unfolding view by (auto simp: free_of_def)
      ultimately have "op_ready T A tx object_ids ?s"
        unfolding op_ready_def op_inv_def Let_def using aw ac bounded inv(3-6) held by (simp add: view)
      with ac aw ret pending Answer Inr show ?thesis by (simp add: journal_op_body_def round_ok_def op_measure_def)
    qed
  qed
qed

end

subsection \<open>A poll\<close>

text \<open>
  The whole operation: its requests, and logging the objects in the journal's buffer, a new one if it
  has none yet.
\<close>

definition start_buffer :: "'c file_io_data \<Rightarrow> nat option \<Rightarrow> 'c file_io_data \<times> nat" where
  "start_buffer d buffer = (case buffer of Some a \<Rightarrow> (d, a) | None \<Rightarrow> new_log_buffer d)"

definition poll_ok ::
  "bool \<Rightarrow> 't object_map \<Rightarrow> journal_id set \<Rightarrow> transaction \<Rightarrow> object_id list \<Rightarrow> u64 \<Rightarrow> nat set \<Rightarrow> nat list \<Rightarrow>
     ('q, 'b, 'c file_io_data, 't) journal_op \<Rightarrow> ('q, 'b, 'c file_io_data, 't) journal_op \<Rightarrow> unit result poll \<Rightarrow> bool" where
  "poll_ok created T A tx object_ids off owned xs s s' r \<longleftrightarrow>
     ac_inv T (A, db_heap (op_db s'), op_table s') \<and>
     (case r of
        Ready (Inr _) \<Rightarrow>
          (\<forall>i \<in> set object_ids. holds_at T i (tx_id tx) True (A, db_heap (op_db s'), op_table s')) \<and>
          (\<exists>a'. op_journal s' = (op_journal s)\<lparr>jn_log_buffer := Some a'\<rparr> \<and>
            (let da = start_buffer (db_layer (op_db s)) (jn_log_buffer (op_journal s)) in
             logged created (tx_id tx) (jn_id (op_journal s)) object_ids off (insert (snd da) owned) xs da (db_layer (op_db s'), a')))
      | Pending \<Rightarrow> op_inv T A tx object_ids s' \<and> db_layer (op_db s') = db_layer (op_db s) \<and> op_journal s' = op_journal s
      | Ready (Inl _) \<Rightarrow> db_layer (op_db s') = db_layer (op_db s) \<and> op_journal s' = op_journal s)"

locale journal_operation = journal_request request
  for request :: "'t object_map \<Rightarrow> object_id \<Rightarrow> journal_id \<Rightarrow> time option \<Rightarrow> time \<Rightarrow> 'b heap \<times> 't \<Rightarrow>
    (('b heap \<times> 't) \<times> acquisition) run" +
  fixes created :: bool
    and log :: "nat \<Rightarrow> transaction_id \<Rightarrow> journal_id \<Rightarrow> object_id list \<Rightarrow> 'c file_io_data \<Rightarrow> ('c file_io_data \<times> nat result) outcome"
  assumes log_law: "io_inv d off owned xs \<Longrightarrow> a \<in> owned \<Longrightarrow> t AND OPCODE_MASK = 0 \<Longrightarrow> j AND OPCODE_MASK = 0 \<Longrightarrow>
    \<exists>d' a'. log a t j object_ids d = Done (d', Ok a') \<and> logged created t j object_ids off owned xs (d, a) (d', a')"
begin

lemma log_round:
  assumes inv: "op_inv T A tx object_ids s" "op_awaiting s = None" "op_pending s = []"
    and layer: "io_inv (db_layer (op_db s)) off owned xs" "\<And>a. jn_log_buffer (op_journal s) = Some a \<Longrightarrow> a \<in> owned"
    and ids: "tx_id tx AND OPCODE_MASK = 0" "jn_id (op_journal s) AND OPCODE_MASK = 0"
  shows "\<exists>s' u. journal_op_body (file_io B) (request T) log tx object_ids deadline now w contended s =
      returns (s', Return (Ready (Ok u))) \<and> poll_ok created T A tx object_ids off owned xs s s' (Ready (Ok u))"
proof -
  let ?d = "db_layer (op_db s)" and ?b = "jn_log_buffer (op_journal s)"
  obtain d a where da: "start_buffer ?d ?b = (d, a)" by fastforce
  have I: "io_inv d off (insert a owned) xs"
  proof (cases ?b)
    case None
    then have "d = fst (new_log_buffer ?d)" "a = snd (new_log_buffer ?d)" using da by (simp_all add: start_buffer_def)
    with io_inv_new [OF layer(1)] show ?thesis by (simp add: new_log_buffer_def)
  next
    case (Some a0)
    with layer da show ?thesis by (simp add: start_buffer_def insert_absorb)
  qed
  from log_law [OF I _ ids, of a object_ids] obtain d' a'
    where log: "log a (tx_id tx) (jn_id (op_journal s)) object_ids d = Done (d', Ok a')"
    and logged: "logged created (tx_id tx) (jn_id (op_journal s)) object_ids off (insert a owned) xs (d, a) (d', a')" by auto
  let ?s = "s\<lparr>op_db := (op_db s)\<lparr>db_layer := d'\<rparr>, op_journal := (op_journal s)\<lparr>jn_log_buffer := Some a'\<rparr>\<rparr>"
  have db: "(case ?b of Some a \<Rightarrow> (op_db s, a) | None \<Rightarrow> new_buffer (file_io B) (op_db s)) = ((op_db s)\<lparr>db_layer := d\<rparr>, a)"
    using da by (cases ?b) (auto simp: start_buffer_def new_buffer_def file_io_def split: prod.splits)
  have "journal_op_body (file_io B) (request T) log tx object_ids deadline now w contended s = returns (?s, Return (Ready (Ok ())))"
    using inv log by (simp add: journal_op_body_def log_acquired_def db Let_def)
  moreover have "poll_ok created T A tx object_ids off owned xs s ?s (Ready (Ok ()))"
    using inv logged by (simp add: poll_ok_def op_inv_def da Let_def) blast
  ultimately show ?thesis by blast
qed

lemma poll_returns:
  assumes T: "scc_map_laws T" and inv: "op_ready T A tx object_ids s"
    and layer: "io_inv (db_layer (op_db s)) off owned xs" "\<And>a. jn_log_buffer (op_journal s) = Some a \<Longrightarrow> a \<in> owned"
    and ids: "tx_id tx AND OPCODE_MASK = 0" "jn_id (op_journal s) AND OPCODE_MASK = 0"
  shows "\<exists>s' r. rust_loop (journal_op_body (file_io B) (request T) log tx object_ids deadline now w contended) s = returns (s', r) \<and>
    poll_ok created T A tx object_ids off owned xs s s' r"
  using inv layer ids
proof (induction "op_measure s" arbitrary: s rule: less_induct)
  case less
  let ?body = "journal_op_body (file_io B) (request T) log tx object_ids deadline now w contended"
  show ?case
  proof (cases "op_awaiting s = None \<and> op_pending s = []")
    case True
    moreover have "op_inv T A tx object_ids s" using less.prems(1) by (simp add: op_ready_def)
    ultimately show ?thesis
      using log_round [OF _ _ _ less.prems(2-), where T = T and A = A and object_ids = object_ids and B = B and deadline = deadline and now = now and w = w and contended = contended]
      by (auto simp: rust_loop.simps [of _ s])
  next
    case False
    then consider a where "op_awaiting s = Some a" | i rest where "op_awaiting s = None" "op_pending s = i # rest"
      by (cases "op_awaiting s"; cases "op_pending s") auto
    then have "\<exists>s1 f. ?body s = returns (s1, f) \<and> round_ok T A tx object_ids s s1 f"
      by cases (rule await_round [OF less.prems(1)] request_round [OF T less.prems(1)]; assumption)+
    then obtain s1 f where body: "?body s = returns (s1, f)" and ok: "round_ok T A tx object_ids s s1 f" by blast
    have same: "db_layer (op_db s1) = db_layer (op_db s)" "op_journal s1 = op_journal s" using ok by (simp_all add: round_ok_def)
    show ?thesis
    proof (cases f)
      case Again
      then have "op_ready T A tx object_ids s1" "op_measure s1 < op_measure s" using ok by (simp_all add: round_ok_def)
      from less.hyps [OF this(2,1)] less.prems(2-) same obtain s' r
        where "rust_loop ?body s1 = returns (s', r)" "poll_ok created T A tx object_ids off owned xs s1 s' r" by auto
      moreover have "poll_ok created T A tx object_ids off owned xs s1 s' r = poll_ok created T A tx object_ids off owned xs s s' r"
        by (simp only: poll_ok_def same)
      ultimately show ?thesis using body Again by (simp add: rust_loop.simps [of _ s])
    next
      case (Return r)
      with ok have "poll_ok created T A tx object_ids off owned xs s s1 r"
        by (auto simp: poll_ok_def round_ok_def split: poll.split sum.split)
      with body Return show ?thesis by (simp add: rust_loop.simps [of _ s])
    qed
  qed
qed

end

interpretation creation: journal_operation ac_create True file_create
  by unfold_locales (rule file_create_logged)

interpretation deletion: journal_operation ac_delete False file_delete
  by unfold_locales (rule file_delete_logged)

subsection \<open>Between two polls\<close>

lemma op_inv_run:
  assumes T: "scc_map_laws T" and inv: "op_inv T A tx object_ids s"
    and run: "(env_step T)\<^sup>*\<^sup>* (A, db_heap (op_db s), op_table s) (A', db_heap db, tbl)"
    and running: "running A' (db_heap db) (tx_id tx)"
  shows "op_inv T A' tx object_ids (s\<lparr>op_db := db, op_table := tbl\<rparr>)"
proof -
  let ?h = "db_heap (op_db s)" and ?j = "jn_id (op_journal s)"
  obtain got where s: "ac_inv T (A, ?h, op_table s)" "bounded_cells T (?h, op_table s)"
    "?j \<in> A" "ja_transaction (jas ?h ?j) = tx_id tx" "running A ?h (tx_id tx)" "object_ids = got @ op_pending s"
    "\<forall>i \<in> set got. holds_at T i (tx_id tx) True (A, ?h, op_table s)"
    and aw: "\<forall>a. op_awaiting s = Some a \<longrightarrow> op_pending s \<noteq> [] \<and> awaits T (hd (op_pending s)) ?j (ar_result a) (A, ?h, op_table s)"
    using inv by (rule op_invE) (rule that; assumption)
  have "ac_inv T (A', db_heap db, tbl) \<and> bounded_cells T (db_heap db, tbl) \<and> ?j \<in> A' \<and>
    ja_transaction (jas (db_heap db) ?j) = tx_id tx \<and> running_at (tx_id tx) (A, ?h, op_table s) \<and>
    (\<forall>i x. holds_at T i (tx_id tx) x (A, ?h, op_table s) \<longrightarrow> holds_at T i (tx_id tx) x (A', db_heap db, tbl)) \<and>
    (\<forall>i c. awaits T i ?j c (A, ?h, op_table s) \<longrightarrow> awaits T i ?j c (A', db_heap db, tbl))"
    by (rule env_run_awaits [OF T run]) (use s running in simp_all)
  with s aw running show ?thesis unfolding op_inv_def Let_def by simp
qed

lemma op_readyI:
  assumes "op_inv T A tx object_ids s" and free: "free_of T (db_heap (op_db s), op_table s) (op_pending s)"
  shows "op_ready T A tx object_ids s"
proof -
  have "free_of T (db_heap (op_db s), op_table s) (tl (op_pending s))"
    using free by (cases "op_pending s") (simp_all add: free_of_def)
  then show ?thesis using assms by (simp add: op_ready_def Let_def split: option.split)
qed

section \<open>Properties\<close>

text \<open>
  C5: A poll of \<^verbatim>\<open>Journal::create\<close> or \<^verbatim>\<open>Journal::delete\<close>, the first one as well as one that goes on after any
  run of the access controller and of other transactions since the last poll (\<open>s\<close> is how that left the
  future, \<open>s1\<close> how the next poll finds it). Two conditions hold at the poll: the transaction is running,
  so that none of its journals has ended or was rolled back (\<open>running\<close>), and none of the objects still to
  be acquired is a deletion that cannot be undone (\<open>free_of\<close>; on such an object the poll panics). Then
  the poll returns. It succeeds only with every given object
  owned by the transaction and by no other, and with records logged in the journal's buffers that stand
  for exactly these objects, in the given order, as created or deleted by this journal. Otherwise it has
  logged nothing and left the journal as it was, and if it is pending, the next poll goes on from there.
\<close>

theorem journal_operations_acquire:
  assumes T: "scc_map_laws T" and inv: "op_inv T A tx object_ids s"
    and run: "(env_step T)\<^sup>*\<^sup>* (A, db_heap (op_db s), op_table s) (A', db_heap db, tbl)"
    and s1: "s1 = s\<lparr>op_db := db, op_table := tbl\<rparr>"
    and running: "running A' (db_heap db) (tx_id tx)" and free: "free_of T (db_heap db, tbl) (op_pending s)"
    and layer: "io_inv (db_layer db) off owned xs" "\<forall>a. jn_log_buffer (op_journal s) = Some a \<longrightarrow> a \<in> owned"
    and ids: "tx_id tx AND OPCODE_MASK = 0" "jn_id (op_journal s) AND OPCODE_MASK = 0"
  shows "(\<exists>s' r. journal_create (file_io B) T tx object_ids deadline now w contended s1 = returns (s', r) \<and>
      poll_ok True T A' tx object_ids off owned xs s1 s' r) \<and>
    (\<exists>s' r. journal_delete (file_io B) T tx object_ids deadline now w contended s1 = returns (s', r) \<and>
      poll_ok False T A' tx object_ids off owned xs s1 s' r)"
proof -
  have "op_inv T A' tx object_ids s1" unfolding s1 by (rule op_inv_run [OF T inv run running])
  then have ready: "op_ready T A' tx object_ids s1" by (rule op_readyI) (use free s1 in simp)
  have layer1: "io_inv (db_layer (op_db s1)) off owned xs" "\<And>a. jn_log_buffer (op_journal s1) = Some a \<Longrightarrow> a \<in> owned"
    and ids1: "jn_id (op_journal s1) AND OPCODE_MASK = 0" using layer ids s1 by simp_all
  have ops: "pl_create (file_io B) = file_create" "pl_delete (file_io B) = file_delete" by (simp_all add: file_io_def)
  show ?thesis
    unfolding journal_create_def journal_delete_def ops
    by (intro conjI creation.poll_returns [OF T ready layer1 ids(1) ids1] deletion.poll_returns [OF T ready layer1 ids(1) ids1])
qed

text \<open>A journal that starts to acquire two objects; a journal of another transaction locks one of them first.\<close>

definition demo_operation :: "(entry list, waker list, waker list file_io_data, object_id \<Rightarrow> object_state option) journal_op" where
  "demo_operation = \<lparr>op_db = demo_db, op_table = Map.empty, op_journal = \<lparr>jn_log_buffer = None, jn_id = 16\<rparr>,
     op_pending = [3, 4], op_awaiting = None\<rparr>"

theorem journal_operations_acquire_witness:
  "\<exists>s' r. journal_create (file_io list_bag) fun_map demo_tx [3, 4] (Some 9) 5 7 False
       (demo_operation\<lparr>op_table := [4 \<mapsto> Owned (Locked 32)]\<rparr>) = returns (s', r) \<and>
     poll_ok True fun_map {16, 32} demo_tx [3, 4] 0 {} [] (demo_operation\<lparr>op_table := [4 \<mapsto> Owned (Locked 32)]\<rparr>) s' r"
proof -
  let ?tbl = "[4 \<mapsto> Owned (Locked 32)] :: object_id \<Rightarrow> object_state option"
  have inv: "op_inv fun_map {16, 32} demo_tx [3, 4] demo_operation"
    by (simp add: op_inv_def demo_operation_def demo_db_def ac_inv_def fun_map_def running_def bounded_cells_def demo_simps)
  have "ac_op fun_map {16, 32} 4 (idle_heap, Map.empty) (idle_heap, ?tbl)"
    by (rule locks [where j = 32 and deadline = None and now = 0 and a = "Answer (Ok True)"]) (simp_all add: ac_lock_def fun_map_def)
  then have run: "(env_step fun_map)\<^sup>*\<^sup>* ({16, 32}, db_heap (op_db demo_operation), op_table demo_operation) ({16, 32}, db_heap demo_db, ?tbl)"
    by (simp add: demo_operation_def demo_db_def r_into_rtranclp env_operates)
  have eq: "demo_operation\<lparr>op_table := ?tbl\<rparr> = demo_operation\<lparr>op_db := demo_db, op_table := ?tbl\<rparr>" by (simp add: demo_operation_def)
  have running: "running {16, 32} (db_heap demo_db) (tx_id demo_tx)" by (simp add: running_def demo_db_def)
  have free: "free_of fun_map (db_heap demo_db, ?tbl) (op_pending demo_operation)"
    by (simp add: demo_operation_def free_of_def fun_map_def)
  have layer: "io_inv (db_layer demo_db) 0 {} []"
    by (auto simp: demo_db_def io_inv_taken_def fresh_layer_def with_path_def raf_open_def)
  from journal_operations_acquire [OF fun_map_laws inv run eq running free layer] show ?thesis
    by (simp add: demo_operation_def demo_simps)
qed

end
