(* ===== verification/Containers.thy ===== *)
theory Containers
  imports Playback
begin

text \<open>
  The database kernel and its containers (\<^verbatim>\<open>src/src/database.rs\<close>, \<^verbatim>\<open>container.rs\<close>,
  \<^verbatim>\<open>metadata.rs\<close>).
\<close>

section \<open>Definitions\<close>

text \<open>Containers are shared by reference; they hold their metadata, which is empty.\<close>

datatype metadata = Metadata

record container =
  ct_address :: nat
  ct_metadata :: metadata

text \<open>\<^verbatim>\<open>VersionedRecordVisitor::next\<close> returns \<^verbatim>\<open>None\<close>.\<close>

definition iter_versioned_records :: "container \<Rightarrow> object_id list" where
  "iter_versioned_records c = []"

text \<open>The operations of \<^verbatim>\<open>scc::HashIndex\<close> on container names, and what they promise.\<close>

record 'i hash_index =
  hi_peek :: "string \<Rightarrow> 'i \<Rightarrow> container option"
  hi_insert :: "string \<Rightarrow> container \<Rightarrow> 'i \<Rightarrow> 'i \<times> bool"
  hi_remove :: "string \<Rightarrow> 'i \<Rightarrow> 'i \<times> bool"

definition hash_index_laws :: "'i hash_index \<Rightarrow> bool" where
  "hash_index_laws I \<longleftrightarrow>
     (\<forall>n c i. hi_peek I n i = None \<longrightarrow> snd (hi_insert I n c i) \<and>
        hi_peek I n (fst (hi_insert I n c i)) = Some c \<and>
        (\<forall>m. m \<noteq> n \<longrightarrow> hi_peek I m (fst (hi_insert I n c i)) = hi_peek I m i)) \<and>
     (\<forall>n c i. hi_peek I n i \<noteq> None \<longrightarrow> \<not> snd (hi_insert I n c i) \<and>
        (\<forall>m. hi_peek I m (fst (hi_insert I n c i)) = hi_peek I m i)) \<and>
     (\<forall>n i. (snd (hi_remove I n i) \<longleftrightarrow> hi_peek I n i \<noteq> None) \<and>
        hi_peek I n (fst (hi_remove I n i)) = None \<and>
        (\<forall>m. m \<noteq> n \<longrightarrow> hi_peek I m (fst (hi_remove I n i)) = hi_peek I m i))"

text \<open>An index kept as a function, for evaluating the model.\<close>

definition fun_index :: "(string \<rightharpoonup> container) hash_index" where
  "fun_index =
     \<lparr>hi_peek = (\<lambda>n i. i n),
      hi_insert = (\<lambda>n c i. if i n = None then (i(n \<mapsto> c), True) else (i, False)),
      hi_remove = (\<lambda>n i. (i(n := None), i n \<noteq> None))\<rparr>"

text \<open>The kernel: the part of it that is recovered, the container map, and the containers made so far.\<close>

record ('q, 'b, 't, 'i) kernel =
  kn_database :: "('q, 'b, 't) recovered"
  kn_containers :: "'i"
  kn_next_container :: nat

definition container_new :: "metadata \<Rightarrow> ('q, 'b, 't, 'i) kernel \<Rightarrow> ('q, 'b, 't, 'i) kernel \<times> container" where
  "container_new m k =
     (k\<lparr>kn_next_container := Suc (kn_next_container k)\<rparr>, \<lparr>ct_address = kn_next_container k, ct_metadata = m\<rparr>)"

definition create_container ::
  "'i hash_index \<Rightarrow> string \<Rightarrow> metadata \<Rightarrow> ('q, 'b, 't, 'i) kernel \<Rightarrow> ('q, 'b, 't, 'i) kernel \<times> container result" where
  "create_container I name m k =
     (case container_new m k of
        (k, c) \<Rightarrow>
          (case hi_insert I name c (kn_containers k) of
             (i, inserted) \<Rightarrow> (k\<lparr>kn_containers := i\<rparr>, if inserted then Ok c else Err UniquenessViolation)))"

text \<open>
  \<^verbatim>\<open>rename_container\<close> looks the old name up and then inserts the new one, two operations on the index;
  \<open>others\<close> is what other threads do in between.
\<close>

definition rename_container ::
  "'i hash_index \<Rightarrow> (('q, 'b, 't, 'i) kernel \<Rightarrow> ('q, 'b, 't, 'i) kernel) \<Rightarrow> string \<Rightarrow> string \<Rightarrow>
     ('q, 'b, 't, 'i) kernel \<Rightarrow> ('q, 'b, 't, 'i) kernel \<times> unit result" where
  "rename_container I others name new_name k =
     (case hi_peek I name (kn_containers k) of
        Some c \<Rightarrow>
          let k = others k in
          (case hi_insert I new_name c (kn_containers k) of
             (i, inserted) \<Rightarrow> (k\<lparr>kn_containers := i\<rparr>, if inserted then Ok () else Err UniquenessViolation))
      | None \<Rightarrow> (k, Err NotFound))"

definition get_container :: "'i hash_index \<Rightarrow> string \<Rightarrow> ('q, 'b, 't, 'i) kernel \<Rightarrow> container option" where
  "get_container I name k = hi_peek I name (kn_containers k)"

definition drop_container ::
  "'i hash_index \<Rightarrow> string \<Rightarrow> ('q, 'b, 't, 'i) kernel \<Rightarrow> ('q, 'b, 't, 'i) kernel \<times> unit result" where
  "drop_container I name k =
     (case hi_remove I name (kn_containers k) of
        (i, removed) \<Rightarrow> (k\<lparr>kn_containers := i\<rparr>, if removed then Ok () else Err NotFound))"

text \<open>\<^verbatim>\<open>Kernel::container\<close>.\<close>

definition kernel_container :: "'i hash_index \<Rightarrow> string \<Rightarrow> ('q, 'b, 't, 'i) kernel \<Rightarrow> container option" where
  "kernel_container I name k = hi_peek I name (kn_containers k)"

text \<open>
  \<^verbatim>\<open>Database::drop\<close> repeats the request to shut down until the channel takes it; \<open>drained\<close> is what
  the task processor did to the channel in between.
\<close>

definition database_drop_body :: "('b heap \<Rightarrow> 'b heap) \<Rightarrow> 'b heap \<Rightarrow> ('b heap \<times> unit flow) run" where
  "database_drop_body drained h =
     (case send_task Shutdown h of
        (h, True) \<Rightarrow> returns (h, Return ())
      | (h, False) \<Rightarrow> returns (drained h, Again))"

definition database_drop :: "('b heap \<Rightarrow> 'b heap) \<Rightarrow> 'b heap \<Rightarrow> ('b heap \<times> unit) run" where
  "database_drop drained = rust_loop (database_drop_body drained)"

section \<open>Properties\<close>

text \<open>
  Creating, dropping and looking up containers, each one operation on the index; runs of them are any
  interleaving of the operations of several threads. The answers are the errors and what was found.
\<close>

datatype container_op = CreateContainer string metadata | DropContainer string | GetContainer string

datatype container_answer = Done_container "error option" | Found_container "nat option"

definition container_step ::
  "'i hash_index \<Rightarrow> container_op \<Rightarrow> ('q, 'b, 't, 'i) kernel \<Rightarrow> ('q, 'b, 't, 'i) kernel \<times> container_answer" where
  "container_step I op k =
     (case op of
        CreateContainer n m \<Rightarrow>
          (case create_container I n m k of
             (k, Inl e) \<Rightarrow> (k, Done_container (Some e)) | (k, Inr _) \<Rightarrow> (k, Done_container None))
      | DropContainer n \<Rightarrow>
          (case drop_container I n k of
             (k, Inl e) \<Rightarrow> (k, Done_container (Some e)) | (k, Inr _) \<Rightarrow> (k, Done_container None))
      | GetContainer n \<Rightarrow> (k, Found_container (map_option ct_address (get_container I n k))))"

primrec run_ops :: "('o \<Rightarrow> 's \<Rightarrow> 's \<times> 'a) \<Rightarrow> 'o list \<Rightarrow> 's \<Rightarrow> 's \<times> 'a list" where
  "run_ops step [] s = (s, [])"
| "run_ops step (op # ops) s =
     (case step op s of (s, a) \<Rightarrow> (case run_ops step ops s of (s, as) \<Rightarrow> (s, a # as)))"

text \<open>
  The specification, as the operations are documented: a map from names to the addresses of containers.
  Creating a container under a name that is taken and dropping one that does not exist are the errors.
\<close>

fun map_step :: "container_op \<Rightarrow> (string \<rightharpoonup> nat) \<times> nat \<Rightarrow> ((string \<rightharpoonup> nat) \<times> nat) \<times> container_answer" where
  "map_step (CreateContainer n m) (f, next_address) =
     (if f n = None then ((f(n \<mapsto> next_address), Suc next_address), Done_container None)
      else ((f, Suc next_address), Done_container (Some UniquenessViolation)))"
| "map_step (DropContainer n) (f, next_address) =
     ((f(n := None), next_address), Done_container (if n \<in> dom f then None else Some NotFound))"
| "map_step (GetContainer n) (f, next_address) = ((f, next_address), Found_container (f n))"

definition container_view ::
  "'i hash_index \<Rightarrow> ('q, 'b, 't, 'i) kernel \<Rightarrow> (string \<rightharpoonup> nat) \<times> nat" where
  "container_view I k = (\<lambda>n. map_option ct_address (get_container I n k), kn_next_container k)"

lemma fun_index_laws: "hash_index_laws fun_index"
  by (auto simp: hash_index_laws_def fun_index_def)

lemma hi_insert_cases:
  assumes "hash_index_laws I"
  obtains (fresh) i where "hi_peek I n j = None" "hi_insert I n c j = (i, True)"
      "\<And>m. hi_peek I m i = (if m = n then Some c else hi_peek I m j)"
    | (taken) i where "hi_peek I n j \<noteq> None" "hi_insert I n c j = (i, False)" "\<And>m. hi_peek I m i = hi_peek I m j"
proof (cases "hi_peek I n j = None")
  case True
  with assms have "snd (hi_insert I n c j)" "hi_peek I m (fst (hi_insert I n c j)) = (if m = n then Some c else hi_peek I m j)" for m
    unfolding hash_index_laws_def by auto
  with True fresh [of "fst (hi_insert I n c j)"] show ?thesis by (cases "hi_insert I n c j") auto
next
  case False
  with assms have "\<not> snd (hi_insert I n c j)" "hi_peek I m (fst (hi_insert I n c j)) = hi_peek I m j" for m
    unfolding hash_index_laws_def by auto
  with False taken [of "fst (hi_insert I n c j)"] show ?thesis by (cases "hi_insert I n c j") auto
qed

lemma container_step_refines:
  assumes I: "hash_index_laws I"
  shows "map_step op (container_view I k) = (container_view I (fst (container_step I op k)), snd (container_step I op k))"
    and "kn_database (fst (container_step I op k)) = kn_database k"
proof -
  show "map_step op (container_view I k) = (container_view I (fst (container_step I op k)), snd (container_step I op k))"
  proof (cases op)
    case (CreateContainer n m)
    let ?c = "\<lparr>ct_address = kn_next_container k, ct_metadata = m\<rparr>"
    show ?thesis
      by (rule hi_insert_cases [OF I, of n "kn_containers k" ?c])
        (auto simp: CreateContainer container_step_def create_container_def container_new_def container_view_def get_container_def)
  next
    case (DropContainer n)
    obtain i r where rem: "hi_remove I n (kn_containers k) = (i, r)" by fastforce
    have "snd (hi_remove I n (kn_containers k)) \<longleftrightarrow> hi_peek I n (kn_containers k) \<noteq> None"
      "hi_peek I m (fst (hi_remove I n (kn_containers k))) = (if m = n then None else hi_peek I m (kn_containers k))" for m
      using I unfolding hash_index_laws_def by auto
    then have "r \<longleftrightarrow> hi_peek I n (kn_containers k) \<noteq> None"
      "\<And>m. hi_peek I m i = (if m = n then None else hi_peek I m (kn_containers k))"
      by (simp_all add: rem)
    then show ?thesis
      by (auto simp: DropContainer container_step_def drop_container_def container_view_def get_container_def rem)
  next
    case (GetContainer n)
    then show ?thesis by (simp add: container_step_def container_view_def)
  qed
  show "kn_database (fst (container_step I op k)) = kn_database k"
    by (auto simp: container_step_def create_container_def container_new_def drop_container_def
        split: container_op.splits prod.splits)
qed

text \<open>
  C30: Creating, dropping and looking up containers implement a map from names to containers: every run
  of such operations gives the answers of the map, errors included, leaves the bindings of the map, and
  does not touch the rest of the kernel. A created container is a new one.
\<close>

theorem containers_refine_map:
  assumes I: "hash_index_laws I"
  shows "run_ops map_step ops (container_view I k) =
      (container_view I (fst (run_ops (container_step I) ops k)), snd (run_ops (container_step I) ops k)) \<and>
    kn_database (fst (run_ops (container_step I) ops k)) = kn_database k"
proof (induction ops arbitrary: k)
  case (Cons op ops)
  obtain k1 a where s: "container_step I op k = (k1, a)" by fastforce
  obtain k2 as where r: "run_ops (container_step I) ops k1 = (k2, as)" by fastforce
  from container_step_refines [OF I, of op k] s Cons.IH [of k1] r show ?case by simp
qed simp

theorem containers_refine_map_witness:
  "\<forall>k :: (nat, waker list, u64 \<rightharpoonup> object_state) recovered.
    snd (run_ops (container_step fun_index)
      [CreateContainer ''a'' Metadata, CreateContainer ''a'' Metadata, GetContainer ''a'', DropContainer ''a'', DropContainer ''a'']
      \<lparr>kn_database = k, kn_containers = Map.empty, kn_next_container = 4\<rparr>) =
    [Done_container None, Done_container (Some UniquenessViolation), Found_container (Some 4), Done_container None,
     Done_container (Some NotFound)]"
proof
  fix k :: "(nat, waker list, u64 \<rightharpoonup> object_state) recovered"
  let ?k = "\<lparr>kn_database = k, kn_containers = Map.empty, kn_next_container = 4\<rparr>"
  let ?ops = "[CreateContainer ''a'' Metadata, CreateContainer ''a'' Metadata, GetContainer ''a'', DropContainer ''a'',
    DropContainer ''a'']"
  have "container_view fun_index ?k = (Map.empty, 4)" by (simp add: container_view_def get_container_def fun_index_def)
  moreover have "snd (run_ops map_step ?ops (Map.empty, 4)) = [Done_container None, Done_container (Some UniquenessViolation),
    Found_container (Some 4), Done_container None, Done_container (Some NotFound)]" by simp
  ultimately show "snd (run_ops (container_step fun_index) ?ops ?k) = [Done_container None,
    Done_container (Some UniquenessViolation), Found_container (Some 4), Done_container None, Done_container (Some NotFound)]"
    using containers_refine_map [OF fun_index_laws, of ?ops ?k] by (metis snd_conv)
qed

text \<open>
  Renaming is not part of this: a successful \<^verbatim>\<open>rename_container\<close> with no other thread in between leaves the
  container bound to its old name, too.
\<close>

lemma rename_keeps_old_name:
  assumes I: "hash_index_laws I" and "get_container I name k = Some c" and "get_container I new_name k = None"
  shows "\<exists>k'. rename_container I (\<lambda>k. k) name new_name k = (k', Ok ()) \<and>
    get_container I new_name k' = Some c \<and> get_container I name k' = Some c"
  by (rule hi_insert_cases [OF I, of new_name "kn_containers k" c])
    (use assms(2,3) in \<open>auto simp: rename_container_def get_container_def\<close>)

text \<open>The errors of \<^verbatim>\<open>rename_container\<close> are the documented ones, whatever other threads do in between.\<close>

lemma rename_errors:
  assumes I: "hash_index_laws I"
  shows "snd (rename_container I others name new_name k) =
    (if get_container I name k = None then Err NotFound
     else if get_container I new_name (others k) = None then Ok () else Err UniquenessViolation)"
proof (cases "hi_peek I name (kn_containers k)")
  case (Some c)
  show ?thesis
    by (rule hi_insert_cases [OF I, of new_name "kn_containers (others k)" c])
      (simp_all add: Some rename_container_def get_container_def)
qed (simp add: rename_container_def get_container_def)

text \<open>Dropping the database gets its request into the channel as long as the task processor takes tasks out of it.\<close>

lemma database_drop_returns:
  assumes capacity: "\<And>h. channel_capacity (drained h) = channel_capacity h" "0 < channel_capacity h"
    and drained: "\<And>h. channel h \<noteq> [] \<Longrightarrow> length (channel (drained h)) < length (channel h)"
  shows "\<exists>h'. database_drop drained h = returns (h', ()) \<and> channel h' \<noteq> [] \<and> last (channel h') = Shutdown"
proof -
  have "\<exists>h' r. rust_loop (database_drop_body drained) h = returns (h', r)"
    by (rule rust_loop_returns [where I = "\<lambda>h. 0 < channel_capacity h" and m = "\<lambda>h. length (channel h)"])
      (use capacity in \<open>auto simp: database_drop_body_def send_task_def not_less intro!: drained\<close>)
  then obtain h' r where ret: "rust_loop (database_drop_body drained) h = returns (h', r)" by blast
  have "channel h' \<noteq> [] \<and> last (channel h') = Shutdown"
    by (rule rust_loop_rule [where I = "\<lambda>_. True", OF ret])
      (auto simp: database_drop_body_def send_task_def split: if_splits)
  with ret show ?thesis by (simp add: database_drop_def)
qed

end
