(* ===== verification/Task_Processor.thy ===== *)
theory Task_Processor
  imports Containers "HOL-Library.Char_ord" "HOL-Library.List_Lexorder"
begin

text \<open>
  The background thread that runs timers, hands over ownership and collects old versions
  (\<^verbatim>\<open>src/src/task_processor.rs\<close>).
\<close>

section \<open>Definitions\<close>

text \<open>A \<^verbatim>\<open>BTreeMap\<close> and a \<^verbatim>\<open>BTreeSet\<close>, as lists in the order of their keys.\<close>

fun bt_insert :: "'k::linorder \<Rightarrow> 'v \<Rightarrow> ('k \<times> 'v) list \<Rightarrow> ('k \<times> 'v) list \<times> 'v option" where
  "bt_insert k v [] = ([(k, v)], None)"
| "bt_insert k v ((k', v') # m) =
     (if k < k' then ((k, v) # (k', v') # m, None)
      else if k = k' then ((k, v) # m, Some v')
      else (case bt_insert k v m of (m, old) \<Rightarrow> ((k', v') # m, old)))"

fun set_insert :: "'k::linorder \<Rightarrow> 'k list \<Rightarrow> 'k list" where
  "set_insert k [] = [k]"
| "set_insert k (k' # s) = (if k < k' then k # k' # s else if k = k' then k' # s else k' # set_insert k s)"

record thread_local_data =
  tl_waker_queue :: "(time \<times> waker) list"
  tl_monitored_containers :: "string list"
  tl_monitored_object_ids :: "object_id list"
  tl_wait_duration :: time

text \<open>Time in nanoseconds.\<close>

definition DEFAULT_CHECK_INTERVAL :: time where
  "DEFAULT_CHECK_INTERVAL = 60 * 10 ^ 9"

definition CONTEXT_SWITCH_THRESHOLD :: nat where
  "CONTEXT_SWITCH_THRESHOLD = 256"

definition thread_local_new :: thread_local_data where
  "thread_local_new =
     \<lparr>tl_waker_queue = [], tl_monitored_containers = [], tl_monitored_object_ids = [],
      tl_wait_duration = DEFAULT_CHECK_INTERVAL\<rparr>"

text \<open>
  The insertion of a waker, which takes the place of another one with the same deadline; that one is
  inserted a nanosecond later. The waker that is left after the last try is dropped.
\<close>

primrec insert_waker :: "nat list \<Rightarrow> time \<Rightarrow> waker \<Rightarrow> (time \<times> waker) list \<Rightarrow> (time \<times> waker) list \<times> waker option" where
  "insert_waker [] deadline w queue = (queue, Some w)"
| "insert_waker (offset # offsets) deadline w queue =
     (case bt_insert (deadline + offset) w queue of
        (queue, Some other) \<Rightarrow> insert_waker offsets deadline other queue
      | (queue, None) \<Rightarrow> (queue, None))"

text \<open>
  \<^verbatim>\<open>receive_task\<close>: the channel is empty when nothing arrives in time. \<open>now\<close> is the time a deadline is
  compared with.
\<close>

definition receive_task ::
  "time \<Rightarrow> 'b heap \<times> thread_local_data \<Rightarrow> ('b heap \<times> thread_local_data) \<times> bool" where
  "receive_task now = (\<lambda>(h, tl).
     case channel h of
       [] \<Rightarrow> ((h, tl), True)
     | task # tasks \<Rightarrow>
         let h = h\<lparr>channel := tasks\<rparr> in
         (case task of
            Shutdown \<Rightarrow> ((h, tl), False)
          | WakeUp deadline w \<Rightarrow>
              if deadline < now then ((wake w h, tl), True)
              else ((h, tl\<lparr>tl_waker_queue := fst (insert_waker [0, 1, 2, 3] deadline w (tl_waker_queue tl))\<rparr>), True)
          | MonitorContainer name \<Rightarrow>
              ((h, tl\<lparr>tl_monitored_containers := set_insert name (tl_monitored_containers tl)\<rparr>), True)
          | MonitorObject object_id \<Rightarrow>
              ((h, tl\<lparr>tl_monitored_object_ids := set_insert object_id (tl_monitored_object_ids tl)\<rparr>), True)
          | ScanAccessController \<Rightarrow> ((h, tl), True)))"

primrec retain_objects ::
  "'t object_map \<Rightarrow> (object_id \<Rightarrow> time) \<Rightarrow> object_id list \<Rightarrow> 'b heap \<times> 't \<Rightarrow> (('b heap \<times> 't) \<times> object_id list) run" where
  "retain_objects T at [] s = returns (s, [])"
| "retain_objects T at (i # ids) s =
     bind_run (transfer_ownership_sync T (at i) i s) (\<lambda>(s, waiting).
       bind_run (retain_objects T at ids s) (\<lambda>(s, retained).
         returns (s, if waiting then i # retained else retained)))"

text \<open>The expired wakers are invoked in the order of their deadlines.\<close>

fun wake_expired :: "time \<Rightarrow> (time \<times> waker) list \<Rightarrow> 'b heap \<Rightarrow> (time \<times> waker) list \<times> 'b heap \<times> time" where
  "wake_expired now [] h = ([], h, DEFAULT_CHECK_INTERVAL)"
| "wake_expired now ((k, w) # queue) h =
     (if now \<le> k then ((k, w) # queue, h, k - now) else wake_expired now queue (wake w h))"

definition process_time_critical_tasks ::
  "'t object_map \<Rightarrow> (object_id \<Rightarrow> time) \<Rightarrow> time \<Rightarrow> ('b heap \<times> 't) \<times> thread_local_data \<Rightarrow>
     (('b heap \<times> 't) \<times> thread_local_data) run" where
  "process_time_critical_tasks T at now = (\<lambda>(s, tl).
     bind_run (retain_objects T at (tl_monitored_object_ids tl) s) (\<lambda>((h, tbl), ids).
       case wake_expired now (tl_waker_queue tl) h of
         (queue, h, wait) \<Rightarrow>
           returns ((h, tbl), tl\<lparr>tl_monitored_object_ids := ids, tl_waker_queue := queue, tl_wait_duration := wait\<rparr>)))"

subsection \<open>Garbage collection\<close>

text \<open>
  The surroundings of one round: the times, and what other threads do before the task processor looks
  at the channel.
\<close>

record 'k task_env =
  te_now :: time
  te_at :: "object_id \<Rightarrow> time"
  te_others :: "'k \<Rightarrow> 'k"

definition with_heap_table ::
  "('b heap \<times> 't) \<Rightarrow> ('q, 'b, 't, 'i) kernel \<Rightarrow> ('q, 'b, 't, 'i) kernel" where
  "with_heap_table s k = k\<lparr>kn_database := (kn_database k)\<lparr>rk_heap := fst s, rk_table := snd s\<rparr>\<rparr>"

definition kernel_state :: "('q, 'b, 't, 'i) kernel \<Rightarrow> 'b heap \<times> 't" where
  "kernel_state k = (rk_heap (kn_database k), rk_table (kn_database k))"

definition receive_and_run ::
  "'t object_map \<Rightarrow> ('q, 'b, 't, 'i) kernel task_env \<Rightarrow> ('q, 'b, 't, 'i) kernel \<times> thread_local_data \<Rightarrow>
     (('q, 'b, 't, 'i) kernel \<times> thread_local_data) run" where
  "receive_and_run T env = (\<lambda>(k, tl).
     let k = te_others env k in
     case receive_task (te_now env) (rk_heap (kn_database k), tl) of
       ((h, tl), _) \<Rightarrow>
         bind_run (process_time_critical_tasks T (te_at env) (te_now env) ((h, rk_table (kn_database k)), tl)) (\<lambda>(s, tl).
           returns (with_heap_table s k, tl)))"

text \<open>
  One container: its versioned records with the number of operations since the last look at the
  channel. The result says how many records are kept.
\<close>

primrec collect_records ::
  "'t object_map \<Rightarrow> ('q, 'b, 't, 'i) kernel task_env \<Rightarrow> u64 \<Rightarrow> object_id list \<Rightarrow>
     ('q, 'b, 't, 'i) kernel \<times> thread_local_data \<Rightarrow> nat \<Rightarrow> nat \<Rightarrow>
     ((('q, 'b, 't, 'i) kernel \<times> thread_local_data) \<times> nat \<times> nat) run" where
  "collect_records T env oldest_instant [] s operation_count num_records = returns (s, operation_count, num_records)"
| "collect_records T env oldest_instant (i # ids) s operation_count num_records =
     (case try_remove_access_data_sync T (\<lambda>instant. instant \<le> oldest_instant) i (kernel_state (fst s)) of
        Panic \<Rightarrow> panics
      | Done (st, removed, _) \<Rightarrow>
          let s = (with_heap_table st (fst s), snd s);
              num_records = (if removed then num_records else Suc num_records)
          in if operation_count = CONTEXT_SWITCH_THRESHOLD
             then bind_run (receive_and_run T env s) (\<lambda>s. collect_records T env oldest_instant ids s 0 num_records)
             else collect_records T env oldest_instant ids s (Suc operation_count) num_records)"

primrec collect_containers ::
  "'q entry_queue \<Rightarrow> 'i hash_index \<Rightarrow> 't object_map \<Rightarrow> ('q, 'b, 't, 'i) kernel task_env \<Rightarrow> string list \<Rightarrow>
     ('q, 'b, 't, 'i) kernel \<times> thread_local_data \<Rightarrow> nat \<Rightarrow>
     ((('q, 'b, 't, 'i) kernel \<times> thread_local_data) \<times> string list) run" where
  "collect_containers Q I T env [] s operation_count = returns (s, [])"
| "collect_containers Q I T env (name # names) s operation_count =
     (case kernel_container I name (fst s) of
        None \<Rightarrow> collect_containers Q I T env names s operation_count
      | Some c \<Rightarrow>
          (case seq_min Q (rk_sequencer (kn_database (fst s))) of
             None \<Rightarrow> None
           | Some (sequencer, oldest_instant) \<Rightarrow>
               bind_run (collect_records T env oldest_instant (iter_versioned_records c)
                   ((fst s)\<lparr>kn_database := (kn_database (fst s))\<lparr>rk_sequencer := sequencer\<rparr>\<rparr>, snd s) operation_count 0)
                 (\<lambda>(s, operation_count, num_records).
                    bind_run (collect_containers Q I T env names s operation_count) (\<lambda>(s, retained).
                      returns (s, if num_records \<noteq> 0 then name # retained else retained)))))"

text \<open>
  One round of \<^verbatim>\<open>process\<close>; the flag says whether the loop goes on. The names that are monitored while
  the containers are gone through are kept.
\<close>

definition process_round ::
  "'q entry_queue \<Rightarrow> 'i hash_index \<Rightarrow> 't object_map \<Rightarrow> ('q, 'b, 't, 'i) kernel task_env \<Rightarrow>
     ('q, 'b, 't, 'i) kernel \<times> thread_local_data \<Rightarrow> ((('q, 'b, 't, 'i) kernel \<times> thread_local_data) \<times> bool) run" where
  "process_round Q I T env = (\<lambda>(k, tl).
     let k = te_others env k in
     case receive_task (te_now env) (rk_heap (kn_database k), tl) of
       ((h, tl), False) \<Rightarrow> returns ((with_heap_table (h, rk_table (kn_database k)) k, tl), False)
     | ((h, tl), True) \<Rightarrow>
         bind_run (process_time_critical_tasks T (te_at env) (te_now env) ((h, rk_table (kn_database k)), tl)) (\<lambda>(s, tl).
           bind_run (collect_containers Q I T env (tl_monitored_containers tl)
               (with_heap_table s k, tl\<lparr>tl_monitored_containers := []\<rparr>) 0) (\<lambda>((k, tl), retained).
             returns ((k, tl\<lparr>tl_monitored_containers := foldr set_insert retained (tl_monitored_containers tl)\<rparr>), True))))"

primrec process_tasks ::
  "'q entry_queue \<Rightarrow> 'i hash_index \<Rightarrow> 't object_map \<Rightarrow> ('q, 'b, 't, 'i) kernel task_env list \<Rightarrow>
     ('q, 'b, 't, 'i) kernel \<times> thread_local_data \<Rightarrow> ((('q, 'b, 't, 'i) kernel \<times> thread_local_data) \<times> bool) run" where
  "process_tasks Q I T [] s = returns (s, True)"
| "process_tasks Q I T (env # envs) s =
     bind_run (process_round Q I T env s) (\<lambda>(s, go).
       if go then process_tasks Q I T envs s else returns (s, False))"

end
