(* ===== verification/Timers.thy ===== *)
theory Timers
  imports Task_Processor Access_Control
begin

text \<open>
  What the task processor guarantees: each monitored object is handed over and stays monitored while
  requests wait, expired wakers are invoked in order; and where it loses a waker.
\<close>

section \<open>The queue of wakers\<close>

definition ordered :: "('k::linorder \<times> 'v) list \<Rightarrow> bool" where
  "ordered m \<longleftrightarrow> sorted_wrt (<) (map fst m)"

lemma ordered_Cons [simp]: "ordered ((k, v) # m) \<longleftrightarrow> (\<forall>(k', _) \<in> set m. k < k') \<and> ordered m"
  by (auto simp: ordered_def)

lemma ordered_Nil [simp]: "ordered []"
  by (simp add: ordered_def)

lemma bt_insert_keys: "fst ` set (fst (bt_insert k v m)) = insert k (fst ` set m)"
proof (induction k v m rule: bt_insert.induct)
  case (2 k v k' v' m)
  then show ?case by (cases "bt_insert k v m") (simp add: insert_commute)
qed simp

lemma bt_insert_ok:
  assumes "ordered m" "bt_insert k v m = (m', old)"
  shows "ordered m' \<and> old = map_of m k \<and> map_of m' = (map_of m)(k \<mapsto> v) \<and>
    mset (map snd m') + (case old of None \<Rightarrow> {#} | Some x \<Rightarrow> {#x#}) = add_mset v (mset (map snd m))"
  using assms
proof (induction k v m arbitrary: m' old rule: bt_insert.induct)
  case (2 k v k' v' m)
  have none: "map_of m k = None" if "k \<le> k'"
    using 2(2) that by (auto simp: map_of_eq_None_iff)
  consider "k < k'" | "k = k'" | "k' < k" by fastforce
  then show ?case
  proof cases
    case 1
    then have "m' = (k, v) # (k', v') # m" "old = None" using "2.prems"(2) by simp_all
    with 1 none "2.prems"(1) show ?thesis by auto
  next
    case 2
    with "2.prems" show ?thesis by auto
  next
    case 3
    obtain m1 where m1: "bt_insert k v m = (m1, old)" and m': "m' = (k', v') # m1"
      using 3 "2.prems" by (auto split: prod.splits if_splits)
    have "fst ` set m1 = insert k (fst ` set m)" using bt_insert_keys [of k v m] m1 by simp
    moreover have "\<forall>l \<in> insert k (fst ` set m). k' < l" using "2.prems"(1) 3 by auto
    ultimately have "\<forall>x \<in> set m1. k' < fst x" by (metis image_eqI)
    moreover have "ordered m1 \<and> old = map_of m k \<and> map_of m1 = (map_of m)(k \<mapsto> v) \<and>
        mset (map snd m1) + (case old of None \<Rightarrow> {#} | Some x \<Rightarrow> {#x#}) = add_mset v (mset (map snd m))"
      by (rule "2.IH" [OF _ _ _ m1]) (use 3 "2.prems"(1) in auto)
    ultimately show ?thesis using 3 m' by (auto simp: fun_upd_twist)
  qed
qed auto

lemma insert_waker_ok:
  assumes "ordered q" "distinct offsets" "insert_waker offsets d w q = (q', lost)"
  shows "ordered q' \<and>
    mset (map snd q') + (case lost of None \<Rightarrow> {#} | Some x \<Rightarrow> {#x#}) = add_mset w (mset (map snd q)) \<and>
    (lost = None \<longleftrightarrow> (\<exists>i \<in> set offsets. map_of q (d + i) = None)) \<and>
    (\<forall>k. k \<notin> (\<lambda>i. d + i) ` set offsets \<longrightarrow> map_of q' k = map_of q k) \<and>
    (offsets \<noteq> [] \<longrightarrow> map_of q' (d + hd offsets) = Some w)"
  using assms
proof (induction offsets arbitrary: w q)
  case (Cons i offsets)
  obtain q1 old where b: "bt_insert (d + i) w q = (q1, old)" by fastforce
  note ok = bt_insert_ok [OF Cons.prems(1) b]
  show ?case
  proof (cases old)
    case None
    with Cons.prems b ok show ?thesis by auto
  next
    case (Some x)
    with Cons.prems b have r: "insert_waker offsets d x q1 = (q', lost)" by simp
    have IH: "ordered q' \<and>
      mset (map snd q') + (case lost of None \<Rightarrow> {#} | Some x \<Rightarrow> {#x#}) = add_mset x (mset (map snd q1)) \<and>
      (lost = None \<longleftrightarrow> (\<exists>i \<in> set offsets. map_of q1 (d + i) = None)) \<and>
      (\<forall>k. k \<notin> (\<lambda>i. d + i) ` set offsets \<longrightarrow> map_of q' k = map_of q1 k)"
      using Cons.IH [OF _ _ r] ok Cons.prems(2) by simp
    have "d + i \<notin> (\<lambda>i. d + i) ` set offsets" using Cons.prems(2) by auto
    moreover have "add_mset x (mset (map snd q1)) = add_mset w (mset (map snd q))" using ok Some by simp
    ultimately show ?thesis using IH ok Some by auto
  qed
qed auto

lemma insert_waker_ordered: "ordered q \<Longrightarrow> distinct offsets \<Longrightarrow> ordered (fst (insert_waker offsets d w q))"
  using insert_waker_ok by (metis prod.collapse)

lemma wake_expired_ok:
  assumes "ordered q"
  shows "wake_expired now q h = (filter (\<lambda>x. now \<le> fst x) q, h\<lparr>woken := woken h @ map snd (filter (\<lambda>x. fst x < now) q)\<rparr>,
    case filter (\<lambda>x. now \<le> fst x) q of [] \<Rightarrow> DEFAULT_CHECK_INTERVAL | x # _ \<Rightarrow> fst x - now)"
  using assms
proof (induction now q h rule: wake_expired.induct)
  case (2 now k w q h)
  show ?case
  proof (cases "now \<le> k")
    case True
    with 2(2) have "filter (\<lambda>x. now \<le> fst x) q = q" "filter (\<lambda>x. fst x < now) q = []"
      by (auto simp: filter_id_conv filter_empty_conv)
    with True show ?thesis by simp
  next
    case False
    with 2 show ?thesis by (simp add: wake_def)
  qed
qed simp


section \<open>Monitored objects\<close>

definition settled :: "'b heap \<Rightarrow> object_state \<Rightarrow> bool" where
  "settled h st \<longleftrightarrow> wf_state h st \<and> \<not> stuck_state h st"

lemma same_owners_ends:
  assumes "same_owners h h'"
  shows "ja_eot_instant h' j = ja_eot_instant h j" "is_rolled_back h' j = is_rolled_back h j"
  using assms by (simp_all add: ja_eot_instant_def is_rolled_back_def same_owners_fields [OF assms] same_owners_def)

lemma stuck_same_owners:
  assumes "same_owners h h'"
  shows "stuck_state h' st = stuck_state h st"
proof (cases st)
  case (Owned own)
  then show ?thesis using assms
    by (cases "(h, own)" rule: stuck_deletion.cases) (simp_all add: same_owners_ends [OF assms])
qed simp_all

lemma settled_same_owners: "same_owners h h' \<Longrightarrow> settled h st \<Longrightarrow> settled h' st"
  by (simp add: settled_def stuck_same_owners wf_state_same_owners)

text \<open>
  What a hand-over does to one object: \<^verbatim>\<open>transfer_ownership\<close> ran on its state, in a heap in which at most
  other requests were answered before; the requests it took off the queue, from the front, have their
  result, and the object holds the new state.
\<close>

definition handed_over ::
  "'t object_map \<Rightarrow> (object_id \<Rightarrow> time) \<Rightarrow> 'b heap \<times> 't \<Rightarrow> 'b heap \<times> 't \<Rightarrow> object_id \<Rightarrow> bool" where
  "handed_over T at = (\<lambda>(h, tbl) (h', tbl') i.
     case m_get T i tbl of
       None \<Rightarrow> m_get T i tbl' = None
     | Some st \<Rightarrow>
         \<exists>h1 h2 st' n. answers_only h h1 \<and> transfer_ownership (at i) h1 st = returns (h2, st', state_queue st' \<noteq> []) \<and>
           answers_only h2 h' \<and> m_get T i tbl' = Some st' \<and> wf_state h' st' \<and>
           state_queue st' = drop n (state_queue st) \<and> (\<forall>r \<in> set (take n (state_queue st)). answered h' r))"

text \<open>An object on which requests wait.\<close>

definition awaited :: "'t object_map \<Rightarrow> 't \<Rightarrow> object_id \<Rightarrow> bool" where
  "awaited T tbl i \<longleftrightarrow> (\<exists>st. m_get T i tbl = Some st \<and> state_queue st \<noteq> [])"

lemma transfer_sync_ok:
  assumes "scc_map_laws T" and "rollback_complete h" and "\<forall>st. m_get T i tbl = Some st \<longrightarrow> settled h st"
  shows "\<exists>h' tbl'. transfer_ownership_sync T (at i) i (h, tbl) = returns ((h', tbl'), awaited T tbl' i) \<and>
    answers_only h h' \<and> (\<forall>k. k \<noteq> i \<longrightarrow> m_get T k tbl' = m_get T k tbl) \<and>
    handed_over T at (h, tbl) (h', tbl') i"
proof (cases "m_get T i tbl")
  case None
  then show ?thesis
    by (intro exI [of _ h] exI [of _ tbl]) (simp add: transfer_ownership_sync_def awaited_def handed_over_def)
next
  case (Some st)
  have T': "m_get T k (m_put T i st t) = (if k = i then Some st else m_get T k t)" for k st t
    using assms(1) by (simp add: scc_map_laws_def)
  from Some assms(3) have "settled h st" by simp
  then obtain h1 st1 n where t: "transfer_ownership (at i) h st = returns (h1, st1, state_queue st1 \<noteq> [])"
    "answers_only h h1" "wf_state h1 st1" "state_queue st1 = drop n (state_queue st)"
    "\<forall>r \<in> set (take n (state_queue st)). answered h1 r"
    using transfer_ok [OF assms(2), of st "at i"] by (auto simp: settled_def)
  have "handed_over T at (h, tbl) (h1, m_put T i st1 tbl) i"
    using t unfolding handed_over_def prod.case Some option.case
    by (intro exI [of _ h] exI [of _ h1] exI [of _ st1] exI [of _ n]) (simp add: T')
  with Some t(1,2) show ?thesis
    by (intro exI [of _ h1] exI [of _ "m_put T i st1 tbl"]) (simp add: transfer_ownership_sync_def T' awaited_def)
qed

lemma handed_over_widen:
  assumes "handed_over T at (h1, tbl1) (h2, tbl2) i" and "answers_only h h1" and "answers_only h2 h3"
    and "m_get T i tbl = m_get T i tbl1" and "m_get T i tbl3 = m_get T i tbl2"
  shows "handed_over T at (h, tbl) (h3, tbl3) i"
proof (cases "m_get T i tbl1")
  case (Some st)
  with assms(1) obtain ha hb st' n where "answers_only h1 ha"
    "transfer_ownership (at i) ha st = returns (hb, st', state_queue st' \<noteq> [])" "answers_only hb h2"
    "m_get T i tbl2 = Some st'" "wf_state h2 st'" "state_queue st' = drop n (state_queue st)"
    "\<forall>r \<in> set (take n (state_queue st)). answered h2 r"
    unfolding handed_over_def prod.case by (simp, elim exE conjE) (rule that; assumption)
  moreover have "same_owners h2 h3" "\<forall>r. answered h2 r \<longrightarrow> answered h3 r" using assms(3) by (auto simp: answers_only_def)
  ultimately show ?thesis using Some assms answers_only_trans wf_state_same_owners
    unfolding handed_over_def prod.case by (simp, intro exI [of _ ha] exI [of _ hb] exI [of _ n]) blast
qed (use assms in \<open>simp add: handed_over_def\<close>)

text \<open>
  Handing over the monitored objects panics exactly if a deletion that cannot be undone is among them.
  Otherwise each of them is handed over, exactly those on which requests still wait stay monitored, and
  no other object is touched.
\<close>

lemma retain_objects_ok:
  assumes T: "scc_map_laws T" and "rollback_complete h" and "distinct ids"
    and "\<forall>i \<in> set ids. \<forall>st. m_get T i tbl = Some st \<longrightarrow> settled h st"
  shows "\<exists>h' tbl'. retain_objects T at ids (h, tbl) = returns ((h', tbl'), filter (awaited T tbl') ids) \<and>
    answers_only h h' \<and> (\<forall>i. i \<notin> set ids \<longrightarrow> m_get T i tbl' = m_get T i tbl) \<and>
    (\<forall>i \<in> set ids. handed_over T at (h, tbl) (h', tbl') i)"
  using assms(2-)
proof (induction ids arbitrary: h tbl)
  case (Cons i ids)
  from Cons.prems(3) have "\<forall>st. m_get T i tbl = Some st \<longrightarrow> settled h st" by simp
  from transfer_sync_ok [OF T Cons.prems(1) this, of at] obtain h1 tbl1 where
    t: "transfer_ownership_sync T (at i) i (h, tbl) = returns ((h1, tbl1), awaited T tbl1 i)"
    and a: "answers_only h h1" and other: "\<forall>k. k \<noteq> i \<longrightarrow> m_get T k tbl1 = m_get T k tbl"
    and ho: "handed_over T at (h, tbl) (h1, tbl1) i" by (elim exE conjE) (rule that)
  have so: "same_owners h h1" using a by (simp add: answers_only_def)
  have ok: "rollback_complete h1" "distinct ids" "\<forall>k \<in> set ids. \<forall>st. m_get T k tbl1 = Some st \<longrightarrow> settled h1 st"
    using rollback_complete_same_owners [OF so] Cons.prems other settled_same_owners [OF so]
    by (simp_all, metis)
  obtain h2 tbl2 where r: "retain_objects T at ids (h1, tbl1) = returns ((h2, tbl2), filter (awaited T tbl2) ids)"
    and a2: "answers_only h1 h2" and other2: "\<forall>k. k \<notin> set ids \<longrightarrow> m_get T k tbl2 = m_get T k tbl1"
    and ho2: "\<forall>k \<in> set ids. handed_over T at (h1, tbl1) (h2, tbl2) k"
    using Cons.IH [OF ok] by (elim exE conjE) (rule that)
  have i: "i \<notin> set ids" using Cons.prems(2) by simp
  with other2 have w: "awaited T tbl1 i = awaited T tbl2 i" by (simp add: awaited_def)
  have "handed_over T at (h, tbl) (h2, tbl2) i" using handed_over_widen [OF ho _ a2] i other2 by simp
  moreover have "handed_over T at (h, tbl) (h2, tbl2) k" if "k \<in> set ids" for k
    using handed_over_widen [OF _ a, of T at tbl1 h2 tbl2 k h2 tbl tbl2] ho2 that i other by fastforce
  ultimately show ?case using t r a a2 other other2 w
    by (intro exI [of _ h2] exI [of _ tbl2]) (auto intro: answers_only_trans)
qed simp

lemma retain_objects_stuck:
  assumes T: "scc_map_laws T" and "rollback_complete h" and "distinct ids"
    and "\<forall>i \<in> set ids. \<forall>st. m_get T i tbl = Some st \<longrightarrow> wf_state h st"
    and "\<exists>i \<in> set ids. \<exists>st. m_get T i tbl = Some st \<and> stuck_state h st"
  shows "retain_objects T at ids (h, tbl) = panics"
  using assms(2-)
proof (induction ids arbitrary: h tbl)
  case (Cons i ids)
  show ?case
  proof (cases "\<exists>st. m_get T i tbl = Some st \<and> stuck_state h st")
    case True
    then obtain st where "m_get T i tbl = Some st" "stuck_state h st" by blast
    then show ?thesis by (simp add: transfer_ownership_sync_def stuck_loops(5))
  next
    case False
    with Cons.prems(3) have "\<forall>st. m_get T i tbl = Some st \<longrightarrow> settled h st" by (simp add: settled_def)
    from transfer_sync_ok [OF T Cons.prems(1) this, of at] obtain h1 tbl1 where
      t: "transfer_ownership_sync T (at i) i (h, tbl) = returns ((h1, tbl1), awaited T tbl1 i)"
      and a: "answers_only h h1" and other: "\<forall>k. k \<noteq> i \<longrightarrow> m_get T k tbl1 = m_get T k tbl"
      by (elim exE conjE) (rule that)
    have so: "same_owners h h1" using a by (simp add: answers_only_def)
    have i: "i \<notin> set ids" using Cons.prems(2) by simp
    with other have same: "m_get T k tbl1 = m_get T k tbl" if "k \<in> set ids" for k using that by metis
    have "rollback_complete h1" using rollback_complete_same_owners [OF so Cons.prems(1)] .
    moreover have "\<forall>k \<in> set ids. \<forall>st. m_get T k tbl1 = Some st \<longrightarrow> wf_state h1 st"
      using Cons.prems(3) same wf_state_same_owners [OF so] by simp
    moreover have "\<exists>k \<in> set ids. \<exists>st. m_get T k tbl1 = Some st \<and> stuck_state h1 st"
      using Cons.prems(4) False same stuck_same_owners [OF so] by auto
    ultimately show ?thesis using Cons.IH Cons.prems(2) t by simp
  qed
qed simp

section \<open>Properties\<close>

lemma time_critical_ok:
  assumes "scc_map_laws T" and "rollback_complete h" and "ordered (tl_waker_queue td)"
    and "distinct (tl_monitored_object_ids td)"
    and "\<forall>i \<in> set (tl_monitored_object_ids td). \<forall>st. m_get T i tbl = Some st \<longrightarrow> settled h st"
  shows "\<exists>h1 tbl' td'. process_time_critical_tasks T at now ((h, tbl), td) =
      returns ((h1\<lparr>woken := woken h1 @ map snd (filter (\<lambda>x. fst x < now) (tl_waker_queue td))\<rparr>, tbl'), td') \<and>
    retain_objects T at (tl_monitored_object_ids td) (h, tbl) = returns ((h1, tbl'), tl_monitored_object_ids td') \<and>
    answers_only h h1 \<and>
    (\<forall>i. if i \<in> set (tl_monitored_object_ids td) then handed_over T at (h, tbl) (h1, tbl') i
      else m_get T i tbl' = m_get T i tbl) \<and>
    tl_monitored_object_ids td' = filter (awaited T tbl') (tl_monitored_object_ids td) \<and>
    tl_waker_queue td' = filter (\<lambda>x. now \<le> fst x) (tl_waker_queue td) \<and> ordered (tl_waker_queue td') \<and>
    list_all (\<lambda>x. now + tl_wait_duration td' \<le> fst x) (tl_waker_queue td')"
proof -
  let ?ids = "tl_monitored_object_ids td"
  obtain h1 tbl1 where r: "retain_objects T at ?ids (h, tbl) = returns ((h1, tbl1), filter (awaited T tbl1) ?ids)"
    "answers_only h h1" "\<forall>i. i \<notin> set ?ids \<longrightarrow> m_get T i tbl1 = m_get T i tbl"
    "\<forall>i \<in> set ?ids. handed_over T at (h, tbl) (h1, tbl1) i"
    using retain_objects_ok [OF assms(1,2,4,5), of at] by (elim exE conjE) (rule that)
  let ?q = "filter (\<lambda>x. now \<le> fst x) (tl_waker_queue td)"
  have o: "ordered ?q" using assms(3) by (simp add: ordered_def sorted_wrt_map sorted_wrt_filter)
  have "list_all (\<lambda>x. now + (case ?q of [] \<Rightarrow> DEFAULT_CHECK_INTERVAL | x # _ \<Rightarrow> fst x - now) \<le> fst x) ?q"
  proof (cases ?q)
    case (Cons x xs)
    then have "x \<in> set ?q" by simp
    then have "now \<le> fst x" by simp
    moreover have "\<forall>y \<in> set xs. fst x < fst y" using o unfolding Cons by (cases x) auto
    ultimately show ?thesis unfolding Cons by (auto simp: list_all_iff)
  qed simp
  with r o wake_expired_ok [OF assms(3), of now h1] show ?thesis
    by (simp add: process_time_critical_tasks_def)
qed

lemma time_critical_stuck:
  assumes "scc_map_laws T" and "rollback_complete h" and "distinct (tl_monitored_object_ids td)"
    and "\<forall>i \<in> set (tl_monitored_object_ids td). \<forall>st. m_get T i tbl = Some st \<longrightarrow> wf_state h st"
    and "\<exists>i \<in> set (tl_monitored_object_ids td). \<exists>st. m_get T i tbl = Some st \<and> stuck_state h st"
  shows "process_time_critical_tasks T at now ((h, tbl), td) = panics"
  using retain_objects_stuck [OF assms] by (simp add: process_time_critical_tasks_def)

text \<open>
  C31: The time critical work of a round, when transactions that were rolled back have rolled back their
  journals and the monitored objects are well-formed. It panics exactly if a deletion that cannot be
  undone is among the monitored objects. Otherwise it returns: each monitored object is handed over and
  no other object is touched, and exactly the objects on which requests still wait stay monitored. After
  the hand-overs, whose heap is \<open>h1\<close>, exactly the wakers whose deadline has passed are invoked, in the
  order of their deadlines, and nothing else changes; all the others are kept, and the round waits no
  longer than until the first of them is due.
\<close>

theorem time_critical_round:
  assumes "scc_map_laws T" and "rollback_complete h" and "ordered (tl_waker_queue td)"
    and "distinct (tl_monitored_object_ids td)"
    and "\<forall>i \<in> set (tl_monitored_object_ids td). \<forall>st. m_get T i tbl = Some st \<longrightarrow> wf_state h st"
  shows "if \<exists>i \<in> set (tl_monitored_object_ids td). \<exists>st. m_get T i tbl = Some st \<and> stuck_state h st
    then process_time_critical_tasks T at now ((h, tbl), td) = panics
    else \<exists>h1 tbl' td'. process_time_critical_tasks T at now ((h, tbl), td) =
        returns ((h1\<lparr>woken := woken h1 @ map snd (filter (\<lambda>x. fst x < now) (tl_waker_queue td))\<rparr>, tbl'), td') \<and>
      retain_objects T at (tl_monitored_object_ids td) (h, tbl) = returns ((h1, tbl'), tl_monitored_object_ids td') \<and>
      answers_only h h1 \<and>
      (\<forall>i. if i \<in> set (tl_monitored_object_ids td) then handed_over T at (h, tbl) (h1, tbl') i
        else m_get T i tbl' = m_get T i tbl) \<and>
      tl_monitored_object_ids td' = filter (awaited T tbl') (tl_monitored_object_ids td) \<and>
      tl_waker_queue td' = filter (\<lambda>x. now \<le> fst x) (tl_waker_queue td) \<and> ordered (tl_waker_queue td') \<and>
      list_all (\<lambda>x. now + tl_wait_duration td' \<le> fst x) (tl_waker_queue td')"
proof (cases "\<exists>i \<in> set (tl_monitored_object_ids td). \<exists>st. m_get T i tbl = Some st \<and> stuck_state h st")
  case True
  then show ?thesis using time_critical_stuck [OF assms(1,2,4,5) True] by simp
next
  case False
  with assms(5) have "\<forall>i \<in> set (tl_monitored_object_ids td). \<forall>st. m_get T i tbl = Some st \<longrightarrow> settled h st"
    by (auto simp: settled_def)
  from time_critical_ok [OF assms(1-4) this] False show ?thesis by (simp only: if_False)
qed

text \<open>
  A request to be woken up that arrives in time is inserted under its own deadline, and no waker
  is lost, exactly when one of the deadlines of the next three nanoseconds or the deadline itself is
  free; when all four are taken, one waker is dropped and is never invoked.
\<close>

theorem waker_kept_iff_room:
  assumes "channel h = WakeUp deadline w # tasks" and "now \<le> deadline" and "ordered (tl_waker_queue td)"
  shows "\<exists>q lost. receive_task now (h, td) = ((h\<lparr>channel := tasks\<rparr>, td\<lparr>tl_waker_queue := q\<rparr>), True) \<and>
    ordered q \<and> map_of q deadline = Some w \<and>
    mset (map snd q) + lost = add_mset w (mset (map snd (tl_waker_queue td))) \<and>
    (lost = {#} \<longleftrightarrow> (\<exists>i \<in> {0, 1, 2, 3}. map_of (tl_waker_queue td) (deadline + i) = None)) \<and>
    (lost \<noteq> {#} \<longrightarrow> (\<exists>x. lost = {#x#}))"
proof -
  obtain q lost where i: "insert_waker [0, 1, 2, 3] deadline w (tl_waker_queue td) = (q, lost)" by fastforce
  have "distinct [0, 1, 2, 3 :: nat]" by simp
  note ok = insert_waker_ok [OF assms(3) this i]
  have "receive_task now (h, td) = ((h\<lparr>channel := tasks\<rparr>, td\<lparr>tl_waker_queue := q\<rparr>), True)"
    using assms(1,2) i by (simp add: receive_task_def del: insert_waker.simps)
  with ok show ?thesis
    by (intro exI [of _ q] exI [of _ "case lost of None \<Rightarrow> {#} | Some x \<Rightarrow> {#x#}"]) (cases lost; simp)
qed

theorem waker_kept_iff_room_witness:
  "\<exists>q lost. receive_task 3 (idle_heap\<lparr>channel := [WakeUp 5 9]\<rparr>, thread_local_new\<lparr>tl_waker_queue := [(5, 1), (6, 2), (7, 3), (8, 4)]\<rparr>) =
      ((idle_heap\<lparr>channel := []\<rparr>, thread_local_new\<lparr>tl_waker_queue := q\<rparr>), True) \<and>
    map_of q 5 = Some 9 \<and> mset (map snd q) + lost = {#9, 1, 2, 3, 4#} \<and> lost \<noteq> {#}"
proof -
  have o: "ordered (tl_waker_queue (thread_local_new\<lparr>tl_waker_queue := [(5, 1), (6, 2), (7, 3), (8, 4)]\<rparr>))" by simp
  have c: "channel (idle_heap\<lparr>channel := [WakeUp 5 9]\<rparr>) = WakeUp 5 9 # []" by simp
  have n: "(3 :: nat) \<le> 5" by simp
  let ?td = "thread_local_new\<lparr>tl_waker_queue := [(5, 1), (6, 2), (7, 3), (8, 4)]\<rparr>"
  obtain q lost where "receive_task 3 (idle_heap\<lparr>channel := [WakeUp 5 9]\<rparr>, ?td) =
      ((idle_heap\<lparr>channel := [WakeUp 5 9]\<rparr>\<lparr>channel := []\<rparr>, ?td\<lparr>tl_waker_queue := q\<rparr>), True)" "map_of q 5 = Some 9"
    "mset (map snd q) + lost = add_mset 9 (mset (map snd (tl_waker_queue ?td)))"
    "lost = {#} \<longleftrightarrow> (\<exists>i \<in> {0, 1, 2, 3}. map_of (tl_waker_queue ?td) (5 + i) = None)"
    using waker_kept_iff_room [OF c n o] by (elim exE conjE) (rule that; assumption)
  then show ?thesis by (intro exI [of _ q] exI [of _ lost]) (simp add: add_mset_commute)
qed


lemma waiting_lock_settled:
  "settled idle_heap (Owned (LockedAwaitable (ExclusiveAwaitable 0 16 None [ReqLock 1 32 0, ReqProtect 2 48 1])))"
  by (simp add: settled_def)

theorem time_critical_round_witness:
  "\<exists>h1 tbl' td'. process_time_critical_tasks fun_map (\<lambda>_. 3) 4 ((idle_heap,
      [7 \<mapsto> Owned (LockedAwaitable (ExclusiveAwaitable 0 16 None [ReqLock 1 32 0, ReqProtect 2 48 1]))]),
      thread_local_new\<lparr>tl_waker_queue := [(2, 5), (3, 6), (9, 8)], tl_monitored_object_ids := [7]\<rparr>) =
        returns ((h1\<lparr>woken := woken h1 @ [5, 6]\<rparr>, tbl'), td') \<and>
    handed_over fun_map (\<lambda>_. 3) (idle_heap,
      [7 \<mapsto> Owned (LockedAwaitable (ExclusiveAwaitable 0 16 None [ReqLock 1 32 0, ReqProtect 2 48 1]))]) (h1, tbl') 7 \<and>
    tl_waker_queue td' = [(9, 8)] \<and> 4 + tl_wait_duration td' \<le> 9"
proof -
  let ?td = "thread_local_new\<lparr>tl_waker_queue := [(2, 5), (3, 6), (9, 8)], tl_monitored_object_ids := [7]\<rparr>"
  let ?st = "Owned (LockedAwaitable (ExclusiveAwaitable 0 16 None [ReqLock 1 32 0, ReqProtect 2 48 1]))"
  let ?tbl = "[7 \<mapsto> ?st]"
  have laws: "scc_map_laws (fun_map :: (u64 \<rightharpoonup> object_state, object_state) scc_map)"
    by (simp add: scc_map_laws_def fun_map_def)
  have o: "ordered (tl_waker_queue ?td)" "distinct (tl_monitored_object_ids ?td)" by simp_all
  have st: "\<forall>i \<in> set (tl_monitored_object_ids ?td). \<forall>st. m_get fun_map i ?tbl = Some st \<longrightarrow> wf_state idle_heap st"
    and ns: "\<not> (\<exists>i \<in> set (tl_monitored_object_ids ?td). \<exists>st. m_get fun_map i ?tbl = Some st \<and> stuck_state idle_heap st)"
    using waiting_lock_settled by (simp_all add: fun_map_def settled_def)
  note round = time_critical_round [OF laws rollback_complete_idle o st, of "\<lambda>_. 3" 4, unfolded if_not_P [OF ns]]
  from round obtain h1 tbl' td' where
    "process_time_critical_tasks fun_map (\<lambda>_. 3) 4 ((idle_heap, ?tbl), ?td) =
        returns ((h1\<lparr>woken := woken h1 @ map snd (filter (\<lambda>x. fst x < 4) (tl_waker_queue ?td))\<rparr>, tbl'), td')"
    "\<forall>i. if i \<in> set (tl_monitored_object_ids ?td) then handed_over fun_map (\<lambda>_. 3) (idle_heap, ?tbl) (h1, tbl') i
        else m_get fun_map i tbl' = m_get fun_map i ?tbl"
    "tl_waker_queue td' = filter (\<lambda>x. 4 \<le> fst x) (tl_waker_queue ?td)"
    "list_all (\<lambda>x. 4 + tl_wait_duration td' \<le> fst x) (tl_waker_queue td')"
    by (elim exE conjE) (rule that; assumption)
  then show ?thesis by (intro exI [of _ h1] exI [of _ tbl'] exI [of _ td']) (auto dest: spec [of _ 7])
qed

text \<open>The containers have no versioned records to go through, so none of them stays monitored.\<close>

lemma collect_containers_inert:
  assumes "scc_queue_laws Q" "seq_inv Q (rk_sequencer (kn_database k)) live"
  shows "\<exists>s'. collect_containers Q I T env names (k, td) n =
      returns ((k\<lparr>kn_database := (kn_database k)\<lparr>rk_sequencer := s'\<rparr>\<rparr>, td), []) \<and> seq_inv Q s' live"
  using assms(2)
proof (induction names arbitrary: k)
  case Nil
  then show ?case by (intro exI [of _ "rk_sequencer (kn_database k)"]) simp
next
  case (Cons name names)
  show ?case
  proof (cases "kernel_container I name k")
    case None
    with Cons show ?thesis by simp
  next
    case (Some c)
    obtain s' m where min: "seq_min Q (rk_sequencer (kn_database k)) = Some (s', m)" "seq_inv Q s' live"
      using seq_min_returns [OF assms(1) Cons.prems] by blast
    let ?k = "k\<lparr>kn_database := (kn_database k)\<lparr>rk_sequencer := s'\<rparr>\<rparr>"
    from Cons.IH [of ?k] min Some show ?thesis by (auto simp: iter_versioned_records_def)
  qed
qed

text \<open>Receiving a task keeps the order of the queues and every waker that is due.\<close>

lemma set_insert_ok:
  "sorted_wrt (<) s \<Longrightarrow> sorted_wrt (<) (set_insert k s) \<and> set (set_insert k s) = insert k (set s)"
  by (induction k s rule: set_insert.induct) auto

lemma insert_waker_due:
  assumes "ordered q" "now \<le> deadline" "fst x < now" "x \<in> set q"
  shows "x \<in> set (fst (insert_waker [0, 1, 2, 3] deadline w q))"
proof -
  obtain q' lost where i: "insert_waker [0, 1, 2, 3] deadline w q = (q', lost)" by fastforce
  have "distinct [0, 1, 2, 3 :: nat]" by simp
  note ok = insert_waker_ok [OF assms(1) this i]
  have "distinct (map fst q)" using assms(1) by (simp add: ordered_def strict_sorted_iff)
  then have "map_of q (fst x) = Some (snd x)" using assms(4) by (simp add: map_of_is_SomeI)
  moreover have "fst x \<notin> (\<lambda>i. deadline + i) ` set [0, 1, 2, 3]" using assms(2,3) by auto
  ultimately have "map_of q' (fst x) = Some (snd x)" using ok by simp
  from map_of_SomeD [OF this] show ?thesis unfolding i by simp
qed

lemma receive_ok:
  assumes r: "receive_task now (h, td) = ((h', td'), go)" and q: "ordered (tl_waker_queue td)"
    and ids: "sorted_wrt (<) (tl_monitored_object_ids td)"
  shows "go \<longleftrightarrow> \<not> (\<exists>ts. channel h = Shutdown # ts)" "same_owners h h'" "ordered (tl_waker_queue td')"
    "sorted_wrt (<) (tl_monitored_object_ids td')"
    "\<And>x. x \<in> set (tl_waker_queue td) \<Longrightarrow> fst x < now \<Longrightarrow> x \<in> set (tl_waker_queue td')"
proof -
  have o: "ordered (fst (insert_waker [0, 1, 2, 3] deadline w (tl_waker_queue td)))" for deadline w
    using q by (rule insert_waker_ordered) simp
  note simps = receive_task_def Let_def wake_def same_owners_def
  show "go \<longleftrightarrow> \<not> (\<exists>ts. channel h = Shutdown # ts)"
    using r by (auto simp: simps split: list.splits task.splits if_splits)
  show "same_owners h h'"
    using r by (auto simp: simps split: list.splits task.splits if_splits)
  show "ordered (tl_waker_queue td')"
    using r q o by (auto simp: simps simp del: insert_waker.simps split: list.splits task.splits if_splits)
  show "sorted_wrt (<) (tl_monitored_object_ids td')"
    using r ids set_insert_ok [OF ids] by (auto simp: simps simp del: insert_waker.simps split: list.splits task.splits if_splits)
  show "x \<in> set (tl_waker_queue td')" if "x \<in> set (tl_waker_queue td)" "fst x < now" for x
    using r that insert_waker_due [OF q _ that(2,1)]
    by (auto simp: simps simp del: insert_waker.simps split: list.splits task.splits if_splits)
qed

text \<open>The objects a round hands over: those monitored before, and the one it is asked to monitor.\<close>

definition to_hand_over :: "'b heap \<Rightarrow> thread_local_data \<Rightarrow> object_id set" where
  "to_hand_over h td = set (tl_monitored_object_ids td) \<union> {i. \<exists>ts. channel h = MonitorObject i # ts}"

lemma receive_monitored:
  assumes "receive_task now (h, td) = ((h', td'), go)" and "sorted_wrt (<) (tl_monitored_object_ids td)"
  shows "set (tl_monitored_object_ids td') = to_hand_over h td"
  using assms(1) set_insert_ok [OF assms(2)]
  by (auto simp: to_hand_over_def receive_task_def Let_def simp del: insert_waker.simps
      split: list.splits task.splits if_splits)

text \<open>
  C32: A round of the task processor. The state is the one the round finds when it looks at the channel,
  \<open>k0\<close>, whatever the other threads did before; its sequencer and queues are in order, its objects are
  well-formed and transactions that were rolled back have rolled back their journals. The round ends the
  loop exactly when the task it receives is the request to shut down. Otherwise it panics exactly if a
  deletion that cannot be undone is among the objects it hands over, those monitored before and the one
  it is asked to monitor, and if not, it returns, invokes the wakers that are due and goes on.
\<close>

theorem task_round_returns:
  fixes k0 :: "('q, 'b, 't, 'i) kernel"
  assumes Q: "scc_queue_laws Q" and T: "scc_map_laws T" and others: "te_others env k = k0"
    and seq: "seq_inv Q (rk_sequencer (kn_database k0)) live" and rc: "rollback_complete (rk_heap (kn_database k0))"
    and q: "ordered (tl_waker_queue td)" and ids: "sorted_wrt (<) (tl_monitored_object_ids td)"
    and ok: "\<forall>i st. m_get T i (rk_table (kn_database k0)) = Some st \<longrightarrow> wf_state (rk_heap (kn_database k0)) st"
  shows "if \<exists>ts. channel (rk_heap (kn_database k0)) = Shutdown # ts
    then \<exists>k'. process_round Q I T env (k, td) = returns ((k', td), False)
    else if \<exists>i \<in> to_hand_over (rk_heap (kn_database k0)) td. \<exists>st. m_get T i (rk_table (kn_database k0)) = Some st \<and>
        stuck_state (rk_heap (kn_database k0)) st
    then process_round Q I T env (k, td) = panics
    else \<exists>k' td'. process_round Q I T env (k, td) = returns ((k', td'), True) \<and> ordered (tl_waker_queue td') \<and>
      list_all (\<lambda>x. te_now env \<le> fst x) (tl_waker_queue td') \<and>
      set (map snd (filter (\<lambda>x. fst x < te_now env) (tl_waker_queue td))) \<subseteq> set (woken (rk_heap (kn_database k')))"
proof -
  let ?h = "rk_heap (kn_database k0)" and ?tbl = "rk_table (kn_database k0)"
  let ?stuck = "\<exists>i \<in> to_hand_over ?h td. \<exists>st. m_get T i ?tbl = Some st \<and> stuck_state ?h st"
  obtain h1 td1 go where r: "receive_task (te_now env) (?h, td) = ((h1, td1), go)" by (metis prod.exhaust)
  note rok = receive_ok [OF r q ids]
  note mon = receive_monitored [OF r ids]
  have rc1: "rollback_complete h1" using rollback_complete_same_owners [OF rok(2) rc] .
  have d: "distinct (tl_monitored_object_ids td1)" using rok(4) by (simp add: strict_sorted_iff)
  have wf1: "\<forall>i \<in> set (tl_monitored_object_ids td1). \<forall>st. m_get T i ?tbl = Some st \<longrightarrow> wf_state h1 st"
    using ok wf_state_same_owners [OF rok(2)] by blast
  consider "\<not> go" | "go" "?stuck" | "go" "\<not> ?stuck" by blast
  then show ?thesis
  proof cases
    case 1
    then have "\<exists>ts. channel ?h = Shutdown # ts" using rok(1) by simp
    moreover from this r have "td1 = td" by (auto simp: receive_task_def)
    ultimately show ?thesis using r 1 others by (auto simp: process_round_def)
  next
    case 2
    then have "\<exists>i \<in> set (tl_monitored_object_ids td1). \<exists>st. m_get T i ?tbl = Some st \<and> stuck_state h1 st"
      using mon stuck_same_owners [OF rok(2)] by auto
    from time_critical_stuck [OF T rc1 d wf1 this] r 2 others
    have "process_round Q I T env (k, td) = panics" by (simp add: process_round_def)
    with 2 rok(1) show ?thesis by simp
  next
    case 3
    have st: "\<forall>i \<in> set (tl_monitored_object_ids td1). \<forall>st. m_get T i ?tbl = Some st \<longrightarrow> settled h1 st"
      using 3(2) wf1 mon stuck_same_owners [OF rok(2)] by (auto simp: settled_def)
    obtain h2 tbl2 td2 where t: "process_time_critical_tasks T (te_at env) (te_now env) ((h1, ?tbl), td1) =
        returns ((h2\<lparr>woken := woken h2 @ map snd (filter (\<lambda>x. fst x < te_now env) (tl_waker_queue td1))\<rparr>, tbl2), td2)"
      and w: "tl_waker_queue td2 = filter (\<lambda>x. te_now env \<le> fst x) (tl_waker_queue td1)"
      and o: "ordered (tl_waker_queue td2)"
      using time_critical_ok [OF T rc1 rok(3) d st, of "te_at env" "te_now env"]
      by (elim exE conjE) (rule that; assumption)
    let ?h2 = "h2\<lparr>woken := woken h2 @ map snd (filter (\<lambda>x. fst x < te_now env) (tl_waker_queue td1))\<rparr>"
    let ?k = "with_heap_table (?h2, tbl2) k0"
    have "seq_inv Q (rk_sequencer (kn_database ?k)) live" using seq by (simp add: with_heap_table_def)
    from collect_containers_inert [OF Q this] obtain s' where
      c: "collect_containers Q I T env (tl_monitored_containers td2) (?k, td2\<lparr>tl_monitored_containers := []\<rparr>) 0 =
        returns ((?k\<lparr>kn_database := (kn_database ?k)\<lparr>rk_sequencer := s'\<rparr>\<rparr>, td2\<lparr>tl_monitored_containers := []\<rparr>), [])" by blast
    have due: "set (map snd (filter (\<lambda>x. fst x < te_now env) (tl_waker_queue td))) \<subseteq> set (woken ?h2)"
      using rok(5) by auto
    have "process_round Q I T env (k, td) = returns ((?k\<lparr>kn_database := (kn_database ?k)\<lparr>rk_sequencer := s'\<rparr>\<rparr>,
        td2\<lparr>tl_monitored_containers := []\<rparr>), True)"
      using r 3 t c others by (simp add: process_round_def)
    moreover have "list_all (\<lambda>x. te_now env \<le> fst x) (tl_waker_queue td2)" by (simp add: w list_all_iff)
    ultimately have "\<exists>k' td'. process_round Q I T env (k, td) = returns ((k', td'), True) \<and> ordered (tl_waker_queue td') \<and>
      list_all (\<lambda>x. te_now env \<le> fst x) (tl_waker_queue td') \<and>
      set (map snd (filter (\<lambda>x. fst x < te_now env) (tl_waker_queue td))) \<subseteq> set (woken (rk_heap (kn_database k')))"
      using due o by (intro exI [of _ "?k\<lparr>kn_database := (kn_database ?k)\<lparr>rk_sequencer := s'\<rparr>\<rparr>"]
          exI [of _ "td2\<lparr>tl_monitored_containers := []\<rparr>"]) (simp add: with_heap_table_def)
    with 3 rok(1) show ?thesis by (simp only: if_False simp_thms)
  qed
qed


definition quiet_kernel :: "(entry list, waker list, u64 \<rightharpoonup> object_state, string \<rightharpoonup> container) kernel" where
  "quiet_kernel =
     \<lparr>kn_database = \<lparr>rk_sequencer = default_sequencer list_queue 2, rk_heap = idle_heap\<lparr>channel := [MonitorContainer ''a'']\<rparr>,
        rk_table = Map.empty, rk_free = []\<rparr>,
      kn_containers = [''a'' \<mapsto> \<lparr>ct_address = 1, ct_metadata = Metadata\<rparr>], kn_next_container = 2\<rparr>"

theorem task_round_returns_witness:
  "\<exists>k' td'. process_round list_queue fun_index fun_map \<lparr>te_now = 4, te_at = (\<lambda>_. 4), te_others = (\<lambda>k. k)\<rparr>
      (quiet_kernel, thread_local_new\<lparr>tl_waker_queue := [(2, 5)]\<rparr>) = returns ((k', td'), True) \<and>
    5 \<in> set (woken (rk_heap (kn_database k')))"
proof -
  let ?env = "\<lparr>te_now = 4, te_at = (\<lambda>_. 4), te_others = (\<lambda>k. k)\<rparr>"
  have laws: "scc_map_laws (fun_map :: (u64 \<rightharpoonup> object_state, object_state) scc_map)"
    by (simp add: scc_map_laws_def fun_map_def)
  have p: "te_others ?env quiet_kernel = quiet_kernel"
    "seq_inv list_queue (rk_sequencer (kn_database quiet_kernel)) []"
    "rollback_complete (rk_heap (kn_database quiet_kernel))" "ordered (tl_waker_queue (thread_local_new\<lparr>tl_waker_queue := [(2, 5)]\<rparr>))"
    "sorted_wrt (<) (tl_monitored_object_ids (thread_local_new\<lparr>tl_waker_queue := [(2, 5)]\<rparr>))"
    "\<forall>i st. m_get fun_map i (rk_table (kn_database quiet_kernel)) = Some st \<longrightarrow> wf_state (rk_heap (kn_database quiet_kernel)) st"
    using seq_inv_default [OF list_queue_laws, of 2] rollback_complete_same_owners [OF _ rollback_complete_idle]
    by (simp_all add: quiet_kernel_def thread_local_new_def fun_map_def same_owners_def)
  have c: "channel (rk_heap (kn_database quiet_kernel)) = [MonitorContainer ''a'']"
    "m_get fun_map i (rk_table (kn_database quiet_kernel)) = None" for i by (simp_all add: quiet_kernel_def fun_map_def)
  from task_round_returns [OF list_queue_laws laws p, where I = fun_index] show ?thesis
    by (simp add: c) blast
qed

end
