(* ===== verification/Int_Hash.thy ===== *)
theory Int_Hash
  imports Tsf_Prelude
begin

text \<open>
  The hasher of integers and the identifiers of shards (\<^verbatim>\<open>src/src/utils.rs\<close>).
\<close>

section \<open>Definitions\<close>

text \<open>\<^verbatim>\<open>IntHasher\<close>: a union of eight bytes and an integer, kept as the bytes.\<close>

type_synonym int_hasher = "u8 list"

definition default_hasher :: int_hasher where
  "default_hasher = replicate 8 0"

definition xor_bytes :: "u8 list \<Rightarrow> int_hasher \<Rightarrow> int_hasher" where
  "xor_bytes c s = map2 (\<lambda>x y. x XOR y) (take (length c) s) c @ drop (length c) s"

fun hasher_write :: "u8 list \<Rightarrow> int_hasher \<Rightarrow> int_hasher" where
  "hasher_write msg s =
     (if length msg < 8 then xor_bytes msg s else hasher_write (drop 8 msg) (xor_bytes (take 8 msg) s))"

declare hasher_write.simps [simp del]

definition MULTIPLIER :: u64 where
  "MULTIPLIER = 0x9FB21C651E98DF25"

definition mix_rotations :: "u64 \<Rightarrow> u64" where
  "mix_rotations v = v XOR (word_rotr 49 v XOR word_rotl 24 v)"

definition mix_shift :: "u64 \<Rightarrow> u64" where
  "mix_shift v = v XOR drop_bit 24 v"

definition hasher_finish :: "int_hasher \<Rightarrow> u64" where
  "hasher_finish s =
     (let v = from_le_bytes s;
          v = mix_rotations v;
          v = v * MULTIPLIER;
          v = mix_shift v;
          v = v * MULTIPLIER
      in mix_shift v)"

text \<open>
  The hash of the current thread's identifier, cut to the size of a pointer. Which bytes the standard
  library feeds to the hasher for a \<^verbatim>\<open>ThreadId\<close> is not documented: \<open>hashed_bytes\<close> is a parameter.
\<close>

definition shard_id :: "('thread_id \<Rightarrow> u8 list) \<Rightarrow> 'thread_id \<Rightarrow> 'usize::len word" where
  "shard_id hashed_bytes thread_id = ucast (hasher_finish (hasher_write (hashed_bytes thread_id) default_hasher))"

definition advise_num_shards :: "nat option \<Rightarrow> nat" where
  "advise_num_shards available = (case available of None \<Rightarrow> 1 | Some n \<Rightarrow> n)"

section \<open>Lemmas\<close>

lemma rotr_rotr: "word_rotr a (word_rotr b x) = word_rotr (a + b) (x :: u64)"
proof (rule bit_word_eqI)
  fix n assume n: "n < LENGTH(64)"
  have "(n + a) mod LENGTH(64) < LENGTH(64)" by (rule mod_less_divisor) simp
  with n show "bit (word_rotr a (word_rotr b x)) n = bit (word_rotr (a + b) x) n"
    by (simp only: bit_word_rotr_iff mod_add_left_eq add.assoc simp_thms)
qed

lemma rotr_xor: "word_rotr a (x XOR y) = word_rotr a x XOR word_rotr a (y :: u64)"
  by (rule bit_word_eqI) (simp add: bit_word_rotr_iff bit_xor_iff)

lemma rotl_rotr: "word_rotl 24 x = word_rotr 40 (x :: u64)"
  by (rule bit_word_eqI) (simp add: bit_word_rotr_iff bit_word_rotl_iff)

text \<open>Mixing with two rotations; doing it twice doubles the rotations, as equal terms cancel out.\<close>

definition mix :: "nat \<Rightarrow> nat \<Rightarrow> u64 \<Rightarrow> u64" where
  "mix a b x = x XOR (word_rotr a x XOR word_rotr b x)"

lemma mix_mix: "mix a b (mix a b x) = mix (a + a) (b + b) x"
  by (simp add: mix_def rotr_xor rotr_rotr add.commute [of b a]) (simp add: xor.assoc xor.left_commute)

lemma mix_full_turn: "mix (64 * m) (64 * n) x = x"
  by (rule bit_word_eqI) (simp add: mix_def bit_word_rotr_iff bit_xor_iff)

lemma inj_mix: "inj (mix a b)"
proof (rule inj_on_inverseI)
  fix x
  let ?m = "\<lambda>k. mix (k * a) (k * b)"
  have d: "?m k (?m k y) = ?m (2 * k) y" for k y
    by (simp add: mix_mix mult_2 distrib_right)
  have "?m 32 (?m 16 (?m 8 (?m 4 (?m 2 (?m 1 (mix a b x)))))) = x"
    using d [of 1 x] d [of 2 x] d [of 4 x] d [of 8 x] d [of 16 x] d [of 32 x] mix_full_turn [of a b x] by simp
  then show "(\<lambda>y. ?m 32 (?m 16 (?m 8 (?m 4 (?m 2 (?m 1 y)))))) (mix a b x) = x" .
qed

lemma mix_rotations_mix: "mix_rotations v = mix 49 40 v"
  by (simp add: mix_rotations_def mix_def rotl_rotr)

lemma inj_mix_rotations: "inj mix_rotations"
  using inj_mix [of 49 40] by (simp add: inj_def mix_rotations_mix)

lemma inj_mix_shift: "inj mix_shift"
proof (rule inj_on_inverseI)
  fix x :: u64
  show "(\<lambda>y. y XOR (drop_bit 24 y XOR drop_bit 48 y)) (mix_shift x) = x"
    by (rule bit_word_eqI) (auto simp: mix_shift_def bit_xor_iff bit_drop_bit_eq ac_simps)
qed

lemma inj_multiply: "inj (\<lambda>x. x * MULTIPLIER)"
proof (rule inj_on_inverseI)
  fix x :: u64
  have "MULTIPLIER * 192419422752744621 = 1" by (simp add: MULTIPLIER_def)
  then show "(\<lambda>y. y * 192419422752744621) (x * MULTIPLIER) = x" by (simp only: mult.assoc mult_1_right)
qed

lemma hasher_finish_inj:
  assumes "length s = 8" and "length s' = 8" and "hasher_finish s = hasher_finish s'"
  shows "s = s'"
proof -
  from assms(3) have "mix_shift (mix_shift (mix_rotations (from_le_bytes s) * MULTIPLIER) * MULTIPLIER) =
      mix_shift (mix_shift (mix_rotations (from_le_bytes s') * MULTIPLIER) * MULTIPLIER)"
    by (simp add: hasher_finish_def)
  from this [THEN injD [OF inj_mix_shift], THEN injD [OF inj_multiply], THEN injD [OF inj_mix_shift],
      THEN injD [OF inj_multiply], THEN injD [OF inj_mix_rotations]]
  have "to_le_bytes 8 (from_le_bytes s :: u64) = to_le_bytes 8 (from_le_bytes s' :: u64)" by simp
  with assms(1,2) show ?thesis by simp
qed

lemma length_xor_bytes [simp]: "length c \<le> length s \<Longrightarrow> length (xor_bytes c s) = length s"
  by (simp add: xor_bytes_def)

lemma length_hasher_write [simp]: "length s = 8 \<Longrightarrow> length (hasher_write m s) = 8"
proof (induction m s rule: hasher_write.induct)
  case (1 msg s)
  then show ?case by (subst hasher_write.simps) simp
qed

lemma xor_cancel: "(a XOR b = a XOR c) = (b = (c :: u8))"
  by (metis xor.assoc xor.left_neutral xor_self_eq)

lemma map2_xor_inj:
  "length m = length s \<Longrightarrow> length m' = length s \<Longrightarrow>
   map2 (\<lambda>x y. x XOR y) s m = map2 (\<lambda>x y. x XOR y) s m' \<longleftrightarrow> m = (m' :: u8 list)"
proof (induction s arbitrary: m m')
  case (Cons x s)
  then show ?case by (cases m; cases m') (simp_all add: xor_cancel)
qed simp

lemma hasher_write_short:
  assumes "length m \<le> 8" and "length s = 8"
  shows "hasher_write m s = xor_bytes m s"
proof (cases "length m = 8")
  case True
  then have "hasher_write m s = hasher_write [] (xor_bytes m s)" by (subst hasher_write.simps) simp
  then show ?thesis by (simp add: hasher_write.simps [of "[]"] xor_bytes_def)
qed (use assms in \<open>simp add: hasher_write.simps [of m]\<close>)

section \<open>Properties\<close>

text \<open>
  C35: \<^verbatim>\<open>IntHasher\<close> has no collisions on integers: written into a hasher in any state, two messages of the
  same length of at most eight bytes have the same hash only if they are equal; in particular the hash
  is injective on the integers of eight bytes.
\<close>

theorem int_hasher_injective:
  assumes "length s = 8" and "length m = length m'" and "length m \<le> 8"
  shows "hasher_finish (hasher_write m s) = hasher_finish (hasher_write m' s) \<longleftrightarrow> m = m'"
proof
  assume h: "hasher_finish (hasher_write m s) = hasher_finish (hasher_write m' s)"
  have "hasher_write m s = hasher_write m' s" by (rule hasher_finish_inj [OF _ _ h]) (simp_all add: assms(1))
  then have "xor_bytes m s = xor_bytes m' s" using assms by (simp add: hasher_write_short)
  then have "map2 (\<lambda>x y. x XOR y) (take (length m) s) m = map2 (\<lambda>x y. x XOR y) (take (length m) s) m'"
    using assms by (simp add: xor_bytes_def)
  then show "m = m'" using assms by (subst (asm) map2_xor_inj) simp_all
qed simp

theorem int_hasher_injective_witness:
  "hasher_finish (hasher_write (to_le_bytes 8 (1 :: u64)) default_hasher) \<noteq>
   hasher_finish (hasher_write (to_le_bytes 8 (2 :: u64)) default_hasher)"
proof -
  have "length default_hasher = 8" by (simp add: default_hasher_def)
  moreover have "length (to_le_bytes 8 (1 :: u64)) = length (to_le_bytes 8 (2 :: u64))" "length (to_le_bytes 8 (1 :: u64)) \<le> 8"
    by simp_all
  moreover have "to_le_bytes 8 (1 :: u64) \<noteq> to_le_bytes 8 (2 :: u64)" by code_simp
  ultimately show ?thesis using int_hasher_injective by blast
qed

end
