(* ===== verification/Page_Manager.thy ===== *)
theory Page_Manager
  imports File_Io
begin

text \<open>
  The header of the database file (\<^verbatim>\<open>src/src/persistence_layer/file_io/database_header.rs\<close>) and the
  page manager (\<^verbatim>\<open>page_manager.rs\<close>): cached pages, free pages, and the operations the I/O thread
  runs for them.
\<close>

section \<open>The header of the database file\<close>

record 'f database_header =
  dh_version :: u64
  dh_log_head :: u64
  dh_container_directory_head :: u64
  dh_free_pages :: "'f"
  dh_free_page_scanner_offset :: u64

definition VERSION :: u64 where
  "VERSION = 1"

definition DEFAULT_LOG_HEAD_PAGE :: u64 where
  "DEFAULT_LOG_HEAD_PAGE = 512"

definition DEFAULT_CONTAINER_DIRECTORY_PAGE :: u64 where
  "DEFAULT_CONTAINER_DIRECTORY_PAGE = 1024"

definition DEFAULT_FREE_PAGE :: u64 where
  "DEFAULT_FREE_PAGE = 1536"

text \<open>The \<open>?\<close> operator on the files' operations.\<close>

definition try_io ::
  "random_access_file \<times> unit result \<Rightarrow> (random_access_file \<Rightarrow> random_access_file \<times> 'a result) \<Rightarrow>
     random_access_file \<times> 'a result" where
  "try_io r f = (case r of (db, Inl e) \<Rightarrow> (db, Err e) | (db, Inr _) \<Rightarrow> f db)"

text \<open>\<open>fault n\<close> is the error of the \<open>n\<close>-th operation on the file, if it fails.\<close>

definition header_from_file ::
  "('f, u64) bag_of \<Rightarrow> (nat \<Rightarrow> error option) \<Rightarrow> random_access_file \<Rightarrow>
     random_access_file \<times> 'f database_header result" where
  "header_from_file F fault db =
     (if raf_len db = 0 then
        try_io (raf_set_len (fault 0) (of_nat PAGE_SIZE * 4) db) (\<lambda>db.
        try_io (raf_write (fault 1) (to_le_bytes 8 VERSION) (of_nat PAGE_HEADER_LEN) db) (\<lambda>db.
        try_io (raf_write (fault 2) (to_le_bytes 8 DEFAULT_LOG_HEAD_PAGE) (of_nat PAGE_HEADER_LEN + 8) db) (\<lambda>db.
        try_io (raf_write (fault 3) (to_le_bytes 8 DEFAULT_CONTAINER_DIRECTORY_PAGE) (of_nat PAGE_HEADER_LEN + 16) db) (\<lambda>db.
          (db, Ok \<lparr>dh_version = VERSION, dh_log_head = DEFAULT_LOG_HEAD_PAGE,
                   dh_container_directory_head = DEFAULT_CONTAINER_DIRECTORY_PAGE,
                   dh_free_pages = bag_push F DEFAULT_FREE_PAGE (bag_empty F),
                   dh_free_page_scanner_offset = DEFAULT_FREE_PAGE\<rparr>)))))
      else
        (case page_from_file (fault 0) db 0 of
           Inl e \<Rightarrow> (db, Err e)
         | Inr p \<Rightarrow>
             (db, Ok \<lparr>dh_version = from_le_bytes (take 8 (page_content p)),
                      dh_log_head = from_le_bytes (take 8 (drop 8 (page_content p))),
                      dh_container_directory_head = from_le_bytes (take 8 (drop 16 (page_content p))),
                      dh_free_pages = bag_empty F,
                      dh_free_page_scanner_offset = DEFAULT_FREE_PAGE\<rparr>)))"

section \<open>The page manager\<close>

text \<open>
  The operations of \<^verbatim>\<open>scc::HashCache\<close> as the page manager uses them: it looks at the entry of an
  address, replaces it while it is locked, or fills a vacant one, which may evict another entry.
\<close>

record 'c hash_cache =
  hc_get :: "u64 \<Rightarrow> 'c \<Rightarrow> evictable_page option"
  hc_update :: "u64 \<Rightarrow> evictable_page \<Rightarrow> 'c \<Rightarrow> 'c"
  hc_put :: "u64 \<Rightarrow> evictable_page \<Rightarrow> 'c \<Rightarrow> 'c \<times> (u64 \<times> evictable_page) option"

fun put_law :: "'c hash_cache \<Rightarrow> u64 \<Rightarrow> evictable_page \<Rightarrow> 'c \<Rightarrow> 'c \<times> (u64 \<times> evictable_page) option \<Rightarrow> bool" where
  "put_law H a p c (c', None) \<longleftrightarrow> (\<forall>b. hc_get H b c' = (if b = a then Some p else hc_get H b c))"
| "put_law H a p c (c', Some (e, q)) \<longleftrightarrow> e \<noteq> a \<and> hc_get H e c = Some q \<and>
     (\<forall>b. hc_get H b c' = (if b = a then Some p else if b = e then None else hc_get H b c))"

definition hash_cache_laws :: "'c hash_cache \<Rightarrow> bool" where
  "hash_cache_laws H \<longleftrightarrow>
     (\<forall>a p c. hc_get H a c \<noteq> None \<longrightarrow>
        (\<forall>b. hc_get H b (hc_update H a p c) = (if b = a then Some p else hc_get H b c))) \<and>
     (\<forall>a p c. hc_get H a c = None \<longrightarrow> put_law H a p c (hc_put H a p c))"

text \<open>A cache of one page, for evaluating the model.\<close>

definition slot_cache :: "(u64 \<times> evictable_page) option hash_cache" where
  "slot_cache =
     \<lparr>hc_get = (\<lambda>a c. case c of None \<Rightarrow> None | Some (b, p) \<Rightarrow> if a = b then Some p else None),
      hc_update = (\<lambda>a p c. Some (a, p)),
      hc_put = (\<lambda>a p c. (Some (a, p), c))\<rparr>"

record ('c, 'f, 'b) page_manager =
  pm_db :: random_access_file
  pm_header :: "'f database_header"
  pm_cache :: "'c"
  pm_tasks :: "io_task list"
  pm_free_wakers :: "'b"
  pm_caching_wakers :: "'b"
  pm_woken :: "waker list"

definition ALLOCATION_UNIT :: u64 where
  "ALLOCATION_UNIT = 512 * 2048"

definition page_manager_from_db ::
  "('f, u64) bag_of \<Rightarrow> 'b scc_bag \<Rightarrow> 'c \<Rightarrow> (nat \<Rightarrow> error option) \<Rightarrow> random_access_file \<Rightarrow>
     ('c, 'f, 'b) page_manager result" where
  "page_manager_from_db F B empty_cache fault db =
     (case header_from_file F fault db of
        (_, Inl e) \<Rightarrow> Err e
      | (db, Inr header) \<Rightarrow>
          Ok \<lparr>pm_db = db, pm_header = header, pm_cache = empty_cache, pm_tasks = [],
              pm_free_wakers = bag_empty B, pm_caching_wakers = bag_empty B, pm_woken = []\<rparr>)"

text \<open>
  The channel to the I/O thread, as a list of any length. The source sends into a bounded channel and
  blocks while it is full; that the sender may have to wait for the I/O thread is not modelled.
\<close>

definition send_io :: "io_task \<Rightarrow> ('c, 'f, 'b) page_manager \<Rightarrow> ('c, 'f, 'b) page_manager" where
  "send_io task pm = pm\<lparr>pm_tasks := pm_tasks pm @ [task]\<rparr>"

text \<open>\<^verbatim>\<open>pop_all((), |_, w| w.wake())\<close> on a bag of wakers.\<close>

definition drain_body :: "'b scc_bag \<Rightarrow> 'b \<times> waker list \<Rightarrow> (('b \<times> waker list) \<times> unit flow) run" where
  "drain_body B = (\<lambda>(b, ws).
     case bag_pop B b of
       (b, Some w) \<Rightarrow> returns ((b, ws @ [w]), Again)
     | (b, None) \<Rightarrow> returns ((b, ws), Return ()))"

definition wake_free :: "'b scc_bag \<Rightarrow> ('c, 'f, 'b) page_manager \<Rightarrow> ('c, 'f, 'b) page_manager run" where
  "wake_free B pm =
     bind_run (rust_loop (drain_body B) (pm_free_wakers pm, pm_woken pm)) (\<lambda>((b, ws), _).
       returns (pm\<lparr>pm_free_wakers := b, pm_woken := ws\<rparr>))"

definition wake_caching :: "'b scc_bag \<Rightarrow> ('c, 'f, 'b) page_manager \<Rightarrow> ('c, 'f, 'b) page_manager run" where
  "wake_caching B pm =
     bind_run (rust_loop (drain_body B) (pm_caching_wakers pm, pm_woken pm)) (\<lambda>((b, ws), _).
       returns (pm\<lparr>pm_caching_wakers := b, pm_woken := ws\<rparr>))"

subsection \<open>What the I/O thread runs\<close>

text \<open>
  The loops that repeat a failed operation: \<open>faults\<close> are the errors of the operating system that are
  still to come.
\<close>

definition next_fault :: "error list \<Rightarrow> error option" where
  "next_fault faults = (case faults of [] \<Rightarrow> None | e # _ \<Rightarrow> Some e)"

definition write_back_evicted_body ::
  "(error list \<times> evictable_page \<times> random_access_file) \<Rightarrow>
     ((error list \<times> evictable_page \<times> random_access_file) \<times> unit flow) run" where
  "write_back_evicted_body = (\<lambda>(faults, s).
     case write_back (next_fault faults) s of
       (s, Inr _) \<Rightarrow> returns ((tl faults, s), Return ())
     | (s, Inl _) \<Rightarrow> returns ((tl faults, s), Again))"

definition write_back_evicted_sync ::
  "error list \<Rightarrow> evictable_page \<Rightarrow> ('c, 'f, 'b) page_manager \<Rightarrow> ('c, 'f, 'b) page_manager run" where
  "write_back_evicted_sync faults p pm =
     bind_run (rust_loop write_back_evicted_body (faults, p, pm_db pm)) (\<lambda>((_, _, db), _).
       returns (pm\<lparr>pm_db := db\<rparr>))"

definition fill_body ::
  "'c hash_cache \<Rightarrow> u64 \<Rightarrow> random_access_file \<Rightarrow> error list \<times> 'c \<Rightarrow>
     ((error list \<times> 'c) \<times> (u64 \<times> evictable_page) option flow) run" where
  "fill_body H address db = (\<lambda>(faults, c).
     case hc_get H address c of
       Some _ \<Rightarrow> returns ((faults, c), Return None)
     | None \<Rightarrow>
         (case page_from_file (next_fault faults) db address of
            Inl _ \<Rightarrow> returns ((tl faults, c), Again)
          | Inr p \<Rightarrow> (case hc_put H address p c of (c, evicted) \<Rightarrow> returns ((tl faults, c), Return evicted))))"

definition fill_cache_sync ::
  "'c hash_cache \<Rightarrow> 'b scc_bag \<Rightarrow> error list \<Rightarrow> error list \<Rightarrow> u64 \<Rightarrow> ('c, 'f, 'b) page_manager \<Rightarrow>
     ('c, 'f, 'b) page_manager run" where
  "fill_cache_sync H B read_faults write_faults address pm =
     bind_run (rust_loop (fill_body H address (pm_db pm)) (read_faults, pm_cache pm)) (\<lambda>((_, c), evicted).
       let pm = pm\<lparr>pm_cache := c\<rparr> in
       bind_run
         (case evicted of
            Some (_, p) \<Rightarrow> if is_dirty p then write_back_evicted_sync write_faults p pm else returns pm
          | None \<Rightarrow> returns pm)
         (wake_caching B))"

definition write_back_body ::
  "'c hash_cache \<Rightarrow> u64 \<Rightarrow> error list \<times> 'c \<times> random_access_file \<Rightarrow>
     ((error list \<times> 'c \<times> random_access_file) \<times> unit flow) run" where
  "write_back_body H address = (\<lambda>(faults, c, db).
     case hc_get H address c of
       None \<Rightarrow> returns ((faults, c, db), Return ())
     | Some p \<Rightarrow>
         (case write_back (next_fault faults) (p, db) of
            ((p, db), Inr _) \<Rightarrow> returns ((tl faults, hc_update H address p c, db), Return ())
          | ((p, db), Inl _) \<Rightarrow> returns ((tl faults, hc_update H address p c, db), Again)))"

definition write_back_sync ::
  "'c hash_cache \<Rightarrow> error list \<Rightarrow> u64 \<Rightarrow> ('c, 'f, 'b) page_manager \<Rightarrow> ('c, 'f, 'b) page_manager run" where
  "write_back_sync H faults address pm =
     bind_run (rust_loop (write_back_body H address) (faults, pm_cache pm, pm_db pm)) (\<lambda>((_, c, db), _).
       returns (pm\<lparr>pm_cache := c, pm_db := db\<rparr>))"

definition add_free_page ::
  "('f, u64) bag_of \<Rightarrow> 'b scc_bag \<Rightarrow> u64 \<Rightarrow> ('c, 'f, 'b) page_manager \<Rightarrow> ('c, 'f, 'b) page_manager run" where
  "add_free_page F B address pm =
     wake_free B (pm\<lparr>pm_header := (pm_header pm)\<lparr>dh_free_pages := bag_push F address (dh_free_pages (pm_header pm))\<rparr>\<rparr>)"

definition set_len_body ::
  "u64 \<Rightarrow> error list \<times> random_access_file \<Rightarrow> ((error list \<times> random_access_file) \<times> unit flow) run" where
  "set_len_body new_size = (\<lambda>(faults, db).
     case raf_set_len (next_fault faults) new_size db of
       (db, Inr _) \<Rightarrow> returns ((tl faults, db), Return ())
     | (db, Inl _) \<Rightarrow> returns ((tl faults, db), Again))"

primrec add_free_pages ::
  "('f, u64) bag_of \<Rightarrow> 'b scc_bag \<Rightarrow> u64 list \<Rightarrow> ('c, 'f, 'b) page_manager \<Rightarrow> ('c, 'f, 'b) page_manager run" where
  "add_free_pages F B [] pm = returns pm"
| "add_free_pages F B (a # addresses) pm = bind_run (add_free_page F B a pm) (add_free_pages F B addresses)"

definition resize_sync ::
  "('f, u64) bag_of \<Rightarrow> 'b scc_bag \<Rightarrow> error list \<Rightarrow> u64 \<Rightarrow> ('c, 'f, 'b) page_manager \<Rightarrow>
     ('c, 'f, 'b) page_manager run" where
  "resize_sync F B faults new_size pm =
     (let old_size = raf_len (pm_db pm) in
      bind_run (rust_loop (set_len_body new_size) (faults, pm_db pm)) (\<lambda>((_, db), _).
        add_free_pages F B
          (map (\<lambda>i. of_nat i * of_nat PAGE_SIZE) [unat old_size div PAGE_SIZE..<unat new_size div PAGE_SIZE])
          (pm\<lparr>pm_db := db\<rparr>)))"

subsection \<open>What database workers run\<close>

text \<open>
  The futures of the page manager. \<open>meanwhile\<close> is what the I/O thread does to the page manager
  between the two looks of a poll.
\<close>

definition await_free_poll ::
  "('f, u64) bag_of \<Rightarrow> 'b scc_bag \<Rightarrow> (('c, 'f, 'b) page_manager \<Rightarrow> ('c, 'f, 'b) page_manager) \<Rightarrow> waker \<Rightarrow>
     ('c, 'f, 'b) page_manager \<Rightarrow> ('c, 'f, 'b) page_manager \<times> unit poll" where
  "await_free_poll F B meanwhile w pm =
     (let is_empty = (\<lambda>pm. snd (bag_pop F (dh_free_pages (pm_header pm))) = None) in
      if \<not> is_empty pm then (pm, Ready ())
      else
        let pm = meanwhile (pm\<lparr>pm_free_wakers := bag_push B w (pm_free_wakers pm)\<rparr>)
        in (pm, if is_empty pm then Pending else Ready ()))"

definition await_cached_poll ::
  "'c hash_cache \<Rightarrow> 'b scc_bag \<Rightarrow> (('c, 'f, 'b) page_manager \<Rightarrow> ('c, 'f, 'b) page_manager) \<Rightarrow> waker \<Rightarrow> u64 \<Rightarrow>
     ('c, 'f, 'b) page_manager \<Rightarrow> ('c, 'f, 'b) page_manager \<times> unit poll" where
  "await_cached_poll H B meanwhile w address pm =
     (if hc_get H address (pm_cache pm) \<noteq> None then (pm, Ready ())
      else
        let pm = meanwhile (pm\<lparr>pm_caching_wakers := bag_push B w (pm_caching_wakers pm)\<rparr>)
        in (pm, if hc_get H address (pm_cache pm) \<noteq> None then Ready () else Pending))"

text \<open>
  \<^verbatim>\<open>read_page\<close> and \<^verbatim>\<open>write_page\<close>: \<open>visit\<close> is what is done with the cached page. The flag says that the
  future awaits the page.
\<close>

definition access_body ::
  "'c hash_cache \<Rightarrow> 'b scc_bag \<Rightarrow> (('c, 'f, 'b) page_manager \<Rightarrow> ('c, 'f, 'b) page_manager) \<Rightarrow> waker \<Rightarrow> u64 \<Rightarrow>
     (evictable_page \<Rightarrow> 'c \<Rightarrow> 'c \<times> 'r) \<Rightarrow> ('c, 'f, 'b) page_manager \<times> bool \<Rightarrow>
     ((('c, 'f, 'b) page_manager \<times> bool) \<times> 'r result poll flow) run" where
  "access_body H B meanwhile w address visit = (\<lambda>(pm, awaiting).
     if awaiting then
       (case await_cached_poll H B meanwhile w address pm of
          (pm, Pending) \<Rightarrow> returns ((pm, True), Return Pending)
        | (pm, Ready _) \<Rightarrow> returns ((pm, False), Again))
     else
       (case hc_get H address (pm_cache pm) of
          Some p \<Rightarrow>
            (case visit p (pm_cache pm) of
               (c, r) \<Rightarrow> returns ((pm\<lparr>pm_cache := c\<rparr>, False), Return (Ready (Ok r))))
        | None \<Rightarrow> returns ((send_io (FillCache address) pm, True), Again)))"

definition read_page ::
  "'c hash_cache \<Rightarrow> 'b scc_bag \<Rightarrow> (('c, 'f, 'b) page_manager \<Rightarrow> ('c, 'f, 'b) page_manager) \<Rightarrow> waker \<Rightarrow> u64 \<Rightarrow>
     (evictable_page \<Rightarrow> 'r) \<Rightarrow> ('c, 'f, 'b) page_manager \<times> bool \<Rightarrow>
     ((('c, 'f, 'b) page_manager \<times> bool) \<times> 'r result poll) run" where
  "read_page H B meanwhile w address reader =
     rust_loop (access_body H B meanwhile w address (\<lambda>p c. (c, reader p)))"

definition write_page ::
  "'c hash_cache \<Rightarrow> 'b scc_bag \<Rightarrow> (('c, 'f, 'b) page_manager \<Rightarrow> ('c, 'f, 'b) page_manager) \<Rightarrow> waker \<Rightarrow> u64 \<Rightarrow>
     (evictable_page \<Rightarrow> evictable_page \<times> 'r) \<Rightarrow> ('c, 'f, 'b) page_manager \<times> bool \<Rightarrow>
     ((('c, 'f, 'b) page_manager \<times> bool) \<times> 'r result poll) run" where
  "write_page H B meanwhile w address writer =
     rust_loop (access_body H B meanwhile w address
       (\<lambda>p c. case writer p of (p, r) \<Rightarrow> (hc_update H address p c, r)))"

text \<open>\<^verbatim>\<open>get_free_page\<close>; an overflow of the offset of the scanner runs into \<^verbatim>\<open>todo!()\<close>.\<close>

definition get_free_body ::
  "('f, u64) bag_of \<Rightarrow> 'b scc_bag \<Rightarrow> (('c, 'f, 'b) page_manager \<Rightarrow> ('c, 'f, 'b) page_manager) \<Rightarrow> waker \<Rightarrow>
     ('c, 'f, 'b) page_manager \<times> bool \<Rightarrow>
     ((('c, 'f, 'b) page_manager \<times> bool) \<times> u64 result poll flow) run" where
  "get_free_body F B meanwhile w = (\<lambda>(pm, awaiting).
     if awaiting then
       (case await_free_poll F B meanwhile w pm of
          (pm, Pending) \<Rightarrow> returns ((pm, True), Return Pending)
        | (pm, Ready _) \<Rightarrow> returns ((pm, False), Again))
     else
       (case bag_pop F (dh_free_pages (pm_header pm)) of
          (f, popped) \<Rightarrow>
            let pm = pm\<lparr>pm_header := (pm_header pm)\<lparr>dh_free_pages := f\<rparr>\<rparr>;
                file_len = raf_len (pm_db pm);
                offset = dh_free_page_scanner_offset (pm_header pm);
                new_offset = offset + ALLOCATION_UNIT
            in case popped of
                 Some a \<Rightarrow> returns ((pm, False), Return (Ready (Ok a)))
               | None \<Rightarrow>
                   if new_offset < offset then panics
                   else if file_len \<le> new_offset then
                     returns ((send_io (Resize (file_len + ALLOCATION_UNIT)) pm, True), Again)
                   else
                     returns ((pm\<lparr>pm_header := (pm_header pm)\<lparr>dh_free_page_scanner_offset := new_offset\<rparr>\<rparr>, False), Again)))"

definition get_free_page ::
  "('f, u64) bag_of \<Rightarrow> 'b scc_bag \<Rightarrow> (('c, 'f, 'b) page_manager \<Rightarrow> ('c, 'f, 'b) page_manager) \<Rightarrow> waker \<Rightarrow>
     ('c, 'f, 'b) page_manager \<times> bool \<Rightarrow> ((('c, 'f, 'b) page_manager \<times> bool) \<times> u64 result poll) run" where
  "get_free_page F B meanwhile w = rust_loop (get_free_body F B meanwhile w)"

text \<open>\<^verbatim>\<open>create_page\<close>: getting a free page, then linking it unless another page is linked to it already.\<close>

datatype create_state = GettingPage bool | LinkingPage u64 bool

definition link_page :: "u64 \<Rightarrow> evictable_page \<Rightarrow> evictable_page \<times> bool" where
  "link_page prev p =
     (if prev_page_address p \<noteq> 0 then (p, False) else (set_prev_page_address prev p, True))"

definition create_page_body ::
  "'c hash_cache \<Rightarrow> ('f, u64) bag_of \<Rightarrow> 'b scc_bag \<Rightarrow> (('c, 'f, 'b) page_manager \<Rightarrow> ('c, 'f, 'b) page_manager) \<Rightarrow>
     waker \<Rightarrow> u64 \<Rightarrow> ('c, 'f, 'b) page_manager \<times> create_state \<Rightarrow>
     ((('c, 'f, 'b) page_manager \<times> create_state) \<times> u64 result poll flow) run" where
  "create_page_body H F B meanwhile w prev = (\<lambda>(pm, st).
     case st of
       GettingPage aw \<Rightarrow>
         bind_run (get_free_page F B meanwhile w (pm, aw)) (\<lambda>((pm, aw), r).
           case r of
             Pending \<Rightarrow> returns ((pm, GettingPage aw), Return Pending)
           | Ready (Inl e) \<Rightarrow> returns ((pm, GettingPage aw), Return (Ready (Err e)))
           | Ready (Inr a) \<Rightarrow> returns ((pm, LinkingPage a False), Again))
     | LinkingPage a aw \<Rightarrow>
         bind_run (write_page H B meanwhile w a (link_page prev) (pm, aw)) (\<lambda>((pm, aw), r).
           case r of
             Pending \<Rightarrow> returns ((pm, LinkingPage a aw), Return Pending)
           | Ready (Inl e) \<Rightarrow> returns ((pm, LinkingPage a aw), Return (Ready (Err e)))
           | Ready (Inr linked) \<Rightarrow>
               if linked then returns ((send_io (WriteBack a) pm, LinkingPage a aw), Return (Ready (Ok a)))
               else returns ((pm, GettingPage False), Again)))"

definition create_page ::
  "'c hash_cache \<Rightarrow> ('f, u64) bag_of \<Rightarrow> 'b scc_bag \<Rightarrow> (('c, 'f, 'b) page_manager \<Rightarrow> ('c, 'f, 'b) page_manager) \<Rightarrow>
     waker \<Rightarrow> u64 \<Rightarrow> ('c, 'f, 'b) page_manager \<times> create_state \<Rightarrow>
     ((('c, 'f, 'b) page_manager \<times> create_state) \<times> u64 result poll) run" where
  "create_page H F B meanwhile w prev = rust_loop (create_page_body H F B meanwhile w prev)"

text \<open>\<^verbatim>\<open>delete_page\<close>: reading the links, updating the neighbours, resetting the page.\<close>

datatype delete_state =
    ReadingLinks bool
  | UpdatingPrev u64 u64 bool
  | UpdatingNext u64 u64 bool
  | Resetting bool

definition set_next_dirty :: "u64 \<Rightarrow> evictable_page \<Rightarrow> evictable_page \<times> unit" where
  "set_next_dirty a p = (set_dirty (set_next_page_address a p), ())"

definition set_prev_dirty :: "u64 \<Rightarrow> evictable_page \<Rightarrow> evictable_page \<times> unit" where
  "set_prev_dirty a p = (set_dirty (set_prev_page_address a p), ())"

definition reset_page :: "evictable_page \<Rightarrow> evictable_page \<times> unit" where
  "reset_page p = (set_dirty (set_next_page_address 0 (set_prev_page_address 0 p)), ())"

definition delete_page_body ::
  "'c hash_cache \<Rightarrow> ('f, u64) bag_of \<Rightarrow> 'b scc_bag \<Rightarrow> (('c, 'f, 'b) page_manager \<Rightarrow> ('c, 'f, 'b) page_manager) \<Rightarrow>
     waker \<Rightarrow> u64 \<Rightarrow> ('c, 'f, 'b) page_manager \<times> delete_state \<Rightarrow>
     ((('c, 'f, 'b) page_manager \<times> delete_state) \<times> unit result poll flow) run" where
  "delete_page_body H F B meanwhile w address = (\<lambda>(pm, st).
     case st of
       ReadingLinks aw \<Rightarrow>
         bind_run (read_page H B meanwhile w address (\<lambda>p. (prev_page_address p, next_page_address p)) (pm, aw))
           (\<lambda>((pm, aw), r).
              case r of
                Pending \<Rightarrow> returns ((pm, ReadingLinks aw), Return Pending)
              | Ready (Inl e) \<Rightarrow> returns ((pm, ReadingLinks aw), Return (Ready (Err e)))
              | Ready (Inr (prev, nxt)) \<Rightarrow> returns ((pm, UpdatingPrev prev nxt False), Again))
     | UpdatingPrev prev nxt aw \<Rightarrow>
         if prev = 0 then returns ((pm, UpdatingNext prev nxt False), Again)
         else
           bind_run (write_page H B meanwhile w prev (set_next_dirty nxt) (pm, aw)) (\<lambda>((pm, aw), r).
             case r of
               Pending \<Rightarrow> returns ((pm, UpdatingPrev prev nxt aw), Return Pending)
             | Ready (Inl e) \<Rightarrow> returns ((pm, UpdatingPrev prev nxt aw), Return (Ready (Err e)))
             | Ready (Inr _) \<Rightarrow> returns ((send_io (WriteBack prev) pm, UpdatingNext prev nxt False), Again))
     | UpdatingNext prev nxt aw \<Rightarrow>
         if nxt = 0 then returns ((pm, Resetting False), Again)
         else
           bind_run (write_page H B meanwhile w nxt (set_prev_dirty prev) (pm, aw)) (\<lambda>((pm, aw), r).
             case r of
               Pending \<Rightarrow> returns ((pm, UpdatingNext prev nxt aw), Return Pending)
             | Ready (Inl e) \<Rightarrow> returns ((pm, UpdatingNext prev nxt aw), Return (Ready (Err e)))
             | Ready (Inr _) \<Rightarrow> returns ((send_io (WriteBack nxt) pm, Resetting False), Again))
     | Resetting aw \<Rightarrow>
         bind_run (write_page H B meanwhile w address reset_page (pm, aw)) (\<lambda>((pm, aw), r).
           case r of
             Pending \<Rightarrow> returns ((pm, Resetting aw), Return Pending)
           | Ready (Inl e) \<Rightarrow> returns ((pm, Resetting aw), Return (Ready (Err e)))
           | Ready (Inr _) \<Rightarrow>
               bind_run (add_free_page F B address pm) (\<lambda>pm. returns ((pm, Resetting aw), Return (Ready (Ok ()))))))"

definition delete_page ::
  "'c hash_cache \<Rightarrow> ('f, u64) bag_of \<Rightarrow> 'b scc_bag \<Rightarrow> (('c, 'f, 'b) page_manager \<Rightarrow> ('c, 'f, 'b) page_manager) \<Rightarrow>
     waker \<Rightarrow> u64 \<Rightarrow> ('c, 'f, 'b) page_manager \<times> delete_state \<Rightarrow>
     ((('c, 'f, 'b) page_manager \<times> delete_state) \<times> unit result poll) run" where
  "delete_page H F B meanwhile w address = rust_loop (delete_page_body H F B meanwhile w address)"

end
