(* ===== verification/Page_Cache.thy ===== *)
theory Page_Cache
  imports Page_Manager
begin

text \<open>
  What the page manager keeps: the content of a page is that of its cache entry, or that of the file
  where there is none, and the operations of the I/O thread do not change it.
\<close>

section \<open>Pages and the file\<close>

lemma aligned_address:
  fixes a :: u64
  assumes "unat a mod PAGE_SIZE = 0"
  shows "a AND NOT 1 = a" "a AND 1 = 0"
proof -
  have "512 dvd unat a" using assms by (simp add: PAGE_SIZE_def dvd_eq_mod_eq_0)
  then have "even (unat a)" by (rule dvd_trans [rotated]) simp
  then have "\<not> bit (unat a) 0" by (simp add: bit_0)
  then have b: "\<not> bit a 0" by (simp only: bit_unsigned_iff) simp
  have z: "0 < n" if "bit a n" for n using b that by (cases n) auto
  show "a AND NOT 1 = a" by (rule bit_word_eqI) (auto simp: bit_simps dest: z)
  show "a AND 1 = 0" by (rule bit_word_eqI) (auto simp: bit_simps dest: z)
qed

text \<open>The page after it was written back.\<close>

definition cleaned :: "evictable_page \<Rightarrow> evictable_page" where
  "cleaned p = p\<lparr>pg_address_and_dirty_flag := pg_address_and_dirty_flag p AND NOT 1\<rparr>"

lemma cleaned_simps [simp]:
  "\<not> is_dirty (cleaned p)" "page_address (cleaned p) = page_address p" "pg_buffer (cleaned p) = pg_buffer p"
  by (simp_all add: cleaned_def is_dirty_def page_address_def and.assoc)

lemma fresh_page [simp]:
  assumes "page_at db a"
  shows "page_address \<lparr>pg_address_and_dirty_flag = a, pg_buffer = b\<rparr> = a"
    "\<not> is_dirty \<lparr>pg_address_and_dirty_flag = a, pg_buffer = b\<rparr>"
  using assms aligned_address [of a] by (simp_all add: page_at_def page_address_def is_dirty_def)

text \<open>\<open>db'\<close> has the pages of \<open>db\<close>, except that the page at \<open>a\<close> is now \<open>buffer\<close>.\<close>

definition page_stored :: "u64 \<Rightarrow> u8 list \<Rightarrow> random_access_file \<Rightarrow> random_access_file \<Rightarrow> bool" where
  "page_stored a buffer db db' \<longleftrightarrow> length (raf_file db') = length (raf_file db) \<and> file_page db' a = buffer \<and>
     raf_len db' = max (raf_len db) (a + of_nat PAGE_SIZE) \<and>
     (\<forall>c. page_at db c \<longrightarrow> c \<noteq> a \<longrightarrow> file_page db' c = file_page db c)"

text \<open>A file of whole pages whose length the library knows.\<close>

definition sized :: "random_access_file \<Rightarrow> bool" where
  "sized db \<longleftrightarrow> raf_len db = of_nat (length (raf_file db)) \<and> length (raf_file db) < 2 ^ 64 \<and>
     length (raf_file db) mod PAGE_SIZE = 0"

definition same_size :: "random_access_file \<Rightarrow> random_access_file \<Rightarrow> bool" where
  "same_size db db' \<longleftrightarrow> length (raf_file db') = length (raf_file db) \<and> (sized db \<longrightarrow> sized db')"

lemma same_size_refl [simp]: "same_size db db"
  by (simp add: same_size_def)

lemma sized_len: "sized db \<Longrightarrow> unat (raf_len db) = length (raf_file db)"
  by (simp add: sized_def unat_of_nat take_bit_nat_eq_self)

lemma page_stored_size:
  assumes st: "page_stored a buffer db db'" and a: "page_at db a"
  shows "same_size db db'"
proof -
  have "raf_len db' = raf_len db" if db: "sized db"
  proof -
    have l: "unat (raf_len db) = length (raf_file db)" using db by (rule sized_len)
    have "unat a + 512 < 2 ^ LENGTH(64)" using a by (simp add: page_at_def PAGE_SIZE_def)
    then have "unat (a + of_nat PAGE_SIZE) = unat a + 512"
      by (simp add: PAGE_SIZE_def unat_add_lem [THEN iffD1])
    then have "a + of_nat PAGE_SIZE \<le> raf_len db"
      using a l by (simp add: word_le_nat_alt page_at_def PAGE_SIZE_def)
    with st show ?thesis by (simp add: page_stored_def max_def)
  qed
  with st show ?thesis by (simp add: same_size_def sized_def page_stored_def)
qed

lemma page_stored_at [simp]: "page_stored a buffer db db' \<Longrightarrow> page_at db' c = page_at db c"
  by (simp add: page_stored_def page_at_def)

lemma write_back_ok:
  assumes "wf_page p" "page_at db (page_address p)"
  shows "\<exists>db'. write_back None (p, db) =
      ((cleaned p, db'), Ok ()) \<and>
    page_stored (page_address p) (pg_buffer p) db db'"
  using raf_write_page [OF assms(2)] assms(1) by (fastforce simp: write_back_def cleaned_def wf_page_def page_stored_def)

lemma write_back_fault [simp]: "write_back (Some e) (p, db) = ((p, db), Err e)"
  by (simp add: write_back_def raf_write_def)

lemma write_back_evicted_ok:
  assumes "wf_page p" "page_at db (page_address p)"
  shows "\<exists>p' db'. rust_loop write_back_evicted_body (faults, p, db) = returns (([], p', db'), ()) \<and>
    page_stored (page_address p) (pg_buffer p) db db'"
proof (induction faults)
  case Nil
  with write_back_ok [OF assms] show ?case
    by (subst rust_loop.simps) (auto simp: write_back_evicted_body_def next_fault_def)
next
  case (Cons e faults)
  then show ?case by (subst rust_loop.simps) (simp add: write_back_evicted_body_def next_fault_def)
qed

section \<open>The cache\<close>

lemma slot_cache_laws: "hash_cache_laws slot_cache"
  by (auto simp: hash_cache_laws_def slot_cache_def split: option.splits)

lemma hc_update_get:
  assumes "hash_cache_laws H" "hc_get H a c \<noteq> None"
  shows "hc_get H b (hc_update H a p c) = (if b = a then Some p else hc_get H b c)"
  using assms unfolding hash_cache_laws_def by blast

lemma hc_put_law: "hash_cache_laws H \<Longrightarrow> hc_get H a c = None \<Longrightarrow> put_law H a p c (hc_put H a p c)"
  unfolding hash_cache_laws_def by blast

lemma hc_put_free:
  assumes "hash_cache_laws H" "hc_get H a c = None" "hc_put H a p c = (c', None)"
  shows "hc_get H b c' = (if b = a then Some p else hc_get H b c)"
  using hc_put_law [OF assms(1,2), of p] assms(3) by simp

lemma hc_put_evicts:
  assumes "hash_cache_laws H" "hc_get H a c = None" "hc_put H a p c = (c', Some (e, q))"
  shows "e \<noteq> a" "hc_get H e c = Some q"
    "hc_get H b c' = (if b = a then Some p else if b = e then None else hc_get H b c)"
  using hc_put_law [OF assms(1,2), of p] assms(3) by simp_all

section \<open>Waking up\<close>

lemma drain_returns:
  assumes B: "scc_bag_laws B"
  shows "\<exists>b' us. rust_loop (drain_body B) (b, ws) = returns ((b', ws @ us), ()) \<and>
    mset us = bag_content B b \<and> bag_content B b' = {#}"
proof (induction "size (bag_content B b)" arbitrary: b ws rule: less_induct)
  case less
  obtain b1 w where pop: "bag_pop B b = (b1, w)" by fastforce
  show ?case
  proof (cases w)
    case None
    with bag_pop_law [OF B pop] pop show ?thesis
      by (auto simp: rust_loop.simps drain_body_def intro!: exI [of _ b1])
  next
    case (Some x)
    with bag_pop_law(1) [OF B pop] less [of b1 "ws @ [x]"] obtain b' us
      where "rust_loop (drain_body B) (b1, ws @ [x]) = returns ((b', ws @ x # us), ())"
        "mset us = bag_content B b1" "bag_content B b' = {#}" by auto
    with pop Some bag_pop_law(1) [OF B pop] show ?thesis
      by (subst rust_loop.simps) (auto simp: drain_body_def intro!: exI [of _ b'] exI [of _ "x # us"])
  qed
qed

lemma wake_caching_returns:
  assumes "scc_bag_laws B"
  shows "\<exists>b' us. wake_caching B pm = returns (pm\<lparr>pm_caching_wakers := b', pm_woken := pm_woken pm @ us\<rparr>) \<and>
    mset us = bag_content B (pm_caching_wakers pm) \<and> bag_content B b' = {#}"
  using drain_returns [OF assms, of "pm_caching_wakers pm" "pm_woken pm"] by (fastforce simp: wake_caching_def)

lemma wake_free_returns:
  assumes "scc_bag_laws B"
  shows "\<exists>b' us. wake_free B pm = returns (pm\<lparr>pm_free_wakers := b', pm_woken := pm_woken pm @ us\<rparr>) \<and>
    mset us = bag_content B (pm_free_wakers pm) \<and> bag_content B b' = {#}"
  using drain_returns [OF assms, of "pm_free_wakers pm" "pm_woken pm"] by (fastforce simp: wake_free_def)

section \<open>Coherence\<close>

text \<open>What a page holds, wherever it is, and that the cache agrees with the file on clean pages.\<close>

definition view_in :: "'c hash_cache \<Rightarrow> 'c \<Rightarrow> random_access_file \<Rightarrow> u64 \<Rightarrow> u8 list" where
  "view_in H c db a = (case hc_get H a c of Some p \<Rightarrow> pg_buffer p | None \<Rightarrow> file_page db a)"

definition entry_ok :: "random_access_file \<Rightarrow> u64 \<Rightarrow> evictable_page \<Rightarrow> bool" where
  "entry_ok db a p \<longleftrightarrow> wf_page p \<and> page_address p = a \<and> page_at db a \<and>
     (\<not> is_dirty p \<longrightarrow> pg_buffer p = file_page db a)"

definition coherent_in :: "'c hash_cache \<Rightarrow> 'c \<Rightarrow> random_access_file \<Rightarrow> bool" where
  "coherent_in H c db \<longleftrightarrow> (\<forall>a p. hc_get H a c = Some p \<longrightarrow> entry_ok db a p)"

definition same_in ::
  "'c hash_cache \<Rightarrow> 'c \<Rightarrow> random_access_file \<Rightarrow> 'c \<Rightarrow> random_access_file \<Rightarrow> bool" where
  "same_in H c db c' db' \<longleftrightarrow> (\<forall>a. page_at db a \<longrightarrow> page_at db' a \<and> view_in H c' db' a = view_in H c db a)"

abbreviation page_view :: "'c hash_cache \<Rightarrow> ('c, 'f, 'b) page_manager \<Rightarrow> u64 \<Rightarrow> u8 list" where
  "page_view H pm \<equiv> view_in H (pm_cache pm) (pm_db pm)"

abbreviation coherent :: "'c hash_cache \<Rightarrow> ('c, 'f, 'b) page_manager \<Rightarrow> bool" where
  "coherent H pm \<equiv> coherent_in H (pm_cache pm) (pm_db pm)"

abbreviation same_pages :: "'c hash_cache \<Rightarrow> ('c, 'f, 'b) page_manager \<Rightarrow> ('c, 'f, 'b) page_manager \<Rightarrow> bool" where
  "same_pages H pm pm' \<equiv> same_in H (pm_cache pm) (pm_db pm) (pm_cache pm') (pm_db pm')"

lemma same_in_refl [simp]: "same_in H c db c db"
  by (simp add: same_in_def)

lemma same_in_trans: "same_in H c db c' db' \<Longrightarrow> same_in H c' db' c'' db'' \<Longrightarrow> same_in H c db c'' db''"
  by (simp add: same_in_def)

lemma coherent_entry: "coherent_in H c db \<Longrightarrow> hc_get H a c = Some p \<Longrightarrow> entry_ok db a p"
  by (simp add: coherent_in_def)

lemma entry_ok_fresh: "page_at db a \<Longrightarrow> entry_ok db a \<lparr>pg_address_and_dirty_flag = a, pg_buffer = file_page db a\<rparr>"
  by (simp add: entry_ok_def wf_page_def length_file_page)

lemma entry_ok_stored:
  "page_stored a buffer db db' \<Longrightarrow> c \<noteq> a \<Longrightarrow> entry_ok db c p \<Longrightarrow> entry_ok db' c p"
  by (simp add: entry_ok_def) (simp add: page_stored_def)

lemma fill_loop:
  assumes "page_at db a"
  shows "\<exists>fs c' evicted. rust_loop (fill_body H a db) (faults, c) = returns ((fs, c'), evicted) \<and>
    (case hc_get H a c of
       Some _ \<Rightarrow> c' = c \<and> evicted = None
     | None \<Rightarrow> hc_put H a \<lparr>pg_address_and_dirty_flag = a, pg_buffer = file_page db a\<rparr> c = (c', evicted))"
proof (induction faults)
  case Nil
  show ?case
    by (subst rust_loop.simps)
      (auto simp: fill_body_def next_fault_def page_from_file_ok [OF assms] split: option.splits prod.splits)
next
  case (Cons e faults)
  show ?case
  proof (cases "hc_get H a c")
    case None
    then have "rust_loop (fill_body H a db) (e # faults, c) = rust_loop (fill_body H a db) (faults, c)"
      by (subst rust_loop.simps) (simp add: fill_body_def next_fault_def page_from_file_def raf_read_def)
    with Cons show ?thesis by simp
  qed (subst rust_loop.simps, simp add: fill_body_def)
qed


lemma put_keeps_pages:
  assumes H: "hash_cache_laws H" and co: "coherent_in H c db" and a: "page_at db a"
    and none: "hc_get H a c = None"
    and put: "hc_put H a \<lparr>pg_address_and_dirty_flag = a, pg_buffer = file_page db a\<rparr> c = (c', None)"
  shows "coherent_in H c' db" "same_in H c db c' db"
proof -
  have g: "hc_get H a c' = Some \<lparr>pg_address_and_dirty_flag = a, pg_buffer = file_page db a\<rparr>"
    "\<And>b. b \<noteq> a \<Longrightarrow> hc_get H b c' = hc_get H b c"
    using hc_put_free [OF H none put] by simp_all
  show "coherent_in H c' db"
    unfolding coherent_in_def
  proof (intro allI impI)
    fix b p assume "hc_get H b c' = Some p"
    then show "entry_ok db b p" using g coherent_entry [OF co] entry_ok_fresh [OF a] by (cases "b = a") auto
  qed
  show "same_in H c db c' db"
    unfolding same_in_def view_in_def
  proof (intro allI impI conjI)
    fix b show "(case hc_get H b c' of None \<Rightarrow> file_page db b | Some p \<Rightarrow> pg_buffer p) =
        (case hc_get H b c of None \<Rightarrow> file_page db b | Some p \<Rightarrow> pg_buffer p)"
      using g none by (cases "b = a") auto
  qed simp
qed

lemma evict_keeps_pages:
  assumes H: "hash_cache_laws H" and co: "coherent_in H c db" and a: "page_at db a"
    and none: "hc_get H a c = None"
    and put: "hc_put H a \<lparr>pg_address_and_dirty_flag = a, pg_buffer = file_page db a\<rparr> c = (c', Some (e, q))"
    and db': "if is_dirty q then page_stored e (pg_buffer q) db db' else db' = db"
  shows "coherent_in H c' db'" "same_in H c db c' db'"
proof -
  let ?p = "\<lparr>pg_address_and_dirty_flag = a, pg_buffer = file_page db a\<rparr>"
  have g: "e \<noteq> a" "hc_get H e c = Some q" "hc_get H e c' = None" "hc_get H a c' = Some ?p"
    "\<And>b. b \<noteq> a \<Longrightarrow> b \<noteq> e \<Longrightarrow> hc_get H b c' = hc_get H b c"
    using hc_put_evicts [OF H none put] by auto
  have q: "entry_ok db e q" using co g(2) by (rule coherent_entry)
  have other: "entry_ok db b p \<Longrightarrow> b \<noteq> e \<Longrightarrow> entry_ok db' b p" for b p
    using db' entry_ok_stored by (auto split: if_splits)
  have e: "file_page db' e = pg_buffer q" using db' q by (auto simp: entry_ok_def page_stored_def split: if_splits)
  have unchanged: "page_at db b \<Longrightarrow> b \<noteq> e \<Longrightarrow> file_page db' b = file_page db b" for b
    using db' by (auto simp: page_stored_def split: if_splits)
  have at: "page_at db' b = page_at db b" for b using db' by (auto split: if_splits)
  show "coherent_in H c' db'"
    unfolding coherent_in_def
  proof (intro allI impI)
    fix b p assume p: "hc_get H b c' = Some p"
    then have b: "b \<noteq> e" using g(3) by auto
    show "entry_ok db' b p"
    proof (cases "b = a")
      case True
      with p g(4) have "p = ?p" by simp
      with True show ?thesis using other [OF entry_ok_fresh [OF a]] b by simp
    next
      case False
      with p g(5) b coherent_entry [OF co] other show ?thesis by auto
    qed
  qed
  show "same_in H c db c' db'"
    unfolding same_in_def view_in_def
  proof (intro allI impI conjI)
    fix b assume b: "page_at db b"
    then show "page_at db' b" by (simp add: at)
    consider "b = e" | "b = a" | "b \<noteq> e" "b \<noteq> a" by blast
    then show "(case hc_get H b c' of None \<Rightarrow> file_page db' b | Some p \<Rightarrow> pg_buffer p) =
        (case hc_get H b c of None \<Rightarrow> file_page db b | Some p \<Rightarrow> pg_buffer p)"
      using g none e unchanged [OF b] by cases (auto split: option.split)
  qed
qed

text \<open>
  A filled entry: the loops return, the page is cached, every page keeps its content, and every
  worker that awaits a page is woken up.
\<close>

lemma fill_cache_ok:
  fixes pm :: "('c, 'f, 'b) page_manager"
  assumes H: "hash_cache_laws H" and B: "scc_bag_laws B" and co: "coherent H pm" and a: "page_at (pm_db pm) a"
  shows "\<exists>pm' ws. fill_cache_sync H B read_faults write_faults a pm = returns pm' \<and>
    coherent H pm' \<and> same_pages H pm pm' \<and> same_size (pm_db pm) (pm_db pm') \<and> hc_get H a (pm_cache pm') \<noteq> None \<and>
    pm_woken pm' = pm_woken pm @ ws \<and> mset ws = bag_content B (pm_caching_wakers pm) \<and>
    bag_content B (pm_caching_wakers pm') = {#} \<and>
    pm_header pm' = pm_header pm \<and> pm_tasks pm' = pm_tasks pm \<and> pm_free_wakers pm' = pm_free_wakers pm"
proof -
  have wake: "?thesis"
    if pm': "fill_cache_sync H B read_faults write_faults a pm = wake_caching B (pm\<lparr>pm_cache := c', pm_db := db'\<rparr>)"
      "coherent_in H c' db'" "same_in H (pm_cache pm) (pm_db pm) c' db'" "hc_get H a c' \<noteq> None"
      "same_size (pm_db pm) db'" for c' db'
  proof -
    obtain b' us where "wake_caching B (pm\<lparr>pm_cache := c', pm_db := db'\<rparr>) =
        returns (pm\<lparr>pm_cache := c', pm_db := db', pm_caching_wakers := b', pm_woken := pm_woken pm @ us\<rparr>)"
      "mset us = bag_content B (pm_caching_wakers pm)" "bag_content B b' = {#}"
      using wake_caching_returns [OF B, of "pm\<lparr>pm_cache := c', pm_db := db'\<rparr>"] by auto
    with pm' show ?thesis
      by (intro exI [of _ us] exI [of _ "pm\<lparr>pm_cache := c', pm_db := db', pm_caching_wakers := b',
          pm_woken := pm_woken pm @ us\<rparr>"]) simp
  qed
  let ?p = "\<lparr>pg_address_and_dirty_flag = a, pg_buffer = file_page (pm_db pm) a\<rparr>"
  obtain fs c' evicted
    where loop: "rust_loop (fill_body H a (pm_db pm)) (read_faults, pm_cache pm) = returns ((fs, c'), evicted)"
      and result: "case hc_get H a (pm_cache pm) of Some _ \<Rightarrow> c' = pm_cache pm \<and> evicted = None
        | None \<Rightarrow> hc_put H a ?p (pm_cache pm) = (c', evicted)"
    using fill_loop [OF a, of H read_faults "pm_cache pm"] by (elim exE conjE) (rule that)
  show ?thesis
  proof (cases "hc_get H a (pm_cache pm)")
    case (Some p)
    with result loop co show ?thesis by (intro wake) (auto simp: fill_cache_sync_def)
  next
    case None
    with result have put: "hc_put H a ?p (pm_cache pm) = (c', evicted)" by simp
    show ?thesis
    proof (cases evicted)
      case none: None
      have "hc_get H a c' \<noteq> None" using hc_put_free [OF H None, of ?p c' a] put none by simp
      with loop none put_keeps_pages [OF H co a None] put show ?thesis
        by (intro wake [where c' = c' and db' = "pm_db pm"]) (simp_all add: fill_cache_sync_def)
    next
      case (Some eq)
      obtain e q where eq: "eq = (e, q)" by fastforce
      have c': "hc_get H a c' \<noteq> None" and q: "entry_ok (pm_db pm) e q"
        using hc_put_evicts [OF H None, of ?p c' e q] put Some eq coherent_entry [OF co] by auto
      obtain fs' q' db' where stored: "if is_dirty q then
          rust_loop write_back_evicted_body (write_faults, q, pm_db pm) = returns ((fs', q', db'), ()) \<and>
          page_stored e (pg_buffer q) (pm_db pm) db' else db' = pm_db pm"
        using write_back_evicted_ok [of q "pm_db pm" write_faults] q unfolding entry_ok_def
        by (cases "is_dirty q") auto
      then have size: "same_size (pm_db pm) db'"
        using page_stored_size q by (auto simp: entry_ok_def split: if_splits)
      from stored have db': "if is_dirty q then page_stored e (pg_buffer q) (pm_db pm) db' else db' = pm_db pm"
        by (simp split: if_splits)
      show ?thesis
      proof (rule wake)
        show "fill_cache_sync H B read_faults write_faults a pm = wake_caching B (pm\<lparr>pm_cache := c', pm_db := db'\<rparr>)"
          using stored loop Some eq by (auto simp: fill_cache_sync_def write_back_evicted_sync_def split: if_splits)
      qed (use evict_keeps_pages [OF H co a None _ db'] put Some eq c' size in simp_all)
    qed
  qed
qed


section \<open>Writing back\<close>

lemma update_entry:
  assumes H: "hash_cache_laws H" and "coherent_in H c db" and a: "hc_get H a c \<noteq> None" and "entry_ok db' a p"
    and "\<And>b q. b \<noteq> a \<Longrightarrow> entry_ok db b q \<Longrightarrow> entry_ok db' b q"
  shows "coherent_in H (hc_update H a p c) db'"
  unfolding coherent_in_def
proof (intro allI impI)
  fix b q assume "hc_get H b (hc_update H a p c) = Some q"
  with assms show "entry_ok db' b q" by (cases "b = a") (auto simp: hc_update_get [OF H a] coherent_in_def)
qed

lemma write_back_loop:
  assumes H: "hash_cache_laws H" and "coherent_in H c db" and "hc_get H a c = Some p"
  shows "\<exists>c' db' p'. rust_loop (write_back_body H a) (faults, c, db) = returns (([], c', db'), ()) \<and>
    coherent_in H c' db' \<and> same_in H c db c' db' \<and> page_stored a (pg_buffer p) db db' \<and> page_at db a \<and>
    hc_get H a c' = Some p' \<and> \<not> is_dirty p' \<and> pg_buffer p' = pg_buffer p"
  using assms(2,3)
proof (induction faults arbitrary: c)
  case Nil
  from Nil.prems have e: "entry_ok db a p" by (rule coherent_entry)
  from Nil.prems have g: "hc_get H a c \<noteq> None" by simp
  let ?p = "cleaned p"
  obtain db' where w: "write_back None (p, db) = ((?p, db'), Ok ())"
    and st: "page_stored a (pg_buffer p) db db'"
    using e write_back_ok [of p db] by (auto simp: entry_ok_def)
  have "entry_ok db' a ?p"
    using e st page_stored_at [OF st, of a] by (simp add: entry_ok_def wf_page_def) (simp add: page_stored_def)
  then have co: "coherent_in H (hc_update H a ?p c) db'"
    using entry_ok_stored [OF st] by (rule update_entry [OF H Nil.prems(1) g])
  have "same_in H c db (hc_update H a ?p c) db'"
    using st page_stored_at [OF st] Nil.prems(2)
    by (auto simp: same_in_def view_in_def hc_update_get [OF H g] page_stored_def split: option.split)
  moreover have "rust_loop (write_back_body H a) ([], c, db) = returns (([], hc_update H a ?p c, db'), ())"
    using w Nil.prems(2) by (subst rust_loop.simps) (simp add: write_back_body_def next_fault_def)
  ultimately show ?case using co st e
    by (intro exI [of _ "hc_update H a ?p c"] exI [of _ db'] exI [of _ ?p]) (simp add: hc_update_get [OF H g] entry_ok_def)
next
  case (Cons e faults)
  let ?c = "hc_update H a p c"
  from Cons.prems have g: "hc_get H a c \<noteq> None" by simp
  have ent: "entry_ok db a p" using Cons.prems by (rule coherent_entry)
  then have "coherent_in H ?c db" by (rule update_entry [OF H Cons.prems(1) g])
  moreover have "rust_loop (write_back_body H a) (e # faults, c, db) = rust_loop (write_back_body H a) (faults, ?c, db)"
    using Cons.prems(2) by (subst rust_loop.simps) (simp add: write_back_body_def next_fault_def)
  moreover have "view_in H ?c = view_in H c"
    using Cons.prems(2) by (intro ext) (simp add: view_in_def hc_update_get [OF H g])
  ultimately show ?case using Cons.IH [of ?c] by (simp add: hc_update_get [OF H g] same_in_def)
qed

lemma write_back_sync_ok:
  fixes pm :: "('c, 'f, 'b) page_manager"
  assumes H: "hash_cache_laws H" and co: "coherent H pm"
  shows "\<exists>c' db'. write_back_sync H faults a pm = returns (pm\<lparr>pm_cache := c', pm_db := db'\<rparr>) \<and>
    coherent_in H c' db' \<and> same_in H (pm_cache pm) (pm_db pm) c' db' \<and> same_size (pm_db pm) db' \<and>
    (hc_get H a (pm_cache pm) \<noteq> None \<longrightarrow>
       file_page db' a = page_view H pm a \<and> (\<exists>p. hc_get H a c' = Some p \<and> \<not> is_dirty p)) \<and>
    (hc_get H a (pm_cache pm) = None \<longrightarrow> c' = pm_cache pm \<and> db' = pm_db pm)"
proof (cases "hc_get H a (pm_cache pm)")
  case None
  with co show ?thesis
    by (intro exI [of _ "pm_cache pm"] exI [of _ "pm_db pm"])
      (subst write_back_sync_def, subst rust_loop.simps, simp add: write_back_body_def)
next
  case (Some p)
  obtain c' db' p' where "rust_loop (write_back_body H a) (faults, pm_cache pm, pm_db pm) = returns (([], c', db'), ())"
    "coherent_in H c' db'" "same_in H (pm_cache pm) (pm_db pm) c' db'" "page_stored a (pg_buffer p) (pm_db pm) db'"
    "page_at (pm_db pm) a" "hc_get H a c' = Some p'" "\<not> is_dirty p'"
    using write_back_loop [OF H co Some, of faults] by (elim exE conjE) (rule that)
  with Some show ?thesis
    using page_stored_size
    by (intro exI [of _ c'] exI [of _ db']) (simp add: write_back_sync_def view_in_def, simp add: page_stored_def)
qed

section \<open>Growing the file\<close>

definition zeroed :: "u64 \<Rightarrow> random_access_file \<Rightarrow> random_access_file" where
  "zeroed n db = \<lparr>raf_file = raf_file db @ replicate (unat n - length (raf_file db)) 0, raf_len = n\<rparr>"

lemma set_len_loop:
  "rust_loop (set_len_body n) (faults, db) = returns (([], fst (raf_set_len None n db)), ())"
proof (induction faults)
  case Nil
  show ?case by (subst rust_loop.simps) (simp add: set_len_body_def next_fault_def raf_set_len_def)
next
  case (Cons e faults)
  then show ?case by (subst rust_loop.simps) (simp add: set_len_body_def next_fault_def raf_set_len_def)
qed

lemma zeroed_pages:
  assumes "length (raf_file db) \<le> unat n" and a: "page_at db a"
  shows "page_at (zeroed n db) a" "file_page (zeroed n db) a = file_page db a"
proof -
  have "unat n < 2 ^ LENGTH(64)" by (rule unsigned_less)
  with assms show "page_at (zeroed n db) a" by (simp add: page_at_def zeroed_def)
  show "file_page (zeroed n db) a = file_page db a"
    using a by (simp add: file_page_def zeroed_def page_at_def)
qed

lemma add_free_pages_ok:
  fixes pm :: "('c, 'f, 'b) page_manager"
  assumes F: "scc_bag_laws F" and B: "scc_bag_laws B"
  shows "\<exists>f b ws. add_free_pages F B addresses pm =
      returns (pm\<lparr>pm_header := (pm_header pm)\<lparr>dh_free_pages := f\<rparr>, pm_free_wakers := b, pm_woken := pm_woken pm @ ws\<rparr>) \<and>
    bag_content F f = bag_content F (dh_free_pages (pm_header pm)) + mset addresses \<and>
    (addresses \<noteq> [] \<longrightarrow> bag_content B b = {#} \<and> mset ws = bag_content B (pm_free_wakers pm)) \<and>
    (addresses = [] \<longrightarrow> b = pm_free_wakers pm \<and> ws = [])"
proof (induction addresses arbitrary: pm)
  case Nil
  then show ?case
    by (intro exI [of _ "dh_free_pages (pm_header pm)"] exI [of _ "pm_free_wakers pm"] exI [of _ "[]"]) simp
next
  case (Cons a addresses)
  let ?f = "bag_push F a (dh_free_pages (pm_header pm))"
  let ?pm = "pm\<lparr>pm_header := (pm_header pm)\<lparr>dh_free_pages := ?f\<rparr>\<rparr>"
  obtain b us where w: "add_free_page F B a pm = returns (?pm\<lparr>pm_free_wakers := b, pm_woken := pm_woken pm @ us\<rparr>)"
    and u: "mset us = bag_content B (pm_free_wakers pm)" "bag_content B b = {#}"
    using wake_free_returns [OF B, of ?pm] by (auto simp: add_free_page_def)
  let ?pm1 = "?pm\<lparr>pm_free_wakers := b, pm_woken := pm_woken pm @ us\<rparr>"
  obtain f b' ws where r: "add_free_pages F B addresses ?pm1 =
      returns (?pm1\<lparr>pm_header := (pm_header ?pm1)\<lparr>dh_free_pages := f\<rparr>, pm_free_wakers := b', pm_woken := pm_woken ?pm1 @ ws\<rparr>)"
    and f: "bag_content F f = bag_content F (dh_free_pages (pm_header ?pm1)) + mset addresses"
    and ws: "addresses \<noteq> [] \<longrightarrow> bag_content B b' = {#} \<and> mset ws = bag_content B (pm_free_wakers ?pm1)"
      "addresses = [] \<longrightarrow> b' = pm_free_wakers ?pm1 \<and> ws = []"
    using Cons.IH [of ?pm1] by (elim exE conjE) (rule that; assumption)
  have "bag_content F ?f = add_mset a (bag_content F (dh_free_pages (pm_header pm)))"
    using F by (simp add: scc_bag_laws_def)
  with f have "bag_content F f = bag_content F (dh_free_pages (pm_header pm)) + mset (a # addresses)" by simp
  moreover have "bag_content B b' = {#} \<and> mset (us @ ws) = bag_content B (pm_free_wakers pm)"
    using ws u by (cases "addresses = []") simp_all
  moreover have "add_free_pages F B (a # addresses) pm = returns (pm\<lparr>pm_header := (pm_header pm)\<lparr>dh_free_pages := f\<rparr>,
      pm_free_wakers := b', pm_woken := pm_woken pm @ us @ ws\<rparr>)"
    using w r by simp
  ultimately show ?case by (intro exI [of _ f] exI [of _ b'] exI [of _ "us @ ws"]) simp
qed


lemma sized_zeroed: "length (raf_file db) \<le> unat n \<Longrightarrow> unat n mod PAGE_SIZE = 0 \<Longrightarrow> sized (zeroed n db)"
  using unsigned_less [of n] by (simp add: sized_def zeroed_def)

lemma grown_pages:
  assumes "coherent_in H c db" "length (raf_file db) \<le> unat n"
  shows "coherent_in H c (zeroed n db)" "same_in H c db c (zeroed n db)"
  using assms zeroed_pages [OF assms(2)]
  by (auto simp: coherent_in_def entry_ok_def same_in_def view_in_def split: option.split)

lemma zeroed_new_page:
  assumes n: "length (raf_file db) \<le> unat n" "unat n mod PAGE_SIZE = 0" and db: "length (raf_file db) mod PAGE_SIZE = 0"
    and a: "page_at (zeroed n db) a" "\<not> page_at db a"
  shows "file_page (zeroed n db) a = replicate PAGE_SIZE 0"
proof -
  have "\<not> unat a + 512 \<le> length (raf_file db)"
    using a n unsigned_less [of n] by (auto simp: page_at_def PAGE_SIZE_def zeroed_def)
  moreover have "unat a mod 512 = 0" using a(1) by (simp add: page_at_def PAGE_SIZE_def)
  moreover have "length (raf_file db) mod 512 = 0" using db by (simp add: PAGE_SIZE_def)
  ultimately have "length (raf_file db) \<le> unat a"
    using pages_apart [of "unat a" "length (raf_file db)"] by linarith
  then show ?thesis using a(1) by (auto simp: file_page_def zeroed_def page_at_def PAGE_SIZE_def)
qed

text \<open>The addresses of the pages a grown file has more.\<close>

definition new_pages :: "nat \<Rightarrow> u64 \<Rightarrow> u64 list" where
  "new_pages len n = map (\<lambda>i. of_nat i * of_nat PAGE_SIZE) [len div PAGE_SIZE..<unat n div PAGE_SIZE]"

lemma resize_ok:
  fixes pm :: "('c, 'f, 'b) page_manager"
  assumes F: "scc_bag_laws F" and B: "scc_bag_laws B" and db: "sized (pm_db pm)"
    and n: "length (raf_file (pm_db pm)) \<le> unat n"
  shows "\<exists>f b ws. resize_sync F B faults n pm =
      returns (pm\<lparr>pm_db := zeroed n (pm_db pm), pm_header := (pm_header pm)\<lparr>dh_free_pages := f\<rparr>,
        pm_free_wakers := b, pm_woken := pm_woken pm @ ws\<rparr>) \<and>
    bag_content F f = bag_content F (dh_free_pages (pm_header pm)) + mset (new_pages (length (raf_file (pm_db pm))) n) \<and>
    (new_pages (length (raf_file (pm_db pm))) n \<noteq> [] \<longrightarrow>
       bag_content B b = {#} \<and> mset ws = bag_content B (pm_free_wakers pm)) \<and>
    (new_pages (length (raf_file (pm_db pm))) n = [] \<longrightarrow> b = pm_free_wakers pm \<and> ws = [])"
proof -
  have "fst (raf_set_len None n (pm_db pm)) = zeroed n (pm_db pm)"
    using n by (simp add: raf_set_len_def zeroed_def)
  then have "resize_sync F B faults n pm =
      add_free_pages F B (new_pages (length (raf_file (pm_db pm))) n) (pm\<lparr>pm_db := zeroed n (pm_db pm)\<rparr>)"
    by (simp add: resize_sync_def Let_def set_len_loop new_pages_def sized_len [OF db])
  with add_free_pages_ok [OF F B, of "new_pages (length (raf_file (pm_db pm))) n" "pm\<lparr>pm_db := zeroed n (pm_db pm)\<rparr>"]
  show ?thesis by simp
qed

section \<open>Changing a cached page\<close>

text \<open>A writer that keeps the length of the page and marks it as dirty.\<close>

definition marks_dirty :: "(evictable_page \<Rightarrow> evictable_page \<times> 'r) \<Rightarrow> bool" where
  "marks_dirty writer \<longleftrightarrow> (\<forall>p. wf_page p \<longrightarrow>
     wf_page (fst (writer p)) \<and> is_dirty (fst (writer p)) \<and> page_address (fst (writer p)) = page_address p)"

lemma dirty_update:
  assumes H: "hash_cache_laws H" and co: "coherent_in H c db" and p: "hc_get H a c = Some p" and w: "marks_dirty writer"
  shows "coherent_in H (hc_update H a (fst (writer p)) c) db"
    "view_in H (hc_update H a (fst (writer p)) c) db = (view_in H c db)(a := pg_buffer (fst (writer p)))"
proof -
  have g: "hc_get H a c \<noteq> None" using p by simp
  have "entry_ok db a p" using co p by (rule coherent_entry)
  with w have "entry_ok db a (fst (writer p))" by (simp add: entry_ok_def marks_dirty_def)
  then show "coherent_in H (hc_update H a (fst (writer p)) c) db" by (rule update_entry [OF H co g])
  show "view_in H (hc_update H a (fst (writer p)) c) db = (view_in H c db)(a := pg_buffer (fst (writer p)))"
    by (intro ext) (simp add: view_in_def hc_update_get [OF H g])
qed

lemma access_cached:
  assumes "hc_get H a (pm_cache pm) = Some p" "visit p (pm_cache pm) = (c, r)"
  shows "rust_loop (access_body H B meanwhile w a visit) (pm, aw) =
    returns ((pm\<lparr>pm_cache := c\<rparr>, False), Ready (Ok r))"
proof -
  have "rust_loop (access_body H B meanwhile w a visit) (pm, False) =
      returns ((pm\<lparr>pm_cache := c\<rparr>, False), Ready (Ok r))"
    using assms by (subst rust_loop.simps) (simp add: access_body_def)
  moreover from this have "rust_loop (access_body H B meanwhile w a visit) (pm, True) =
      returns ((pm\<lparr>pm_cache := c\<rparr>, False), Ready (Ok r))"
    using assms(1) by (subst rust_loop.simps) (simp add: access_body_def await_cached_poll_def)
  ultimately show ?thesis by (cases aw) simp_all
qed

lemma access_waits:
  fixes pm :: "('c, 'f, 'b) page_manager"
  assumes "hc_get H a (pm_cache pm) = None"
  shows "rust_loop (access_body H B (\<lambda>pm. pm) w a visit) (pm, True) =
      returns ((pm\<lparr>pm_caching_wakers := bag_push B w (pm_caching_wakers pm)\<rparr>, True), Pending)"
    "rust_loop (access_body H B (\<lambda>pm. pm) w a visit) (pm, False) =
      returns ((pm\<lparr>pm_tasks := pm_tasks pm @ [FillCache a],
        pm_caching_wakers := bag_push B w (pm_caching_wakers pm)\<rparr>, True), Pending)"
proof -
  have aw: "rust_loop (access_body H B (\<lambda>pm. pm) w a visit) (pm, True) =
      returns ((pm\<lparr>pm_caching_wakers := bag_push B w (pm_caching_wakers pm)\<rparr>, True), Pending)"
    if "hc_get H a (pm_cache pm) = None" for pm :: "('c, 'f, 'b) page_manager"
    using that by (subst rust_loop.simps) (simp add: access_body_def await_cached_poll_def Let_def)
  show "rust_loop (access_body H B (\<lambda>pm. pm) w a visit) (pm, True) =
      returns ((pm\<lparr>pm_caching_wakers := bag_push B w (pm_caching_wakers pm)\<rparr>, True), Pending)"
    by (rule aw) (rule assms)
  show "rust_loop (access_body H B (\<lambda>pm. pm) w a visit) (pm, False) =
      returns ((pm\<lparr>pm_tasks := pm_tasks pm @ [FillCache a],
        pm_caching_wakers := bag_push B w (pm_caching_wakers pm)\<rparr>, True), Pending)"
    using assms aw [of "send_io (FillCache a) pm"] by (subst rust_loop.simps) (simp add: access_body_def send_io_def)
qed

end
