(* ===== verification/Io_Thread.thy ===== *)
theory Io_Thread
  imports Page_Cache Log_Durability Recovery
begin

text \<open>
  The loop of the I/O thread (\<^verbatim>\<open>process_sync\<close> in
  \<^verbatim>\<open>src/src/persistence_layer/file_io/io_task_processor.rs\<close>) and the end of the layer
  (\<^verbatim>\<open>FileIO::drop\<close> in \<^verbatim>\<open>mod.rs\<close>).
\<close>

section \<open>Definitions\<close>

text \<open>
  What the layer shares with its thread, and the thread's own offset into the log. The wakers of the
  recovery data are invoked by the thread.
\<close>

record ('q, 'b, 't, 'c, 'f) io_thread =
  it_data :: "'b file_io_data"
  it_pages :: "('c, 'f, 'b) page_manager"
  it_recovery :: "('q, 'b, 't) recovered recovery_data option"
  it_woken :: "waker list"
  it_log_offset :: u64

text \<open>
  The surroundings of one task: the errors the operating system reports for it, what the other
  threads do before the task is received, and what they do during a recovery.
\<close>

record ('q, 'b, 't, 'c, 'f) io_env =
  ie_log_faults :: "u64 \<Rightarrow> error list"
  ie_read_faults :: "error list"
  ie_write_faults :: "error list"
  ie_recover_faults :: "u64 \<Rightarrow> nat \<Rightarrow> error option"
  ie_cancelled :: "u64 \<Rightarrow> nat \<Rightarrow> bool"
  ie_others :: "('q, 'b, 't, 'c, 'f) io_thread \<Rightarrow> ('q, 'b, 't, 'c, 'f) io_thread"
  ie_meanwhile :: "('q, 'b, 't) recovered recovery_data option \<Rightarrow> ('q, 'b, 't) recovered recovery_data option"

definition io_thread_start ::
  "'b file_io_data \<Rightarrow> ('c, 'f, 'b) page_manager \<Rightarrow> ('q, 'b, 't, 'c, 'f) io_thread" where
  "io_thread_start d pm =
     \<lparr>it_data = d, it_pages = pm, it_recovery = None, it_woken = [], it_log_offset = raf_len (fd_log d)\<rparr>"

text \<open>The tasks of the page manager.\<close>

fun page_task ::
  "'c hash_cache \<Rightarrow> ('f, u64) bag_of \<Rightarrow> 'b scc_bag \<Rightarrow> error list \<Rightarrow> error list \<Rightarrow> io_task \<Rightarrow>
     ('c, 'f, 'b) page_manager \<Rightarrow> ('c, 'f, 'b) page_manager run" where
  "page_task H F B read_faults write_faults (Resize new_size) pm = resize_sync F B write_faults new_size pm"
| "page_task H F B read_faults write_faults (FillCache a) pm = fill_cache_sync H B read_faults write_faults a pm"
| "page_task H F B read_faults write_faults (WriteBack a) pm = write_back_sync H write_faults a pm"
| "page_task H F B read_faults write_faults (WriteBackEvicted p) pm = write_back_evicted_sync write_faults p pm"
| "page_task H F B read_faults write_faults _ pm = returns pm"

text \<open>One round of the loop; the flag says whether the loop goes on.\<close>

definition process_task ::
  "'c hash_cache \<Rightarrow> ('f, u64) bag_of \<Rightarrow> 'b scc_bag \<Rightarrow> 't object_map \<Rightarrow> ('u, playback) scc_map \<Rightarrow> 'u \<Rightarrow>
     ('q, 'b, 't, 'c, 'f) io_env \<Rightarrow> io_task \<Rightarrow> ('q, 'b, 't, 'c, 'f) io_thread \<Rightarrow>
     (('q, 'b, 't, 'c, 'f) io_thread \<times> bool) run" where
  "process_task H F B T C no_playbacks env task s =
     (let batch = bind_run (process_log_buffer_batch B (ie_log_faults env) (it_data s, it_log_offset s))
                    (\<lambda>(d, off). returns (s\<lparr>it_data := d, it_log_offset := off\<rparr>))
      in case task of
           Flush \<Rightarrow> bind_run batch (\<lambda>s. returns (s, True))
         | ShutdownIO \<Rightarrow> bind_run batch (\<lambda>s. returns (s, False))
         | Recover \<Rightarrow>
             bind_run (recover_database T C B no_playbacks (ie_recover_faults env) (ie_cancelled env)
                 (ie_meanwhile env) (fd_log (it_data s)) (it_recovery s)) (\<lambda>(data, w).
               returns (s\<lparr>it_recovery := data,
                          it_woken := it_woken s @ (case w of None \<Rightarrow> [] | Some w \<Rightarrow> [w]),
                          it_log_offset := raf_len (fd_log (it_data s))\<rparr>, True))
         | _ \<Rightarrow>
             bind_run (page_task H F B (ie_read_faults env) (ie_write_faults env) task (it_pages s)) (\<lambda>pm.
               returns (s\<lparr>it_pages := pm\<rparr>, True)))"

text \<open>The loop over the tasks in the order they are received, until all senders are gone.\<close>

primrec process_sync ::
  "'c hash_cache \<Rightarrow> ('f, u64) bag_of \<Rightarrow> 'b scc_bag \<Rightarrow> 't object_map \<Rightarrow> ('u, playback) scc_map \<Rightarrow> 'u \<Rightarrow>
     (io_task \<times> ('q, 'b, 't, 'c, 'f) io_env) list \<Rightarrow> ('q, 'b, 't, 'c, 'f) io_thread \<Rightarrow>
     ('q, 'b, 't, 'c, 'f) io_thread run" where
  "process_sync H F B T C no_playbacks [] s = returns s"
| "process_sync H F B T C no_playbacks (te # received) s =
     bind_run (process_task H F B T C no_playbacks (snd te) (fst te) (ie_others (snd te) s)) (\<lambda>(s, go).
       if go then process_sync H F B T C no_playbacks received s else returns s)"

text \<open>
  \<^verbatim>\<open>FileIO::drop\<close> sends the request to shut down until the channel takes it; \<open>drained\<close> is what the
  thread did to the channel in between. It then joins the thread.
\<close>

definition shutdown_body ::
  "('b file_io_data \<Rightarrow> 'b file_io_data) \<Rightarrow> 'b file_io_data \<Rightarrow> ('b file_io_data \<times> unit flow) run" where
  "shutdown_body drained d =
     (case io_try_send ShutdownIO d of
        (d, True) \<Rightarrow> returns (d, Return ())
      | (d, False) \<Rightarrow> returns (drained d, Again))"

definition send_shutdown :: "('b file_io_data \<Rightarrow> 'b file_io_data) \<Rightarrow> 'b file_io_data \<Rightarrow> 'b file_io_data run" where
  "send_shutdown drained d = bind_run (rust_loop (shutdown_body drained) d) (\<lambda>(d, _). returns d)"

section \<open>The abstract store of pages\<close>

text \<open>
  What the page tasks are meant to do: a store of pages with a size, which none of them changes
  except for the growth of the store by empty pages. \<^term>\<open>None\<close> stands for a task that must not be
  sent: for a page the store does not have, or for a smaller store.
\<close>

record page_store =
  ps_size :: nat
  ps_page :: "u64 \<Rightarrow> u8 list"

definition in_store :: "u64 \<Rightarrow> nat \<Rightarrow> bool" where
  "in_store a n \<longleftrightarrow> unat a mod PAGE_SIZE = 0 \<and> unat a + PAGE_SIZE \<le> n"

fun store_task :: "io_task \<Rightarrow> page_store \<Rightarrow> page_store option" where
  "store_task (FillCache a) ps = (if in_store a (ps_size ps) then Some ps else None)"
| "store_task (WriteBack a) ps = Some ps"
| "store_task (Resize n) ps =
     (if ps_size ps \<le> unat n \<and> unat n mod PAGE_SIZE = 0
      then Some \<lparr>ps_size = unat n,
                 ps_page = (\<lambda>a. if in_store a (ps_size ps) then ps_page ps a else replicate PAGE_SIZE 0)\<rparr>
      else None)"
| "store_task _ ps = None"

definition store_rel ::
  "'c hash_cache \<Rightarrow> ('f, u64) bag_of \<Rightarrow> 'b scc_bag \<Rightarrow> ('c, 'f, 'b) page_manager \<Rightarrow> page_store \<Rightarrow> bool" where
  "store_rel H F B pm ps \<longleftrightarrow> hash_cache_laws H \<and> scc_bag_laws F \<and> scc_bag_laws B \<and> coherent H pm \<and>
     sized (pm_db pm) \<and> ps_size ps = length (raf_file (pm_db pm)) \<and>
     (\<forall>a. page_at (pm_db pm) a \<longrightarrow> page_view H pm a = ps_page ps a)"

text \<open>
  Steps that implement abstract steps: whatever sequence the abstract state allows, the steps return
  and implement it.
\<close>

primrec run_steps :: "('t \<Rightarrow> 's \<Rightarrow> 's run) \<Rightarrow> 't list \<Rightarrow> 's \<Rightarrow> 's run" where
  "run_steps step [] s = returns s"
| "run_steps step (t # ts) s = bind_run (step t s) (run_steps step ts)"

primrec run_spec :: "('t \<Rightarrow> 'a \<Rightarrow> 'a option) \<Rightarrow> 't list \<Rightarrow> 'a \<Rightarrow> 'a option" where
  "run_spec step [] a = Some a"
| "run_spec step (t # ts) a = (case step t a of None \<Rightarrow> None | Some a \<Rightarrow> run_spec step ts a)"

locale implementation =
  fixes step :: "'t \<Rightarrow> 's \<Rightarrow> 's run"
    and spec :: "'t \<Rightarrow> 'a \<Rightarrow> 'a option"
    and rel :: "'s \<Rightarrow> 'a \<Rightarrow> bool"
  assumes step_law: "rel s a \<Longrightarrow> spec t a = Some a' \<Longrightarrow> \<exists>s'. step t s = returns s' \<and> rel s' a'"
begin

lemma steps_implement:
  "rel s a \<Longrightarrow> run_spec spec ts a = Some a' \<Longrightarrow> \<exists>s'. run_steps step ts s = returns s' \<and> rel s' a'"
proof (induction ts arbitrary: s a)
  case (Cons t ts)
  then obtain a1 where a1: "spec t a = Some a1" "run_spec spec ts a1 = Some a'" by (auto split: option.splits)
  with Cons.prems obtain s1 where "step t s = returns s1" "rel s1 a1" using step_law by blast
  with Cons.IH a1 show ?case by auto
qed simp

end

lemma page_at_in_store: "sized db \<Longrightarrow> page_at db a = in_store a (length (raf_file db))"
  by (auto simp: sized_def page_at_def in_store_def)

lemma store_task_law:
  assumes rel: "store_rel H F B pm ps" and spec: "store_task t ps = Some ps'"
  shows "\<exists>pm'. page_task H F B read_faults write_faults t pm = returns pm' \<and> store_rel H F B pm' ps'"
proof (cases t)
  case (Resize n)
  with spec have n: "ps_size ps \<le> unat n" "unat n mod PAGE_SIZE = 0"
    and ps': "ps' = \<lparr>ps_size = unat n,
      ps_page = (\<lambda>a. if in_store a (ps_size ps) then ps_page ps a else replicate PAGE_SIZE 0)\<rparr>"
    by (auto split: if_splits)
  note r = rel [unfolded store_rel_def]
  have len: "length (raf_file (pm_db pm)) \<le> unat n" and db: "sized (pm_db pm)" using n r by simp_all
  have view: "page_view H pm' a = ps_page ps' a"
    if "pm_cache pm' = pm_cache pm" "pm_db pm' = zeroed n (pm_db pm)" "page_at (zeroed n (pm_db pm)) a"
    for pm' :: "('a, 'b, 'c) page_manager" and a
  proof (cases "page_at (pm_db pm) a")
    case True
    with grown_pages(2) [of H "pm_cache pm" "pm_db pm"] r len show ?thesis
      by (auto simp: that ps' same_in_def page_at_in_store [OF db])
  next
    case False
    moreover from this r have "hc_get H a (pm_cache pm) = None"
      by (cases "hc_get H a (pm_cache pm)") (auto dest: coherent_entry simp: entry_ok_def)
    ultimately show ?thesis
      using zeroed_new_page [OF len n(2) _ that(3)] r
      by (auto simp: that ps' view_in_def page_at_in_store [OF db] sized_def)
  qed
  have size: "length (raf_file (zeroed n (pm_db pm))) = unat n" using len by (simp add: zeroed_def)
  obtain f b ws where z: "resize_sync F B write_faults n pm =
      returns (pm\<lparr>pm_db := zeroed n (pm_db pm), pm_header := (pm_header pm)\<lparr>dh_free_pages := f\<rparr>,
        pm_free_wakers := b, pm_woken := pm_woken pm @ ws\<rparr>)" (is "_ = returns ?pm")
    using resize_ok [OF _ _ db len] r by blast
  have "store_rel H F B ?pm ps'"
    unfolding store_rel_def using r view [of ?pm] size grown_pages(1) [of H "pm_cache pm", OF _ len] sized_zeroed [OF len n(2)]
    by (simp add: ps')
  with z Resize show ?thesis by simp
next
  case (FillCache a)
  with spec have a: "page_at (pm_db pm) a" "ps' = ps"
    using rel page_at_in_store [of "pm_db pm" a] by (auto simp: store_rel_def split: if_splits)
  with fill_cache_ok [of H B pm a read_faults write_faults] rel FillCache show ?thesis
    by (fastforce simp: store_rel_def same_in_def same_size_def page_at_in_store)
next
  case (WriteBack a)
  with spec write_back_sync_ok [of H pm write_faults a] rel show ?thesis
    by (fastforce simp: store_rel_def same_in_def same_size_def page_at_in_store)
qed (use spec in simp_all)

interpretation page_tasks: implementation "\<lambda>(t, read_faults, write_faults). page_task H F B read_faults write_faults t"
  "\<lambda>(t, _, _). store_task t" "store_rel H F B" for H F B
  by unfold_locales (auto intro: store_task_law)

end
