(* ===== verification/Page_Store.thy ===== *)
theory Page_Store
  imports Io_Thread
begin

text \<open>
  The properties of the page manager together with the I/O thread.
\<close>

section \<open>A small database file\<close>

definition zeros :: "nat \<Rightarrow> u8 list" where
  "zeros n = replicate n 0"

lemma zeros_simps [simp]:
  "length (zeros n) = n" "take m (zeros n) = zeros (min m n)" "drop m (zeros n) = zeros (n - m)" "zeros 0 = []"
  by (simp_all add: zeros_def)

lemma from_le_bytes_zeros [simp]: "from_le_bytes (zeros n) = (0 :: 'a::len word)"
  by (rule bit_word_eqI) (simp add: bit_from_le_bytes zeros_def)

lemma zeros_PAGE_SIZE: "replicate PAGE_SIZE 0 = zeros 512"
  by (simp add: zeros_def PAGE_SIZE_def)

definition small_pm :: "((u64 \<times> evictable_page) option, u64 list, waker list) page_manager" where
  "small_pm =
     \<lparr>pm_db = \<lparr>raf_file = zeros 2048, raf_len = 2048\<rparr>,
      pm_header = \<lparr>dh_version = VERSION, dh_log_head = DEFAULT_LOG_HEAD_PAGE,
        dh_container_directory_head = DEFAULT_CONTAINER_DIRECTORY_PAGE, dh_free_pages = [],
        dh_free_page_scanner_offset = DEFAULT_FREE_PAGE\<rparr>,
      pm_cache = None, pm_tasks = [], pm_free_wakers = [], pm_caching_wakers = [], pm_woken = []\<rparr>"

lemma small_pm_ok:
  "coherent slot_cache small_pm" "sized (pm_db small_pm)"
  "page_at (pm_db small_pm) 512" "page_at (pm_db small_pm) 1024" "page_at (pm_db small_pm) 1536"
  "hc_get slot_cache a (pm_cache small_pm) = None"
  by (simp_all add: small_pm_def coherent_in_def slot_cache_def sized_def page_at_def PAGE_SIZE_def)

definition small_store :: page_store where
  "small_store = \<lparr>ps_size = 2048, ps_page = (\<lambda>_. zeros 512)\<rparr>"

lemma small_store_rel: "store_rel slot_cache list_bag list_bag small_pm small_store"
proof -
  have "page_view slot_cache small_pm a = zeros 512" if "page_at (pm_db small_pm) a" for a
    using that by (simp add: small_pm_ok view_in_def)
      (auto simp: small_pm_def file_page_def page_at_def PAGE_SIZE_def min_def)
  then show ?thesis
    using small_pm_ok by (simp add: store_rel_def slot_cache_laws list_bag_laws small_store_def)
      (simp add: small_pm_def)
qed

section \<open>Properties\<close>

text \<open>
  C12: Whatever sequence of requests to fill, to write back and to grow the file the I/O thread
  runs, and whatever reads and writes fail in between, the tasks return and the pages keep the
  contents of the abstract store, in which only the growth of the file adds empty pages: caching,
  evicting and writing back never show.
\<close>

theorem page_tasks_refine_store:
  assumes "store_rel H F B pm ps"
    and "run_spec (\<lambda>(t, _, _). store_task t) ts ps = Some ps'"
  shows "\<exists>pm'. run_steps (\<lambda>(t, read_faults, write_faults). page_task H F B read_faults write_faults t) ts pm = returns pm' \<and>
    store_rel H F B pm' ps'"
  using assms by (rule page_tasks.steps_implement)

theorem page_tasks_refine_store_witness:
  "\<exists>pm'. run_steps (\<lambda>(t, read_faults, write_faults). page_task slot_cache list_bag list_bag read_faults write_faults t)
      [(FillCache 512, [IO 1], []), (Resize 4096, [], [IO 2]), (FillCache 3072, [], []), (WriteBack 3072, [], [])]
      small_pm = returns pm' \<and>
    page_view slot_cache pm' 512 = zeros 512 \<and> page_view slot_cache pm' 3072 = zeros 512"
proof -
  let ?ts = "[(FillCache 512, [IO 1], []), (Resize 4096, [], [IO 2]), (FillCache 3072, [], []), (WriteBack 3072, [], [])]"
  have "run_spec (\<lambda>(t, _, _). store_task t) ?ts small_store = Some \<lparr>ps_size = 4096, ps_page = (\<lambda>_. zeros 512)\<rparr>"
    by (simp add: small_store_def in_store_def [of 512] in_store_def [of 3072] zeros_PAGE_SIZE cong: if_cong)
      (simp add: PAGE_SIZE_def)
  from page_tasks_refine_store [OF small_store_rel this] show ?thesis
    by (auto simp: store_rel_def page_at_in_store in_store_def PAGE_SIZE_def)
qed


text \<open>
  C27: A worker that writes a page which is not cached leaves its waker and a request for the page;
  once the I/O thread has run the request, whatever reads fail, the waker is invoked, and the next
  poll lets the writer change the page as it was stored. After the page was written back its new
  content is in the file, and no other page has changed.
\<close>

theorem page_write_completes:
  fixes pm :: "('c, 'f, 'b) page_manager"
  assumes H: "hash_cache_laws H" and B: "scc_bag_laws B" and co: "coherent H pm" and a: "page_at (pm_db pm) a"
    and none: "hc_get H a (pm_cache pm) = None" and dirty: "marks_dirty writer"
  shows "\<exists>pm1 pm2 pm3 pm4 p. write_page H B (\<lambda>pm. pm) w a writer (pm, False) = returns ((pm1, True), Pending) \<and>
    pm_tasks pm1 = pm_tasks pm @ [FillCache a] \<and>
    page_task H F B read_faults write_faults (FillCache a) pm1 = returns pm2 \<and> w \<in> set (pm_woken pm2) \<and>
    pg_buffer p = page_view H pm a \<and>
    write_page H B (\<lambda>pm. pm) w' a writer (pm2, True) = returns ((pm3, False), Ready (Ok (snd (writer p)))) \<and>
    page_task H F B read_faults write_faults (WriteBack a) pm3 = returns pm4 \<and>
    file_page (pm_db pm4) a = pg_buffer (fst (writer p)) \<and> coherent H pm4 \<and>
    (\<forall>b. page_at (pm_db pm) b \<longrightarrow> b \<noteq> a \<longrightarrow> page_view H pm4 b = page_view H pm b)"
proof -
  let ?pm1 = "pm\<lparr>pm_tasks := pm_tasks pm @ [FillCache a], pm_caching_wakers := bag_push B w (pm_caching_wakers pm)\<rparr>"
  have 1: "write_page H B (\<lambda>pm. pm) w a writer (pm, False) = returns ((?pm1, True), Pending)"
    using none unfolding write_page_def by (rule access_waits(2))
  have co1: "coherent H ?pm1" and a1: "page_at (pm_db ?pm1) a" using co a by simp_all
  obtain pm2 ws where 2: "fill_cache_sync H B read_faults write_faults a ?pm1 = returns pm2" "coherent H pm2"
    "same_pages H ?pm1 pm2" "hc_get H a (pm_cache pm2) \<noteq> None" "pm_woken pm2 = pm_woken ?pm1 @ ws"
    "mset ws = bag_content B (pm_caching_wakers ?pm1)"
    using fill_cache_ok [OF H B co1 a1, of read_faults write_faults] by (elim exE conjE) (rule that; assumption)
  have "w \<in># mset ws" using 2(6) B by (simp add: scc_bag_laws_def)
  with 2(5) have w: "w \<in> set (pm_woken pm2)" by simp
  from 2(4) obtain p where p: "hc_get H a (pm_cache pm2) = Some p" by auto
  have buf: "pg_buffer p = page_view H pm a"
    using 2(3) a p by (auto simp: same_in_def view_in_def [of H "pm_cache pm2"])
  let ?pm3 = "pm2\<lparr>pm_cache := hc_update H a (fst (writer p)) (pm_cache pm2)\<rparr>"
  have 3: "write_page H B (\<lambda>pm. pm) w' a writer (pm2, True) = returns ((?pm3, False), Ready (Ok (snd (writer p))))"
    unfolding write_page_def using p by (rule access_cached) (simp split: prod.split)
  have cached: "hc_get H a (pm_cache ?pm3) = Some (fst (writer p))"
    using hc_update_get [OF H 2(4)] by simp
  note du = dirty_update [OF H 2(2) p dirty]
  have co3: "coherent H ?pm3" using du(1) by simp
  obtain c' db' where 4: "write_back_sync H write_faults a ?pm3 = returns (?pm3\<lparr>pm_cache := c', pm_db := db'\<rparr>)"
    "coherent_in H c' db'" "same_in H (pm_cache ?pm3) (pm_db ?pm3) c' db'" "hc_get H a (pm_cache ?pm3) \<noteq> None \<longrightarrow>
       file_page db' a = page_view H ?pm3 a \<and> (\<exists>p. hc_get H a c' = Some p \<and> \<not> is_dirty p)"
    using write_back_sync_ok [OF H co3, of write_faults a] by (elim exE conjE) (rule that; assumption)
  have "view_in H c' db' b = page_view H pm b" if b: "page_at (pm_db pm) b" "b \<noteq> a" for b
  proof -
    have "page_at (pm_db pm2) b" "page_view H pm2 b = page_view H pm b" using 2(3) b by (auto simp: same_in_def)
    with 4(3) du(2) b show ?thesis by (auto simp: same_in_def)
  qed
  moreover have "file_page db' a = pg_buffer (fst (writer p))"
    using 4(4) cached by (simp add: view_in_def)
  ultimately show ?thesis using 1 2(1) w buf 3 4(1,2)
    by (intro exI [of _ ?pm1] exI [of _ pm2] exI [of _ ?pm3] exI [of _ "?pm3\<lparr>pm_cache := c', pm_db := db'\<rparr>"] exI [of _ p]) simp
qed

definition first_byte :: "u8 \<Rightarrow> evictable_page \<Rightarrow> evictable_page \<times> unit" where
  "first_byte x p = (set_dirty (update_content (\<lambda>bytes. x # drop 1 bytes) p), ())"

lemma first_byte_marks_dirty: "marks_dirty (first_byte x)"
  by (simp add: marks_dirty_def first_byte_def wf_page_def update_content_def page_content_def PAGE_SIZE_def
      PAGE_HEADER_LEN_def page_address_def [of "_\<lparr>pg_buffer := _\<rparr>"]) (simp add: page_address_def)

theorem page_write_completes_witness:
  "\<exists>pm1 pm2 pm3 pm4 p. write_page slot_cache list_bag (\<lambda>pm. pm) 7 512 (first_byte 9) (small_pm, False) = returns ((pm1, True), Pending) \<and>
    page_task slot_cache list_bag list_bag [IO 1] [IO 2] (FillCache 512) pm1 = returns pm2 \<and> 7 \<in> set (pm_woken pm2) \<and>
    write_page slot_cache list_bag (\<lambda>pm. pm) 7 512 (first_byte 9) (pm2, True) = returns ((pm3, False), Ready (Ok ())) \<and>
    page_task slot_cache list_bag list_bag [IO 1] [IO 2] (WriteBack 512) pm3 = returns pm4 \<and>
    pg_buffer p = zeros 512 \<and> file_page (pm_db pm4) 512 = pg_buffer (fst (first_byte 9 p))"
proof -
  have view: "page_view slot_cache small_pm 512 = zeros 512"
    using small_store_rel small_pm_ok by (simp add: store_rel_def small_store_def)
  from page_write_completes [OF slot_cache_laws list_bag_laws small_pm_ok(1,3,6) first_byte_marks_dirty [of 9],
      where F = list_bag and read_faults = "[IO 1]" and write_faults = "[IO 2]" and w = 7 and w' = 7]
  obtain pm1 pm2 pm3 pm4 p where
    "write_page slot_cache list_bag (\<lambda>pm. pm) 7 512 (first_byte 9) (small_pm, False) = returns ((pm1, True), Pending)"
    "page_task slot_cache list_bag list_bag [IO 1] [IO 2] (FillCache 512) pm1 = returns pm2" "7 \<in> set (pm_woken pm2)"
    "pg_buffer p = zeros 512"
    "write_page slot_cache list_bag (\<lambda>pm. pm) 7 512 (first_byte 9) (pm2, True) = returns ((pm3, False), Ready (Ok (snd (first_byte 9 p))))"
    "page_task slot_cache list_bag list_bag [IO 1] [IO 2] (WriteBack 512) pm3 = returns pm4"
    "file_page (pm_db pm4) 512 = pg_buffer (fst (first_byte 9 p))"
    unfolding view by (elim exE conjE) (rule that; assumption)
  then show ?thesis
    by (intro exI [of _ pm1] exI [of _ pm2] exI [of _ pm3] exI [of _ pm4] exI [of _ p] conjI) simp_all
qed


section \<open>Allocating pages\<close>

lemma bag_empty_pop:
  assumes "scc_bag_laws F" "bag_content F f = {#}"
  obtains f' where "bag_pop F f = (f', None)" "bag_content F f' = {#}"
proof -
  obtain f' w where pop: "bag_pop F f = (f', w)" by fastforce
  with bag_pop_law [OF assms(1) pop] assms(2) have "w = None" "bag_content F f' = {#}"
    by (auto split: option.splits)
  with pop show ?thesis using that by simp
qed

lemma bag_full_pop:
  assumes "scc_bag_laws F" "bag_content F f \<noteq> {#}"
  obtains f' x where "bag_pop F f = (f', Some x)" "x \<in># bag_content F f"
proof -
  obtain f' w where pop: "bag_pop F f = (f', w)" by fastforce
  with bag_pop_law [OF assms(1) pop] assms(2) show ?thesis
    using that by (auto split: option.splits)
qed

lemma new_page_facts:
  assumes "a \<in> set (new_pages len n)" "len mod PAGE_SIZE = 0"
  shows "in_store a (unat n)" "\<not> in_store a len"
proof -
  from assms(1) obtain i where i: "len div 512 \<le> i" "i < unat n div 512" and a: "a = of_nat i * of_nat 512"
    by (auto simp: new_pages_def PAGE_SIZE_def)
  have lt: "i * 512 + 512 \<le> unat n" using i(2) by (simp add: less_eq_div_iff_mult_less_eq [symmetric] Suc_le_eq)
  moreover have "unat n < 2 ^ LENGTH(64)" by (rule unsigned_less)
  ultimately have "i * 512 < 2 ^ 64" by simp
  then have u: "unat a = i * 512"
    unfolding a of_nat_mult [symmetric] by (simp add: unat_of_nat take_bit_nat_eq_self del: of_nat_mult)
  show "in_store a (unat n)" using lt by (simp add: in_store_def u PAGE_SIZE_def)
  have "len = 512 * (len div 512)" using assms(2) div_mult_mod_eq [of len 512] by (simp add: PAGE_SIZE_def)
  then show "\<not> in_store a len" using i(1) by (simp add: in_store_def u PAGE_SIZE_def)
qed

text \<open>
  The search for a free page returns, however many units the scanner has to go through, and leaves a
  request to grow the file.
\<close>

lemma get_free_scan:
  fixes pm :: "('c, 'f, 'b) page_manager"
  assumes F: "scc_bag_laws F" and db: "sized (pm_db pm)" and len: "length (raf_file (pm_db pm)) + unat ALLOCATION_UNIT < 2 ^ 64"
    and "bag_content F (dh_free_pages (pm_header pm)) = {#}"
    and "unat (dh_free_page_scanner_offset (pm_header pm)) \<le> length (raf_file (pm_db pm))"
  shows "\<exists>f off. get_free_page F B (\<lambda>pm. pm) w (pm, False) =
    returns ((pm\<lparr>pm_header := (pm_header pm)\<lparr>dh_free_pages := f, dh_free_page_scanner_offset := off\<rparr>,
      pm_tasks := pm_tasks pm @ [Resize (raf_len (pm_db pm) + ALLOCATION_UNIT)],
      pm_free_wakers := bag_push B w (pm_free_wakers pm)\<rparr>, True), Pending) \<and> bag_content F f = {#}"
  using assms(2-)
proof (induction "length (raf_file (pm_db pm)) - unat (dh_free_page_scanner_offset (pm_header pm))"
    arbitrary: pm rule: less_induct)
  case less
  let ?off = "dh_free_page_scanner_offset (pm_header pm)"
  obtain f where pop: "bag_pop F (dh_free_pages (pm_header pm)) = (f, None)" and f: "bag_content F f = {#}"
    using bag_empty_pop [OF F less.prems(3)] by blast
  obtain f2 where pop2: "bag_pop F f = (f2, None)" using bag_empty_pop [OF F f] by blast
  have "unat ?off + unat ALLOCATION_UNIT < 2 ^ LENGTH(64)" using less.prems by simp
  then have u: "unat (?off + ALLOCATION_UNIT) = unat ?off + unat ALLOCATION_UNIT" by (rule unat_add_lem [THEN iffD1])
  then have no: "\<not> ?off + ALLOCATION_UNIT < ?off" by (simp add: word_less_nat_alt)
  show ?case
  proof (cases "raf_len (pm_db pm) \<le> ?off + ALLOCATION_UNIT")
    case True
    let ?pm = "pm\<lparr>pm_header := (pm_header pm)\<lparr>dh_free_pages := f\<rparr>,
      pm_tasks := pm_tasks pm @ [Resize (raf_len (pm_db pm) + ALLOCATION_UNIT)]\<rparr>"
    have "rust_loop (get_free_body F B (\<lambda>pm. pm) w) (?pm, True) =
        returns ((?pm\<lparr>pm_free_wakers := bag_push B w (pm_free_wakers pm)\<rparr>, True), Pending)"
      by (subst rust_loop.simps) (simp add: get_free_body_def await_free_poll_def Let_def pop2)
    then have "get_free_page F B (\<lambda>pm. pm) w (pm, False) =
        returns ((?pm\<lparr>pm_free_wakers := bag_push B w (pm_free_wakers pm)\<rparr>, True), Pending)"
      unfolding get_free_page_def
      by (subst rust_loop.simps) (simp add: get_free_body_def pop Let_def no True send_io_def)
    with f show ?thesis by (intro exI [of _ f] exI [of _ ?off]) simp
  next
    case False
    let ?pm = "pm\<lparr>pm_header := (pm_header pm)\<lparr>dh_free_pages := f, dh_free_page_scanner_offset := ?off + ALLOCATION_UNIT\<rparr>\<rparr>"
    have "unat (?off + ALLOCATION_UNIT) < length (raf_file (pm_db pm))"
      using False sized_len [OF less.prems(1)] by (simp add: word_le_nat_alt)
    then have "unat (?off + ALLOCATION_UNIT) \<le> length (raf_file (pm_db pm))" and
      "length (raf_file (pm_db ?pm)) - unat (dh_free_page_scanner_offset (pm_header ?pm)) <
        length (raf_file (pm_db pm)) - unat ?off"
      using u by (simp_all add: ALLOCATION_UNIT_def)
    moreover have "get_free_page F B (\<lambda>pm. pm) w (pm, False) = get_free_page F B (\<lambda>pm. pm) w (?pm, False)"
      unfolding get_free_page_def
      by (subst rust_loop.simps) (simp add: get_free_body_def pop Let_def no False)
    ultimately show ?thesis using less.hyps [of ?pm] less.prems f by simp
  qed
qed

text \<open>A file that grows by the allocation unit has new pages.\<close>

lemma allocation_unit_facts:
  assumes db: "sized raf" and len: "length (raf_file raf) + unat ALLOCATION_UNIT < 2 ^ 64"
  shows "length (raf_file raf) \<le> unat (raf_len raf + ALLOCATION_UNIT)"
    "unat (raf_len raf + ALLOCATION_UNIT) mod PAGE_SIZE = 0"
    "new_pages (length (raf_file raf)) (raf_len raf + ALLOCATION_UNIT) \<noteq> []"
proof -
  let ?len = "length (raf_file raf)" and ?n = "raf_len raf + ALLOCATION_UNIT"
  have l: "unat (raf_len raf) = ?len" using db by (rule sized_len)
  have "unat (raf_len raf) + unat ALLOCATION_UNIT < 2 ^ LENGTH(64)" using len l by simp
  then have n: "unat ?n = ?len + unat ALLOCATION_UNIT" using l by (simp add: unat_add_lem [THEN iffD1])
  have mod: "?len mod 512 = 0" using db by (simp add: sized_def PAGE_SIZE_def)
  then show "unat ?n mod PAGE_SIZE = 0"
    unfolding n PAGE_SIZE_def by (simp add: ALLOCATION_UNIT_def mod_eq_0_iff_dvd)
  show "new_pages ?len ?n \<noteq> []"
    using mod unfolding new_pages_def n PAGE_SIZE_def by (simp add: ALLOCATION_UNIT_def mod_eq_0_iff_dvd div_add)
  show "?len \<le> unat ?n" by (simp add: n)
qed

lemma get_free_popped:
  assumes pop: "bag_pop F (dh_free_pages (pm_header pm)) = (f, Some a)"
  shows "get_free_page F B (\<lambda>pm. pm) w (pm, True) =
    returns ((pm\<lparr>pm_header := (pm_header pm)\<lparr>dh_free_pages := f\<rparr>\<rparr>, False), Ready (Ok a))" (is "_ = returns ((?pm, False), _)")
proof -
  have "rust_loop (get_free_body F B (\<lambda>pm. pm) w) (pm, False) = returns ((?pm, False), Ready (Ok a))"
    by (subst rust_loop.simps) (simp add: get_free_body_def pop)
  then show ?thesis
    unfolding get_free_page_def by (subst rust_loop.simps) (simp add: get_free_body_def await_free_poll_def pop)
qed

text \<open>
  C28: Without a free page a worker that asks for one leaves its waker and a request to grow the file
  by one unit; the search does not run forever. When the I/O thread has run the request the waker is
  invoked, and the next poll returns the address of a page that the file did not have before, that it
  has now, and that is empty.
\<close>

theorem free_page_granted:
  fixes pm :: "('c, 'f, 'b) page_manager"
  assumes F: "scc_bag_laws F" and B: "scc_bag_laws B" and db: "sized (pm_db pm)"
    and len: "length (raf_file (pm_db pm)) + unat ALLOCATION_UNIT < 2 ^ 64"
    and none: "bag_content F (dh_free_pages (pm_header pm)) = {#}"
    and off: "unat (dh_free_page_scanner_offset (pm_header pm)) \<le> length (raf_file (pm_db pm))"
  shows "\<exists>pm1 pm2 pm3 a. get_free_page F B (\<lambda>pm. pm) w (pm, False) = returns ((pm1, True), Pending) \<and>
    pm_tasks pm1 = pm_tasks pm @ [Resize (raf_len (pm_db pm) + ALLOCATION_UNIT)] \<and>
    resize_sync F B faults (raf_len (pm_db pm) + ALLOCATION_UNIT) pm1 = returns pm2 \<and> w \<in> set (pm_woken pm2) \<and>
    get_free_page F B (\<lambda>pm. pm) w' (pm2, True) = returns ((pm3, False), Ready (Ok a)) \<and>
    \<not> page_at (pm_db pm) a \<and> page_at (pm_db pm3) a \<and> file_page (pm_db pm3) a = replicate PAGE_SIZE 0"
proof -
  let ?n = "raf_len (pm_db pm) + ALLOCATION_UNIT" and ?len = "length (raf_file (pm_db pm))"
  obtain f off' where scan: "get_free_page F B (\<lambda>pm. pm) w (pm, False) =
    returns ((pm\<lparr>pm_header := (pm_header pm)\<lparr>dh_free_pages := f, dh_free_page_scanner_offset := off'\<rparr>,
      pm_tasks := pm_tasks pm @ [Resize ?n], pm_free_wakers := bag_push B w (pm_free_wakers pm)\<rparr>, True), Pending)"
      (is "_ = returns ((?pm1, True), Pending)") and f: "bag_content F f = {#}"
    using get_free_scan [OF F db len none off, of B w] by (elim exE conjE) (rule that)
  note unit = allocation_unit_facts [OF db len]
  have mod: "?len mod 512 = 0" using db by (simp add: sized_def PAGE_SIZE_def)
  have db1: "sized (pm_db ?pm1)" and le1: "length (raf_file (pm_db ?pm1)) \<le> unat ?n" using db unit(1) by simp_all
  obtain f' b ws where rs: "resize_sync F B faults ?n ?pm1 =
      returns (?pm1\<lparr>pm_db := zeroed ?n (pm_db ?pm1), pm_header := (pm_header ?pm1)\<lparr>dh_free_pages := f'\<rparr>,
        pm_free_wakers := b, pm_woken := pm_woken ?pm1 @ ws\<rparr>)" (is "_ = returns ?pm2")
    and f': "bag_content F f' = bag_content F (dh_free_pages (pm_header ?pm1)) + mset (new_pages (length (raf_file (pm_db ?pm1))) ?n)"
    and ws: "new_pages (length (raf_file (pm_db ?pm1))) ?n \<noteq> [] \<longrightarrow>
       bag_content B b = {#} \<and> mset ws = bag_content B (pm_free_wakers ?pm1)"
    using resize_ok [OF F B db1 le1, of faults] by (elim exE conjE) (rule that; assumption)
  have c': "bag_content F f' = mset (new_pages ?len ?n)" using f' f by simp
  have "w \<in># mset ws" using ws unit(3) B by (simp add: scc_bag_laws_def)
  then have w: "w \<in> set (pm_woken ?pm2)" by simp
  have ne: "bag_content F f' \<noteq> {#}" using c' unit(3) by simp
  obtain f3 a where pop: "bag_pop F f' = (f3, Some a)" and "a \<in># bag_content F f'"
    using bag_full_pop [OF F ne] by blast
  then have a: "a \<in> set (new_pages ?len ?n)" using c' by simp
  let ?pm3 = "?pm2\<lparr>pm_header := (pm_header ?pm2)\<lparr>dh_free_pages := f3\<rparr>\<rparr>"
  have g: "get_free_page F B (\<lambda>pm. pm) w' (?pm2, True) = returns ((?pm3, False), Ready (Ok a))"
    using pop by (intro get_free_popped) simp
  have at: "page_at (zeroed ?n (pm_db pm)) a" and not_at: "\<not> page_at (pm_db pm) a"
    using new_page_facts [OF a] mod page_at_in_store [OF db] page_at_in_store [OF sized_zeroed [OF unit(1,2)]] unit(1)
    by (simp_all add: PAGE_SIZE_def zeroed_def)
  have "file_page (zeroed ?n (pm_db pm)) a = replicate PAGE_SIZE 0"
    using zeroed_new_page [OF unit(1,2) _ at not_at] mod by (simp add: PAGE_SIZE_def)
  with scan rs w g at not_at show ?thesis
    by (intro exI [of _ ?pm1] exI [of _ ?pm2] exI [of _ ?pm3] exI [of _ a]) simp
qed

theorem free_page_granted_witness:
  "\<exists>pm1 pm2 pm3 a. get_free_page list_bag list_bag (\<lambda>pm. pm) 7 (small_pm, False) = returns ((pm1, True), Pending) \<and>
    resize_sync list_bag list_bag [IO 1] (raf_len (pm_db small_pm) + ALLOCATION_UNIT) pm1 = returns pm2 \<and> 7 \<in> set (pm_woken pm2) \<and>
    get_free_page list_bag list_bag (\<lambda>pm. pm) 8 (pm2, True) = returns ((pm3, False), Ready (Ok a)) \<and>
    page_at (pm_db pm3) a"
proof -
  have len: "length (raf_file (pm_db small_pm)) + unat ALLOCATION_UNIT < 2 ^ 64"
    and none: "bag_content list_bag (dh_free_pages (pm_header small_pm)) = {#}"
    and off: "unat (dh_free_page_scanner_offset (pm_header small_pm)) \<le> length (raf_file (pm_db small_pm))"
    by (simp_all add: small_pm_def ALLOCATION_UNIT_def DEFAULT_FREE_PAGE_def list_bag_def)
  from free_page_granted [OF list_bag_laws list_bag_laws small_pm_ok(2) len none off,
      where w = 7 and w' = 8 and faults = "[IO 1]"]
  show ?thesis by (elim exE conjE) (intro exI conjI; assumption)
qed

end
