(* ===== verification/Page_Links.thy ===== *)
theory Page_Links
  imports Page_Store
begin

text \<open>
  Linking and unlinking pages, the header of the database file, and the end of the I/O thread.
\<close>

section \<open>Deleting a page\<close>

lemma write_page_cached:
  assumes "hc_get H a (pm_cache pm) = Some p"
  shows "write_page H B meanwhile w a writer (pm, aw) =
    returns ((pm\<lparr>pm_cache := hc_update H a (fst (writer p)) (pm_cache pm)\<rparr>, False), Ready (Ok (snd (writer p))))"
  unfolding write_page_def using assms by (rule access_cached) (simp split: prod.split)

lemma read_page_cached:
  assumes "hc_get H a (pm_cache pm) = Some p"
  shows "read_page H B meanwhile w a reader (pm, aw) = returns ((pm, False), Ready (Ok (reader p)))"
  unfolding read_page_def
  using access_cached [OF assms, of "\<lambda>p c. (c, reader p)" "pm_cache pm" "reader p"] by simp

lemma page_address_links [simp]:
  "page_address (set_prev_page_address x p) = page_address p" "page_address (set_next_page_address x p) = page_address p"
  by (simp_all add: page_address_def set_prev_page_address_def set_next_page_address_def)

lemma link_links [simp]:
  "prev_page_address (set_dirty p) = prev_page_address p" "next_page_address (set_dirty p) = next_page_address p"
  "page_content (set_dirty p) = page_content p"
  by (simp_all add: prev_page_address_def next_page_address_def page_content_def)

lemma writers_mark_dirty: "marks_dirty (set_next_dirty x)" "marks_dirty (set_prev_dirty x)" "marks_dirty reset_page"
  by (simp_all add: marks_dirty_def set_next_dirty_def set_prev_dirty_def reset_page_def)

text \<open>Three cached pages are updated one after the other; each of them becomes dirty.\<close>

lemma dirty_update3:
  assumes H: "hash_cache_laws H" and co: "coherent_in H c db" and "distinct [x, y, z]"
    and "hc_get H x c = Some p" "hc_get H y c = Some q" "hc_get H z c = Some r"
    and f: "marks_dirty f" "marks_dirty g" "marks_dirty k"
    and c1: "c1 = hc_update H x (fst (f p)) c" and c2: "c2 = hc_update H y (fst (g q)) c1" and c3: "c3 = hc_update H z (fst (k r)) c2"
  shows "\<And>b. hc_get H b c1 = (if b = x then Some (fst (f p)) else hc_get H b c)"
    "\<And>b. hc_get H b c2 = (if b = y then Some (fst (g q)) else hc_get H b c1)"
    "\<And>b. hc_get H b c3 = (if b = z then Some (fst (k r)) else hc_get H b c2)" "coherent_in H c3 db"
proof -
  show g1: "hc_get H b c1 = (if b = x then Some (fst (f p)) else hc_get H b c)" for b
    using assms(4) unfolding c1 by (intro hc_update_get [OF H]) simp
  show g2: "hc_get H b c2 = (if b = y then Some (fst (g q)) else hc_get H b c1)" for b
    using assms(3,5) g1 unfolding c2 by (intro hc_update_get [OF H]) auto
  show g3: "hc_get H b c3 = (if b = z then Some (fst (k r)) else hc_get H b c2)" for b
    using assms(3,6) g1 g2 unfolding c3 by (intro hc_update_get [OF H]) auto
  have co1: "coherent_in H c1 db" unfolding c1 by (rule dirty_update(1) [OF H co assms(4) f(1)])
  have co2: "coherent_in H c2 db" unfolding c2 by (rule dirty_update(1) [OF H co1 _ f(2)]) (use assms(3,5) g1 in auto)
  show "coherent_in H c3 db" unfolding c3 by (rule dirty_update(1) [OF H co2 _ f(3)]) (use assms(3,6) g1 g2 in auto)
qed

text \<open>
  C29: Deleting a page between two others, with the three pages cached, completes in one poll: the
  neighbours are linked to each other and are sent to be written back, their contents are untouched,
  the page has no links any more and is free, and a worker that waits for a free page is woken up.
\<close>

theorem delete_page_unlinks:
  fixes pm :: "('c, 'f, 'b) page_manager"
  assumes H: "hash_cache_laws H" and F: "scc_bag_laws F" and B: "scc_bag_laws B" and co: "coherent H pm"
    and p: "hc_get H a (pm_cache pm) = Some p" and links: "prev_page_address p = prev" "next_page_address p = nxt"
    and q: "hc_get H prev (pm_cache pm) = Some q" and r: "hc_get H nxt (pm_cache pm) = Some r"
    and apart: "prev \<noteq> 0" "nxt \<noteq> 0" "distinct [a, prev, nxt]"
  shows "\<exists>pm' p' q' r' ws. delete_page H F B meanwhile w a (pm, ReadingLinks False) =
      returns ((pm', Resetting False), Ready (Ok ())) \<and> coherent H pm' \<and>
    pm_tasks pm' = pm_tasks pm @ [WriteBack prev, WriteBack nxt] \<and>
    hc_get H prev (pm_cache pm') = Some q' \<and> next_page_address q' = nxt \<and>
    prev_page_address q' = prev_page_address q \<and> page_content q' = page_content q \<and>
    hc_get H nxt (pm_cache pm') = Some r' \<and> prev_page_address r' = prev \<and>
    next_page_address r' = next_page_address r \<and> page_content r' = page_content r \<and>
    hc_get H a (pm_cache pm') = Some p' \<and> prev_page_address p' = 0 \<and> next_page_address p' = 0 \<and>
    bag_content F (dh_free_pages (pm_header pm')) = add_mset a (bag_content F (dh_free_pages (pm_header pm))) \<and>
    pm_woken pm' = pm_woken pm @ ws \<and> mset ws = bag_content B (pm_free_wakers pm)"
proof -
  let ?q = "fst (set_next_dirty nxt q)" and ?r = "fst (set_prev_dirty prev r)" and ?p = "fst (reset_page p)"
  let ?c1 = "hc_update H prev ?q (pm_cache pm)"
  let ?c2 = "hc_update H nxt ?r ?c1" and ?c3 = "hc_update H a ?p (hc_update H nxt ?r ?c1)"
  let ?pm1 = "pm\<lparr>pm_cache := ?c1, pm_tasks := pm_tasks pm @ [WriteBack prev]\<rparr>"
  let ?pm2 = "pm\<lparr>pm_cache := ?c2, pm_tasks := pm_tasks pm @ [WriteBack prev, WriteBack nxt]\<rparr>"
  let ?pm3 = "?pm2\<lparr>pm_cache := ?c3\<rparr>"
  let ?body = "delete_page_body H F B meanwhile w a"
  have d: "a \<noteq> prev" "a \<noteq> nxt" "prev \<noteq> nxt" "prev \<noteq> a" "nxt \<noteq> a" "nxt \<noteq> prev" using apart(3) by auto
  have "distinct [prev, nxt, a]" using d by simp
  note up = dirty_update3 [OF H co this q r p writers_mark_dirty refl refl refl]
  note g1 = up(1) and g2 = up(2) and g3 = up(3) and co3 = up(4)
  obtain f b ws where add: "add_free_pages F B [a] ?pm3 =
      returns (?pm3\<lparr>pm_header := (pm_header ?pm3)\<lparr>dh_free_pages := f\<rparr>, pm_free_wakers := b, pm_woken := pm_woken ?pm3 @ ws\<rparr>)"
    and f: "bag_content F f = bag_content F (dh_free_pages (pm_header ?pm3)) + mset [a]"
    and ws: "[a] \<noteq> [] \<longrightarrow> bag_content B b = {#} \<and> mset ws = bag_content B (pm_free_wakers ?pm3)"
    using add_free_pages_ok [OF F B, of "[a]" ?pm3] by (elim exE conjE) (rule that; assumption)
  let ?pm' = "?pm3\<lparr>pm_header := (pm_header ?pm3)\<lparr>dh_free_pages := f\<rparr>, pm_free_wakers := b, pm_woken := pm_woken ?pm3 @ ws\<rparr>"
  have add1: "add_free_page F B a ?pm3 = returns ?pm'" using add by simp
  have s4: "rust_loop ?body (?pm2, Resetting False) = returns ((?pm', Resetting False), Ready (Ok ()))"
    using add1 by (subst rust_loop.simps)
      (simp add: delete_page_body_def write_page_cached [of H a ?pm2 p] g1 g2 p apart d)
  have s3: "rust_loop ?body (?pm1, UpdatingNext prev nxt False) = rust_loop ?body (?pm2, Resetting False)"
    by (subst rust_loop.simps)
      (simp add: delete_page_body_def write_page_cached [of H nxt ?pm1 r] g1 r apart d send_io_def)
  have s2: "rust_loop ?body (pm, UpdatingPrev prev nxt False) = rust_loop ?body (?pm1, UpdatingNext prev nxt False)"
    by (subst rust_loop.simps) (simp add: delete_page_body_def write_page_cached [of H prev pm q] q apart send_io_def)
  have s1: "rust_loop ?body (pm, ReadingLinks False) = rust_loop ?body (pm, UpdatingPrev prev nxt False)"
    by (subst rust_loop.simps) (simp add: delete_page_body_def read_page_cached [OF p] links)
  have "delete_page H F B meanwhile w a (pm, ReadingLinks False) = returns ((?pm', Resetting False), Ready (Ok ()))"
    unfolding delete_page_def s1 s2 s3 s4 ..
  moreover have "wf_page p" "wf_page q" "wf_page r"
    using coherent_entry [OF co] p q r by (auto simp: entry_ok_def)
  ultimately show ?thesis
    using co3 f ws g1 g2 g3 d
    by (intro exI [of _ ?pm'] exI [of _ ?p] exI [of _ ?q] exI [of _ ?r] exI [of _ ws])
      (simp add: set_next_dirty_def set_prev_dirty_def reset_page_def)
qed


text \<open>An unbounded cache with three dirty pages, linked to each other.\<close>

definition map_cache :: "(u64 \<rightharpoonup> evictable_page) hash_cache" where
  "map_cache = \<lparr>hc_get = (\<lambda>a c. c a), hc_update = (\<lambda>a p c. c(a \<mapsto> p)), hc_put = (\<lambda>a p c. (c(a \<mapsto> p), None))\<rparr>"

lemma map_cache_laws: "hash_cache_laws map_cache"
  by (simp add: hash_cache_laws_def map_cache_def)

definition linked_page :: "u64 \<Rightarrow> u64 \<Rightarrow> u64 \<Rightarrow> evictable_page" where
  "linked_page a prev nxt =
     \<lparr>pg_address_and_dirty_flag = a + 1, pg_buffer = to_le_bytes 8 prev @ to_le_bytes 8 nxt @ zeros 496\<rparr>"

definition linked_pm :: "(u64 \<rightharpoonup> evictable_page, u64 list, waker list) page_manager" where
  "linked_pm =
     \<lparr>pm_db = pm_db small_pm, pm_header = pm_header small_pm,
      pm_cache = [512 \<mapsto> linked_page 512 0 1024, 1024 \<mapsto> linked_page 1024 512 1536, 1536 \<mapsto> linked_page 1536 1024 0],
      pm_tasks = [], pm_free_wakers = [3], pm_caching_wakers = [], pm_woken = []\<rparr>"

lemma linked_page_simps [simp]:
  "prev_page_address (linked_page a prev nxt) = prev" "next_page_address (linked_page a prev nxt) = nxt"
  "wf_page (linked_page a prev nxt)"
  by (simp_all add: linked_page_def prev_page_address_def next_page_address_def wf_page_def PAGE_SIZE_def)

lemma linked_pm_coherent: "coherent map_cache linked_pm"
proof -
  have "entry_ok (pm_db small_pm) 512 (linked_page 512 x y)" "entry_ok (pm_db small_pm) 1024 (linked_page 1024 x y)"
    "entry_ok (pm_db small_pm) 1536 (linked_page 1536 x y)" for x y
    using small_pm_ok(3-5) by (simp_all add: entry_ok_def) (simp_all add: linked_page_def page_address_def is_dirty_def)
  then show ?thesis by (auto simp: coherent_in_def linked_pm_def map_cache_def split: if_splits)
qed

theorem delete_page_unlinks_witness:
  "\<exists>pm'. delete_page map_cache list_bag list_bag (\<lambda>pm. pm) 7 1024 (linked_pm, ReadingLinks False) =
      returns ((pm', Resetting False), Ready (Ok ())) \<and>
    pm_tasks pm' = [WriteBack 512, WriteBack 1536] \<and> 1024 \<in># mset (dh_free_pages (pm_header pm')) \<and> pm_woken pm' = [3]"
proof -
  have c: "hc_get map_cache 1024 (pm_cache linked_pm) = Some (linked_page 1024 512 1536)"
    "hc_get map_cache 512 (pm_cache linked_pm) = Some (linked_page 512 0 1024)"
    "hc_get map_cache 1536 (pm_cache linked_pm) = Some (linked_page 1536 1024 0)"
    by (simp_all add: map_cache_def linked_pm_def)
  have fields: "pm_tasks linked_pm = []" "pm_woken linked_pm = []"
    "dh_free_pages (pm_header linked_pm) = []" "bag_content list_bag (pm_free_wakers linked_pm) = {#3#}"
    "bag_content list_bag (x :: u64 list) = mset x" for x
    by (simp_all add: linked_pm_def small_pm_def list_bag_def)
  have "(512 :: u64) \<noteq> 0" "(1536 :: u64) \<noteq> 0" "distinct [1024 :: u64, 512, 1536]" by simp_all
  from delete_page_unlinks [OF map_cache_laws list_bag_laws list_bag_laws linked_pm_coherent c(1) linked_page_simps(1,2)
      c(2,3) this, where meanwhile = "\<lambda>pm. pm" and w = 7]
  obtain pm' and ws :: "waker list" where "delete_page map_cache list_bag list_bag (\<lambda>pm. pm) 7 1024 (linked_pm, ReadingLinks False) =
      returns ((pm', Resetting False), Ready (Ok ()))" "pm_tasks pm' = pm_tasks linked_pm @ [WriteBack 512, WriteBack 1536]"
    "bag_content list_bag (dh_free_pages (pm_header pm')) = add_mset 1024 (bag_content list_bag (dh_free_pages (pm_header linked_pm)))"
    "pm_woken pm' = pm_woken linked_pm @ ws" "mset ws = bag_content list_bag (pm_free_wakers linked_pm)"
    by (elim exE conjE) (rule that; assumption)
  then show ?thesis by (intro exI [of _ pm']) (simp add: fields)
qed

section \<open>Creating a page\<close>

text \<open>
  \<^verbatim>\<open>create_page\<close> links the free page in the cache without marking it as dirty. When the I/O
  thread fills the entry of another page first and the cache makes room by evicting the new page, the
  page is not written to the file, the request to write it back finds nothing, and the page that was
  returned to the caller is not linked.
\<close>

theorem create_link_lost:
  fixes pm :: "('c, 'f, 'b) page_manager"
  assumes H: "hash_cache_laws H" and B: "scc_bag_laws B" and co: "coherent H pm"
    and p: "hc_get H a (pm_cache pm) = Some p" "\<not> is_dirty p" "prev_page_address p = 0"
    and free: "bag_pop F (dh_free_pages (pm_header pm)) = (f, Some a)"
    and b: "page_at (pm_db pm) b" "hc_get H b (pm_cache pm) = None"
    and full: "\<forall>q c p. hc_get H a c = Some p \<longrightarrow> snd (hc_put H b q c) = Some (a, p)"
  shows "\<exists>pm1 pm2 pm3 st. create_page H F B meanwhile w prev (pm, GettingPage False) = returns ((pm1, st), Ready (Ok a)) \<and>
    pm_tasks pm1 = pm_tasks pm @ [WriteBack a] \<and>
    page_task H F B read_faults write_faults (FillCache b) pm1 = returns pm2 \<and>
    page_task H F B read_faults write_faults (WriteBack a) pm2 = returns pm3 \<and>
    page_view H pm3 a = page_view H pm a"
proof -
  let ?h = "(pm_header pm)\<lparr>dh_free_pages := f\<rparr>" and ?p = "set_prev_page_address prev p"
  let ?c = "hc_update H a (set_prev_page_address prev p) (pm_cache pm)"
  let ?pm1 = "pm\<lparr>pm_header := ?h, pm_cache := ?c, pm_tasks := pm_tasks pm @ [WriteBack a]\<rparr>"
  have g: "hc_get H c ?c = (if c = a then Some ?p else hc_get H c (pm_cache pm))" for c
    using p(1) by (intro hc_update_get [OF H]) simp
  have "get_free_page F B meanwhile w (pm, False) = returns ((pm\<lparr>pm_header := ?h\<rparr>, False), Ready (Ok a))"
    unfolding get_free_page_def by (subst rust_loop.simps) (simp add: get_free_body_def free)
  moreover have "write_page H B meanwhile w a (link_page prev) (pm\<lparr>pm_header := ?h\<rparr>, False) =
      returns ((pm\<lparr>pm_header := ?h, pm_cache := ?c\<rparr>, False), Ready (Ok True))"
    using p by (subst write_page_cached [of H a _ p]) (simp_all add: link_page_def)
  ultimately have 1: "create_page H F B meanwhile w prev (pm, GettingPage False) =
      returns ((?pm1, LinkingPage a False), Ready (Ok a))"
    unfolding create_page_def
    by (subst rust_loop.simps) (simp add: create_page_body_def, subst rust_loop.simps, simp add: create_page_body_def send_io_def)
  have ba: "b \<noteq> a" using b p by auto
  have e: "entry_ok (pm_db pm) a p" using co p(1) by (rule coherent_entry)
  let ?n = "\<lparr>pg_address_and_dirty_flag = b, pg_buffer = file_page (pm_db pm) b\<rparr>"
  have bnone: "hc_get H b ?c = None" using g b ba by simp
  obtain c2 where put: "hc_put H b ?n ?c = (c2, Some (a, ?p))" using full [rule_format, of ?c ?p ?n] g by (cases "hc_put H b ?n ?c") simp
  obtain fs c' ev where "rust_loop (fill_body H b (pm_db pm)) (read_faults, ?c) = returns ((fs, c'), ev)"
    "case hc_get H b ?c of Some _ \<Rightarrow> c' = ?c \<and> ev = None | None \<Rightarrow> hc_put H b ?n ?c = (c', ev)"
    using fill_loop [OF b(1), of H read_faults ?c] by (elim exE conjE) (rule that)
  with bnone put have loop: "rust_loop (fill_body H b (pm_db pm)) (read_faults, ?c) = returns ((fs, c2), Some (a, ?p))"
    by simp
  have clean: "\<not> is_dirty ?p" using p(2) by (simp add: is_dirty_def set_prev_page_address_def)
  obtain pm2 where 2: "fill_cache_sync H B read_faults write_faults b ?pm1 = returns pm2"
    "pm_cache pm2 = c2" "pm_db pm2 = pm_db pm"
    using wake_caching_returns [OF B, of "?pm1\<lparr>pm_cache := c2\<rparr>"] loop clean by (auto simp: fill_cache_sync_def)
  have none: "hc_get H a c2 = None" using hc_put_evicts(3) [OF H bnone put] ba by simp
  then have 3: "write_back_sync H write_faults a pm2 = returns pm2"
    unfolding write_back_sync_def by (subst rust_loop.simps) (simp add: write_back_body_def 2)
  have "page_view H pm2 a = page_view H pm a"
    using none e p by (simp add: view_in_def 2 entry_ok_def)
  with 1 2(1) 3 show ?thesis by (intro exI [of _ ?pm1] exI [of _ pm2] exI [of _ "LinkingPage a False"]) simp
qed

theorem create_link_lost_witness:
  "\<exists>pm1 pm2 pm3 st. create_page slot_cache list_bag list_bag (\<lambda>pm. pm) 7 512
      (small_pm\<lparr>pm_header := (pm_header small_pm)\<lparr>dh_free_pages := [1536]\<rparr>,
         pm_cache := Some (1536, \<lparr>pg_address_and_dirty_flag = 1536, pg_buffer = zeros 512\<rparr>)\<rparr>, GettingPage False) =
      returns ((pm1, st), Ready (Ok 1536)) \<and>
    page_task slot_cache list_bag list_bag [] [] (FillCache 1024) pm1 = returns pm2 \<and>
    page_task slot_cache list_bag list_bag [] [] (WriteBack 1536) pm2 = returns pm3 \<and>
    prev_page_address \<lparr>pg_address_and_dirty_flag = 1536, pg_buffer = page_view slot_cache pm3 1536\<rparr> = 0"
proof -
  let ?p = "\<lparr>pg_address_and_dirty_flag = 1536, pg_buffer = zeros 512\<rparr>"
  let ?pm = "small_pm\<lparr>pm_header := (pm_header small_pm)\<lparr>dh_free_pages := [1536]\<rparr>, pm_cache := Some (1536, ?p)\<rparr>"
  have z: "file_page (pm_db small_pm) 1536 = zeros 512"
    by (simp add: small_pm_def file_page_def PAGE_SIZE_def)
  have e: "entry_ok (pm_db small_pm) 1536 ?p"
    using entry_ok_fresh [OF small_pm_ok(5)] by (simp add: z)
  then have co: "coherent slot_cache ?pm"
    by (auto simp: coherent_in_def slot_cache_def split: if_splits)
  have zp: "prev_page_address \<lparr>pg_address_and_dirty_flag = 1536, pg_buffer = zeros 512\<rparr> = 0"
    by (simp add: prev_page_address_def)
  have p: "hc_get slot_cache 1536 (pm_cache ?pm) = Some ?p" "\<not> is_dirty ?p" "prev_page_address ?p = 0"
    "bag_pop list_bag (dh_free_pages (pm_header ?pm)) = ([], Some 1536)" "page_at (pm_db ?pm) 1024"
    "hc_get slot_cache 1024 (pm_cache ?pm) = None"
    using e small_pm_ok(4) zp by (simp_all add: slot_cache_def entry_ok_def list_bag_def is_dirty_def)
  have full: "\<forall>q c p. hc_get slot_cache 1536 c = Some p \<longrightarrow> snd (hc_put slot_cache 1024 q c) = Some (1536, p)"
    by (auto simp: slot_cache_def split: option.splits if_splits)
  have view: "page_view slot_cache ?pm 1536 = zeros 512" by (simp add: view_in_def slot_cache_def)
  from create_link_lost [OF slot_cache_laws list_bag_laws co p full, where meanwhile = "\<lambda>pm. pm" and w = 7 and prev = 512
      and read_faults = "[]" and write_faults = "[]"]
  obtain pm1 pm2 pm3 st where "create_page slot_cache list_bag list_bag (\<lambda>pm. pm) 7 512 (?pm, GettingPage False) =
      returns ((pm1, st), Ready (Ok 1536))" "page_task slot_cache list_bag list_bag [] [] (FillCache 1024) pm1 = returns pm2"
    "page_task slot_cache list_bag list_bag [] [] (WriteBack 1536) pm2 = returns pm3" "page_view slot_cache pm3 1536 = zeros 512"
    unfolding view by (elim exE conjE) (rule that; assumption)
  with zp show ?thesis by (intro exI [of _ pm1] exI [of _ pm2] exI [of _ pm3] exI [of _ st]) simp
qed


section \<open>The header\<close>

definition empty_file :: random_access_file where
  "empty_file = \<lparr>raf_file = [], raf_len = 0\<rparr>"

lemma header_created:
  "header_from_file F (\<lambda>_. None) empty_file =
     (\<lparr>raf_file = zeros 16 @ to_le_bytes 8 VERSION @ to_le_bytes 8 DEFAULT_LOG_HEAD_PAGE @
         to_le_bytes 8 DEFAULT_CONTAINER_DIRECTORY_PAGE @ zeros 2008, raf_len = 2048\<rparr>,
      Ok \<lparr>dh_version = VERSION, dh_log_head = DEFAULT_LOG_HEAD_PAGE,
          dh_container_directory_head = DEFAULT_CONTAINER_DIRECTORY_PAGE,
          dh_free_pages = bag_push F DEFAULT_FREE_PAGE (bag_empty F),
          dh_free_page_scanner_offset = DEFAULT_FREE_PAGE\<rparr>)"
proof -
  have w: "raf_set_len None 2048 \<lparr>raf_file = [], raf_len = 0\<rparr> = (\<lparr>raf_file = zeros 2048, raf_len = 2048\<rparr>, Ok ())"
    by (simp add: raf_set_len_def zeros_def)
  show ?thesis
    by (simp add: header_from_file_def empty_file_def PAGE_SIZE_def PAGE_HEADER_LEN_def w try_io_def raf_write_def
        write_bytes_within)
qed

text \<open>
  The header written into a new database file is read back when the file is opened again, except
  that the pages known to be free are forgotten.
\<close>

theorem header_reopened:
  "\<exists>db h db'. header_from_file F (\<lambda>_. None) empty_file = (db, Ok h) \<and> dh_version h = VERSION \<and>
     bag_pop F (dh_free_pages h) = bag_pop F (bag_push F DEFAULT_FREE_PAGE (bag_empty F)) \<and>
     raf_open None (raf_file db) = Ok db' \<and>
     header_from_file F (\<lambda>_. None) db' = (db', Ok (h\<lparr>dh_free_pages := bag_empty F\<rparr>))"
proof -
  let ?f = "zeros 16 @ to_le_bytes 8 VERSION @ to_le_bytes 8 DEFAULT_LOG_HEAD_PAGE @
    to_le_bytes 8 DEFAULT_CONTAINER_DIRECTORY_PAGE @ zeros 2008"
  let ?db = "\<lparr>raf_file = ?f, raf_len = 2048\<rparr>"
  let ?h = "\<lparr>dh_version = VERSION, dh_log_head = DEFAULT_LOG_HEAD_PAGE,
    dh_container_directory_head = DEFAULT_CONTAINER_DIRECTORY_PAGE,
    dh_free_pages = bag_push F DEFAULT_FREE_PAGE (bag_empty F), dh_free_page_scanner_offset = DEFAULT_FREE_PAGE\<rparr>"
  have o: "raf_open None ?f = Ok ?db" by (simp add: raf_open_def)
  have "header_from_file F (\<lambda>_. None) ?db = (?db, Ok (?h\<lparr>dh_free_pages := bag_empty F\<rparr>))"
    by (simp add: header_from_file_def page_from_file_def raf_read_def PAGE_SIZE_def page_content_def PAGE_HEADER_LEN_def)
  with o header_created [of F] show ?thesis by (intro exI [of _ ?db] exI [of _ ?h]) simp
qed

text \<open>
  When the file is extended but the first write of its header fails, opening the file again
  succeeds with a header of version zero whose log and container directory are on page zero.
\<close>

theorem torn_header_accepted:
  assumes "fault 0 = None" "fault 1 = Some e"
  shows "\<exists>db db' h. header_from_file F fault empty_file = (db, Err e) \<and> raf_open None (raf_file db) = Ok db' \<and>
    header_from_file F (\<lambda>_. None) db' = (db', Ok h) \<and> dh_version h = 0 \<and> dh_log_head h = 0 \<and>
    dh_container_directory_head h = 0"
proof -
  have w: "raf_set_len None 2048 \<lparr>raf_file = [], raf_len = 0\<rparr> = (\<lparr>raf_file = zeros 2048, raf_len = 2048\<rparr>, Ok ())"
    by (simp add: raf_set_len_def zeros_def)
  have "header_from_file F fault empty_file = (\<lparr>raf_file = zeros 2048, raf_len = 2048\<rparr>, Err e)"
    using assms by (simp add: header_from_file_def empty_file_def PAGE_SIZE_def PAGE_HEADER_LEN_def w try_io_def raf_write_def)
  moreover have "raf_open None (zeros 2048) = Ok \<lparr>raf_file = zeros 2048, raf_len = 2048\<rparr>"
    by (simp add: raf_open_def)
  moreover have "header_from_file F (\<lambda>_. None) \<lparr>raf_file = zeros 2048, raf_len = 2048\<rparr> =
      (\<lparr>raf_file = zeros 2048, raf_len = 2048\<rparr>, Ok \<lparr>dh_version = 0, dh_log_head = 0, dh_container_directory_head = 0,
        dh_free_pages = bag_empty F, dh_free_page_scanner_offset = DEFAULT_FREE_PAGE\<rparr>)"
    by (simp add: header_from_file_def page_from_file_def raf_read_def PAGE_SIZE_def page_content_def PAGE_HEADER_LEN_def)
  ultimately show ?thesis by simp
qed

theorem torn_header_accepted_witness:
  "\<exists>db db' h. header_from_file list_bag (\<lambda>n. if n = 1 then Some (IO 1) else None) empty_file = (db, Err (IO 1)) \<and>
     raf_open None (raf_file db) = Ok db' \<and> header_from_file list_bag (\<lambda>_. None) db' = (db', Ok h) \<and> dh_version h \<noteq> VERSION"
proof -
  have "(\<lambda>n :: nat. if n = 1 then Some (IO 1) else None) 0 = None" "(\<lambda>n :: nat. if n = 1 then Some (IO 1) else None) 1 = Some (IO 1)"
    by simp_all
  from torn_header_accepted [OF this, of list_bag] show ?thesis by (auto simp: VERSION_def)
qed

section \<open>The end of the I/O thread\<close>

definition waiting_bytes :: "'b file_io_data \<Rightarrow> nat list \<Rightarrow> u8 list" where
  "waiting_bytes d xs = concat (map (\<lambda>x. buffer_bytes (fd_buffers d x)) (rev xs))"

definition flushable :: "'b file_io_data \<Rightarrow> u64 \<Rightarrow> nat list \<Rightarrow> bool" where
  "flushable d off xs \<longleftrightarrow> chain d (fd_log_buffer_link d) xs \<and> length (raf_file (fd_log d)) = unat off \<and>
     unat off + length (waiting_bytes d xs) < 2 ^ 64 \<and>
     (\<forall>x \<in> set xs. lb_pos (fd_buffers d x) \<le> length (lb_buffer (fd_buffers d x)))"

lemma flush_batch:
  assumes B: "scc_bag_laws B" and f: "flushable d off xs"
  shows "\<exists>d' off'. process_log_buffer_batch B faults (d, off) = returns (d', off') \<and> flushable d' off' [] \<and>
    raf_file (fd_log d') = raf_file (fd_log d) @ waiting_bytes d xs"
proof (cases "xs = []")
  case True
  with f batch_empty [of d B faults off] show ?thesis by (auto simp: flushable_def waiting_bytes_def)
next
  case False
  note f' = f [unfolded flushable_def waiting_bytes_def]
  obtain d' ws where d': "process_log_buffer_batch B faults (d, off) = returns (d', off + of_nat (length (waiting_bytes d xs)))"
    "raf_file (fd_log d') = raf_file (fd_log d) @ waiting_bytes d xs" "fd_log_buffer_link d' = 0"
    using batch_ok [OF B _ False, of d off faults] f' unfolding waiting_bytes_def by metis
  have "unat off + length (waiting_bytes d xs) < 2 ^ LENGTH(64)" using f by (simp add: flushable_def)
  then have "unat (off + of_nat (length (waiting_bytes d xs))) = unat off + length (waiting_bytes d xs)"
    by (simp add: unat_add_lem [THEN iffD1] unat_of_nat take_bit_nat_eq_self)
  with d' f show ?thesis
    by (intro exI [of _ d'] exI [of _ "off + of_nat (length (waiting_bytes d xs))"])
      (simp add: flushable_def waiting_bytes_def [of d' "[]"])
qed

text \<open>What a task that is still in the channel may be.\<close>

fun pending_task :: "io_task \<Rightarrow> page_store \<Rightarrow> page_store option" where
  "pending_task Flush ps = Some ps"
| "pending_task t ps = store_task t ps"

lemma pending_step:
  fixes s :: "('q, 'b, 't, 'c, 'f) io_thread" and T :: "'t object_map" and C :: "('u, playback) scc_map"
  assumes rel: "store_rel H F B (it_pages s) ps" and f: "flushable (it_data s) (it_log_offset s) xs"
    and t: "pending_task t ps = Some ps'"
  shows "\<exists>s' ys. process_task H F B T C no_playbacks env t s = returns (s', True) \<and> store_rel H F B (it_pages s') ps' \<and>
    flushable (it_data s') (it_log_offset s') ys \<and>
    raf_file (fd_log (it_data s')) @ waiting_bytes (it_data s') ys = raf_file (fd_log (it_data s)) @ waiting_bytes (it_data s) xs"
proof (cases "t = Flush")
  case True
  have "scc_bag_laws B" using rel by (simp add: store_rel_def)
  from flush_batch [OF this f, of "ie_log_faults env"] obtain d' off'
    where "process_log_buffer_batch B (ie_log_faults env) (it_data s, it_log_offset s) = returns (d', off')"
      "flushable d' off' []" "raf_file (fd_log d') = raf_file (fd_log (it_data s)) @ waiting_bytes (it_data s) xs" by blast
  with True rel t show ?thesis
    by (intro exI [of _ "s\<lparr>it_data := d', it_log_offset := off'\<rparr>"] exI [of _ "[]"])
      (simp add: process_task_def waiting_bytes_def [of d' "[]"])
next
  case False
  then have st: "store_task t ps = Some ps'" using t by (cases t) simp_all
  from store_task_law [OF rel st] obtain pm' where
    "page_task H F B (ie_read_faults env) (ie_write_faults env) t (it_pages s) = returns pm'" "store_rel H F B pm' ps'" by blast
  with st f False show ?thesis
    by (intro exI [of _ "s\<lparr>it_pages := pm'\<rparr>"] exI [of _ xs]) (cases t; simp add: process_task_def)
qed

text \<open>
  C18: When the layer is dropped, the I/O thread runs the tasks still in the channel, whatever
  operations fail before they succeed, and ends with the request to shut down: all log buffers that were
  flushed are then in the log file, in the order they were flushed, the pages keep their contents, and
  nothing sent after the request is looked at.
\<close>

theorem shutdown_flushes_log:
  fixes s :: "('q, 'b, 't, 'c, 'f) io_thread" and T :: "'t object_map" and C :: "('u, playback) scc_map"
  assumes rel: "store_rel H F B (it_pages s) ps" and f: "flushable (it_data s) (it_log_offset s) xs"
    and tasks: "run_spec (\<lambda>(t, _). pending_task t) ts ps = Some ps'"
    and alone: "list_all (\<lambda>(_, e). ie_others e = (\<lambda>s. s)) (ts @ [(ShutdownIO, env)])"
  shows "\<exists>s'. process_sync H F B T C no_playbacks (ts @ (ShutdownIO, env) # rest) s = returns s' \<and>
    raf_file (fd_log (it_data s')) = raf_file (fd_log (it_data s)) @ waiting_bytes (it_data s) xs \<and>
    fd_log_buffer_link (it_data s') = 0 \<and> store_rel H F B (it_pages s') ps'"
  using rel f tasks alone
proof (induction ts arbitrary: s ps xs)
  case Nil
  have "scc_bag_laws B" using Nil by (simp add: store_rel_def)
  from flush_batch [OF this Nil(2), of "ie_log_faults env"] obtain d' off'
    where "process_log_buffer_batch B (ie_log_faults env) (it_data s, it_log_offset s) = returns (d', off')"
      "flushable d' off' []" "raf_file (fd_log d') = raf_file (fd_log (it_data s)) @ waiting_bytes (it_data s) xs" by blast
  with Nil show ?case by (simp add: process_task_def flushable_def)
next
  case (Cons te ts)
  obtain t e where te: "te = (t, e)" by fastforce
  with Cons.prems obtain ps1 where t: "pending_task t ps = Some ps1" and ts: "run_spec (\<lambda>(t, _). pending_task t) ts ps1 = Some ps'"
    by (auto split: option.splits)
  obtain s1 ys where 1: "process_task H F B T C no_playbacks e t s = returns (s1, True)" "store_rel H F B (it_pages s1) ps1"
    "flushable (it_data s1) (it_log_offset s1) ys"
    "raf_file (fd_log (it_data s1)) @ waiting_bytes (it_data s1) ys = raf_file (fd_log (it_data s)) @ waiting_bytes (it_data s) xs"
    using pending_step [OF Cons.prems(1,2) t, of T C no_playbacks e] by (elim exE conjE) (rule that; assumption)
  with Cons.IH [OF 1(2,3) ts] Cons.prems(4) te show ?case by simp
qed


text \<open>A thread that works alone, with a commit record to write and a page to fill.\<close>

definition alone :: "('q, 'b, 't, 'c, 'f) io_env" where
  "alone =
     \<lparr>ie_log_faults = (\<lambda>_. [IO 1]), ie_read_faults = [IO 2], ie_write_faults = [IO 3],
      ie_recover_faults = (\<lambda>_ _. None), ie_cancelled = (\<lambda>_ _. False), ie_others = (\<lambda>s. s), ie_meanwhile = (\<lambda>d. d)\<rparr>"

definition small_thread ::
  "(nat, waker list, u64 \<rightharpoonup> object_state, (u64 \<times> evictable_page) option, u64 list) io_thread" where
  "small_thread = \<lparr>it_data = committing_layer, it_pages = small_pm, it_recovery = None, it_woken = [], it_log_offset = 0\<rparr>"

lemma small_thread_flushable: "flushable (it_data small_thread) (it_log_offset small_thread) [1]"
  using io_invD(3,5,7) [OF committing_layer_inv]
  by (simp add: small_thread_def flushable_def waiting_bytes_def committing_layer_bytes closed_buffer_def)

theorem shutdown_flushes_log_witness:
  "\<exists>s'. process_sync slot_cache list_bag list_bag fun_map (fun_map :: (transaction_id \<rightharpoonup> playback, playback) scc_map) Map.empty
      [(FillCache 512, alone), (Flush, alone), (ShutdownIO, alone), (Recover, alone)] small_thread = returns s' \<and>
    raf_file (fd_log (it_data s')) = encode (TransactionCommitted 8 5)"
proof -
  have rel: "store_rel slot_cache list_bag list_bag (it_pages small_thread) small_store"
    using small_store_rel by (simp add: small_thread_def)
  let ?env = "alone :: (nat, waker list, u64 \<rightharpoonup> object_state, (u64 \<times> evictable_page) option, u64 list) io_env"
  have tasks: "run_spec (\<lambda>(t, _). pending_task t) [(FillCache 512, ?env), (Flush, ?env)] small_store = Some small_store"
    by (simp add: small_store_def in_store_def PAGE_SIZE_def)
  have quiet: "list_all (\<lambda>(_, e). ie_others e = (\<lambda>s. s)) ([(FillCache 512, ?env), (Flush, ?env)] @ [(ShutdownIO, ?env)])"
    by (simp add: alone_def)
  from shutdown_flushes_log [OF rel small_thread_flushable tasks quiet, where rest = "[(Recover, ?env)]" and
      T = fun_map and C = "fun_map :: (transaction_id \<rightharpoonup> playback, playback) scc_map" and no_playbacks = Map.empty]
  show ?thesis
    by (simp add: small_thread_def waiting_bytes_def committing_layer_bytes committing_layer_fields del: process_sync.simps) blast
qed

text \<open>
  Reading a page that the file does not have leaves a request to fill its entry; the I/O thread
  repeats the read that fails forever. It processes no other task: no log buffer is written any more,
  no commit completes, and dropping the layer does not end.
\<close>

theorem missing_page_stalls_io:
  fixes s :: "('q, 'b, 't, 'c, 'f) io_thread" and T :: "'t object_map" and C :: "('u, playback) scc_map"
  assumes none: "hc_get H a (pm_cache (it_pages s)) = None"
    and beyond: "length (raf_file (pm_db (it_pages s))) < unat a + PAGE_SIZE"
    and env: "ie_others env = (\<lambda>s. s)"
  shows "\<exists>pm. read_page H B (\<lambda>pm. pm) w a reader (it_pages s, False) = returns ((pm, True), Pending) \<and>
    pm_tasks pm = pm_tasks (it_pages s) @ [FillCache a] \<and>
    process_sync H F B T C no_playbacks ((FillCache a, env) # received) (s\<lparr>it_pages := pm\<rparr>) = None"
proof -
  let ?pm = "(it_pages s)\<lparr>pm_tasks := pm_tasks (it_pages s) @ [FillCache a],
    pm_caching_wakers := bag_push B w (pm_caching_wakers (it_pages s))\<rparr>"
  have "rust_loop (fill_body H a (pm_db (it_pages s))) (ie_read_faults env, pm_cache (it_pages s)) = None"
  proof (rule rust_loop_diverges [where I = "\<lambda>(_, c). hc_get H a c = None"])
    fix st :: "error list \<times> 'c" assume "case st of (_, c) \<Rightarrow> hc_get H a c = None"
    then show "\<exists>s'. fill_body H a (pm_db (it_pages s)) st = returns (s', Again) \<and> (case s' of (_, c) \<Rightarrow> hc_get H a c = None)"
      using beyond by (auto simp: fill_body_def page_from_file_def raf_read_def split: option.split)
  qed (simp add: none)
  then have "process_sync H F B T C no_playbacks ((FillCache a, env) # received) (s\<lparr>it_pages := ?pm\<rparr>) = None"
    by (simp add: env process_task_def fill_cache_sync_def)
  moreover have "read_page H B (\<lambda>pm. pm) w a reader (it_pages s, False) = returns ((?pm, True), Pending)"
    unfolding read_page_def using none by (rule access_waits(2))
  ultimately show ?thesis by (intro exI [of _ ?pm]) simp
qed

theorem missing_page_stalls_io_witness:
  "\<exists>pm. read_page slot_cache list_bag (\<lambda>pm. pm) 7 2048 page_content (small_pm, False) = returns ((pm, True), Pending) \<and>
    process_sync slot_cache list_bag list_bag fun_map (fun_map :: (transaction_id \<rightharpoonup> playback, playback) scc_map) Map.empty
      [(FillCache 2048, alone), (Flush, alone), (ShutdownIO, alone)] (small_thread\<lparr>it_pages := pm\<rparr>) = None"
proof -
  have p: "it_pages small_thread = small_pm" by (simp add: small_thread_def)
  have h: "hc_get slot_cache 2048 (pm_cache (it_pages small_thread)) = None"
    "length (raf_file (pm_db (it_pages small_thread))) < unat (2048 :: u64) + PAGE_SIZE"
    by (simp_all add: p small_pm_ok) (simp add: small_pm_def PAGE_SIZE_def)
  have "ie_others (alone :: (nat, waker list, u64 \<rightharpoonup> object_state, (u64 \<times> evictable_page) option, u64 list) io_env) = (\<lambda>s. s)"
    by (simp add: alone_def)
  from missing_page_stalls_io [OF h this, where received = "[(Flush, alone), (ShutdownIO, alone)]" and F = list_bag and B = list_bag
      and w = 7 and reader = page_content and T = fun_map and no_playbacks = Map.empty
      and C = "fun_map :: (transaction_id \<rightharpoonup> playback, playback) scc_map"]
  show ?thesis unfolding p by (elim exE conjE) (intro exI conjI; assumption)
qed


text \<open>Dropping the layer gets its request into the channel as long as the thread takes tasks out of it.\<close>

lemma send_shutdown_returns:
  assumes capacity: "\<And>d. fd_task_capacity (drained d) = fd_task_capacity d" "0 < fd_task_capacity d"
    and drained: "\<And>d. fd_tasks d \<noteq> [] \<Longrightarrow> length (fd_tasks (drained d)) < length (fd_tasks d)"
  shows "\<exists>d'. send_shutdown drained d = returns d' \<and> fd_tasks d' \<noteq> [] \<and> last (fd_tasks d') = ShutdownIO"
proof -
  have "\<exists>d' r. rust_loop (shutdown_body drained) d = returns (d', r)"
    by (rule rust_loop_returns [where I = "\<lambda>d. 0 < fd_task_capacity d" and m = "\<lambda>d. length (fd_tasks d)"])
      (use capacity in \<open>auto simp: shutdown_body_def io_try_send_def not_less intro!: drained\<close>)
  then obtain d' r where ret: "rust_loop (shutdown_body drained) d = returns (d', r)" by blast
  have "fd_tasks d' \<noteq> [] \<and> last (fd_tasks d') = ShutdownIO"
    by (rule rust_loop_rule [where I = "\<lambda>_. True", OF ret])
      (auto simp: shutdown_body_def io_try_send_def split: if_splits)
  with ret show ?thesis by (simp add: send_shutdown_def)
qed

end
