(* ===== verification/Database_Open.thy ===== *)
theory Database_Open
  imports Page_Links Recovered_State
begin

text \<open>
  Opening a database: the files of the persistence layer (\<^verbatim>\<open>FileIO::with_path\<close> in
  \<^verbatim>\<open>src/src/persistence_layer/file_io/mod.rs\<close>), its recovery, and the wait for it
  (\<^verbatim>\<open>Database::with_path\<close> and \<^verbatim>\<open>with_persistence_layer\<close> in \<^verbatim>\<open>src/src/database.rs\<close>).
\<close>

section \<open>Definitions\<close>

text \<open>
  What the operating system answers when the files are opened: whether the directory can be created,
  the errors and the contents of the two files, and the errors of the operations on the second one.
\<close>

record files =
  fs_path_fault :: bool
  fs_log_fault :: "error option"
  fs_log :: "u8 list"
  fs_db_fault :: "error option"
  fs_db :: "u8 list"
  fs_header_faults :: "nat \<Rightarrow> error option"

definition open_layer ::
  "('f, u64) bag_of \<Rightarrow> 'b scc_bag \<Rightarrow> 'c \<Rightarrow> nat \<Rightarrow> files \<Rightarrow> ('q, 'b, 't, 'c, 'f) io_thread result" where
  "open_layer F B empty_cache capacity fs =
     (case with_path B (fs_path_fault fs) (fs_log_fault fs) (fs_log fs) capacity of
        Inl e \<Rightarrow> Err e
      | Inr d \<Rightarrow>
          (case raf_open (fs_db_fault fs) (fs_db fs) of
             Inl e \<Rightarrow> Err e
           | Inr db \<Rightarrow>
               (case page_manager_from_db F B empty_cache (fs_header_faults fs) db of
                  Inl e \<Rightarrow> Err e
                | Inr pm \<Rightarrow> Ok (io_thread_start d pm))))"

text \<open>The kernel of a new database, with the default sequencer and no access data.\<close>

definition new_database ::
  "'q entry_queue \<Rightarrow> nat \<Rightarrow> 'b heap \<Rightarrow> 't \<Rightarrow> u64 list \<Rightarrow> ('q, 'b, 't) recovered" where
  "new_database Q num_shards h no_objects free =
     \<lparr>rk_sequencer = default_sequencer Q num_shards, rk_heap = h, rk_table = no_objects, rk_free = free\<rparr>"

text \<open>The request of a recovery, which is then awaited with \<^const>\<open>await_recovery_poll\<close>.\<close>

definition with_persistence_layer ::
  "bool \<Rightarrow> ('q, 'b, 't) recovered \<Rightarrow> u64 option \<Rightarrow> time option \<Rightarrow> ('q, 'b, 't, 'c, 'f) io_thread \<Rightarrow>
     ('q, 'b, 't, 'c, 'f) io_thread \<times> await_recovery result" where
  "with_persistence_layer lock database recover_until deadline s =
     (case file_recover lock database recover_until deadline (it_data s, it_recovery s) of
        ((d, data), r) \<Rightarrow> (s\<lparr>it_data := d, it_recovery := data\<rparr>, r))"

definition database_with_path ::
  "('f, u64) bag_of \<Rightarrow> 'b scc_bag \<Rightarrow> 'c \<Rightarrow> nat \<Rightarrow> bool \<Rightarrow> ('q, 'b, 't) recovered \<Rightarrow> files \<Rightarrow>
     (('q, 'b, 't, 'c, 'f) io_thread \<times> await_recovery) result" where
  "database_with_path F B empty_cache capacity lock database fs =
     (case open_layer F B empty_cache capacity fs of
        Inl e \<Rightarrow> Err e
      | Inr s \<Rightarrow>
          (case with_persistence_layer lock database None None s of
             (_, Inl e) \<Rightarrow> Err e
           | (s, Inr aw) \<Rightarrow> Ok (s, aw)))"

section \<open>Properties\<close>

text \<open>A header can be read from a database file with at least one page, and a new file gets one.\<close>

lemma header_readable:
  assumes "content = [] \<or> PAGE_SIZE \<le> length content \<and> length content < 2 ^ 64"
  shows "\<exists>db h. header_from_file F (\<lambda>_. None) \<lparr>raf_file = content, raf_len = of_nat (length content)\<rparr> = (db, Ok h)"
proof (cases "content = []")
  case True
  then show ?thesis using header_created [of F] by (simp add: empty_file_def)
next
  case False
  with assms have len: "PAGE_SIZE \<le> length content" "length content < 2 ^ 64" by simp_all
  have "unat (of_nat (length content) :: u64) = length content"
    using len(2) by (simp add: unat_of_nat take_bit_nat_eq_self)
  then have "(of_nat (length content) :: u64) \<noteq> 0" using False by (metis length_0_conv unat_0)
  with len(1) show ?thesis by (simp add: header_from_file_def page_from_file_def raf_read_def)
qed

text \<open>
  C17: Opening a database whose log consists of whole records, with no read error and no other thread at
  work. The recovery is the first task in the channel, and what the I/O thread does with it is exactly
  what applying the records of the log in order does: it completes if all of them can be applied, and
  panics if the replay of one of them does. When it completes, the poll that awaits it is ready with
  the database that results from the records, and the I/O thread then appends to the end of the log.
\<close>

theorem database_opens:
  fixes T :: "'t object_map" and C :: "('u, playback) scc_map" and database :: "('q, 'b, 't) recovered"
    and env :: "('q, 'b, 't, 'c, 'f) io_env"
  assumes files: "\<not> fs_path_fault fs" "fs_log_fault fs = None" "fs_db_fault fs = None" "fs_header_faults fs = (\<lambda>_. None)"
      "fs_db fs = [] \<or> PAGE_SIZE \<le> length (fs_db fs) \<and> length (fs_db fs) < 2 ^ 64"
    and log: "fs_log fs = encode_all rs" "log_records rs" "length (fs_log fs) < 2 ^ 64"
    and env: "ie_others env = (\<lambda>s. s)" "ie_meanwhile env = (\<lambda>d. d)" "ie_recover_faults env = (\<lambda>_ _. None)"
      "ie_cancelled env = (\<lambda>_ _. False)" and capacity: "0 < capacity"
  shows "\<exists>s1 aw opened. database_with_path F B empty_cache capacity True database fs = Ok (s1, aw) \<and>
    fd_tasks (it_data s1) = [Recover] \<and>
    process_sync H F B T C no_playbacks [(Recover, env)] s1 =
      bind_run (apply_all T C B rs (recovery_start database no_playbacks)) (\<lambda>s'. returns (opened s')) \<and>
    (\<forall>s'. await_recovery_poll True True now w aw (False, it_recovery (opened s')) =
        Done ((False, None), False, Ready (Ok (rv_database s'))) \<and>
      it_log_offset (opened s') = of_nat (length (fs_log fs)))"
proof -
  let ?log = "\<lparr>raf_file = fs_log fs, raf_len = of_nat (length (fs_log fs))\<rparr>"
  obtain db h where h: "header_from_file F (\<lambda>_. None) \<lparr>raf_file = fs_db fs, raf_len = of_nat (length (fs_db fs))\<rparr> = (db, Ok h)"
    using header_readable [OF files(5)] by blast
  let ?pm = "\<lparr>pm_db = db, pm_header = h, pm_cache = empty_cache, pm_tasks = [], pm_free_wakers = bag_empty B,
    pm_caching_wakers = bag_empty B, pm_woken = []\<rparr>"
  let ?d = "\<lparr>fd_buffers = (\<lambda>_. default_log_buffer), fd_next_buffer = 1, fd_log_buffer_link = 0,
           fd_flush_epoch = 0, fd_waker_bag = bag_empty B, fd_log = ?log,
           fd_tasks = [Recover], fd_task_capacity = capacity, fd_woken = []\<rparr>"
  let ?s1 = "\<lparr>it_data = ?d, it_pages = ?pm, it_recovery = Some (recovery_data_new database None), it_woken = [],
    it_log_offset = of_nat (length (fs_log fs))\<rparr>"
  have 1: "database_with_path F B empty_cache capacity True database fs = Ok (?s1, \<lparr>aw_deadline = None\<rparr>)"
    using files h capacity
    by (simp add: database_with_path_def open_layer_def with_path_def raf_open_def page_manager_from_db_def
        io_thread_start_def with_persistence_layer_def file_recover_def io_try_send_def)
  have intact: "log_intact ?log" using log(3) by (simp add: log_intact_def)
  have "replay T C B (raf_file ?log) (recovery_start database no_playbacks) =
      bind_run (apply_all T C B rs (recovery_start database no_playbacks)) (replay T C B [])"
    using replay_encode_all [OF log(2), of T C B "[]" "recovery_start database no_playbacks"]
    by (simp only: log(1) random_access_file.select_convs append_Nil2)
  then have r: "recover_database T C B no_playbacks (\<lambda>_ _. None) (\<lambda>_ _. False) (\<lambda>d. d) ?log
      (Some (recovery_data_new database None)) =
      bind_run (apply_all T C B rs (recovery_start database no_playbacks)) (\<lambda>s'.
        returns (Some (awaited None None (Some (Ok (rv_database s')))), None))"
    by (subst recover_database_exact [where until = None and w = None, OF intact])
      (simp_all add: bind_run_assoc [symmetric] replay_end(1))
  let ?opened = "\<lambda>s'. ?s1\<lparr>it_recovery := Some (awaited None None (Some (Ok (rv_database s'))))\<rparr>"
  have 2: "process_sync H F B T C no_playbacks [(Recover, env)] ?s1 =
      bind_run (apply_all T C B rs (recovery_start database no_playbacks)) (\<lambda>s'. returns (?opened s'))"
    using r by (simp add: env process_task_def bind_run_assoc [symmetric])
  have 3: "await_recovery_poll True True now w \<lparr>aw_deadline = None\<rparr> (False, it_recovery (?opened s')) =
      Done ((False, None), False, Ready (Ok (rv_database s')))" for s' :: "('q, 'b, 't, 'u) recovery"
    by (simp add: await_recovery_poll_def file_check_recovery_def get_result_def awaited_def)
  show ?thesis using 1 2 3 by (intro exI [of _ ?s1] exI [of _ ?opened] exI [of _ "\<lparr>aw_deadline = None\<rparr>"]) simp
qed



definition stored_files :: files where
  "stored_files =
     \<lparr>fs_path_fault = False, fs_log_fault = None, fs_log = encode_all [TransactionRolledBack 8 0], fs_db_fault = None, fs_db = [],
      fs_header_faults = (\<lambda>_. None)\<rparr>"

definition calm :: "(entry list, waker list, u64 \<rightharpoonup> object_state, (u64 \<times> evictable_page) option, u64 list) io_env" where
  "calm = alone\<lparr>ie_log_faults := (\<lambda>_. []), ie_read_faults := [], ie_write_faults := []\<rparr>"

theorem database_opens_witness:
  "\<exists>s1 s2 aw. database_with_path list_bag list_bag None 16 True demo_recovered stored_files = Ok (s1, aw) \<and>
    process_sync slot_cache list_bag list_bag fun_map (fun_map :: (u64 \<rightharpoonup> playback, playback) scc_map) Map.empty
      [(Recover, calm)] s1 = returns s2 \<and>
    await_recovery_poll True True 5 7 aw (False, it_recovery s2) = Done ((False, None), False, Ready (Ok demo_recovered))"
proof -
  have files: "\<not> fs_path_fault stored_files" "fs_log_fault stored_files = None" "fs_db_fault stored_files = None"
    "fs_header_faults stored_files = (\<lambda>_. None)"
    "fs_db stored_files = [] \<or> PAGE_SIZE \<le> length (fs_db stored_files) \<and> length (fs_db stored_files) < 2 ^ 64"
    "fs_log stored_files = encode_all [TransactionRolledBack 8 0]" "log_records [TransactionRolledBack 8 0]"
    "length (fs_log stored_files) < 2 ^ 64"
    by (simp_all add: stored_files_def log_records_def encode_all_def)
  have env: "ie_others calm = (\<lambda>s. s)" "ie_meanwhile calm = (\<lambda>d. d)" "ie_recover_faults calm = (\<lambda>_ _. None)"
    "ie_cancelled calm = (\<lambda>_ _. False)" and cap: "0 < (16 :: nat)"
    by (simp_all add: calm_def alone_def)
  note applied = demo_apply [unfolded demo_recovery_def]
  from database_opens [OF files env cap, where F = list_bag and H = slot_cache and B = list_bag and T = fun_map
      and C = "fun_map :: (u64 \<rightharpoonup> playback, playback) scc_map" and database = demo_recovered and no_playbacks = Map.empty
      and empty_cache = None and now = 5 and w = 7]
  obtain s1 aw opened where
    o: "database_with_path list_bag list_bag None 16 True demo_recovered stored_files = Ok (s1, aw)"
    "process_sync slot_cache list_bag list_bag fun_map (fun_map :: (u64 \<rightharpoonup> playback, playback) scc_map) Map.empty [(Recover, calm)] s1 =
      bind_run (apply_all fun_map fun_map list_bag [TransactionRolledBack 8 0] (recovery_start demo_recovered Map.empty))
        (\<lambda>s'. returns (opened s'))"
    "\<forall>s'. await_recovery_poll True True 5 7 aw (False, it_recovery (opened s')) =
        Done ((False, None), False, Ready (Ok (rv_database s'))) \<and> it_log_offset (opened s') = of_nat (length (fs_log stored_files))"
    by (elim exE conjE) (rule that; assumption)
  let ?s2 = "opened (recovery_start demo_recovered Map.empty)"
  have "await_recovery_poll True True 5 7 aw (False, it_recovery ?s2) = Done ((False, None), False, Ready (Ok demo_recovered))"
    using o(3) by (simp add: recovery_start_def)
  moreover have "process_sync slot_cache list_bag list_bag fun_map (fun_map :: (u64 \<rightharpoonup> playback, playback) scc_map) Map.empty
      [(Recover, calm)] s1 = returns ?s2"
    by (simp only: o(2) applied bind_run_simps)
  ultimately show ?thesis using o(1) by (intro exI [of _ s1] exI [of _ ?s2] exI [of _ aw]) simp
qed

end
