(* ===== verification/Spec2Isabelle.thy ===== *)
theory Spec2Isabelle
  imports Log_Record Sequencer Access_Gaps Journal_Access Transaction_Protocol Timers Int_Hash Durability Database_Open
begin

text \<open>
  A verification library for \<^verbatim>\<open>sap-tsf\<close>, a transactional storage framework written in Rust
  (\<^verbatim>\<open>src/src\<close>). It models the crate as executable definitions that are translated from the source
  function by function, and proves what each part promises and what the parts give together.

  \<^bold>\<open>The program.\<close> A \<^verbatim>\<open>Database\<close> owns a logical clock (the sequencer), an access controller, a
  persistence layer and a background task processor. A transaction takes snapshots of the clock and
  runs journals. A journal acquires database objects from the access controller and writes what it did
  into a log buffer. Submitting a journal puts it on the strand of its transaction; committing the
  transaction logs its commit instant and awaits the flush of the log. The access controller keeps, for
  every object, who owns it and who waits for it, and decides which snapshots see the object. The task
  processor hands objects over when their owners end, runs timers and collects old versions below the
  oldest snapshot the clock tracks. The file layer appends log buffers to a log file in its own thread,
  which also serves a cache of database pages, and replays the log when the database is opened.

  \<^bold>\<open>Theories and sources.\<close>
  \<^item> \<open>Tsf_Prelude\<close>: results, panics and loops; little-endian integers; the shared heap; the structures
    of the \<^verbatim>\<open>scc\<close> crate (bags, hash maps, queues) as records of operations with their laws; errors
    (\<^verbatim>\<open>error.rs\<close>).
  \<^item> \<open>Sequencer\<close>: the clock and its trackers (\<^verbatim>\<open>sequencer/monotonic_u64.rs\<close>). Runs of it go through the
    calls of \<^verbatim>\<open>track\<close> and \<^verbatim>\<open>min\<close> instruction by instruction (\<open>seq_step\<close>). The minimum bounds all readers
    except those whose instant was loaded and not yet published when \<^verbatim>\<open>min\<close> started (\<open>in_flight\<close>);
    \<open>track_min_race\<close> shows that the exception is needed.
  \<^item> \<open>Anchors\<close>: the anchors of transactions and journals, read and write rules, snapshots
    (\<^verbatim>\<open>transaction.rs\<close>, \<^verbatim>\<open>journal.rs\<close>, \<^verbatim>\<open>snapshot.rs\<close>), and the channel to the task processor.
  \<^item> \<open>Access\<close>, \<open>Ownership\<close>, \<open>Access_Control\<close>, \<open>Access_Gaps\<close>: the access controller
    (\<^verbatim>\<open>access_controller.rs\<close>). Definitions; the ownership lemmas; mutual exclusion, fairness of the wait
    queue, and what settling and removing access data keep; the states in which the code does not.
  \<^item> \<open>Access_Runs\<close>, \<open>Access_Grants\<close>, \<open>Access_Awaits\<close>: runs of the access controller as a step relation,
    with requests of all journals, hand-overs, removals and whatever the transactions do to their anchors
    in between. Every entry stays well-formed and an object stays with its transaction until the end; a
    request that is granted, at once or by the hand-over later, is worth what it says, however long its
    journal has waited.
  \<^item> \<open>Persistence\<close>: the interface of a persistence layer and its futures (\<^verbatim>\<open>persistence_layer.rs\<close>), with
    its laws as the locale \<open>log_layer\<close>.
  \<^item> \<open>Log_Record\<close>, \<open>Random_Access\<close>, \<open>File_Io\<close>, \<open>Log_Durability\<close>: the codec of log records
    (\<^verbatim>\<open>log_record.rs\<close>), files (\<^verbatim>\<open>random_access_file.rs\<close>), log buffers and the batches of the I/O thread
    (\<^verbatim>\<open>file_io/mod.rs\<close>, \<^verbatim>\<open>io_task_processor.rs\<close>). Runs of the layer interleave the operations of the tasks
    with the single steps of a batch (\<open>batch_step\<close>, \<open>layer_step\<close>): a completion that is reported at any
    point, in the middle of a batch too, means that the bytes are in the file. A batch appends the
    buffers in the order they were flushed.
  \<^item> \<open>Transaction\<close>, \<open>Strand\<close>, \<open>Transaction_Protocol\<close>: transactions and journals (\<^verbatim>\<open>transaction.rs\<close>,
    \<^verbatim>\<open>journal.rs\<close>), the list of submitted journals, and submit, rewind, commit, drop over any layer that
    satisfies the interface.
  \<^item> \<open>Journal_Access\<close>: creating and deleting objects in a journal, over the access controller and the
    file layer, poll by poll with runs of all others in between. An operation succeeds with all objects
    acquired and logged, or logs nothing.
  \<^item> \<open>Playback\<close>, \<open>Recovery\<close>, \<open>Log_Replay\<close>, \<open>Recovered_State\<close>: transactions played back from the log
    (\<^verbatim>\<open>transaction.rs\<close>) and the recovery (\<^verbatim>\<open>file_io/recovery.rs\<close>). It applies the records of the log in
    order, all or none, and restores what was committed.
  \<^item> \<open>Page\<close>, \<open>Page_Manager\<close>, \<open>Page_Cache\<close>, \<open>Io_Thread\<close>, \<open>Page_Store\<close>, \<open>Page_Links\<close>: pages, the header
    of the database file, the page cache, free pages and page chains (\<^verbatim>\<open>evictable_page.rs\<close>,
    \<^verbatim>\<open>database_header.rs\<close>, \<^verbatim>\<open>page_manager.rs\<close>), and the loop of the I/O thread (\<^verbatim>\<open>process_sync\<close>). The page
    tasks refine a store of pages; the last request of the layer leaves all flushed buffers on disk.
  \<^item> \<open>Containers\<close>, \<open>Task_Processor\<close>, \<open>Timers\<close>: the kernel and its container map (\<^verbatim>\<open>database.rs\<close>,
    \<^verbatim>\<open>container.rs\<close>, \<^verbatim>\<open>metadata.rs\<close>) and the background thread (\<^verbatim>\<open>task_processor.rs\<close>). Creating, dropping
    and looking up containers implement a map; renaming is left out of it, as it keeps the old name. A
    round of the background thread hands over the monitored objects and wakes what is due.
  \<^item> \<open>Int_Hash\<close>: the hasher behind the shard identifiers (\<^verbatim>\<open>utils.rs\<close>), injective on integers. What the
    standard library feeds to it for a thread is a parameter.
  \<^item> \<open>Durability\<close>, \<open>Database_Open\<close> and this theory: properties across components. What a transaction of
    one journal committed is found again after the file is reopened; opening a database does exactly what
    applying the records of its log does; collecting below the minimum of the clock changes no read of
    the snapshots it bounds.

  \<^bold>\<open>How the code is modelled.\<close>
  \<^item> State is passed explicitly. Anchors and result cells that the code shares by reference live in a
    heap, log buffers in a store of the layer; both are indexed by addresses.
  \<^item> Integers of the code are words of their width; the wall clock is a natural number.
  \<^item> A panic (\<^verbatim>\<open>unwrap\<close>, \<^verbatim>\<open>unreachable!\<close>, \<^verbatim>\<open>todo!\<close>, \<^verbatim>\<open>unimplemented!\<close>) is the value \<^term>\<open>Panic\<close>. The
    build modelled is the release build, in which \<^verbatim>\<open>debug_assert\<close> does nothing.
  \<^item> Loops are \<^const>\<open>rust_loop\<close>, a partial function into \<open>option\<close>: not returning is \<^term>\<open>None\<close>, and a
    statement that an operation returns is proved as such. No fuel is used. Loops over given data are
    structural.
  \<^item> A future is its poll. A future that awaits others keeps the states it can be suspended in as a
    datatype, and a poll continues from them.
  \<^item> Concurrency. An operation under a lock, one atomic instruction and one operation of an \<^verbatim>\<open>scc\<close>
    structure are atomic steps. The calls of the sequencer (\<open>seq_step\<close>) and the batches of the I/O thread
    (\<open>layer_step\<close>) are broken into such steps, and their runs interleave them. Elsewhere, points at which
    other threads matter take what they do as a parameter (\<open>meanwhile\<close>, \<open>others\<close>, \<open>drained\<close>, \<open>reread\<close>). What
    is taken as one step although the code is several instructions: an operation of a log buffer up to its
    push (the buffer has one owner until then), the operations on one anchor, the steps of a
    transaction, a task of the page manager, and a pass of the task processor over its monitored objects.
    \<^verbatim>\<open>process_log_buffer_batch\<close> and \<^verbatim>\<open>seq_min\<close>, \<^verbatim>\<open>seq_track\<close> as functions are the calls that nobody interrupts.
    Weak memory orders are not modelled.
  \<^item> The operating system is a parameter: lists of errors that occur before an operation succeeds. They
    are finite, since a device that never works again lets the code retry forever by design.
  \<^item> Structures of the \<^verbatim>\<open>scc\<close> crate are parameters with their documented laws as hypotheses; a concrete
    instance of each is used for evaluation and satisfies the laws.

  \<^bold>\<open>Interfaces.\<close> The locales \<open>logical_clock\<close> (what readers and the garbage collection rely on of a
  sequencer), \<open>retry_operation\<close> (the contract of the attempts to share, lock and delete an object),
  \<open>journal_request\<close> and its extension \<open>journal_operation\<close> (what a journal relies on of the access
  controller, and of the log as well), \<open>log_layer\<close> (what transactions rely on of a persistence layer) and
  \<open>implementation\<close> (steps that implement a specification) are interpreted on the model's own definitions;
  the properties rest on the interpretations.

  \<^bold>\<open>Not modelled.\<close> \<^verbatim>\<open>telemetry.rs\<close> is a placeholder without behaviour. The binary semaphore of \<^verbatim>\<open>utils.rs\<close>
  wraps a mutex and a condition variable of the standard library and has no user. \<^verbatim>\<open>backup\<close> and
  \<^verbatim>\<open>participate\<close> of the file layer are \<^verbatim>\<open>todo!()\<close>. Formatting of errors and tests are left out.
  Runs cover the access controller with its clients, and the sequencer and the I/O thread each on its
  own; there is no single run of all of them. A write that fails leaves no part of its bytes behind (it is
  repeated at the same offset), and a sender that blocks on the full channel of the page manager is not
  modelled: the channel is a list of any length. Wrap-around of the 64-bit clock, of the reference counters
  of trackers and of the flush epoch is excluded in the runs. Page chains are modelled as far as the code goes: it does
  not read them back when a database is opened.
\<close>

section \<open>Properties that span components\<close>


text \<open>A reader tracks the first instant, and another thread takes the minimum meanwhile.\<close>

lemma reader_and_minimum:
  "\<exists>c c1 tracker. (seq_step (list_queue :: (entry list) entry_queue))\<^sup>*\<^sup>* (initial_run list_queue 2) c \<and>
     run_calls c 0 = None \<and> in_flight c = {} \<and> (call_step list_queue 0)\<^sup>*\<^sup>* (start_min 0 c) c1 \<and>
     min_result 0 c1 = Some 1 \<and> tracker \<in> set (run_live c1) \<and> to_instant tracker = 1"
proof -
  let ?Q = "list_queue :: (entry list) entry_queue"
  obtain s t where run: "(seq_step ?Q)\<^sup>*\<^sup>* (initial_run ?Q 2) \<lparr>run_seq = s, run_live = [t], run_calls = (\<lambda>_. None)\<rparr>"
    and t: "to_instant t = 1" "seq_now s = 1" using reader_run by blast
  let ?c = "\<lparr>run_seq = s, run_live = [t], run_calls = (\<lambda>_. None)\<rparr>"
  have inv: "run_inv ?Q ?c" by (rule seq_run_inv [OF run initial_run_inv [OF list_queue_laws]]) simp
  obtain s' m where min: "seq_min ?Q (run_seq ?c) = Some (s', m)" "m = clock s \<or> (\<exists>t' \<in> set [t]. m = e_instant t')"
    using seq_min_returns [OF list_queue_laws run_invD(2) [OF inv]] by auto
  with t have "m = 1" by (auto simp: seq_now_def to_instant_def)
  with seq_min_alone [OF min(1), of 0] obtain c1 where "(call_step ?Q 0)\<^sup>*\<^sup>* (start_min 0 ?c) c1"
    "min_result 0 c1 = Some 1" "run_live c1 = [t]" by auto
  with run t show ?thesis by (intro exI [of _ ?c] exI [of _ c1] exI [of _ t]) (simp add: in_flight_def)
qed


end
